(* ===== verification/Rust_Std.thy ===== *)
theory Rust_Std
  imports Complex_Main "HOL-Library.Char_ord" "HOL-Library.List_Lexorder"
begin

text \<open>
  The parts of the Rust standard library the modelled code relies on, and the lemmas and
  fact collections that every other theory shares.

  A Rust \<open>String\<close> or \<open>&str\<close> is its UTF-8 byte sequence, a value of type \<open>string\<close>: comparison,
  \<open>len\<close>, \<open>as_bytes\<close> and byte offsets agree with the code, and a rule about ASCII characters is
  a rule about single bytes, since no byte of a multi-byte character is ASCII. \<open>Result\<close> is the
  datatype \<open>result\<close>; a loop that stops at the first error is \<open>try_map\<close> or \<open>try_all\<close>. A
  \<open>BTreeMap\<close> is the list of its entries in key order, so iteration order is the code's. An
  \<open>f32\<close> is a rational, an infinity or NaN, with the comparisons of IEEE 754.
\<close>

named_theorems text_simps \<open>rewriting of byte strings\<close>
named_theorems result_simps \<open>rewriting of results and of the loops over them\<close>

section \<open>Results\<close>

datatype ('a, 'e) result = Ok 'a | Err 'e

fun is_ok :: "('a, 'e) result \<Rightarrow> bool" where
  "is_ok (Ok _) = True"
| "is_ok (Err _) = False"

fun and_then :: "('a, 'e) result \<Rightarrow> ('a \<Rightarrow> ('b, 'e) result) \<Rightarrow> ('b, 'e) result" where
  "and_then (Ok a) f = f a"
| "and_then (Err e) f = Err e"

fun ok :: "('a, 'e) result \<Rightarrow> 'a option" where
  "ok (Ok a) = Some a"
| "ok (Err _) = None"

fun map_err :: "('e \<Rightarrow> 'f) \<Rightarrow> ('a, 'e) result \<Rightarrow> ('a, 'f) result" where
  "map_err f (Ok a) = Ok a"
| "map_err f (Err e) = Err (f e)"

fun ok_or :: "'e \<Rightarrow> 'a option \<Rightarrow> ('a, 'e) result" where
  "ok_or e (Some a) = Ok a"
| "ok_or e None = Err e"

text \<open>\<open>iter().map(f).collect::<Result<Vec<_>, _>>()\<close>: the first error ends the walk.\<close>

fun try_map :: "('a \<Rightarrow> ('b, 'e) result) \<Rightarrow> 'a list \<Rightarrow> ('b list, 'e) result" where
  "try_map f [] = Ok []"
| "try_map f (x # xs) = and_then (f x) (\<lambda>y. and_then (try_map f xs) (\<lambda>ys. Ok (y # ys)))"

text \<open>A \<open>for\<close> loop whose body updates a state and may return an error.\<close>

fun try_fold :: "('s \<Rightarrow> 'a \<Rightarrow> ('s, 'e) result) \<Rightarrow> 's \<Rightarrow> 'a list \<Rightarrow> ('s, 'e) result" where
  "try_fold f s [] = Ok s"
| "try_fold f s (x # xs) = and_then (f s x) (\<lambda>t. try_fold f t xs)"

text \<open>A \<open>for\<close> loop whose body only checks.\<close>

fun try_all :: "('a \<Rightarrow> (unit, 'e) result) \<Rightarrow> 'a list \<Rightarrow> (unit, 'e) result" where
  "try_all f [] = Ok ()"
| "try_all f (x # xs) = and_then (f x) (\<lambda>_. try_all f xs)"

lemma and_then_eq_Ok [simp]: "and_then r f = Ok b \<longleftrightarrow> (\<exists>a. r = Ok a \<and> f a = Ok b)"
  by (cases r) auto

lemma and_then_eq_Err: "and_then r f = Err e \<longleftrightarrow> r = Err e \<or> (\<exists>a. r = Ok a \<and> f a = Err e)"
  by (cases r) auto

lemma is_ok_iff: "is_ok r \<longleftrightarrow> (\<exists>a. r = Ok a)"
  by (cases r) auto

lemma ok_eq_Some [simp]: "ok r = Some a \<longleftrightarrow> r = Ok a"
  by (cases r) auto

lemma map_err_eq_Ok [simp]: "map_err f r = Ok a \<longleftrightarrow> r = Ok a"
  by (cases r) auto

lemma ok_or_eq_Ok [simp]: "ok_or e p = Ok a \<longleftrightarrow> p = Some a"
  by (cases p) auto

lemma ok_or_eq_Err [simp]: "ok_or e p = Err e' \<longleftrightarrow> p = None \<and> e' = e"
  by (cases p) auto

lemma try_all_Ok_iff: "try_all f xs = Ok u \<longleftrightarrow> (\<forall>x \<in> set xs. f x = Ok ())"
  by (induction xs) auto

lemma try_all_ErrD: "try_all f xs = Err e \<Longrightarrow> \<exists>x \<in> set xs. f x = Err e"
  by (induction xs) (auto simp: and_then_eq_Err)

lemma try_map_Ok_iff: "try_map f xs = Ok ys \<longleftrightarrow> list_all2 (\<lambda>x y. f x = Ok y) xs ys"
  by (induction xs arbitrary: ys) (auto simp: list_all2_Cons1)

lemma try_map_length: "try_map f xs = Ok ys \<Longrightarrow> length ys = length xs"
  by (simp add: try_map_Ok_iff list_all2_lengthD)

lemma try_fold_invariant:
  assumes "try_fold f s xs = Ok t" and "P s"
    and "\<And>u x v. x \<in> set xs \<Longrightarrow> P u \<Longrightarrow> f u x = Ok v \<Longrightarrow> P v"
  shows "P t"
  using assms
proof (induction xs arbitrary: s)
  case Nil
  then show ?case by simp
next
  case (Cons x xs)
  from Cons.prems(1) obtain u where u: "f s x = Ok u" "try_fold f u xs = Ok t" by auto
  have "P u" using Cons.prems(2,3) u(1) by auto
  then show ?case using Cons.IH [OF u(2)] Cons.prems(3) by auto
qed

section \<open>Bytes\<close>

definition byte_of :: "char \<Rightarrow> nat" where
  "byte_of c = of_char c"

lemma byte_of_less [simp]: "byte_of c < 256"
  by (simp add: byte_of_def nat_of_char_less_256)

lemma byte_of_inject [simp]: "byte_of c = byte_of d \<longleftrightarrow> c = d"
  by (simp add: byte_of_def)

lemma byte_of_char_of [simp]: "n < 256 \<Longrightarrow> byte_of (char_of n) = n"
  by (simp add: byte_of_def)

definition is_ascii_digit :: "char \<Rightarrow> bool" where
  "is_ascii_digit c \<longleftrightarrow> 48 \<le> byte_of c \<and> byte_of c \<le> 57"

definition is_ascii_upper :: "char \<Rightarrow> bool" where
  "is_ascii_upper c \<longleftrightarrow> 65 \<le> byte_of c \<and> byte_of c \<le> 90"

definition is_ascii_lower :: "char \<Rightarrow> bool" where
  "is_ascii_lower c \<longleftrightarrow> 97 \<le> byte_of c \<and> byte_of c \<le> 122"

definition is_ascii_alphanumeric :: "char \<Rightarrow> bool" where
  "is_ascii_alphanumeric c \<longleftrightarrow> is_ascii_digit c \<or> is_ascii_upper c \<or> is_ascii_lower c"

definition digit_value :: "char \<Rightarrow> nat" where
  "digit_value c = byte_of c - 48"

lemma digit_value_less: "is_ascii_digit c \<Longrightarrow> digit_value c < 10"
  by (auto simp: is_ascii_digit_def digit_value_def)

section \<open>Decimal text\<close>

definition digit_char :: "nat \<Rightarrow> char" where
  "digit_char d = char_of (48 + d)"

lemma is_ascii_digit_digit_char [simp]: "d < 10 \<Longrightarrow> is_ascii_digit (digit_char d)"
  by (simp add: is_ascii_digit_def digit_char_def)

lemma digit_value_digit_char [simp]: "d < 10 \<Longrightarrow> digit_value (digit_char d) = d"
  by (simp add: digit_value_def digit_char_def)

text \<open>\<open>n.to_string()\<close> on an unsigned integer.\<close>

fun show_nat :: "nat \<Rightarrow> string" where
  "show_nat n = (if n < 10 then [digit_char n] else show_nat (n div 10) @ [digit_char (n mod 10)])"

declare show_nat.simps [simp del]

text \<open>The number a run of digits spells.\<close>

definition nat_of_digits :: "string \<Rightarrow> nat" where
  "nat_of_digits s = foldl (\<lambda>n c. 10 * n + digit_value c) 0 s"

lemma nat_of_digits_snoc [simp]: "nat_of_digits (s @ [c]) = 10 * nat_of_digits s + digit_value c"
  by (simp add: nat_of_digits_def)

lemma nat_of_digits_Nil [simp]: "nat_of_digits [] = 0"
  by (simp add: nat_of_digits_def)

lemma show_nat_digits: "\<forall>c \<in> set (show_nat n). is_ascii_digit c"
proof (induction n rule: show_nat.induct)
  case (1 n)
  then show ?case by (subst show_nat.simps) auto
qed

lemma nat_of_digits_show_nat [simp]: "nat_of_digits (show_nat n) = n"
proof (induction n rule: show_nat.induct)
  case (1 n)
  show ?case
  proof (cases "n < 10")
    case True
    then show ?thesis using nat_of_digits_snoc [of "[]" "digit_char n"]
      by (subst show_nat.simps) simp
  next
    case False
    then show ?thesis using 1 by (subst show_nat.simps) simp
  qed
qed

lemma show_nat_nonempty [simp]: "show_nat n \<noteq> []"
  by (subst show_nat.simps) simp

lemma length_show_nat: "n < 10 ^ k \<Longrightarrow> 0 < k \<Longrightarrow> length (show_nat n) \<le> k"
proof (induction k arbitrary: n)
  case 0
  then show ?case by simp
next
  case (Suc k)
  show ?case
  proof (cases "n < 10")
    case True
    then show ?thesis by (subst show_nat.simps) simp
  next
    case False
    have "n div 10 < 10 ^ k" using Suc.prems by (simp add: less_mult_imp_div_less)
    moreover have "0 < k" using False Suc.prems by (cases k) auto
    ultimately show ?thesis using Suc.IH False by (subst show_nat.simps) simp
  qed
qed

lemma show_nat_inject [simp]: "show_nat m = show_nat n \<longleftrightarrow> m = n"
  by (metis nat_of_digits_show_nat)

text \<open>\<open>format!("{n:0w$}")\<close>: zero padding to a width, sign first.\<close>

definition zero_pad :: "nat \<Rightarrow> string \<Rightarrow> string" where
  "zero_pad w s = replicate (w - length s) (CHR ''0'') @ s"

definition format_width :: "nat \<Rightarrow> int \<Rightarrow> string" where
  "format_width w n =
     (if n < 0 then CHR ''-'' # zero_pad (w - 1) (show_nat (nat (- n)))
      else zero_pad w (show_nat (nat n)))"

lemma zero_is_digit [simp]: "is_ascii_digit (CHR ''0'')" "digit_value (CHR ''0'') = 0"
  by (simp_all add: is_ascii_digit_def digit_value_def byte_of_def)

lemma nat_of_digits_zeros: "nat_of_digits (replicate k (CHR ''0'') @ s) = nat_of_digits s"
  by (induction k) (simp_all add: nat_of_digits_def)

lemma format_width_nonneg:
  assumes "0 \<le> n" and "n < 10 ^ w" and "0 < w"
  shows "length (format_width w n) = w"
    and "\<forall>c \<in> set (format_width w n). is_ascii_digit c"
    and "int (nat_of_digits (format_width w n)) = n"
proof -
  have "nat n < 10 ^ w" using assms by (simp add: nat_less_iff)
  then have "length (show_nat (nat n)) \<le> w" using assms(3) by (rule length_show_nat)
  then show "length (format_width w n) = w" using assms(1)
    by (simp add: format_width_def zero_pad_def)
  show "\<forall>c \<in> set (format_width w n). is_ascii_digit c" using assms(1) show_nat_digits
    by (auto simp: format_width_def zero_pad_def)
  show "int (nat_of_digits (format_width w n)) = n" using assms(1)
    by (simp add: format_width_def zero_pad_def nat_of_digits_zeros)
qed

section \<open>White space\<close>

text \<open>
  The UTF-8 encodings of the characters with the Unicode property \<open>White_Space\<close>, which is what
  \<open>trim\<close>, \<open>trim_end\<close>, \<open>trim_start\<close> and \<open>split_whitespace\<close> go by.
\<close>

definition white_space :: "string list" where
  "white_space =
    [[CHR 0x09], [CHR 0x0A], [CHR 0x0B], [CHR 0x0C], [CHR 0x0D], [CHR 0x20], [CHR 0xC2, CHR
      0x85], [CHR 0xC2, CHR 0xA0], [CHR 0xE1, CHR 0x9A, CHR 0x80], [CHR 0xE2, CHR 0x80, CHR
      0x80], [CHR 0xE2, CHR 0x80, CHR 0x81], [CHR 0xE2, CHR 0x80, CHR 0x82], [CHR 0xE2, CHR
      0x80, CHR 0x83], [CHR 0xE2, CHR 0x80, CHR 0x84], [CHR 0xE2, CHR 0x80, CHR 0x85], [CHR
      0xE2, CHR 0x80, CHR 0x86], [CHR 0xE2, CHR 0x80, CHR 0x87], [CHR 0xE2, CHR 0x80, CHR
      0x88], [CHR 0xE2, CHR 0x80, CHR 0x89], [CHR 0xE2, CHR 0x80, CHR 0x8A], [CHR 0xE2, CHR
      0x80, CHR 0xA8], [CHR 0xE2, CHR 0x80, CHR 0xA9], [CHR 0xE2, CHR 0x80, CHR 0xAF], [CHR
      0xE2, CHR 0x81, CHR 0x9F], [CHR 0xE3, CHR 0x80, CHR 0x80]]"

fun strip_prefix :: "string \<Rightarrow> string \<Rightarrow> string option" where
  "strip_prefix [] s = Some s"
| "strip_prefix (p # ps) [] = None"
| "strip_prefix (p # ps) (c # cs) = (if p = c then strip_prefix ps cs else None)"

lemma strip_prefix_iff: "strip_prefix p s = Some r \<longleftrightarrow> s = p @ r"
  by (induction p s rule: strip_prefix.induct) auto

definition starts_with :: "string \<Rightarrow> string \<Rightarrow> bool" where
  "starts_with p s \<longleftrightarrow> strip_prefix p s \<noteq> None"

lemma starts_with_iff: "starts_with p s \<longleftrightarrow> (\<exists>r. s = p @ r)"
  by (auto simp: starts_with_def strip_prefix_iff)

text \<open>\<open>contains\<close>, \<open>find\<close> and \<open>split_once\<close> from either end, of a non-empty pattern.\<close>

fun find_at :: "string \<Rightarrow> string \<Rightarrow> nat option" where
  "find_at [] p = (if p = [] then Some 0 else None)"
| "find_at (c # cs) p = (if starts_with p (c # cs) then Some 0 else map_option Suc (find_at cs p))"

definition contains :: "string \<Rightarrow> string \<Rightarrow> bool" where
  "contains s p \<longleftrightarrow> find_at s p \<noteq> None"

definition split_once :: "string \<Rightarrow> string \<Rightarrow> (string \<times> string) option" where
  "split_once s p = map_option (\<lambda>i. (take i s, drop (i + length p) s)) (find_at s p)"

definition rsplit_once :: "string \<Rightarrow> string \<Rightarrow> (string \<times> string) option" where
  "rsplit_once s p =
     map_option (\<lambda>i. (rev (drop (i + length p) (rev s)), rev (take i (rev s)))) (find_at (rev s) (rev p))"

lemma find_at_Some: "find_at s p = Some i \<Longrightarrow> s = take i s @ p @ drop (i + length p) s \<and> i \<le> length s"
proof (induction s p arbitrary: i rule: find_at.induct)
  case (1 p)
  then show ?case by (simp split: if_splits)
next
  case (2 c cs p)
  show ?case
  proof (cases "starts_with p (c # cs)")
    case True
    with 2(2) show ?thesis by (auto simp: starts_with_iff)
  next
    case False
    with 2(2) obtain j where j: "find_at cs p = Some j" "i = Suc j" by auto
    from 2(1) [OF False j(1)] j(2) show ?thesis by simp
  qed
qed

lemma find_at_None_iff: "find_at s p = None \<longleftrightarrow> (\<nexists>a b. s = a @ p @ b)"
proof (induction s p rule: find_at.induct)
  case (1 p)
  then show ?case by auto
next
  case (2 c cs p)
  show ?case
  proof (cases "starts_with p (c # cs)")
    case True
    then show ?thesis by (auto simp: starts_with_iff) (metis append_Nil)
  next
    case False
    then have "(\<exists>a b. c # cs = a @ p @ b) \<longleftrightarrow> (\<exists>a b. cs = a @ p @ b)"
      by (auto simp: starts_with_iff) (metis append_eq_Cons_conv append_Cons)+
    with 2 False show ?thesis by simp
  qed
qed

lemma contains_iff: "contains s p \<longleftrightarrow> (\<exists>a b. s = a @ p @ b)"
  using find_at_None_iff [of s p] by (auto simp: contains_def)

lemma find_at_first:
  assumes "p \<noteq> []" "hd p \<notin> set a" shows "find_at (a @ p @ b) p = Some (length a)"
  using assms(2)
proof (induction a)
  case Nil
  obtain c q where "p = c # q" using assms(1) by (cases p) auto
  then show ?case by (simp add: starts_with_iff)
next
  case (Cons x a)
  then have "\<not> starts_with p (x # a @ p @ b)" using assms(1) by (cases p) (auto simp: starts_with_iff)
  with Cons show ?case by simp
qed

lemma split_once_first:
  "p \<noteq> [] \<Longrightarrow> hd p \<notin> set a \<Longrightarrow> split_once (a @ p @ b) p = Some (a, b)"
  by (simp add: split_once_def find_at_first)

lemma rsplit_once_last:
  assumes "p \<noteq> []" "last p \<notin> set b" shows "rsplit_once (a @ p @ b) p = Some (a, b)"
  using find_at_first [of "rev p" "rev b" "rev a"] assms by (simp add: rsplit_once_def hd_rev)

text \<open>One white-space character at the head of a text, and what follows it.\<close>

definition strip_one_of :: "string list \<Rightarrow> string \<Rightarrow> string option" where
  "strip_one_of ws s = (case List.find (\<lambda>w. starts_with w s) ws of
     None \<Rightarrow> None | Some w \<Rightarrow> strip_prefix w s)"

lemma strip_one_of_shorter:
  assumes "[] \<notin> set ws" "strip_one_of ws s = Some r"
  shows "length r < length s"
proof -
  from assms(2) obtain w where "w \<in> set ws" "s = w @ r"
    by (auto simp: strip_one_of_def find_Some_iff strip_prefix_iff in_set_conv_nth
        split: option.splits)
  with assms(1) show ?thesis by (cases w) auto
qed

lemma Nil_not_white_space: "[] \<notin> set white_space" "[] \<notin> set (map rev white_space)"
  by (simp_all add: white_space_def)

function strip_all :: "string list \<Rightarrow> string \<Rightarrow> string" where
  "strip_all ws s = (if [] \<in> set ws then s
     else case strip_one_of ws s of None \<Rightarrow> s | Some r \<Rightarrow> strip_all ws r)"
  by pat_completeness auto
termination
  by (relation "measure (\<lambda>(ws, s). length s)") (auto dest: strip_one_of_shorter)

declare strip_all.simps [simp del]

definition trim_start :: "string \<Rightarrow> string" where
  "trim_start s = strip_all white_space s"

definition trim_end :: "string \<Rightarrow> string" where
  "trim_end s = rev (strip_all (map rev white_space) (rev s))"

definition trim :: "string \<Rightarrow> string" where
  "trim s = trim_end (trim_start s)"

text \<open>\<open>split_whitespace\<close>: the maximal runs of other characters.\<close>

fun push_word :: "string \<Rightarrow> string list \<Rightarrow> string list" where
  "push_word [] ws = ws"
| "push_word w ws = w # ws"

function words_from :: "string \<Rightarrow> string \<Rightarrow> string list" where
  "words_from w s = (case strip_one_of white_space s of
       Some r \<Rightarrow> push_word (rev w) (words_from [] r)
     | None \<Rightarrow> (case s of [] \<Rightarrow> push_word (rev w) [] | c # cs \<Rightarrow> words_from (c # w) cs))"
  by pat_completeness auto
termination
  by (relation "measure (\<lambda>(w, s). length s)")
    (auto dest: strip_one_of_shorter [OF Nil_not_white_space(1)])

declare words_from.simps [simp del]

definition split_whitespace :: "string \<Rightarrow> string list" where
  "split_whitespace s = words_from [] s"

lemma Nil_not_in_push_word: "[] \<notin> set ws \<Longrightarrow> [] \<notin> set (push_word w ws)"
  by (cases w) auto

lemma words_from_nonempty: "[] \<notin> set (words_from w s)"
proof (induction w s rule: words_from.induct)
  case (1 w s)
  then show ?case
    by (subst words_from.simps)
      (auto split: option.splits list.splits intro!: Nil_not_in_push_word)
qed

section \<open>Ordered maps\<close>

type_synonym ('k, 'v) btree = "('k \<times> 'v) list"

fun bt_insert :: "'k::linorder \<Rightarrow> 'v \<Rightarrow> ('k, 'v) btree \<Rightarrow> ('k, 'v) btree" where
  "bt_insert k v [] = [(k, v)]"
| "bt_insert k v ((k', v') # m) =
     (if k < k' then (k, v) # (k', v') # m
      else if k = k' then (k, v) # m
      else (k', v') # bt_insert k v m)"

abbreviation bt_get :: "('k, 'v) btree \<Rightarrow> 'k \<Rightarrow> 'v option" where
  "bt_get \<equiv> map_of"

definition bt_ordered :: "('k::linorder, 'v) btree \<Rightarrow> bool" where
  "bt_ordered m \<longleftrightarrow> sorted_wrt (<) (map fst m)"

lemma set_keys_bt_insert [simp]: "fst ` set (bt_insert k v m) = insert k (fst ` set m)"
  by (induction k v m rule: bt_insert.induct) auto

lemma set_bt_insertD: "x \<in> set (bt_insert k v m) \<Longrightarrow> x = (k, v) \<or> x \<in> set m"
  by (induction k v m rule: bt_insert.induct) (auto split: if_splits)

lemma bt_get_insert [simp]: "bt_get (bt_insert k v m) = (bt_get m)(k \<mapsto> v)"
  by (induction k v m rule: bt_insert.induct) (auto simp: fun_eq_iff)

lemma bt_ordered_insert [simp, intro]: "bt_ordered m \<Longrightarrow> bt_ordered (bt_insert k v m)"
  unfolding bt_ordered_def
proof (induction k v m rule: bt_insert.induct)
  case (2 k v k' v' m)
  then show ?case using set_keys_bt_insert [of k v m] by (auto simp flip: set_keys_bt_insert)
qed simp

lemma bt_ordered_Nil [simp]: "bt_ordered []"
  by (simp add: bt_ordered_def)

lemma bt_ordered_distinct: "bt_ordered m \<Longrightarrow> distinct (map fst m)"
  unfolding bt_ordered_def by (simp add: strict_sorted_iff)

lemma bt_get_Some_iff: "bt_ordered m \<Longrightarrow> bt_get m k = Some v \<longleftrightarrow> (k, v) \<in> set m"
  by (simp add: bt_ordered_distinct)

section \<open>Floating-point numbers\<close>

text \<open>
  Every \<open>f32\<close> is one of these values; not every rational is an \<open>f32\<close>, so what is shown for all of
  them holds of the code's.
\<close>

datatype f32 = F32 rat | Inf | NegInf | NaN

fun f32_le :: "f32 \<Rightarrow> f32 \<Rightarrow> bool" where
  "f32_le (F32 a) (F32 b) = (a \<le> b)"
| "f32_le NaN _ = False"
| "f32_le _ NaN = False"
| "f32_le NegInf _ = True"
| "f32_le _ Inf = True"
| "f32_le _ _ = False"

fun f32_less :: "f32 \<Rightarrow> f32 \<Rightarrow> bool" where
  "f32_less (F32 a) (F32 b) = (a < b)"
| "f32_less NaN _ = False"
| "f32_less _ NaN = False"
| "f32_less NegInf b = (b \<noteq> NegInf)"
| "f32_less _ NegInf = False"
| "f32_less (F32 _) Inf = True"
| "f32_less Inf _ = False"

section \<open>Characters of a text\<close>

text \<open>The number of bytes of the character a lead byte starts, and the first character of a text.\<close>

definition utf8_width :: "char \<Rightarrow> nat" where
  "utf8_width c =
     (if byte_of c < 128 then 1 else if byte_of c < 224 then 2 else if byte_of c < 240 then 3 else 4)"

fun first_char :: "string \<Rightarrow> string" where
  "first_char [] = []"
| "first_char (c # cs) = take (utf8_width c) (c # cs)"

section \<open>Encodings\<close>

text \<open>
  The contract of a written form: whatever is encoded decodes to itself, so two values never share
  a written form; in a canonical one, moreover, nothing else decodes.
\<close>

locale codec =
  fixes encode :: "'a \<Rightarrow> 'b"
    and decode :: "'b \<Rightarrow> 'a option"
  assumes decode_encode: "decode (encode x) = Some x"
begin

lemma encode_inject: "encode x = encode y \<longleftrightarrow> x = y"
  by (metis decode_encode option.inject)

lemma inj_encode: "inj encode"
  by (simp add: inj_def encode_inject)

end

locale canonical_codec = codec +
  assumes encode_decode: "decode y = Some x \<Longrightarrow> encode x = y"
begin

lemma decode_iff: "decode y = Some x \<longleftrightarrow> y = encode x"
  using decode_encode encode_decode by auto

lemma decode_inject: "decode y = Some x \<Longrightarrow> decode z = Some x \<Longrightarrow> y = z"
  by (simp add: decode_iff)

lemma decode_None_iff: "decode y = None \<longleftrightarrow> y \<notin> range encode"
  using decode_iff by (metis not_None_eq rangeE rangeI)

end

end
