(* ===== verification/Timestamp.thy ===== *)
theory Timestamp
  imports Rust_Std
begin

text \<open>
  \<open>yaam-contract/src/timestamp.rs\<close>: the one reading of a record's timestamps, the one spelling of
  them, and the calendar both rest on. \<open>i64\<close> values are integers here; the bounds at the end show
  that no accepted timestamp comes near the end of the 64-bit range. \<open>div_euclid\<close> and \<open>rem_euclid\<close> by a
  positive number are \<open>div\<close> and \<open>mod\<close>; the plain \<open>/\<close> and \<open>%\<close> of the code are applied to non-negative
  numbers only, where the two agree.
\<close>

definition MS_PER_DAY :: int where
  "MS_PER_DAY = 86400000"

section \<open>The calendar\<close>

definition days_from_civil :: "int \<Rightarrow> int \<Rightarrow> int \<Rightarrow> int" where
  "days_from_civil year0 month day =
     (let year = (if month \<le> 2 then year0 - 1 else year0);
          era = year div 400;
          year_of_era = year - era * 400;
          month_index = (month + 9) mod 12;
          day_of_year = (153 * month_index + 2) div 5 + day - 1;
          day_of_era = year_of_era * 365 + year_of_era div 4 - year_of_era div 100 + day_of_year
      in era * 146097 + day_of_era - 719468)"

definition civil_from_days :: "int \<Rightarrow> int \<times> int \<times> int" where
  "civil_from_days days =
     (let shifted = days + 719468;
          era = shifted div 146097;
          day_of_era = shifted - era * 146097;
          year_of_era =
            (day_of_era - day_of_era div 1460 + day_of_era div 36524 - day_of_era div 146096) div 365;
          year = year_of_era + era * 400;
          day_of_year = day_of_era - (365 * year_of_era + year_of_era div 4 - year_of_era div 100);
          month_index = (5 * day_of_year + 2) div 153;
          day = day_of_year - (153 * month_index + 2) div 5 + 1;
          month = (if month_index < 10 then month_index + 3 else month_index - 9)
      in (if month \<le> 2 then year + 1 else year, month, day))"

definition days_in_month :: "int \<Rightarrow> int \<Rightarrow> int" where
  "days_in_month year month =
     (if month \<in> {1, 3, 5, 7, 8, 10, 12} then 31
      else if month \<in> {4, 6, 9, 11} then 30
      else if month = 2 \<and> year mod 4 = 0 \<and> (year mod 100 \<noteq> 0 \<or> year mod 400 = 0) then 29
      else if month = 2 then 28
      else 0)"

definition civil_from_ms :: "int \<Rightarrow> int \<times> int \<times> int" where
  "civil_from_ms ms = civil_from_days (ms div MS_PER_DAY)"

text \<open>A date the parser accepts.\<close>

definition valid_date :: "int \<Rightarrow> int \<Rightarrow> int \<Rightarrow> bool" where
  "valid_date y m d \<longleftrightarrow> 1 \<le> m \<and> m \<le> 12 \<and> 1 \<le> d \<and> d \<le> days_in_month y m"

text \<open>
  Both conversions count from March: a date is an era of 400 years, a year of the era, a month
  counted from March and a day of the month. The two facts below are about one era only.
\<close>

definition era_day :: "int \<Rightarrow> int \<Rightarrow> int" where
  "era_day yoe doy = yoe * 365 + yoe div 4 - yoe div 100 + doy"

definition march_year_length :: "int \<Rightarrow> int" where
  "march_year_length yoe =
     (if (yoe + 1) mod 4 = 0 \<and> ((yoe + 1) mod 100 \<noteq> 0 \<or> (yoe + 1) mod 400 = 0) then 366 else 365)"


lemma year_of_era_split:
  assumes "0 \<le> yoe" "yoe < 400"
  obtains c q r :: int where "yoe = 100 * c + 4 * q + r" "0 \<le> c" "c \<le> 3" "0 \<le> q" "q \<le> 24"
    "0 \<le> r" "r \<le> 3" "yoe div 4 = 25 * c + q" "yoe div 100 = c"
proof -
  define c m where "c = yoe div 100" and "m = yoe mod 100"
  have y: "yoe = m + (25 * c) * 4" by (simp add: c_def m_def)
  have m: "0 \<le> m" "m < 100" by (simp_all add: m_def)
  have "yoe div 4 = 25 * c + m div 4" unfolding y by simp
  moreover have "yoe = 100 * c + 4 * (m div 4) + m mod 4" using y by simp
  moreover have "0 \<le> c" "c \<le> 3" using assms by (simp_all add: c_def)
  moreover have "0 \<le> m div 4" "m div 4 \<le> 24" "0 \<le> m mod 4" "m mod 4 \<le> 3" using m by simp_all
  ultimately show ?thesis using that [of c "m div 4" "m mod 4"] c_def [symmetric] by blast
qed

lemma last_day_of_march_year:
  assumes "yoe = 100 * c + 4 * q + r" "0 \<le> c" "c \<le> 3" "0 \<le> q" "q \<le> 24" "0 \<le> r" "r \<le> (3::int)"
    and "march_year_length yoe = 366"
  shows "r = 3" "q = 24 \<Longrightarrow> c = 3"
proof -
  have leap: "(yoe + 1) mod 4 = 0" "(yoe + 1) mod 100 \<noteq> 0 \<or> (yoe + 1) mod 400 = 0"
    using assms(8) by (auto simp: march_year_length_def split: if_splits)
  have "yoe + 1 = (r + 1) + (25 * c + q) * 4" using assms(1) by simp
  then have "(r + 1) mod 4 = 0" using leap(1) by (metis mod_mult_self1)
  moreover have "r = 0 \<or> r = 1 \<or> r = 2 \<or> r = 3" using assms(6,7) by linarith
  ultimately show r: "r = 3" by auto
  show "c = 3" if "q = 24"
  proof -
    have y: "yoe + 1 = 100 * (c + 1)" using assms(1) r that by simp
    have "c = 0 \<or> c = 1 \<or> c = 2 \<or> c = 3" using assms(2,3) by linarith
    then show ?thesis using leap(2) y by auto
  qed
qed

lemma era_day_year:
  assumes "0 \<le> yoe" "yoe < 400" "0 \<le> doy" "doy < march_year_length yoe"
  defines "n \<equiv> era_day yoe doy"
  shows "(n - n div 1460 + n div 36524 - n div 146096) div 365 = yoe"
proof -
  obtain c q r where y: "yoe = 100 * c + 4 * q + r" "0 \<le> c" "c \<le> 3" "0 \<le> q" "q \<le> 24"
    "0 \<le> r" "r \<le> 3" "yoe div 4 = 25 * c + q" "yoe div 100 = c"
    using assms(1,2) by (rule year_of_era_split)
  have d: "doy \<le> 364 \<or> doy = 365 \<and> r = 3 \<and> (q = 24 \<longrightarrow> c = 3)"
    using assms(4) last_day_of_march_year [OF y(1-7)]
    by (auto simp: march_year_length_def split: if_splits)
  have n: "n = 1460 * (25 * c + q) + (24 * c + q + 365 * r + doy)"
    using y by (simp add: n_def era_day_def)
  define z where "z = (24 * c + q + 365 * r + doy) div 1460"
  have z: "n div 1460 = 25 * c + q + z" by (simp add: n z_def)
  have z01: "z = (if 1460 \<le> 24 * c + q + 365 * r + doy then 1 else 0)"
    using y d assms(3) unfolding z_def by (auto split: if_splits)
  have cent: "n div 36524 - n div 146096 = c"
  proof (cases "n = 146096")
    case True
    then show ?thesis using n y d assms(3) by auto
  next
    case False
    have x: "0 \<le> 1461 * q + 365 * r + doy" "1461 * q + 365 * r + doy < 36524"
      using y d assms(3) False n by auto
    have n36: "n = 36524 * c + (1461 * q + 365 * r + doy)" using n by simp
    have "n div 36524 = c" using x unfolding n36 by simp
    moreover have "n div 146096 = 0" using x y(2,3) unfolding n36 by simp
    ultimately show ?thesis by simp
  qed
  have "n - n div 1460 + n div 36524 - n div 146096 = 365 * yoe + (doy - z)"
    using z cent y(1) n by simp
  moreover have "0 \<le> doy - z" "doy - z < 365"
    using z01 d y assms(3) by (auto split: if_splits)
  ultimately show ?thesis by simp
qed


lemma era_day_bounds:
  assumes "0 \<le> yoe" "yoe < 400" "0 \<le> doy" "doy < march_year_length yoe"
  shows "0 \<le> era_day yoe doy" "era_day yoe doy < 146097"
proof -
  obtain c q r where y: "yoe = 100 * c + 4 * q + r" "0 \<le> c" "c \<le> 3" "0 \<le> q" "q \<le> 24"
    "0 \<le> r" "r \<le> 3" "yoe div 4 = 25 * c + q" "yoe div 100 = c"
    using assms(1,2) by (rule year_of_era_split)
  have "doy \<le> 364 \<or> doy = 365" using assms(4) by (auto simp: march_year_length_def split: if_splits)
  then show "0 \<le> era_day yoe doy" "era_day yoe doy < 146097"
    unfolding era_day_def using y assms(3) by auto
qed

lemma era_day_exists:
  assumes "0 \<le> doe" "doe < 146097"
  obtains yoe doy where "doe = era_day yoe doy" "0 \<le> yoe" "yoe < 400" "0 \<le> doy"
    "doy < march_year_length yoe"
proof -
  define c where "c = min 3 (doe div 36524)"
  define x where "x = doe - 36524 * c"
  define q where "q = min 24 (x div 1461)"
  define x' where "x' = x - 1461 * q"
  define r where "r = min 3 (x' div 365)"
  define doy where "doy = x' - 365 * r"
  define yoe where "yoe = 100 * c + 4 * q + r"
  have c: "0 \<le> c" "c \<le> 3" using assms by (simp_all add: c_def)
  have x: "0 \<le> x" "x \<le> 36524" "c < 3 \<longrightarrow> x < 36524"
    using assms unfolding x_def c_def by (auto simp: min_def)
  have q: "0 \<le> q" "q \<le> 24" using x by (simp_all add: q_def)
  have x': "0 \<le> x'" "x' \<le> 1460" "q = 24 \<and> c < 3 \<longrightarrow> x' < 1460"
    using x q(2) unfolding x'_def q_def by (auto simp: min_def split: if_splits)
  have r: "0 \<le> r" "r \<le> 3" using x' by (simp_all add: r_def)
  have doy: "0 \<le> doy" "doy \<le> 365" "r < 3 \<longrightarrow> doy < 365" "q = 24 \<and> c < 3 \<longrightarrow> doy < 365"
    using x' unfolding doy_def r_def by (auto simp: min_def split: if_splits)
  have d4: "yoe div 4 = 25 * c + q" and d100: "yoe div 100 = c"
    using c q r by (auto simp: yoe_def)
  have "doe = era_day yoe doy" unfolding era_day_def d4 d100
    by (simp add: yoe_def doy_def x'_def x_def)
  moreover have "doy < march_year_length yoe"
  proof (cases "doy = 365")
    case True
    then have r3: "r = 3" and cq: "q = 24 \<Longrightarrow> c = 3" using doy(3,4) r c by auto
    have y1: "yoe + 1 = 100 * c + 4 * (q + 1)" using r3 by (simp add: yoe_def)
    have "(yoe + 1) mod 4 = 0" unfolding y1 by presburger
    moreover have "(yoe + 1) mod 100 \<noteq> 0 \<or> (yoe + 1) mod 400 = 0"
      unfolding y1 using cq q by (cases "q = 24") auto
    ultimately show ?thesis using True by (simp add: march_year_length_def)
  next
    case False
    then show ?thesis using doy by (simp add: march_year_length_def)
  qed
  moreover have "0 \<le> yoe" "yoe < 400" using c q r by (auto simp: yoe_def)
  ultimately show ?thesis using that doy(1) by blast
qed

text \<open>The months of a year counted from March, and their lengths.\<close>

definition march_month_length :: "int \<Rightarrow> int \<Rightarrow> int" where
  "march_month_length yoe mi =
     (if mi \<in> {1, 3, 6, 8} then 30 else if mi = 11 then march_year_length yoe - 337 else 31)"

lemma month_index_cases:
  assumes "0 \<le> mi" "mi \<le> (11::int)"
  obtains "mi = 0" | "mi = 1" | "mi = 2" | "mi = 3" | "mi = 4" | "mi = 5" | "mi = 6" | "mi = 7"
    | "mi = 8" | "mi = 9" | "mi = 10" | "mi = 11"
proof -
  have "mi = 0 \<or> mi = 1 \<or> mi = 2 \<or> mi = 3 \<or> mi = 4 \<or> mi = 5 \<or> mi = 6 \<or> mi = 7 \<or> mi = 8
    \<or> mi = 9 \<or> mi = 10 \<or> mi = 11" using assms by presburger
  then show ?thesis using that by blast
qed

lemma march_year_length_cases: "march_year_length yoe = 365 \<or> march_year_length yoe = 366"
  by (simp add: march_year_length_def)

lemma day_of_year_month:
  assumes "0 \<le> mi" "mi \<le> 11" "1 \<le> d" "d \<le> march_month_length yoe mi"
  defines "doy \<equiv> (153 * mi + 2) div 5 + d - 1"
  shows "(5 * doy + 2) div 153 = mi" "0 \<le> doy" "doy < march_year_length yoe"
  using assms(1,2)
  by (cases rule: month_index_cases;
      use assms(3,4) march_year_length_cases [of yoe] in
        \<open>auto simp: doy_def march_month_length_def\<close>)+

lemma day_of_year_month_exists:
  assumes "0 \<le> doy" "doy < march_year_length yoe"
  defines "mi \<equiv> (5 * doy + 2) div 153"
  defines "d \<equiv> doy - (153 * mi + 2) div 5 + 1"
  shows "0 \<le> mi" "mi \<le> 11" "1 \<le> d" "d \<le> march_month_length yoe mi"
proof -
  show mi: "0 \<le> mi" "mi \<le> 11"
    using assms(1,2) march_year_length_cases [of yoe] by (auto simp: mi_def)
  have b: "153 * mi \<le> 5 * doy + 2" "5 * doy + 2 < 153 * mi + 153"
    unfolding mi_def by presburger+
  show "1 \<le> d" "d \<le> march_month_length yoe mi"
    using mi
    by (cases rule: month_index_cases;
        use b assms(1,2) in \<open>auto simp: d_def march_month_length_def\<close>)+
qed


text \<open>A date in the form the conversions count in, and the facts that connect the two forms.\<close>

lemma mod_of_era:
  fixes era x :: int
  shows "(era * 400 + x) mod 4 = x mod 4" "(era * 400 + x) mod 100 = x mod 100"
    "(era * 400 + x) mod 400 = x mod 400"
proof -
  have "era * 400 + x = x + (era * 100) * 4" "era * 400 + x = x + (era * 4) * 100"
    "era * 400 + x = x + era * 400" by simp_all
  then show "(era * 400 + x) mod 4 = x mod 4" "(era * 400 + x) mod 100 = x mod 100"
    "(era * 400 + x) mod 400 = x mod 400" by (metis mod_mult_self1)+
qed

lemma days_from_civil_era:
  assumes "valid_date y m d"
  obtains era yoe mi where "y = (if mi < 10 then era * 400 + yoe else era * 400 + yoe + 1)"
    "m = (if mi < 10 then mi + 3 else mi - 9)" "0 \<le> yoe" "yoe < 400" "0 \<le> mi" "mi \<le> 11" "1 \<le> d"
    "d \<le> march_month_length yoe mi"
    "days_from_civil y m d = era * 146097 + era_day yoe ((153 * mi + 2) div 5 + d - 1) - 719468"
proof -
  define y' where "y' = (if m \<le> 2 then y - 1 else y)"
  define mi where "mi = (m + 9) mod 12"
  define era yoe where "era = y' div 400" and "yoe = y' mod 400"
  have m: "1 \<le> m" "m \<le> 12" and d: "1 \<le> d" "d \<le> days_in_month y m"
    using assms by (auto simp: valid_date_def)
  have mi: "mi = (if m \<le> 2 then m + 9 else m - 3)" using m unfolding mi_def by presburger
  have yy: "y' = era * 400 + yoe" "0 \<le> yoe" "yoe < 400" by (simp_all add: era_def yoe_def)
  have leap: "m = 2 \<Longrightarrow> march_year_length yoe = 337 + days_in_month y m"
  proof -
    assume "m = 2"
    then have "y = era * 400 + (yoe + 1)" using yy by (simp add: y'_def)
    then show ?thesis using \<open>m = 2\<close>
      by (auto simp: march_year_length_def days_in_month_def mod_of_era)
  qed
  have "d \<le> march_month_length yoe mi"
    using d(2) leap m by (auto simp: march_month_length_def mi days_in_month_def split: if_splits)
  moreover have "days_from_civil y m d = era * 146097 + era_day yoe ((153 * mi + 2) div 5 + d - 1) - 719468"
    using yy(1) unfolding days_from_civil_def Let_def era_day_def y'_def [symmetric] mi_def [symmetric]
      era_def [symmetric] by simp
  moreover have "0 \<le> mi" "mi \<le> 11" "m = (if mi < 10 then mi + 3 else mi - 9)"
    "y = (if mi < 10 then era * 400 + yoe else era * 400 + yoe + 1)"
    using m yy(1) by (auto simp: mi y'_def split: if_splits)
  ultimately show ?thesis using that yy d(1) by blast
qed

lemma civil_from_days_era:
  assumes "0 \<le> yoe" "yoe < 400" "0 \<le> mi" "mi \<le> 11" "1 \<le> d" "d \<le> march_month_length yoe mi"
  shows "civil_from_days (era * 146097 + era_day yoe ((153 * mi + 2) div 5 + d - 1) - 719468)
    = (if mi < 10 then era * 400 + yoe else era * 400 + yoe + 1, if mi < 10 then mi + 3 else mi - 9, d)"
proof -
  define doy where "doy = (153 * mi + 2) div 5 + d - 1"
  define doe where "doe = era_day yoe doy"
  have doy: "(5 * doy + 2) div 153 = mi" "0 \<le> doy" "doy < march_year_length yoe"
    using day_of_year_month [OF assms(3-6)] by (simp_all add: doy_def)
  have yoe: "(doe - doe div 1460 + doe div 36524 - doe div 146096) div 365 = yoe"
    unfolding doe_def by (rule era_day_year [OF assms(1,2) doy(2,3)])
  have doe: "0 \<le> doe" "doe < 146097"
    using era_day_bounds [OF assms(1,2) doy(2,3)] by (simp_all add: doe_def)
  have era: "(era * 146097 + doe) div 146097 = era" using doe by simp
  have dd: "doe - (365 * yoe + yoe div 4 - yoe div 100) = doy" by (simp add: doe_def era_day_def)
  have day: "doy - (153 * mi + 2) div 5 + 1 = d" by (simp add: doy_def)
  have s1: "era * 146097 + doe - 719468 + 719468 = era * 146097 + doe" by simp
  have s2: "era * 146097 + doe - era * 146097 = doe" by simp
  show ?thesis
    unfolding civil_from_days_def Let_def doy_def [symmetric] doe_def [symmetric] s1 era s2 yoe dd
      doy(1) day using assms(3,4) by (auto simp: add.commute)
qed


lemma days_from_civil_march:
  assumes "0 \<le> yoe" "yoe < 400" "0 \<le> mi" "mi \<le> 11" "1 \<le> d" "d \<le> march_month_length yoe mi"
  shows "days_from_civil (if mi < 10 then era * 400 + yoe else era * 400 + yoe + 1)
      (if mi < 10 then mi + 3 else mi - 9) d
    = era * 146097 + era_day yoe ((153 * mi + 2) div 5 + d - 1) - 719468"
proof -
  have "(if (if mi < 10 then mi + 3 else mi - 9) \<le> 2
      then (if mi < 10 then era * 400 + yoe else era * 400 + yoe + 1) - 1
      else (if mi < 10 then era * 400 + yoe else era * 400 + yoe + 1)) = era * 400 + yoe"
    using assms(3,4) by simp
  moreover have "((if mi < 10 then mi + 3 else mi - 9) + 9) mod 12 = mi"
    using assms(3,4) by auto
  moreover have "(era * 400 + yoe) div 400 = era" using assms(1,2) by simp
  ultimately show ?thesis unfolding days_from_civil_def Let_def era_day_def by simp
qed

lemma valid_date_march:
  assumes "0 \<le> yoe" "yoe < 400" "0 \<le> mi" "mi \<le> 11" "1 \<le> d" "d \<le> march_month_length yoe mi"
  shows "valid_date (if mi < 10 then era * 400 + yoe else era * 400 + yoe + 1)
      (if mi < 10 then mi + 3 else mi - 9) d"
proof (cases "mi = 11")
  case True
  have "days_in_month (era * 400 + yoe + 1) 2 = march_year_length yoe - 337"
    using mod_of_era [of era "yoe + 1"]
    by (simp add: days_in_month_def march_year_length_def add.assoc)
  then show ?thesis using True assms(5,6) by (simp add: valid_date_def march_month_length_def)
next
  case False
  show ?thesis using assms(3,4)
    by (cases rule: month_index_cases)
      (use assms(5,6) False in \<open>simp_all add: valid_date_def days_in_month_def march_month_length_def\<close>)
qed

lemma civil_days_roundtrip:
  assumes "valid_date y m d"
  shows "civil_from_days (days_from_civil y m d) = (y, m, d)"
proof -
  obtain era yoe mi where e: "y = (if mi < 10 then era * 400 + yoe else era * 400 + yoe + 1)"
    "m = (if mi < 10 then mi + 3 else mi - 9)" "0 \<le> yoe" "yoe < 400" "0 \<le> mi" "mi \<le> 11" "1 \<le> d"
    "d \<le> march_month_length yoe mi"
    "days_from_civil y m d = era * 146097 + era_day yoe ((153 * mi + 2) div 5 + d - 1) - 719468"
    by (rule days_from_civil_era [OF assms])
  show ?thesis unfolding e(9) civil_from_days_era [OF e(3-8)] using e(1,2) by simp
qed

lemma civil_from_days_valid:
  assumes "civil_from_days n = (y, m, d)"
  shows "valid_date y m d" "days_from_civil y m d = n"
proof -
  define era where "era = (n + 719468) div 146097"
  have "0 \<le> (n + 719468) mod 146097" "(n + 719468) mod 146097 < 146097" by simp_all
  then obtain yoe doy where doe: "(n + 719468) mod 146097 = era_day yoe doy"
    and yoe: "0 \<le> yoe" "yoe < 400" and doy: "0 \<le> doy" "doy < march_year_length yoe"
    by (rule era_day_exists)
  define mi where "mi = (5 * doy + 2) div 153"
  define d0 where "d0 = doy - (153 * mi + 2) div 5 + 1"
  have mi: "0 \<le> mi" "mi \<le> 11" "1 \<le> d0" "d0 \<le> march_month_length yoe mi"
    using day_of_year_month_exists [OF doy] by (simp_all add: mi_def d0_def)
  have n: "n = era * 146097 + era_day yoe ((153 * mi + 2) div 5 + d0 - 1) - 719468"
    using doe by (simp add: era_def d0_def) (metis add_diff_cancel_right' div_mult_mod_eq)
  have ymd: "y = (if mi < 10 then era * 400 + yoe else era * 400 + yoe + 1)"
    "m = (if mi < 10 then mi + 3 else mi - 9)" "d = d0"
    using assms civil_from_days_era [OF yoe mi, of era] n by (auto split: if_splits)
  show "valid_date y m d"
    using mi valid_date_march [OF yoe mi] ymd by simp
  then have "civil_from_days (days_from_civil y m d) = civil_from_days n"
    using assms by (simp add: civil_days_roundtrip)
  show "days_from_civil y m d = n"
    using days_from_civil_march [OF yoe mi, of era] ymd n by simp
qed


section \<open>Reading\<close>

text \<open>
  \<open>text.get(from..to)\<close> answers \<open>None\<close> past the end or inside a character; a slice of bytes that are
  all ASCII digits is never cut inside a character, so the two byte tests below decide it.
\<close>

definition slice :: "'a list \<Rightarrow> nat \<Rightarrow> nat \<Rightarrow> 'a list" where
  "slice s from to = take (to - from) (drop from s)"

definition digits :: "string \<Rightarrow> nat \<Rightarrow> nat \<Rightarrow> int option" where
  "digits txt from to =
     (if from \<le> to \<and> to \<le> length txt \<and> list_all is_ascii_digit (slice txt from to)
        \<and> slice txt from to \<noteq> []
      then Some (int (nat_of_digits (slice txt from to))) else None)"

definition fraction :: "string \<Rightarrow> (int \<times> string) option" where
  "fraction rest =
     (case rest of
        c # after_dot \<Rightarrow>
          if c = CHR ''.'' then
            (let run = takeWhile is_ascii_digit after_dot
             in if run = [] then None
                else Some (sum_list (map2 (\<lambda>w d. w * int (digit_value d)) [100, 10, 1] run),
                           drop (length run) after_dot))
          else Some (0, rest)
      | [] \<Rightarrow> Some (0, rest))"

definition offset :: "string \<Rightarrow> int option" where
  "offset rest =
     (if rest = ''Z'' \<or> rest = ''z'' then Some 0
      else case rest of
        [] \<Rightarrow> None
      | c # _ \<Rightarrow>
          (case (if c = CHR ''+'' then Some (1::int) else if c = CHR ''-'' then Some (-1) else None) of
             None \<Rightarrow> None
           | Some sign \<Rightarrow>
               if length rest \<noteq> 6 \<or> rest ! 3 \<noteq> CHR '':'' then None
               else case digits rest 1 3 of
                   None \<Rightarrow> None
                 | Some hours \<Rightarrow>
                     (case digits rest 4 6 of
                        None \<Rightarrow> None
                      | Some minutes \<Rightarrow>
                          if hours > 23 \<or> minutes > 59 then None
                          else Some (sign * (hours * 60 + minutes)))))"

definition parse_ms :: "string \<Rightarrow> int option" where
  "parse_ms txt =
     (if length txt < 19 \<or> txt ! 4 \<noteq> CHR ''-'' \<or> txt ! 7 \<noteq> CHR ''-'' then None
      else if txt ! 10 \<notin> {CHR ''T'', CHR ''t'', CHR '' ''} \<or> txt ! 13 \<noteq> CHR '':'' \<or> txt ! 16 \<noteq> CHR '':''
      then None
      else case (digits txt 0 4, digits txt 5 7, digits txt 8 10, digits txt 11 13, digits txt 14 16,
                 digits txt 17 19) of
        (Some year, Some month, Some day, Some hour, Some minute, Some second) \<Rightarrow>
          if \<not> (1 \<le> month \<and> month \<le> 12) \<or> day < 1 \<or> day > days_in_month year month
             \<or> hour > 23 \<or> minute > 59 \<or> second > 60
          then None
          else (case fraction (drop 19 txt) of
                  None \<Rightarrow> None
                | Some (fraction_ms, rest) \<Rightarrow>
                    (case offset rest of
                       None \<Rightarrow> None
                     | Some offset_minutes \<Rightarrow>
                         Some (days_from_civil year month day * MS_PER_DAY + hour * 3600000
                               + minute * 60000 + min second 59 * 1000 + fraction_ms
                               - offset_minutes * 60000)))
      | _ \<Rightarrow> None)"

section \<open>Writing\<close>

definition format_ms :: "int \<Rightarrow> string" where
  "format_ms ms =
     (case civil_from_ms ms of (year, month, day) \<Rightarrow>
        let time = ms mod MS_PER_DAY;
            hour = time div 3600000;
            minute = (time div 60000) mod 60;
            second = (time div 1000) mod 60;
            millis = time mod 1000
        in format_width 4 year @ ''-'' @ format_width 2 month @ ''-'' @ format_width 2 day @ ''T''
           @ format_width 2 hour @ '':'' @ format_width 2 minute @ '':'' @ format_width 2 second @ ''.''
           @ format_width 3 millis @ ''Z'')"

lemma digits_slice:
  "list_all is_ascii_digit (slice t a b) \<Longrightarrow> a < b \<Longrightarrow> b \<le> length t
    \<Longrightarrow> digits t a b = Some (int (nat_of_digits (slice t a b)))"
  by (auto simp: digits_def slice_def)

lemma list_of_length_2: "length s = 2 \<Longrightarrow> \<exists>a b. s = [a, b]"
  by (auto simp: numeral_2_eq_2 length_Suc_conv)

lemma list_of_length_3: "length s = 3 \<Longrightarrow> \<exists>a b c. s = [a, b, c]"
  by (auto simp: numeral_3_eq_3 length_Suc_conv)

lemma list_of_length_4: "length s = 4 \<Longrightarrow> \<exists>a b c d. s = [a, b, c, d]"
  using length_Suc_conv [of s 3] list_of_length_3 by fastforce

text \<open>What the parser reads off a text whose six fields are in place.\<close>

lemma parse_ms_fields:
  assumes "length Y = 4" "length M = 2" "length D = 2" "length h = 2" "length n = 2" "length s = 2"
    and "list_all is_ascii_digit (Y @ M @ D @ h @ n @ s)"
  shows "parse_ms (Y @ ''-'' @ M @ ''-'' @ D @ ''T'' @ h @ '':'' @ n @ '':'' @ s @ rest) =
    (let year = int (nat_of_digits Y); month = int (nat_of_digits M); day = int (nat_of_digits D);
         hour = int (nat_of_digits h); minute = int (nat_of_digits n); second = int (nat_of_digits s)
     in if \<not> (1 \<le> month \<and> month \<le> 12) \<or> day < 1 \<or> day > days_in_month year month
           \<or> hour > 23 \<or> minute > 59 \<or> second > 60
        then None
        else (case fraction rest of
                None \<Rightarrow> None
              | Some (fraction_ms, rest') \<Rightarrow>
                  (case offset rest' of
                     None \<Rightarrow> None
                   | Some offset_minutes \<Rightarrow>
                       Some (days_from_civil year month day * MS_PER_DAY + hour * 3600000
                             + minute * 60000 + min second 59 * 1000 + fraction_ms
                             - offset_minutes * 60000))))"
proof -
  obtain a b c d where Y: "Y = [a, b, c, d]" using list_of_length_4 [OF assms(1)] by blast
  obtain m1 m2 where M: "M = [m1, m2]" using list_of_length_2 [OF assms(2)] by blast
  obtain d1 d2 where D: "D = [d1, d2]" using list_of_length_2 [OF assms(3)] by blast
  obtain h1 h2 where h: "h = [h1, h2]" using list_of_length_2 [OF assms(4)] by blast
  obtain n1 n2 where n: "n = [n1, n2]" using list_of_length_2 [OF assms(5)] by blast
  obtain s1 s2 where s: "s = [s1, s2]" using list_of_length_2 [OF assms(6)] by blast
  define t where "t = Y @ ''-'' @ M @ ''-'' @ D @ ''T'' @ h @ '':'' @ n @ '':'' @ s @ rest"
  have sl: "slice t 0 4 = Y" "slice t 5 7 = M" "slice t 8 10 = D" "slice t 11 13 = h" "slice t 14 16 = n"
    "slice t 17 19 = s" "drop 19 t = rest"
    by (simp_all add: t_def slice_def Y M D h n s)
  have len: "19 \<le> length t" by (simp add: t_def Y M D h n s)
  have ds: "digits t 0 4 = Some (int (nat_of_digits Y))" "digits t 5 7 = Some (int (nat_of_digits M))"
    "digits t 8 10 = Some (int (nat_of_digits D))" "digits t 11 13 = Some (int (nat_of_digits h))"
    "digits t 14 16 = Some (int (nat_of_digits n))" "digits t 17 19 = Some (int (nat_of_digits s))"
    using len assms(7) digits_slice [of t] sl by simp_all
  have ch: "t ! 4 = CHR ''-''" "t ! 7 = CHR ''-''" "t ! 10 = CHR ''T''" "t ! 13 = CHR '':''"
    "t ! 16 = CHR '':''"
    by (simp_all add: t_def Y M D h n s)
  show ?thesis
    unfolding t_def [symmetric] parse_ms_def
    using len by (simp add: ds ch sl Let_def)
qed


lemma fraction_millis:
  assumes "length k = 3" "list_all is_ascii_digit k"
  shows "fraction (''.'' @ k @ ''Z'') = Some (int (nat_of_digits k), ''Z'')"
proof -
  obtain a b c where k: "k = [a, b, c]" using list_of_length_3 [OF assms(1)] by blast
  have "\<not> is_ascii_digit (CHR ''Z'')" by (simp add: is_ascii_digit_def byte_of_def)
  then show ?thesis using assms(2) by (simp add: fraction_def k nat_of_digits_def)
qed

lemma offset_Z: "offset ''Z'' = Some 0"
  by (simp add: offset_def)

lemma time_of_day_split:
  assumes "0 \<le> t" "t < MS_PER_DAY"
  shows "(t div 3600000) * 3600000 + ((t div 60000) mod 60) * 60000 + ((t div 1000) mod 60) * 1000
      + t mod 1000 = t"
    and "t div 3600000 \<le> 23"
proof -
  have a: "t = (t div 1000) * 1000 + t mod 1000" by simp
  have b: "t div 1000 = (t div 60000) * 60 + (t div 1000) mod 60"
    using zdiv_zmult2_eq [of 60 t 1000] by simp
  have c: "t div 60000 = (t div 3600000) * 60 + (t div 60000) mod 60"
    using zdiv_zmult2_eq [of 60 t 60000] by simp
  show "(t div 3600000) * 3600000 + ((t div 60000) mod 60) * 60000 + ((t div 1000) mod 60) * 1000
      + t mod 1000 = t" using a b c by linarith
  show "t div 3600000 \<le> 23" using assms by (simp add: MS_PER_DAY_def)
qed

lemma two_digits:
  assumes "0 \<le> x" "x < 100"
  shows "length (format_width 2 x) = 2" "list_all is_ascii_digit (format_width 2 x)"
    "int (nat_of_digits (format_width 2 x)) = x"
  using format_width_nonneg [of x 2] assms by (simp_all add: list_all_iff)

lemma days_in_month_le: "days_in_month y m \<le> 31"
  by (simp add: days_in_month_def)

lemma mod_60: "0 \<le> x mod 60" "x mod 60 \<le> (59::int)"
  using pos_mod_bound [of 60 x] by (simp, linarith)

lemma hours_nonneg: "0 \<le> t \<Longrightarrow> 0 \<le> t div (3600000::int)"
  by simp

lemma mod_1000: "0 \<le> x mod 1000" "x mod 1000 < (1000::int)"
  by simp_all

lemma field_checks_pass:
  fixes m d l h n s :: int
  assumes "1 \<le> m" "m \<le> 12" "1 \<le> d" "d \<le> l" "h \<le> 23" "n \<le> 59" "s \<le> 59"
  shows "(\<not> (1 \<le> m \<and> m \<le> 12) \<or> d < 1 \<or> l < d \<or> 23 < h \<or> 59 < n \<or> 60 < s) = False"
    and "min s 59 = s"
  using assms by auto

lemma parse_format_in_range:
  assumes "civil_from_ms ms = (y, m, d)" and "0 \<le> y" and "y \<le> 9999"
  shows "parse_ms (format_ms ms) = Some ms"
proof -
  define t where "t = ms mod MS_PER_DAY"
  define h n s k where "h = t div 3600000" and "n = (t div 60000) mod 60"
    and "s = (t div 1000) mod 60" and "k = t mod 1000"
  have t: "0 \<le> t" "t < MS_PER_DAY" by (simp_all add: t_def MS_PER_DAY_def)
  have sum: "h * 3600000 + n * 60000 + s * 1000 + k = t" and h: "0 \<le> h" "h \<le> 23"
    unfolding h_def n_def s_def k_def
    using time_of_day_split [OF t] hours_nonneg [OF t(1)] by blast+
  have n: "0 \<le> n" "n \<le> 59" and s: "0 \<le> s" "s \<le> 59" and k: "0 \<le> k" "k < 1000"
    unfolding n_def s_def k_def by (rule mod_60 mod_1000)+
  have v: "valid_date y m d" and dd: "days_from_civil y m d = ms div MS_PER_DAY"
    using assms(1) civil_from_days_valid by (simp_all add: civil_from_ms_def)
  have md: "1 \<le> m" "m \<le> 12" "1 \<le> d" "d \<le> days_in_month y m" using v by (auto simp: valid_date_def)
  have d31: "d < 100" using md days_in_month_le [of y m] by linarith
  define Y M D H N S K where "Y = format_width 4 y" and "M = format_width 2 m"
    and "D = format_width 2 d" and "H = format_width 2 h" and "N = format_width 2 n"
    and "S = format_width 2 s" and "K = format_width 3 k"
  have Y: "length Y = 4" "list_all is_ascii_digit Y" "int (nat_of_digits Y) = y"
    using format_width_nonneg [of y 4] assms(2,3) by (simp_all add: Y_def list_all_iff)
  have K: "length K = 3" "list_all is_ascii_digit K" "int (nat_of_digits K) = k"
    using format_width_nonneg [of k 3] k by (simp_all add: K_def list_all_iff)
  have M: "length M = 2" "list_all is_ascii_digit M" "int (nat_of_digits M) = m"
    and D: "length D = 2" "list_all is_ascii_digit D" "int (nat_of_digits D) = d"
    and H: "length H = 2" "list_all is_ascii_digit H" "int (nat_of_digits H) = h"
    and N: "length N = 2" "list_all is_ascii_digit N" "int (nat_of_digits N) = n"
    and S: "length S = 2" "list_all is_ascii_digit S" "int (nat_of_digits S) = s"
    unfolding M_def D_def H_def N_def S_def using md d31 h n s by (simp_all add: two_digits)
  have fmt: "format_ms ms = Y @ ''-'' @ M @ ''-'' @ D @ ''T'' @ H @ '':'' @ N @ '':'' @ S @ (''.'' @ K @ ''Z'')"
    unfolding format_ms_def assms(1) t_def [symmetric] prod.case Let_def
      Y_def M_def D_def H_def N_def S_def K_def h_def n_def s_def k_def by (rule refl)
  have dig: "list_all is_ascii_digit (Y @ M @ D @ H @ N @ S)"
    using Y M D H N S by simp
  note ok = field_checks_pass [OF md h(2) n(2) s(2)]
  have "parse_ms (format_ms ms)
      = Some (days_from_civil y m d * MS_PER_DAY + h * 3600000 + n * 60000 + s * 1000 + k - 0 * 60000)"
    unfolding fmt parse_ms_fields [OF Y(1) M(1) D(1) H(1) N(1) S(1) dig] fraction_millis [OF K(1,2)]
      Y(3) M(3) D(3) H(3) N(3) S(3) K(3) Let_def
    by (simp only: ok if_False offset_Z option.case prod.case)
  also have "days_from_civil y m d * MS_PER_DAY + h * 3600000 + n * 60000 + s * 1000 + k - 0 * 60000
      = ms div MS_PER_DAY * MS_PER_DAY + t" unfolding dd using sum by linarith
  finally show ?thesis by (simp add: t_def)
qed

lemma format_width_neg_head: "n < 0 \<Longrightarrow> format_width w n = CHR ''-'' # zero_pad (w - 1) (show_nat (nat (- n)))"
  by (simp add: format_width_def)

lemma length_show_nat_ge: "10 ^ k \<le> n \<Longrightarrow> k < length (show_nat n)"
proof (induction k arbitrary: n)
  case 0
  then show ?case by simp
next
  case (Suc k)
  have "10 ^ k \<le> n div 10" using Suc.prems by (simp add: less_eq_div_iff_mult_less_eq mult.commute)
  moreover have "\<not> n < 10" using Suc.prems by (metis One_nat_def le_trans not_le one_le_power
      numeral_One one_le_numeral power_Suc mult_le_mono2 nat_mult_1_right)
  ultimately show ?case using Suc.IH by (subst show_nat.simps) simp
qed

lemma parse_ms_None_if_not_digit: "\<not> is_ascii_digit (t ! 0) \<Longrightarrow> t \<noteq> [] \<Longrightarrow> parse_ms t = None"
proof -
  assume a: "\<not> is_ascii_digit (t ! 0)" "t \<noteq> []"
  then obtain c u where t: "t = c # u" by (cases t) auto
  then have "digits t 0 4 = None" using a by (simp add: digits_def slice_def)
  then show ?thesis by (simp add: parse_ms_def)
qed

lemma parse_ms_None_if_not_dash: "t ! 4 \<noteq> CHR ''-'' \<Longrightarrow> parse_ms t = None"
  by (simp add: parse_ms_def)

lemma parse_format_out_of_range:
  assumes "civil_from_ms ms = (y, m, d)" and "y < 0 \<or> 9999 < y"
  shows "parse_ms (format_ms ms) = None"
proof (cases "y < 0")
  case True
  then have "\<exists>u. format_ms ms = CHR ''-'' # u"
    by (simp add: format_ms_def assms(1) format_width_neg_head Let_def)
  moreover have "\<not> is_ascii_digit (CHR ''-'')" by (simp add: is_ascii_digit_def byte_of_def)
  ultimately show ?thesis using parse_ms_None_if_not_digit by auto
next
  case False
  with assms(2) have y: "9999 < y" by simp
  define Y where "Y = show_nat (nat y)"
  have "10 ^ 4 \<le> nat y" using y by simp
  then have len: "4 < length Y" unfolding Y_def by (rule length_show_nat_ge)
  then have "\<exists>u. format_ms ms = Y @ u"
    using False by (simp add: format_ms_def assms(1) format_width_def zero_pad_def Y_def Let_def)
  then obtain u where u: "format_ms ms = Y @ u" by blast
  have "is_ascii_digit (Y ! 4)" using len show_nat_digits [of "nat y"] by (simp add: Y_def)
  then have "format_ms ms ! 4 \<noteq> CHR ''-''" using len
    by (auto simp: u nth_append is_ascii_digit_def byte_of_def)
  then show ?thesis by (rule parse_ms_None_if_not_dash)
qed


lemma digits_range:
  assumes "digits t a b = Some v"
  shows "0 \<le> v" "v < 10 ^ (b - a)"
proof -
  have less: "list_all is_ascii_digit s \<Longrightarrow> nat_of_digits s < 10 ^ length s" for s
  proof (induction s rule: rev_induct)
    case Nil
    then show ?case by simp
  next
    case (snoc c s)
    then show ?case using digit_value_less [of c] by (simp add: algebra_simps)
  qed
  have "length (slice t a b) \<le> b - a" by (simp add: slice_def)
  then have p: "(10::nat) ^ length (slice t a b) \<le> 10 ^ (b - a)" by (rule power_increasing) simp
  have "nat_of_digits (slice t a b) < 10 ^ (b - a)"
    using order.strict_trans2 [OF less p] assms by (simp add: digits_def split: if_splits)
  moreover have v: "v = int (nat_of_digits (slice t a b))"
    using assms by (simp add: digits_def split: if_splits)
  ultimately show "0 \<le> v" "v < 10 ^ (b - a)" by simp_all
qed

lemma days_from_civil_bounds:
  assumes "valid_date y m d" "0 \<le> y" "y \<le> 9999"
  shows "- 865566 < days_from_civil y m d" "days_from_civil y m d < 2932958"
proof -
  obtain era yoe mi where e: "y = (if mi < 10 then era * 400 + yoe else era * 400 + yoe + 1)"
    "m = (if mi < 10 then mi + 3 else mi - 9)" "0 \<le> yoe" "yoe < 400" "0 \<le> mi" "mi \<le> 11" "1 \<le> d"
    "d \<le> march_month_length yoe mi"
    "days_from_civil y m d = era * 146097 + era_day yoe ((153 * mi + 2) div 5 + d - 1) - 719468"
    by (rule days_from_civil_era [OF assms(1)])
  have "- 1 \<le> era" "era \<le> 24" using e(1,3,4) assms(2,3) by (auto split: if_splits)
  moreover note era_day_bounds [OF e(3,4) day_of_year_month(2,3) [OF e(5-8)]]
  ultimately show "- 865566 < days_from_civil y m d" "days_from_civil y m d < 2932958"
    using e(9) by linarith+
qed

lemma offset_range:
  assumes "offset r = Some x"
  shows "\<bar>x\<bar> \<le> 1439"
proof (cases "r = ''Z'' \<or> r = ''z''")
  case True
  then show ?thesis using assms by (auto simp: offset_def)
next
  case False
  with assms obtain h m where "x = h * 60 + m \<or> x = - (h * 60 + m)" "h \<le> 23" "m \<le> 59"
    "digits r 1 3 = Some h" "digits r 4 6 = Some m"
    by (auto simp: offset_def split: list.splits option.splits if_splits)
  moreover have "0 \<le> h" "0 \<le> m" using digits_range(1) calculation(4,5) by blast+
  ultimately show ?thesis by auto
qed

lemma fraction_range:
  assumes "fraction r = Some (f, r')"
  shows "0 \<le> f" "f \<le> 999"
proof -
  have "0 \<le> sum_list (map2 (\<lambda>w d. w * int (digit_value d)) [100, 10, 1] run)
      \<and> sum_list (map2 (\<lambda>w d. w * int (digit_value d)) [100, 10, 1] run) \<le> 999"
    if "list_all is_ascii_digit run" for run
    using that digit_value_less
    by (cases run; cases "tl run"; cases "tl (tl run)") (fastforce simp: less_Suc_eq_le)+
  moreover have "list_all is_ascii_digit (takeWhile is_ascii_digit u)" for u
    by (auto simp: list_all_iff dest: set_takeWhileD)
  ultimately show "0 \<le> f" "f \<le> 999" using assms
    by (auto simp: fraction_def Let_def split: list.splits if_splits)
qed


section \<open>Properties\<close>

text \<open>
  C28: \<open>parse_ms\<close> reads back every instant \<open>format_ms\<close> writes, unchanged, exactly when the year of
  the instant has four digits. Outside those years what is written is refused, not misread.
\<close>

theorem format_ms_reads_back:
  "parse_ms (format_ms ms) =
     (if 0 \<le> fst (civil_from_ms ms) \<and> fst (civil_from_ms ms) \<le> 9999 then Some ms else None)"
proof -
  obtain y m d where "civil_from_ms ms = (y, m, d)" by (cases "civil_from_ms ms")
  then show ?thesis using parse_format_in_range parse_format_out_of_range by auto
qed

text \<open>
  \<open>civil_from_days\<close> and \<open>days_from_civil\<close> are inverse to each other: every day number is a valid
  date, from which it is recovered, and a valid date is recovered from its day number.
\<close>

theorem calendar_bijection:
  "(case civil_from_days n of (y, m, d) \<Rightarrow> valid_date y m d \<and> days_from_civil y m d = n)
   \<and> (valid_date y m d \<longrightarrow> civil_from_days (days_from_civil y m d) = (y, m, d))"
  using civil_from_days_valid civil_days_roundtrip by (auto split: prod.split)

theorem calendar_bijection_witness:
  "valid_date 2024 2 29 \<and> civil_from_days (days_from_civil 2024 2 29) = (2024, 2, 29)"
proof -
  have "valid_date 2024 2 29" by (simp add: valid_date_def days_in_month_def)
  then show ?thesis using calendar_bijection [of 0 2024 2 29] by simp
qed

text \<open>
  An accepted timestamp is nowhere near the ends of the 64-bit range, so no step of the
  conversion wraps around.
\<close>

theorem parse_ms_bounds:
  assumes "parse_ms txt = Some ms"
  shows "- (2 ^ 47) < ms \<and> ms < 2 ^ 48"
proof -
  from assms obtain y m d h n s f r off where p:
    "digits txt 0 4 = Some y" "digits txt 5 7 = Some m" "digits txt 8 10 = Some d" "digits txt 11 13 = Some h" "digits txt 14 16 = Some n"
    "digits txt 17 19 = Some s" "valid_date y m d" "h \<le> 23" "n \<le> 59" "fraction (drop 19 txt) = Some (f, r)"
    "offset r = Some off"
    "ms = days_from_civil y m d * MS_PER_DAY + h * 3600000 + n * 60000 + min s 59 * 1000 + f - off * 60000"
    by (auto simp: parse_ms_def valid_date_def split: if_splits option.splits prod.splits)
  have "0 \<le> y" "y \<le> 9999" using digits_range [OF p(1)] by simp_all
  note days = days_from_civil_bounds [OF p(7) this]
  have "0 \<le> h" "0 \<le> n" "0 \<le> min s 59" "min s 59 \<le> 59"
    using digits_range(1) [OF p(4)] digits_range(1) [OF p(5)] digits_range(1) [OF p(6)] by simp_all
  moreover have "off \<le> 1439" "- 1439 \<le> off" using offset_range [OF p(11)] by linarith+
  moreover have "(2::int) ^ 47 = 140737488355328" "(2::int) ^ 48 = 281474976710656" by simp_all
  ultimately have "- (2 ^ 47) < ms" "ms < 2 ^ 48"
    using days p(8,9) fraction_range [OF p(10)] unfolding p(12) MS_PER_DAY_def by linarith+
  then show ?thesis by simp
qed

theorem parse_ms_bounds_witness:
  "parse_ms ''2026-08-20T09:14:02Z'' = Some 1787217242000 \<and> (1787217242000::int) < 2 ^ 48"
proof -
  have p: "parse_ms ''2026-08-20T09:14:02Z'' = Some 1787217242000" by code_simp
  show ?thesis using p parse_ms_bounds [OF p] by simp
qed

end
