(* ===== verification/Contract_Error.thy ===== *)
theory Contract_Error
  imports Rust_Std
begin

text \<open>
  \<open>yaam-contract/src/error.rs\<close>: the failures of the contract. \<open>Invalid\<close> and \<open>Spec\<close> carry prose in
  the code; here they carry one constructor per sentence, with the values the sentence quotes as
  its arguments, so two errors are equal exactly when the code words and fills them alike.
\<close>

datatype (plugins only: code) invalid_reason =
    ActionEmpty
  | UnreadableTimestamp string string          \<comment> \<open>field and text\<close>
  | InternalNamesSubjects nat
  | NamesTooManySubjects nat
  | TeamUnnamed
  | ConfidenceOutOfRange string string f32     \<comment> \<open>identifier, kind and confidence\<close>
  | UnescapedSpecial string char               \<comment> \<open>path segment and character\<close>
  | DanglingEscape string
  | UnknownEscape string string
  | AgentCannotNameDirectory string
  | UnreadableReceivedAt string string         \<comment> \<open>record and text\<close>
  | UnreadableAt string
  | OutcomeNotPermitted string string          \<comment> \<open>action and outcome\<close>
  | RedactionPolicyMismatch string string      \<comment> \<open>declared and applied\<close>
  | BodyMatchesRedaction string
  | SubjectWritesRefused string                \<comment> \<open>record\<close>
  | ResolvedTooManySubjects nat
  | ResolvedNoSubject
  | ResolvedSubjectsForInternal nat
  | ResolverRefused string
  | SeveralReferences nat string               \<comment> \<open>count and kind\<close>
  | NoPseudonym string                         \<comment> \<open>the reference\<close>
  | NoKeyedReference "string list"             \<comment> \<open>the kinds tried\<close>
  | NoRecordToHold string
  | RecordNamesNoSubject string
  | NoSuchHold string
  | HoldAlreadyReleased string
  | Unstated string                            \<comment> \<open>what a hold or release has to state\<close>
  | NotSerialised string
  | UnknownJobKind string
  | ConfidenceNotFinite string
  | CutoffOffCalendar nat string               \<comment> \<open>quarters and epoch\<close>
  | ManifestNotARecord string
  | AuditNotPublished string string            \<comment> \<open>audit record and record\<close>
  | RecordLeftTree string
  | BodyNotText string

datatype (plugins only: code) spec_reason =
    NotYaml
  | DocumentCount nat
  | UnsupportedVersion int
  | NonIntegerVersion
  | MissingSection string
  | SectionNotMapping string
  | NonStringKey string
  | MissingString string string                \<comment> \<open>owner and field\<close>
  | UnusablePattern string
  | NonListNormalise string
  | NonStringStep string
  | UnknownStep string
  | NonMappingAttrs string
  | UnknownAttrType string string
  | UnknownAttrClass string string
  | NonListOutcome string
  | NoOutcome string
  | NonStringOutcome string
  | UnknownOutcome string string
  | PatternMatchesReplacement string string    \<comment> \<open>pattern and label\<close>
  | NoAnchors string
  | AnchorNotOneWord string string
  | UnusableGuard string string string           \<comment> \<open>kind, field and pattern\<close>
  | StopwordCannotMatch string string
  | MissingWindow string
  | NonIntegerWindow string
  | WindowOutOfRange string int
  | MissingConfidence string
  | NonNumericConfidence string
  | ConfidenceNotBelowFloor string f32
  | NonListField string string
  | NonStringEntry string string
  | NoKindsSequence
  | NonStringKind
  | KindTwice string
  | NoKindsNamed
  | UndeclaredSubjectKind string
  | FileNotYaml string
  | FileDocumentCount string nat
  | FileVersion string "int option"            \<comment> \<open>file and what was found\<close>
  | WritesValue "string option"

datatype (plugins only: code) contract_error =
    NotCanonical string string                 \<comment> \<open>kind and identifier\<close>
  | UnknownEntityKind string
  | UndeclaredAttr string string               \<comment> \<open>action and key\<close>
  | SensitiveAttrInFrontmatter string
  | Invalid invalid_reason
  | Spec spec_reason

end
