(* ===== verification/Ids.thy ===== *)
theory Ids
  imports Contract_Error
begin

text \<open>
  \<open>yaam-contract/src/ids.rs\<close>: the record identifier and the subject pseudonym, each a string whose
  shape is checked wherever one is read. The fields of the code are private, so its only values are
  those \<open>record_id_try_from\<close> and \<open>subject_hash_try_from\<close> return; \<open>valid_record_id\<close> and
  \<open>valid_subject_hash\<close> say which those are.
\<close>

datatype record_id = RecordId (record_id_str: string)

datatype subject_hash = SubjectHash (subject_hash_str: string)

datatype schema_ver = SchemaVer nat

datatype canon_ver = CanonVer nat

definition ULID_LEN :: nat where
  "ULID_LEN = 26"

definition SUBJECT_HASH_LEN :: nat where
  "SUBJECT_HASH_LEN = 2 + 64"

definition SUBJECT_PREFIX :: string where
  "SUBJECT_PREFIX = ''s_''"

definition is_crockford_digit :: "char \<Rightarrow> bool" where
  "is_crockford_digit b \<longleftrightarrow>
     CHR ''0'' \<le> b \<and> b \<le> CHR ''9'' \<or> CHR ''A'' \<le> b \<and> b \<le> CHR ''H'' \<or> b = CHR ''J'' \<or> b = CHR ''K''
     \<or> b = CHR ''M'' \<or> b = CHR ''N'' \<or> CHR ''P'' \<le> b \<and> b \<le> CHR ''T'' \<or> CHR ''V'' \<le> b \<and> b \<le> CHR ''Z''"

definition is_lower_hex :: "char \<Rightarrow> bool" where
  "is_lower_hex b \<longleftrightarrow> CHR ''0'' \<le> b \<and> b \<le> CHR ''9'' \<or> CHR ''a'' \<le> b \<and> b \<le> CHR ''f''"

definition record_id_try_from :: "string \<Rightarrow> (record_id, contract_error) result" where
  "record_id_try_from value =
     (if length value = ULID_LEN \<and> list_all is_crockford_digit value then Ok (RecordId value)
      else Err (NotCanonical ''record'' value))"

definition subject_hash_try_from :: "string \<Rightarrow> (subject_hash, contract_error) result" where
  "subject_hash_try_from value =
     (let hex = strip_prefix SUBJECT_PREFIX value
      in if length value = SUBJECT_HASH_LEN
            \<and> (case hex of None \<Rightarrow> False | Some d \<Rightarrow> list_all is_lower_hex d)
         then Ok (SubjectHash value)
         else Err (NotCanonical ''subject'' value))"

definition valid_record_id :: "record_id \<Rightarrow> bool" where
  "valid_record_id r \<longleftrightarrow> length (record_id_str r) = 26 \<and> list_all is_crockford_digit (record_id_str r)"

definition valid_subject_hash :: "subject_hash \<Rightarrow> bool" where
  "valid_subject_hash h \<longleftrightarrow>
     (\<exists>d. subject_hash_str h = ''s_'' @ d \<and> length d = 64 \<and> list_all is_lower_hex d)"

lemma record_id_try_from_Ok_iff:
  "record_id_try_from s = Ok r \<longleftrightarrow> valid_record_id r \<and> record_id_str r = s"
  by (cases r) (auto simp: record_id_try_from_def valid_record_id_def ULID_LEN_def)

lemma subject_hash_try_from_Ok_iff:
  "subject_hash_try_from s = Ok h \<longleftrightarrow> valid_subject_hash h \<and> subject_hash_str h = s"
  by (cases h) (auto simp: subject_hash_try_from_def valid_subject_hash_def SUBJECT_HASH_LEN_def
      SUBJECT_PREFIX_def strip_prefix_iff Let_def split: option.splits)

text \<open>The bytes an identifier of either kind is made of are ASCII letters, digits and \<open>_\<close>.\<close>

definition id_byte :: "char \<Rightarrow> bool" where
  "id_byte b \<longleftrightarrow> is_ascii_alphanumeric b \<or> b = CHR ''_''"

lemma char_le_iff_byte: "a \<le> b \<longleftrightarrow> byte_of a \<le> byte_of b"
  by (simp add: less_eq_char_def byte_of_def)

lemma byte_of_ids [simp]:
  "byte_of (CHR ''0'') = 48" "byte_of (CHR ''9'') = 57" "byte_of (CHR ''A'') = 65"
  "byte_of (CHR ''H'') = 72" "byte_of (CHR ''J'') = 74" "byte_of (CHR ''K'') = 75"
  "byte_of (CHR ''M'') = 77" "byte_of (CHR ''N'') = 78" "byte_of (CHR ''P'') = 80"
  "byte_of (CHR ''T'') = 84" "byte_of (CHR ''V'') = 86" "byte_of (CHR ''Z'') = 90"
  "byte_of (CHR ''a'') = 97" "byte_of (CHR ''f'') = 102" "byte_of (CHR ''_'') = 95"
  by (simp_all add: byte_of_def)

lemma id_byte_iff:
  "id_byte b \<longleftrightarrow> 48 \<le> byte_of b \<and> byte_of b \<le> 57 \<or> 65 \<le> byte_of b \<and> byte_of b \<le> 90
     \<or> 97 \<le> byte_of b \<and> byte_of b \<le> 122 \<or> byte_of b = 95"
  unfolding id_byte_def is_ascii_alphanumeric_def is_ascii_digit_def is_ascii_upper_def
    is_ascii_lower_def by (metis byte_of_ids(15) byte_of_inject)

lemma id_byte_crockford:
  assumes "is_crockford_digit b" shows "id_byte b"
proof -
  from assms consider "48 \<le> byte_of b" "byte_of b \<le> 57" | "65 \<le> byte_of b" "byte_of b \<le> 90"
    unfolding is_crockford_digit_def char_le_iff_byte by fastforce
  then show ?thesis by cases (simp_all add: id_byte_iff)
qed

lemma id_byte_lower_hex:
  assumes "is_lower_hex b" shows "id_byte b"
proof -
  from assms consider "48 \<le> byte_of b" "byte_of b \<le> 57" | "97 \<le> byte_of b" "byte_of b \<le> 102"
    unfolding is_lower_hex_def char_le_iff_byte by fastforce
  then show ?thesis by cases (simp_all add: id_byte_iff)
qed

lemma valid_record_id_bytes: "valid_record_id r \<Longrightarrow> list_all id_byte (record_id_str r)"
  by (auto simp: valid_record_id_def list_all_iff intro: id_byte_crockford)

lemma id_byte_s_prefix: "id_byte (CHR ''s'')" "id_byte (CHR ''_'')"
  by (simp_all add: id_byte_iff) (simp add: byte_of_def)

lemma valid_subject_hash_bytes:
  assumes "valid_subject_hash h" shows "list_all id_byte (subject_hash_str h)"
proof -
  from assms obtain d where "subject_hash_str h = ''s_'' @ d" "list_all is_lower_hex d"
    by (auto simp: valid_subject_hash_def)
  then show ?thesis by (simp add: id_byte_s_prefix list_all_iff id_byte_lower_hex)
qed

lemma id_byte_not_special:
  assumes "id_byte b"
  shows "b \<notin> {CHR ''/'', CHR ''.'', CHR ''~'', CHR '':'', CHR ''#'', CHR ''@'', CHR 0x5C, CHR 0x00, CHR ''-''}"
proof
  assume "b \<in> {CHR ''/'', CHR ''.'', CHR ''~'', CHR '':'', CHR ''#'', CHR ''@'', CHR 0x5C, CHR 0x00, CHR ''-''}"
  then have "byte_of b \<in> {47, 46, 126, 58, 35, 64, 92, 0, 45}"
    by (elim insertE emptyE) (simp_all add: byte_of_def)
  with assms show False by (auto simp: id_byte_iff)
qed

end
