(* ===== verification/Spec_Yaml.thy ===== *)
theory Spec_Yaml
  imports Contract_Error
begin

text \<open>
  \<open>yaam-contract/src/spec_yaml.rs\<close>: what the loaders of the spec files share. The YAML parser is the
  \<open>saphyr\<close> crate: the parser itself is a parameter \<open>load\<close> (the documents of a stream, or None for a
  text that is not YAML), and \<open>yaml\<close> is its node type with the accessors the loaders call. A mapping
  keeps its entries in document order. \<open>YFloat\<close> is what \<open>as_floating_point\<close> reads.
\<close>

datatype (plugins only: code size) yaml =
    YNull
  | YBool bool
  | YInt int
  | YFloat f32
  | YStr string
  | YSeq "yaml list"
  | YMap "(yaml \<times> yaml) list"

type_synonym yaml_loader = "string \<Rightarrow> yaml list option"

fun as_str :: "yaml \<Rightarrow> string option" where
  "as_str (YStr s) = Some s"
| "as_str _ = None"

fun as_integer :: "yaml \<Rightarrow> int option" where
  "as_integer (YInt i) = Some i"
| "as_integer _ = None"

fun as_floating_point :: "yaml \<Rightarrow> f32 option" where
  "as_floating_point (YFloat f) = Some f"
| "as_floating_point _ = None"

fun as_bool :: "yaml \<Rightarrow> bool option" where
  "as_bool (YBool b) = Some b"
| "as_bool _ = None"

fun as_vec :: "yaml \<Rightarrow> yaml list option" where
  "as_vec (YSeq xs) = Some xs"
| "as_vec _ = None"

fun as_mapping :: "yaml \<Rightarrow> (yaml \<times> yaml) list option" where
  "as_mapping (YMap m) = Some m"
| "as_mapping _ = None"

fun as_mapping_get :: "yaml \<Rightarrow> string \<Rightarrow> yaml option" where
  "as_mapping_get (YMap m) field = map_of m (YStr field)"
| "as_mapping_get _ field = None"

definition SUPPORTED_VERSION :: int where
  "SUPPORTED_VERSION = 1"

definition single_document :: "yaml_loader \<Rightarrow> string \<Rightarrow> (yaml, contract_error) result" where
  "single_document load yaml =
     (case load yaml of
        None \<Rightarrow> Err (Spec NotYaml)
      | Some docs \<Rightarrow>
          if length docs = 1 then Ok (hd docs) else Err (Spec (DocumentCount (length docs))))"

definition check_version :: "yaml \<Rightarrow> (unit, contract_error) result" where
  "check_version doc =
     (case as_mapping_get doc ''version'' of
        None \<Rightarrow> Ok ()
      | Some node \<Rightarrow>
          (case as_integer node of
             Some v \<Rightarrow> if v = SUPPORTED_VERSION then Ok () else Err (Spec (UnsupportedVersion v))
           | None \<Rightarrow> Err (Spec NonIntegerVersion)))"

definition required_mapping ::
  "yaml \<Rightarrow> string \<Rightarrow> ((yaml \<times> yaml) list, contract_error) result" where
  "required_mapping doc field =
     and_then (ok_or (Spec (MissingSection field)) (as_mapping_get doc field)) (\<lambda>node.
       ok_or (Spec (SectionNotMapping field)) (as_mapping node))"

definition key_name :: "yaml \<Rightarrow> string \<Rightarrow> (string, contract_error) result" where
  "key_name key what = ok_or (Spec (NonStringKey what)) (as_str key)"

definition required_str :: "yaml \<Rightarrow> string \<Rightarrow> string \<Rightarrow> (string, contract_error) result" where
  "required_str node field owner =
     ok_or (Spec (MissingString owner field)) (Option.bind (as_mapping_get node field) as_str)"

lemma as_str_Some_iff [simp]: "as_str y = Some s \<longleftrightarrow> y = YStr s"
  by (cases y) auto

lemma as_integer_Some_iff [simp]: "as_integer y = Some i \<longleftrightarrow> y = YInt i"
  by (cases y) auto

lemma as_vec_Some_iff [simp]: "as_vec y = Some xs \<longleftrightarrow> y = YSeq xs"
  by (cases y) auto

lemma as_mapping_Some_iff [simp]: "as_mapping y = Some m \<longleftrightarrow> y = YMap m"
  by (cases y) auto

lemma single_document_Ok_iff: "single_document load s = Ok doc \<longleftrightarrow> load s = Some [doc]"
  by (auto simp: single_document_def length_Suc_conv split: option.splits)

lemma check_version_Ok_iff:
  "check_version doc = Ok u \<longleftrightarrow>
     as_mapping_get doc ''version'' = None \<or> as_mapping_get doc ''version'' = Some (YInt 1)"
  by (auto simp: check_version_def SUPPORTED_VERSION_def split: option.splits) 

lemma required_mapping_Ok_iff:
  "required_mapping doc f = Ok m \<longleftrightarrow> as_mapping_get doc f = Some (YMap m)"
  by (auto simp: required_mapping_def)

lemma key_name_Ok_iff: "key_name k w = Ok n \<longleftrightarrow> k = YStr n"
  by (simp add: key_name_def)

lemma required_str_Ok_iff:
  "required_str node f owner = Ok s \<longleftrightarrow> as_mapping_get node f = Some (YStr s)"
  by (auto simp: required_str_def bind_eq_Some_conv)

lemmas spec_yaml_Ok = single_document_Ok_iff check_version_Ok_iff required_mapping_Ok_iff
  key_name_Ok_iff required_str_Ok_iff

end
