(* ===== verification/Entity.thy ===== *)
theory Entity
  imports Spec_Yaml
begin

text \<open>
  \<open>yaam-contract/src/entity.rs\<close>: the configured entity kinds, the canonical form of an identifier
  and its filename-safe encoding. The \<open>regex\<close> crate is a parameter \<open>compile\<close>, which refuses an
  unusable pattern and otherwise returns the matcher; the Unicode case tables of \<open>to_lowercase\<close> and
  \<open>to_uppercase\<close> are the fields of a \<open>case_maps\<close>.
\<close>

section \<open>Kinds\<close>

datatype role = Primary | Context | Related

record entity_ref =
  ent_kind :: string
  ent_id :: string
  ent_role :: role
  ent_confidence :: f32

record case_maps =
  to_lowercase :: "string \<Rightarrow> string"
  to_uppercase :: "string \<Rightarrow> string"

type_synonym regex_compiler = "string \<Rightarrow> (string \<Rightarrow> bool) option"

definition PREFIX_SEPARATORS :: "char list" where
  "PREFIX_SEPARATORS = ''-/:#@''"

definition PATH_TERMINATORS :: "char list" where
  "PATH_TERMINATORS = '':#@''"

datatype normalise = Trim | Lowercase | UppercasePrefix | LowercasePath

definition normalise_from_name :: "string \<Rightarrow> (normalise, contract_error) result" where
  "normalise_from_name name =
     (if name = ''trim'' then Ok Trim
      else if name = ''lowercase'' then Ok Lowercase
      else if name = ''uppercase_prefix'' then Ok UppercasePrefix
      else if name = ''lowercase_path'' then Ok LowercasePath
      else Err (Spec (UnknownStep name)))"

definition recase :: "string \<Rightarrow> char list \<Rightarrow> (string \<Rightarrow> string) \<Rightarrow> string" where
  "recase s separators f =
     (if list_ex (\<lambda>c. c \<in> set separators) s
      then let head = takeWhile (\<lambda>c. c \<notin> set separators) s;
               tail = dropWhile (\<lambda>c. c \<notin> set separators) s
           in f head @ tail
      else f s)"

fun normalise_apply :: "case_maps \<Rightarrow> normalise \<Rightarrow> string \<Rightarrow> string" where
  "normalise_apply cm Trim s = trim s"
| "normalise_apply cm Lowercase s = to_lowercase cm s"
| "normalise_apply cm UppercasePrefix s = recase s PREFIX_SEPARATORS (to_uppercase cm)"
| "normalise_apply cm LowercasePath s = recase s PATH_TERMINATORS (to_lowercase cm)"

record kind_spec =
  kind_name :: string
  kind_pattern :: string
  kind_normalise :: "normalise list"

record compiled_kind =
  kind_spec :: kind_spec
  is_match :: "string \<Rightarrow> bool"

record registry =
  kind_map :: "(string, compiled_kind) btree"
  kind_specs :: "kind_spec list"

definition default_registry :: registry where
  "default_registry = \<lparr>kind_map = [], kind_specs = []\<rparr>"

section \<open>Loading a registry\<close>

definition parse_steps :: "yaml option \<Rightarrow> string \<Rightarrow> (normalise list, contract_error) result" where
  "parse_steps node k =
     (case node of
        None \<Rightarrow> Ok []
      | Some y \<Rightarrow>
          and_then (ok_or (Spec (NonListNormalise k)) (as_vec y)) (\<lambda>steps.
            try_map (\<lambda>step.
              and_then (ok_or (Spec (NonStringStep k)) (as_str step)) normalise_from_name) steps))"

definition anchored :: "string \<Rightarrow> string" where
  "anchored pattern = ''^(?:'' @ pattern @ '')$''"

definition read_kind ::
  "regex_compiler \<Rightarrow> yaml \<times> yaml \<Rightarrow> (compiled_kind, contract_error) result" where
  "read_kind compile = (\<lambda>(key, value).
     and_then (key_name key ''entity kind'') (\<lambda>name.
     and_then (required_str value ''pattern'' name) (\<lambda>pattern.
     and_then (parse_steps (as_mapping_get value ''normalise'') name) (\<lambda>steps.
     and_then (ok_or (Spec (UnusablePattern name)) (compile (anchored pattern))) (\<lambda>compiled.
       Ok \<lparr>kind_spec = \<lparr>kind_name = name, kind_pattern = pattern, kind_normalise = steps\<rparr>,
           is_match = compiled\<rparr>)))))"

definition registry_from_yaml ::
  "yaml_loader \<Rightarrow> regex_compiler \<Rightarrow> string \<Rightarrow> (registry, contract_error) result" where
  "registry_from_yaml load compile yaml =
     and_then (single_document load yaml) (\<lambda>doc.
     and_then (check_version doc) (\<lambda>_.
     and_then (required_mapping doc ''kinds'') (\<lambda>entries.
     and_then
       (try_fold (\<lambda>ks entry. and_then (read_kind compile entry) (\<lambda>k.
          Ok (bt_insert (kind_name (kind_spec k)) k ks))) [] entries)
       (\<lambda>ks. Ok \<lparr>kind_map = ks, kind_specs = map (\<lambda>(_, k). kind_spec k) ks\<rparr>))))"

definition registry_kinds :: "registry \<Rightarrow> kind_spec list" where
  "registry_kinds r = kind_specs r"

definition canonicalise ::
  "case_maps \<Rightarrow> registry \<Rightarrow> string \<Rightarrow> string \<Rightarrow> (string, contract_error) result" where
  "canonicalise cm r k s =
     and_then (ok_or (UnknownEntityKind k) (bt_get (kind_map r) k)) (\<lambda>entry.
       let candidate = fold (normalise_apply cm) (kind_normalise (kind_spec entry)) s
       in if is_match entry candidate then Ok candidate else Err (NotCanonical k s))"

section \<open>Path segments\<close>

definition ESCAPE :: char where
  "ESCAPE = CHR ''~''"

definition ESCAPES :: "(char \<times> char) list" where
  "ESCAPES = [(CHR ''~'', CHR ''~''), (CHR ''/'', CHR ''s''), (CHR '':'', CHR ''c''),
     (CHR ''#'', CHR ''h''), (CHR ''@'', CHR ''a'')]"

fun to_path_segment :: "string \<Rightarrow> string" where
  "to_path_segment [] = []"
| "to_path_segment (c # cs) =
     (case List.find (\<lambda>(from, _). from = c) ESCAPES of
        Some (_, code) \<Rightarrow> ESCAPE # code # to_path_segment cs
      | None \<Rightarrow> c # to_path_segment cs)"

fun read_segment :: "string \<Rightarrow> string \<Rightarrow> (string, contract_error) result" where
  "read_segment whole [] = Ok []"
| "read_segment whole (c # cs) =
     (if c \<noteq> ESCAPE then
        if list_ex (\<lambda>(from, _). from = c) ESCAPES then Err (Invalid (UnescapedSpecial whole c))
        else and_then (read_segment whole cs) (\<lambda>out. Ok (c # out))
      else case cs of
        [] \<Rightarrow> Err (Invalid (DanglingEscape whole))
      | code # rest \<Rightarrow>
          (case List.find (\<lambda>(_, candidate). candidate = code) ESCAPES of
             None \<Rightarrow> Err (Invalid (UnknownEscape whole (first_char cs)))
           | Some (decoded, _) \<Rightarrow>
               and_then (read_segment whole rest) (\<lambda>out. Ok (decoded # out))))"

definition from_path_segment :: "string \<Rightarrow> (string, contract_error) result" where
  "from_path_segment segment = read_segment segment segment"

section \<open>Lemmas on segments\<close>

definition special :: "char \<Rightarrow> bool" where
  "special c \<longleftrightarrow> c \<in> {CHR ''~'', CHR ''/'', CHR '':'', CHR ''#'', CHR ''@''}"

lemma escape_of_special:
  "List.find (\<lambda>(from, _). from = c) ESCAPES = None \<longleftrightarrow> \<not> special c"
  by (auto simp: ESCAPES_def special_def)

lemma escape_of_ordinary [simp]:
  "\<not> special c \<Longrightarrow> List.find (\<lambda>(from, _). from = c) ESCAPES = None"
  by (simp add: escape_of_special)

lemma list_ex_escapes [simp]: "list_ex (\<lambda>(from, _). from = c) ESCAPES \<longleftrightarrow> special c"
  by (auto simp: ESCAPES_def special_def)

lemma ESCAPES_paired:
  "\<forall>(c, code) \<in> set ESCAPES.
     List.find (\<lambda>(from, _). from = c) ESCAPES = Some (c, code)
     \<and> List.find (\<lambda>(_, candidate). candidate = code) ESCAPES = Some (c, code)
     \<and> code \<notin> {CHR ''/'', CHR '':'', CHR ''#'', CHR ''@''}"
  by (simp add: ESCAPES_def)

lemma find_Some_D: "List.find P xs = Some x \<Longrightarrow> x \<in> set xs \<and> P x"
  by (auto simp: find_Some_iff)

lemma escape_inverse:
  assumes "List.find (\<lambda>(from, _). from = c) ESCAPES = Some (c', code)"
  shows "c' = c" "List.find (\<lambda>(_, candidate). candidate = code) ESCAPES = Some (c, code)"
    "code \<notin> {CHR ''/'', CHR '':'', CHR ''#'', CHR ''@''}"
  using find_Some_D [OF assms] ESCAPES_paired by fastforce+

lemma unescape_inverse:
  assumes "List.find (\<lambda>(_, candidate). candidate = code) ESCAPES = Some (c, code')"
  shows "code' = code" "List.find (\<lambda>(from, _). from = c) ESCAPES = Some (c, code)"
  using find_Some_D [OF assms] ESCAPES_paired by fastforce+

lemma special_ESCAPE [simp]: "special ESCAPE"
  by (simp add: special_def ESCAPE_def)

lemma read_segment_encoded: "read_segment whole (to_path_segment s) = Ok s"
proof (induction s)
  case Nil
  then show ?case by simp
next
  case (Cons c cs)
  show ?case
  proof (cases "List.find (\<lambda>(from, _). from = c) ESCAPES")
    case None
    then have "\<not> special c" by (simp add: escape_of_special)
    moreover from this have "c \<noteq> ESCAPE" by auto
    ultimately show ?thesis using None Cons by simp
  next
    case (Some p)
    then obtain c' code where p: "p = (c', code)" by (cases p)
    with Some escape_inverse(1,2) [of c c' code]
    have "List.find (\<lambda>(_, candidate). candidate = code) ESCAPES = Some (c, code)" by simp
    with Some p Cons show ?thesis by simp
  qed
qed

lemma encoded_read_segment: "read_segment whole s = Ok out \<Longrightarrow> to_path_segment out = s"
proof (induction whole s arbitrary: out rule: read_segment.induct)
  case (1 whole)
  then show ?case by simp
next
  case (2 whole c cs)
  show ?case
  proof (cases "c = ESCAPE")
    case False
    with 2 show ?thesis by (auto split: if_splits)
  next
    case True
    with 2(3) obtain code rest d e where d: "cs = code # rest"
      "List.find (\<lambda>(_, candidate). candidate = code) ESCAPES = Some (d, e)"
      "\<exists>o'. read_segment whole rest = Ok o' \<and> out = d # o'"
      by (auto split: list.splits option.splits prod.splits)
    then obtain o' where o': "read_segment whole rest = Ok o'" "out = d # o'" by blast
    note ih = 2(2) [OF _ d(1) d(2) _ o'(1)]
    show ?thesis using True o'(2) d(1) unescape_inverse [OF d(2)] ih by simp
  qed
qed

interpretation segment: canonical_codec to_path_segment "\<lambda>s. ok (from_path_segment s)"
  by unfold_locales (simp_all add: from_path_segment_def read_segment_encoded encoded_read_segment)

lemma to_path_segment_bytes:
  assumes "c \<in> set (to_path_segment s)"
  shows "c \<notin> {CHR ''/'', CHR '':'', CHR ''#'', CHR ''@''}"
  using assms
proof (induction s)
  case Nil
  then show ?case by simp
next
  case (Cons a s)
  show ?case
  proof (cases "List.find (\<lambda>(from, _). from = a) ESCAPES")
    case None
    then have "\<not> special a" by (simp add: escape_of_special)
    then show ?thesis using Cons by (auto simp: special_def)
  next
    case (Some p)
    then obtain a' code where p: "p = (a', code)" by (cases p)
    with Some Cons escape_inverse [of a a' code] show ?thesis by (auto simp: ESCAPE_def)
  qed
qed

section \<open>Lemmas on the registry\<close>

lemma read_kind_Ok:
  assumes "read_kind compile entry = Ok k"
  shows "fst entry = YStr (kind_name (kind_spec k))"
    and "as_mapping_get (snd entry) ''pattern'' = Some (YStr (kind_pattern (kind_spec k)))"
    and "compile (anchored (kind_pattern (kind_spec k))) = Some (is_match k)"
  using assms by (auto simp: read_kind_def spec_yaml_Ok split: prod.splits)

text \<open>What the loader keeps of the map under construction.\<close>

definition registry_map_ok :: "regex_compiler \<Rightarrow> (string, compiled_kind) btree \<Rightarrow> bool" where
  "registry_map_ok compile ks \<longleftrightarrow> bt_ordered ks
     \<and> (\<forall>n k. bt_get ks n = Some k \<longrightarrow> kind_name (kind_spec k) = n
          \<and> compile (anchored (kind_pattern (kind_spec k))) = Some (is_match k))"

lemma registry_from_yaml_Ok:
  assumes "registry_from_yaml load compile yaml = Ok r"
  shows "registry_map_ok compile (kind_map r)"
    and "kind_specs r = map (\<lambda>(_, k). kind_spec k) (kind_map r)"
proof -
  from assms obtain entries where
    load: "try_fold (\<lambda>ks entry. and_then (read_kind compile entry) (\<lambda>k.
      Ok (bt_insert (kind_name (kind_spec k)) k ks))) [] entries = Ok (kind_map r)"
    and specs: "kind_specs r = map (\<lambda>(_, k). kind_spec k) (kind_map r)"
    by (auto simp: registry_from_yaml_def)
  show "kind_specs r = map (\<lambda>(_, k). kind_spec k) (kind_map r)" by (rule specs)
  show "registry_map_ok compile (kind_map r)"
    by (rule try_fold_invariant [OF load])
      (auto simp: registry_map_ok_def split: if_splits dest: read_kind_Ok(3))
qed

lemma registry_listed_iff:
  assumes "registry_map_ok compile ks"
  shows "k \<in> set (map snd ks) \<longleftrightarrow> bt_get ks (kind_name (kind_spec k)) = Some k"
proof
  assume "k \<in> set (map snd ks)"
  then obtain n where "(n, k) \<in> set ks" by auto
  with assms have "bt_get ks n = Some k" by (simp add: registry_map_ok_def bt_get_Some_iff)
  with assms show "bt_get ks (kind_name (kind_spec k)) = Some k" by (auto simp: registry_map_ok_def)
next
  assume "bt_get ks (kind_name (kind_spec k)) = Some k"
  then have "(kind_name (kind_spec k), k) \<in> set ks" by (rule map_of_SomeD)
  then show "k \<in> set (map snd ks)" by (metis image_eqI list.set_map snd_conv)
qed

lemma registry_names:
  assumes "registry_map_ok compile ks"
  shows "map (\<lambda>(_, k). kind_name (kind_spec k)) ks = map fst ks"
  using assms by (auto simp: registry_map_ok_def bt_get_Some_iff)

section \<open>Concrete instances\<close>

text \<open>The case tables restricted to ASCII, and a small spec, on which the definitions compute.\<close>

definition ascii_lower :: "char \<Rightarrow> char" where
  "ascii_lower c = (if is_ascii_upper c then char_of (byte_of c + 32) else c)"

definition ascii_upper :: "char \<Rightarrow> char" where
  "ascii_upper c = (if is_ascii_lower c then char_of (byte_of c - 32) else c)"

definition ascii_case :: case_maps where
  "ascii_case = \<lparr>to_lowercase = map ascii_lower, to_uppercase = map ascii_upper\<rparr>"

definition sample_kinds :: yaml_loader where
  "sample_kinds _ = Some [YMap [(YStr ''kinds'', YMap
     [(YStr ''ticket'', YMap [(YStr ''pattern'', YStr ''[^ ]+''),
        (YStr ''normalise'', YSeq [YStr ''trim'', YStr ''uppercase_prefix''])]),
      (YStr ''chat'', YMap [(YStr ''pattern'', YStr ''[^ ]+'')])])]]"

definition sample_regex :: regex_compiler where
  "sample_regex _ = Some (\<lambda>s. s \<noteq> [] \<and> CHR '' '' \<notin> set s)"

definition sample_registry :: registry where
  "sample_registry = (let m = (\<lambda>s. s \<noteq> [] \<and> CHR '' '' \<notin> set s) in
     \<lparr>kind_map =
        [(''chat'', \<lparr>kind_spec = \<lparr>kind_name = ''chat'', kind_pattern = ''[^ ]+'', kind_normalise = []\<rparr>,
            is_match = m\<rparr>),
         (''ticket'', \<lparr>kind_spec = \<lparr>kind_name = ''ticket'', kind_pattern = ''[^ ]+'',
              kind_normalise = [Trim, UppercasePrefix]\<rparr>, is_match = m\<rparr>)],
      kind_specs =
        [\<lparr>kind_name = ''chat'', kind_pattern = ''[^ ]+'', kind_normalise = []\<rparr>,
         \<lparr>kind_name = ''ticket'', kind_pattern = ''[^ ]+'', kind_normalise = [Trim, UppercasePrefix]\<rparr>]\<rparr>)"

lemma sample_registry_loads: "registry_from_yaml sample_kinds sample_regex [] = Ok sample_registry"
  by (simp add: registry_from_yaml_def single_document_def sample_kinds_def check_version_def
      required_mapping_def read_kind_def key_name_def required_str_def parse_steps_def
      normalise_from_name_def sample_regex_def sample_registry_def Let_def)

section \<open>Properties\<close>

text \<open>
  The filename encoding of an identifier is canonical. The decoder returns the identifier it
  was made from, the decoder accepts no text but the encoder's output, and an encoded identifier
  holds no \<open>/\<close>, \<open>:\<close>, \<open>#\<close> or \<open>@\<close>, so distinct identifiers get distinct, safe file names.
\<close>

theorem path_segment_canonical:
  "(from_path_segment seg = Ok s) = (to_path_segment s = seg)
   \<and> set (to_path_segment s) \<inter> {CHR ''/'', CHR '':'', CHR ''#'', CHR ''@''} = {}"
  using segment.decode_iff [of seg s] to_path_segment_bytes by auto

text \<open>
  A registry that loads is consistent. The listing is in strictly increasing name order; a kind
  is listed exactly when the matcher knows it under that name; and canonicalising under a listed kind
  applies its steps in the order given and accepts exactly what the anchored pattern accepts, while
  a kind that is not listed is refused by name.
\<close>

theorem registry_listing_decides:
  assumes "registry_from_yaml load compile yaml = Ok r"
  shows "sorted_wrt (<) (map kind_name (registry_kinds r))
    \<and> (canonicalise cm r k s = Err (UnknownEntityKind k) \<longleftrightarrow>
         k \<notin> kind_name ` set (registry_kinds r))
    \<and> (canonicalise cm r k s = Ok c \<longleftrightarrow>
         (\<exists>spec \<in> set (registry_kinds r). kind_name spec = k
            \<and> c = fold (normalise_apply cm) (kind_normalise spec) s
            \<and> (\<exists>m. compile (anchored (kind_pattern spec)) = Some m \<and> m c)))"
proof -
  note inv = registry_from_yaml_Ok(1) [OF assms] and specs = registry_from_yaml_Ok(2) [OF assms]
  have names: "map kind_name (registry_kinds r) = map fst (kind_map r)"
    using registry_names [OF inv] by (simp add: registry_kinds_def specs case_prod_beta comp_def)
  have sorted: "sorted_wrt (<) (map kind_name (registry_kinds r))"
    using inv by (simp add: names registry_map_ok_def bt_ordered_def)
  have "bt_get (kind_map r) k = None \<longleftrightarrow> k \<notin> kind_name ` set (registry_kinds r)"
    using names by (metis list.set_map map_of_eq_None_iff)
  then have unknown: "canonicalise cm r k s = Err (UnknownEntityKind k) \<longleftrightarrow>
      k \<notin> kind_name ` set (registry_kinds r)"
    by (cases "bt_get (kind_map r) k") (auto simp: canonicalise_def Let_def)
  have listed: "spec \<in> set (registry_kinds r) \<and> kind_name spec = k \<longleftrightarrow>
      (\<exists>e. bt_get (kind_map r) k = Some e \<and> kind_spec e = spec)" for spec
    using inv by (force simp: registry_kinds_def specs registry_map_ok_def bt_get_Some_iff)
  have "canonicalise cm r k s = Ok c \<longleftrightarrow> (\<exists>e. bt_get (kind_map r) k = Some e
      \<and> c = fold (normalise_apply cm) (kind_normalise (kind_spec e)) s
      \<and> (\<exists>m. compile (anchored (kind_pattern (kind_spec e))) = Some m \<and> m c))"
    using inv by (auto simp: canonicalise_def Let_def registry_map_ok_def split: if_splits)
  with sorted unknown listed show ?thesis by metis
qed

theorem registry_listing_decides_witness:
  "registry_from_yaml sample_kinds sample_regex [] = Ok sample_registry
   \<and> canonicalise ascii_case sample_registry ''order'' ''x'' = Err (UnknownEntityKind ''order'')
   \<and> canonicalise ascii_case sample_registry ''chat'' ''general'' = Ok ''general''"
  using registry_listing_decides [OF sample_registry_loads, of ascii_case "''order''" "''x''" "[]"]
    registry_listing_decides [OF sample_registry_loads, of ascii_case "''chat''" "''general''" "''general''"]
  by (simp add: sample_registry_loads)
    (simp add: sample_registry_def registry_kinds_def sample_regex_def Let_def)

end
