(* ===== verification/Action_Record.thy ===== *)
theory Action_Record
  imports Ids Entity Timestamp
begin

text \<open>
  \<open>yaam-contract/src/record.rs\<close> and \<open>structure.rs\<close>: the action record, the check every path a record
  crosses makes, and the projection a read hands back. \<open>ActionRecord\<close> is \<open>RecordStructure\<close> with a
  \<open>summary\<close>, and is declared as that extension. The size of a structure on the wire is what
  \<open>serde_json\<close> writes and is a parameter.
\<close>

datatype outcome = Success | Failure | Partial | Declined

datatype visibility = Owner | Team | Org | Operator

fun visibility_str :: "visibility \<Rightarrow> string" where
  "visibility_str Owner = ''owner''"
| "visibility_str Team = ''team''"
| "visibility_str Org = ''org''"
| "visibility_str Operator = ''operator''"

datatype data_class = Internal | SubjectDerived

fun data_class_str :: "data_class \<Rightarrow> string" where
  "data_class_str Internal = ''internal''"
| "data_class_str SubjectDerived = ''subject_derived''"

datatype subject_role = Principal | Party

record subject_ref =
  subj_hash :: subject_hash
  subj_role :: subject_role
  subj_canon :: canon_ver

text \<open>A scalar attribute value; \<open>AInt\<close> holds an \<open>i64\<close>.\<close>

datatype attr_value = AText string | AInt int | ABool bool

record record_structure =
  record_id :: record_id
  schema_ver :: schema_ver
  at_time :: string
  received_at :: string
  backfilled :: bool
  agent :: string
  agent_ver :: "string option"
  correlation_id :: "string option"
  action :: string
  outcome :: outcome
  attrs :: "(string, attr_value) btree"
  entities :: "entity_ref list"
  subjects :: "subject_ref list"
  visibility :: visibility
  team :: "string option"
  data_class :: data_class
  redaction_policy :: string
  fields_masked :: "string list"
  tags :: "string list"

record action_record = record_structure +
  summary :: string

text \<open>The names \<open>serde\<close> writes and reads for an outcome.\<close>

fun outcome_str :: "outcome \<Rightarrow> string" where
  "outcome_str Success = ''success''"
| "outcome_str Failure = ''failure''"
| "outcome_str Partial = ''partial''"
| "outcome_str Declined = ''declined''"

definition outcome_from_name :: "string \<Rightarrow> outcome option" where
  "outcome_from_name name =
     List.find (\<lambda>x. outcome_str x = name) [Success, Failure, Partial, Declined]"

lemma outcome_from_name_str [simp]: "outcome_from_name (outcome_str x) = Some x"
  by (cases x) (simp_all add: outcome_from_name_def)

lemma outcome_from_name_Some: "outcome_from_name n = Some x \<longleftrightarrow> n = outcome_str x"
  using find_Some_D [of "\<lambda>x. outcome_str x = n"]
  by (metis outcome_from_name_def outcome_from_name_str)

lemma visibility_str_inject [simp]: "visibility_str u = visibility_str v \<longleftrightarrow> u = v"
  by (cases u; cases v) simp_all

lemma data_class_str_inject [simp]: "data_class_str c = data_class_str d \<longleftrightarrow> c = d"
  by (cases c; cases d) simp_all

section \<open>The check\<close>

definition check_timestamp :: "string \<times> string \<Rightarrow> (unit, contract_error) result" where
  "check_timestamp = (\<lambda>(field, text).
     if parse_ms text = None then Err (Invalid (UnreadableTimestamp field text)) else Ok ())"

definition check_confidence :: "entity_ref \<Rightarrow> (unit, contract_error) result" where
  "check_confidence e =
     (if f32_le (F32 0) (ent_confidence e) \<and> f32_le (ent_confidence e) (F32 1) then Ok ()
      else Err (Invalid (ConfidenceOutOfRange (ent_id e) (ent_kind e) (ent_confidence e))))"

definition validate :: "action_record \<Rightarrow> (unit, contract_error) result" where
  "validate r =
     (if trim (action r) = [] then Err (Invalid ActionEmpty)
      else and_then
        (try_all check_timestamp [(''at'', at_time r), (''received_at'', received_at r)]) (\<lambda>_.
      if data_class r = Internal \<and> subjects r \<noteq> []
      then Err (Invalid (InternalNamesSubjects (length (subjects r))))
      else if length (subjects r) > 1
      then Err (Invalid (NamesTooManySubjects (length (subjects r))))
      else if visibility r = Team \<and> (case team r of None \<Rightarrow> True | Some t \<Rightarrow> trim t = [])
      then Err (Invalid TeamUnnamed)
      else try_all check_confidence (entities r)))"

section \<open>The structure of a record\<close>

definition structure_of :: "action_record \<Rightarrow> record_structure" where
  "structure_of r =
     \<lparr>record_id = record_id r, schema_ver = schema_ver r, at_time = at_time r, received_at = received_at r,
      backfilled = backfilled r, agent = agent r, agent_ver = agent_ver r,
      correlation_id = correlation_id r, action = action r, outcome = outcome r, attrs = attrs r,
      entities = entities r, subjects = subjects r, visibility = visibility r, team = team r,
      data_class = data_class r, redaction_policy = redaction_policy r,
      fields_masked = fields_masked r, tags = tags r\<rparr>"

definition BYTES_PER_TOKEN :: nat where
  "BYTES_PER_TOKEN = 4"

definition div_ceil :: "nat \<Rightarrow> nat \<Rightarrow> nat" where
  "div_ceil n d = (if n mod d = 0 then n div d else n div d + 1)"

text \<open>\<open>to_vec\<close> is \<open>serde_json\<close>'s writer, None where it refuses a value.\<close>

definition wire_bytes :: "(record_structure \<Rightarrow> string option) \<Rightarrow> record_structure \<Rightarrow> nat" where
  "wire_bytes to_vec s = (case to_vec s of None \<Rightarrow> 0 | Some bytes \<Rightarrow> length bytes)"

definition estimate_tokens ::
  "(record_structure \<Rightarrow> string option) \<Rightarrow> record_structure list \<Rightarrow> nat" where
  "estimate_tokens to_vec records =
     div_ceil (sum_list (map (wire_bytes to_vec) records)) BYTES_PER_TOKEN"

section \<open>Lemmas\<close>

lemma check_timestamp_Ok_iff: "check_timestamp (f, t) = Ok () \<longleftrightarrow> parse_ms t \<noteq> None"
  by (simp add: check_timestamp_def)

lemma check_confidence_Ok_iff:
  "check_confidence e = Ok () \<longleftrightarrow> (\<exists>q. ent_confidence e = F32 q \<and> 0 \<le> q \<and> q \<le> 1)"
  by (cases "ent_confidence e") (simp_all add: check_confidence_def)

definition well_formed :: "action_record \<Rightarrow> bool" where
  "well_formed r \<longleftrightarrow>
     trim (action r) \<noteq> []
     \<and> parse_ms (at_time r) \<noteq> None \<and> parse_ms (received_at r) \<noteq> None
     \<and> (data_class r = Internal \<longrightarrow> subjects r = []) \<and> length (subjects r) \<le> 1
     \<and> (visibility r = Team \<longrightarrow> (\<exists>t. team r = Some t \<and> trim t \<noteq> []))
     \<and> (\<forall>e \<in> set (entities r). \<exists>q. ent_confidence e = F32 q \<and> 0 \<le> q \<and> q \<le> 1)"

lemma validate_well_formed: "validate r = Ok () \<longleftrightarrow> well_formed r"
  by (simp add: validate_def well_formed_def try_all_Ok_iff check_timestamp_Ok_iff
      check_confidence_Ok_iff split: option.split)

lemma div_ceil_least: "0 < d \<Longrightarrow> div_ceil n d \<le> k \<longleftrightarrow> n \<le> k * d"
proof -
  assume d: "0 < d"
  show ?thesis
  proof (cases "n mod d = 0")
    case True
    then obtain q where "n = d * q" by (auto simp: mod_eq_0_iff_dvd elim: dvdE)
    with d show ?thesis by (simp add: div_ceil_def mult.commute)
  next
    case False
    have "n div d + 1 \<le> k \<longleftrightarrow> n div d < k" by auto
    also have "\<dots> \<longleftrightarrow> n < k * d" using d by (rule div_less_iff_less_mult)
    also have "\<dots> \<longleftrightarrow> n \<le> k * d"
    proof -
      have "n \<noteq> k * d" using False by auto
      then show ?thesis by linarith
    qed
    finally show ?thesis using False by (simp add: div_ceil_def)
  qed
qed

section \<open>Properties\<close>

text \<open>
  A record passes the check exactly when it is well formed: its action is more than white space,
  both its timestamps are readable, an internal record names no subject and any record at most one,
  a team-scoped record names its team, and every confidence is a number from 0 to 1 (so not NaN).
\<close>

theorem validate_decides:
  "validate r = Ok () \<longleftrightarrow>
     trim (action r) \<noteq> []
     \<and> (\<exists>ms. parse_ms (at_time r) = Some ms) \<and> (\<exists>ms. parse_ms (received_at r) = Some ms)
     \<and> length (subjects r) \<le> (if data_class r = Internal then 0 else 1)
     \<and> \<not> (visibility r = Team \<and> (team r = None \<or> (\<exists>t. team r = Some t \<and> trim t = [])))
     \<and> list_all (\<lambda>e. case ent_confidence e of F32 q \<Rightarrow> 0 \<le> q \<and> q \<le> 1 | _ \<Rightarrow> False) (entities r)"
proof -
  have conf: "(case c of F32 q \<Rightarrow> 0 \<le> q \<and> q \<le> 1 | _ \<Rightarrow> False) \<longleftrightarrow> (\<exists>q. c = F32 q \<and> 0 \<le> q \<and> q \<le> 1)"
    for c by (cases c) simp_all
  show ?thesis
    unfolding validate_well_formed well_formed_def conf list_all_iff
    by (cases "data_class r"; cases "team r") auto
qed

text \<open>
  The cost a read reports is the least number of tokens that covers the bytes it returns, and it
  never depends on a body: two records that differ in their prose alone cost the same.
\<close>

theorem token_estimate_tight:
  "(estimate_tokens to_vec rs \<le> k \<longleftrightarrow> sum_list (map (wire_bytes to_vec) rs) \<le> 4 * k)
   \<and> estimate_tokens to_vec (map structure_of (map (\<lambda>r. r\<lparr>summary := f r\<rparr>) docs))
       = estimate_tokens to_vec (map structure_of docs)"
proof
  show "estimate_tokens to_vec rs \<le> k \<longleftrightarrow> sum_list (map (wire_bytes to_vec) rs) \<le> 4 * k"
    using div_ceil_least [of 4 "sum_list (map (wire_bytes to_vec) rs)" k]
    by (simp add: estimate_tokens_def BYTES_PER_TOKEN_def mult.commute)
  have "structure_of (r\<lparr>summary := t\<rparr>) = structure_of r" for r t by (simp add: structure_of_def)
  then show "estimate_tokens to_vec (map structure_of (map (\<lambda>r. r\<lparr>summary := f r\<rparr>) docs))
       = estimate_tokens to_vec (map structure_of docs)"
    by (simp add: comp_def)
qed

section \<open>Sample records\<close>

definition sample_hash :: subject_hash where
  "sample_hash = SubjectHash (''s_'' @ replicate 64 (CHR ''0''))"

definition sample_record :: action_record where
  "sample_record = \<lparr>record_id = RecordId ''01ARZ3NDEKTSV4RRFFQ69G5FAV'', schema_ver = SchemaVer 1,
     at_time = ''2026-01-01T00:00:00Z'', received_at = ''2026-01-01T00:00:00Z'', backfilled = False,
     agent = ''agent'', agent_ver = None, correlation_id = None, action = ''deploy'',
     outcome = Success, attrs = [],
     entities = [\<lparr>ent_kind = ''ticket'', ent_id = ''PROJ-42'', ent_role = Primary, ent_confidence = F32 1\<rparr>],
     subjects = [], visibility = Org, team = None, data_class = Internal,
     redaction_policy = ''v1'', fields_masked = [], tags = [], summary = ''shipped''\<rparr>"

definition sample_sealed :: action_record where
  "sample_sealed = sample_record\<lparr>data_class := SubjectDerived,
     subjects := [\<lparr>subj_hash = sample_hash, subj_role = Principal, subj_canon = CanonVer 1\<rparr>]\<rparr>"

lemma sample_timestamp: "parse_ms ''2026-01-01T00:00:00Z'' = Some 1767225600000"
  by code_simp

lemma sample_record_valid: "validate sample_record = Ok ()" "validate sample_sealed = Ok ()"
proof -
  have "trim ''deploy'' \<noteq> []" by code_simp
  then show "validate sample_record = Ok ()" "validate sample_sealed = Ok ()"
    by (simp_all add: validate_well_formed well_formed_def sample_record_def sample_sealed_def
        sample_timestamp)
qed

end
