(* ===== verification/Attrs.thy ===== *)
theory Attrs
  imports Action_Record
begin

text \<open>
  \<open>yaam-contract/src/attrs.rs\<close>: the declared attribute surface. \<open>schema_from_yaml\<close> loads it,
  \<open>validate_frontmatter\<close> is the gate that keeps undeclared and sensitive keys out of plaintext.
\<close>

definition DECLARED_TYPES :: "string list" where
  "DECLARED_TYPES = [''string'', ''integer'', ''boolean'']"

datatype attr_class = Structural | Sensitive

definition class_from_name :: "string \<Rightarrow> string \<Rightarrow> (attr_class, contract_error) result" where
  "class_from_name name owner =
     (if name = ''structural'' then Ok Structural
      else if name = ''sensitive'' then Ok Sensitive
      else Err (Spec (UnknownAttrClass owner name)))"

record attr_spec =
  declared_type :: string
  declared_class :: attr_class

record action_spec =
  outcomes :: "string list option"
  declared_attrs :: "(string, attr_spec) btree"

record schema =
  actions :: "(string, action_spec) btree"

section \<open>Loading\<close>

definition parse_outcomes ::
  "yaml option \<Rightarrow> string \<Rightarrow> (string list option, contract_error) result" where
  "parse_outcomes node act =
     (case node of
        None \<Rightarrow> Ok None
      | Some y \<Rightarrow>
          and_then (ok_or (Spec (NonListOutcome act)) (as_vec y)) (\<lambda>items.
          if items = [] then Err (Spec (NoOutcome act))
          else and_then
            (try_map (\<lambda>item.
               and_then (ok_or (Spec (NonStringOutcome act)) (as_str item)) (\<lambda>name.
               and_then (ok_or (Spec (UnknownOutcome act name)) (outcome_from_name name)) (\<lambda>_.
                 Ok name))) items)
            (\<lambda>names. Ok (Some names))))"

definition read_attr ::
  "string \<Rightarrow> (string, attr_spec) btree \<Rightarrow> yaml \<times> yaml \<Rightarrow>
     ((string, attr_spec) btree, contract_error) result" where
  "read_attr act declared = (\<lambda>(attr_key, attr_value).
     and_then (key_name attr_key ''attribute'') (\<lambda>name.
     let owner = act @ ''.'' @ name in
     and_then (required_str attr_value ''type'' owner) (\<lambda>ty.
     if ty \<notin> set DECLARED_TYPES then Err (Spec (UnknownAttrType owner ty))
     else
     and_then (required_str attr_value ''class'' owner) (\<lambda>cls_name.
     and_then (class_from_name cls_name owner) (\<lambda>cls.
       Ok (bt_insert name \<lparr>declared_type = ty, declared_class = cls\<rparr> declared))))))"

definition read_action ::
  "(string, action_spec) btree \<Rightarrow> yaml \<times> yaml \<Rightarrow>
     ((string, action_spec) btree, contract_error) result" where
  "read_action acts = (\<lambda>(key, value).
     and_then (key_name key ''action'') (\<lambda>act.
     and_then
       (case as_mapping_get value ''attrs'' of
          None \<Rightarrow> Ok []
        | Some node \<Rightarrow>
            and_then (ok_or (Spec (NonMappingAttrs act)) (as_mapping node)) (\<lambda>declared.
              try_fold (read_attr act) [] declared)) (\<lambda>declared.
     and_then (parse_outcomes (as_mapping_get value ''outcome'') act) (\<lambda>outs.
       Ok (bt_insert act \<lparr>outcomes = outs, declared_attrs = declared\<rparr> acts)))))"

definition schema_from_yaml :: "yaml_loader \<Rightarrow> string \<Rightarrow> (schema, contract_error) result" where
  "schema_from_yaml load yaml =
     and_then (single_document load yaml) (\<lambda>doc.
     and_then (check_version doc) (\<lambda>_.
     and_then (required_mapping doc ''actions'') (\<lambda>entries.
     and_then (try_fold read_action [] entries) (\<lambda>acts. Ok \<lparr>actions = acts\<rparr>))))"

section \<open>Reading\<close>

definition check_key ::
  "string \<Rightarrow> action_spec option \<Rightarrow> string \<Rightarrow> (unit, contract_error) result" where
  "check_key act declared key =
     (case map_option declared_class (Option.bind declared (\<lambda>d. bt_get (declared_attrs d) key)) of
        Some Structural \<Rightarrow> Ok ()
      | Some Sensitive \<Rightarrow> Err (SensitiveAttrInFrontmatter key)
      | None \<Rightarrow> Err (UndeclaredAttr act key))"

definition validate_frontmatter ::
  "schema \<Rightarrow> string \<Rightarrow> (string, attr_value) btree \<Rightarrow> (unit, contract_error) result" where
  "validate_frontmatter s act attributes =
     (let declared = bt_get (actions s) act
      in try_all (check_key act declared) (map fst attributes))"

definition declared :: "schema \<Rightarrow> string \<Rightarrow> string \<Rightarrow> (attr_spec, contract_error) result" where
  "declared s act key =
     ok_or (UndeclaredAttr act key)
       (Option.bind (bt_get (actions s) act) (\<lambda>d. bt_get (declared_attrs d) key))"

definition class_of :: "schema \<Rightarrow> string \<Rightarrow> string \<Rightarrow> (attr_class, contract_error) result" where
  "class_of s act key = and_then (declared s act key) (\<lambda>a. Ok (declared_class a))"

definition type_of :: "schema \<Rightarrow> string \<Rightarrow> string \<Rightarrow> (string, contract_error) result" where
  "type_of s act key = and_then (declared s act key) (\<lambda>a. Ok (declared_type a))"

definition outcomes_for :: "schema \<Rightarrow> string \<Rightarrow> string list option" where
  "outcomes_for s act = Option.bind (bt_get (actions s) act) outcomes"

section \<open>Lemmas\<close>

lemma check_key_class_of: "check_key act (bt_get (actions s) act) key =
   and_then (class_of s act key) (\<lambda>c. case c of
      Structural \<Rightarrow> Ok () | Sensitive \<Rightarrow> Err (SensitiveAttrInFrontmatter key))"
  by (simp add: check_key_def class_of_def declared_def split: option.split attr_class.split)

lemma check_key_Err:
  assumes "check_key act (bt_get (actions s) act) key = Err e"
  shows "e = SensitiveAttrInFrontmatter key \<and> class_of s act key = Ok Sensitive
    \<or> e = UndeclaredAttr act key \<and> class_of s act key = Err (UndeclaredAttr act key)"
proof (cases "class_of s act key")
  case (Ok c)
  with assms show ?thesis by (cases c) (simp_all add: check_key_class_of)
next
  case (Err e')
  then have "e' = UndeclaredAttr act key" by (auto simp: class_of_def declared_def and_then_eq_Err)
  with assms Err show ?thesis by (simp add: check_key_class_of)
qed

definition spec_ok :: "action_spec \<Rightarrow> bool" where
  "spec_ok d \<longleftrightarrow> bt_ordered (declared_attrs d)
     \<and> (\<forall>(k, a) \<in> set (declared_attrs d). declared_type a \<in> set DECLARED_TYPES)
     \<and> (\<forall>names. outcomes d = Some names \<longrightarrow>
          names \<noteq> [] \<and> (\<forall>n \<in> set names. \<exists>x. n = outcome_str x))"

definition schema_ok :: "schema \<Rightarrow> bool" where
  "schema_ok s \<longleftrightarrow> bt_ordered (actions s) \<and> (\<forall>(n, d) \<in> set (actions s). spec_ok d)"

lemma parse_outcomes_Ok:
  assumes "parse_outcomes node act = Ok (Some names)"
  shows "names \<noteq> []" and "\<forall>n \<in> set names. \<exists>x. n = outcome_str x"
proof -
  from assms obtain items where items: "items \<noteq> []"
    and read: "list_all2 (\<lambda>item n. item = YStr n \<and> outcome_from_name n \<noteq> None) items names"
    by (auto simp: parse_outcomes_def try_map_Ok_iff split: option.splits if_splits
        elim!: list_all2_mono)
  from items read show "names \<noteq> []" by auto
  from read show "\<forall>n \<in> set names. \<exists>x. n = outcome_str x"
    by (fastforce simp: list_all2_conv_all_nth in_set_conv_nth outcome_from_name_Some)
qed

lemma read_attr_keeps:
  assumes "read_attr act m entry = Ok m'"
    and "bt_ordered m \<and> (\<forall>(k, a) \<in> set m. declared_type a \<in> set DECLARED_TYPES)"
  shows "bt_ordered m' \<and> (\<forall>(k, a) \<in> set m'. declared_type a \<in> set DECLARED_TYPES)"
  using assms by (cases entry) (fastforce simp: read_attr_def Let_def split: if_splits dest: set_bt_insertD)

lemma read_action_keeps:
  assumes read: "read_action m entry = Ok m'"
    and m: "bt_ordered m \<and> (\<forall>(n, d) \<in> set m. spec_ok d)"
  shows "bt_ordered m' \<and> (\<forall>(n, d) \<in> set m'. spec_ok d)"
proof -
  obtain key val where entry: "entry = (key, val)" by (cases entry)
  from read obtain act ds outs where
    attrs: "(case as_mapping_get val ''attrs'' of None \<Rightarrow> Ok []
        | Some node \<Rightarrow> and_then (ok_or (Spec (NonMappingAttrs act)) (as_mapping node)) (\<lambda>declared.
            try_fold (read_attr act) [] declared)) = Ok ds"
    and outs: "parse_outcomes (as_mapping_get val ''outcome'') act = Ok outs"
    and m': "m' = bt_insert act \<lparr>outcomes = outs, declared_attrs = ds\<rparr> m"
    unfolding read_action_def entry by auto
  from attrs have ds: "ds = [] \<or> (\<exists>es. try_fold (read_attr act) [] es = Ok ds)"
    by (auto split: option.splits)
  have "bt_ordered ds \<and> (\<forall>(k, a) \<in> set ds. declared_type a \<in> set DECLARED_TYPES)"
    using ds
  proof (elim disjE exE)
    fix es assume "try_fold (read_attr act) [] es = Ok ds"
    then show ?thesis by (rule try_fold_invariant) (simp, rule read_attr_keeps)
  qed simp
  with outs have "spec_ok \<lparr>outcomes = outs, declared_attrs = ds\<rparr>"
    by (auto simp: spec_ok_def dest: parse_outcomes_Ok)
  with m m' show ?thesis by (auto dest: set_bt_insertD)
qed

lemma schema_from_yaml_ok:
  assumes "schema_from_yaml load yaml = Ok s"
  shows "schema_ok s"
proof -
  from assms obtain es where "try_fold read_action [] es = Ok (actions s)"
    by (auto simp: schema_from_yaml_def)
  then have "bt_ordered (actions s) \<and> (\<forall>(n, d) \<in> set (actions s). spec_ok d)"
    by (rule try_fold_invariant) (auto dest: read_action_keeps)
  then show ?thesis by (simp add: schema_ok_def)
qed

section \<open>Properties\<close>

text \<open>
  C29: the frontmatter gate passes a record exactly when the schema declares every one of its
  attribute keys structural for its action. When it refuses one, it names a key the record presents:
  one declared sensitive, or one not declared at all.
\<close>

theorem frontmatter_gate:
  "(validate_frontmatter s act attributes = Ok () \<longleftrightarrow>
      (\<forall>key \<in> set (map fst attributes). class_of s act key = Ok Structural))
   \<and> (validate_frontmatter s act attributes = Err e \<longrightarrow>
      (\<exists>key \<in> set (map fst attributes).
         e = SensitiveAttrInFrontmatter key \<and> class_of s act key = Ok Sensitive
         \<or> e = UndeclaredAttr act key \<and> class_of s act key = Err (UndeclaredAttr act key)))"
proof
  have one: "check_key act (bt_get (actions s) act) key = Ok () \<longleftrightarrow> class_of s act key = Ok Structural"
    for key
    by (cases "class_of s act key") (auto simp: check_key_class_of split: attr_class.split)
  show "validate_frontmatter s act attributes = Ok () \<longleftrightarrow>
      (\<forall>key \<in> set (map fst attributes). class_of s act key = Ok Structural)"
    by (simp add: validate_frontmatter_def Let_def try_all_Ok_iff one)
  show "validate_frontmatter s act attributes = Err e \<longrightarrow>
      (\<exists>key \<in> set (map fst attributes).
         e = SensitiveAttrInFrontmatter key \<and> class_of s act key = Ok Sensitive
         \<or> e = UndeclaredAttr act key \<and> class_of s act key = Err (UndeclaredAttr act key))"
  proof
    assume "validate_frontmatter s act attributes = Err e"
    then show "\<exists>key \<in> set (map fst attributes).
         e = SensitiveAttrInFrontmatter key \<and> class_of s act key = Ok Sensitive
         \<or> e = UndeclaredAttr act key \<and> class_of s act key = Err (UndeclaredAttr act key)"
      unfolding validate_frontmatter_def Let_def by (metis try_all_ErrD check_key_Err)
  qed
qed

definition sample_attrs :: yaml_loader where
  "sample_attrs _ = Some [YMap [(YStr ''actions'', YMap
     [(YStr ''deploy'', YMap
        [(YStr ''attrs'', YMap
           [(YStr ''service'', YMap [(YStr ''type'', YStr ''string''), (YStr ''class'', YStr ''structural'')]),
            (YStr ''reason'', YMap [(YStr ''type'', YStr ''string''), (YStr ''class'', YStr ''sensitive'')])]),
         (YStr ''outcome'', YSeq [YStr ''success'', YStr ''failure''])])])]]"

definition sample_schema :: schema where
  "sample_schema = \<lparr>actions = [(''deploy'',
     \<lparr>outcomes = Some [''success'', ''failure''],
      declared_attrs =
        [(''reason'', \<lparr>declared_type = ''string'', declared_class = Sensitive\<rparr>),
         (''service'', \<lparr>declared_type = ''string'', declared_class = Structural\<rparr>)]\<rparr>)]\<rparr>"

lemma sample_schema_loads: "schema_from_yaml sample_attrs [] = Ok sample_schema"
  by (simp add: schema_from_yaml_def single_document_def sample_attrs_def check_version_def
      required_mapping_def read_action_def read_attr_def key_name_def required_str_def
      DECLARED_TYPES_def class_from_name_def parse_outcomes_def outcome_from_name_def
      sample_schema_def Let_def)

theorem frontmatter_gate_witness:
  "validate_frontmatter sample_schema ''deploy'' [(''reason'', AText [])]
     = Err (SensitiveAttrInFrontmatter ''reason'')
   \<and> class_of sample_schema ''deploy'' ''reason'' = Ok Sensitive"
proof -
  have "validate_frontmatter sample_schema ''deploy'' [(''reason'', AText [])]
     = Err (SensitiveAttrInFrontmatter ''reason'')"
    by (simp add: validate_frontmatter_def check_key_def sample_schema_def)
  then show ?thesis
    using frontmatter_gate [of sample_schema "''deploy''" "[(''reason'', AText [])]"
        "SensitiveAttrInFrontmatter ''reason''"] by simp
qed

text \<open>
  A schema that loads declares only known types, and an action that lists outcomes lists at
  least one and lists only names that an \<open>Outcome\<close> is written with, so no action is declared that no
  record could report.
\<close>

theorem loaded_schema_declares:
  assumes "schema_from_yaml load yaml = Ok s"
  shows "(type_of s act key = Ok ty \<longrightarrow> ty \<in> {''string'', ''integer'', ''boolean''})
    \<and> (outcomes_for s act = Some names \<longrightarrow>
         names \<noteq> [] \<and> (\<forall>n \<in> set names. \<exists>x. n = outcome_str x))"
proof -
  have ok: "spec_ok d" if "bt_get (actions s) act = Some d" for d
    using schema_from_yaml_ok [OF assms] map_of_SomeD [OF that] by (auto simp: schema_ok_def)
  have "ty \<in> set DECLARED_TYPES" if ty: "type_of s act key = Ok ty"
  proof -
    from ty obtain d a where "bt_get (actions s) act = Some d" and "bt_get (declared_attrs d) key = Some a"
      and "ty = declared_type a"
      by (auto simp: type_of_def declared_def bind_eq_Some_conv)
    with ok map_of_SomeD show ?thesis by (fastforce simp: spec_ok_def)
  qed
  with ok show ?thesis
    by (auto simp: DECLARED_TYPES_def outcomes_for_def bind_eq_Some_conv spec_ok_def)
qed

theorem loaded_schema_declares_witness:
  "outcomes_for sample_schema ''deploy'' = Some [''success'', ''failure'']
   \<and> (\<exists>x. ''success'' = outcome_str x) \<and> (\<exists>x. ''failure'' = outcome_str x)"
proof -
  have o: "outcomes_for sample_schema ''deploy'' = Some [''success'', ''failure'']"
    by (simp add: outcomes_for_def sample_schema_def)
  then show ?thesis using loaded_schema_declares [OF sample_schema_loads, of "''deploy''"]
    by (simp only: list.set ball_simps simp_thms)
      (metis insertI1 insertI2 list.set(2) option.inject)
qed

end
