(* ===== verification/Mask.thy ===== *)
theory Mask
  imports Spec_Yaml
begin

text \<open>
  \<open>yaam-contract/src/mask.rs\<close> and the check \<open>yaam-core/src/policy.rs\<close> makes with it: the redaction
  policy a writer masks with and the service refuses bodies by. The \<open>regex\<close> crate is a parameter:
  \<open>compile\<close> refuses an unusable pattern and otherwise returns what \<open>find_iter\<close> yields, the byte spans
  of the successive matches. \<open>alphabetic\<close> says whether a text holds an alphabetic character, which is
  a Unicode table. The Luhn sum is a natural number; the code's \<open>u32\<close> would take a match of more than
  four hundred million digits to wrap.
\<close>

type_synonym matcher = "string \<Rightarrow> (nat \<times> nat) list"

type_synonym matcher_compiler = "string \<Rightarrow> matcher option"

definition MAX_ROUNDS :: nat where
  "MAX_ROUNDS = 4"

record mask_policy =
  policy_name :: string
  patterns :: "(string \<times> matcher) list"

record masked =
  masked_text :: string
  masked_fields :: "string list"

section \<open>Which matches count\<close>

definition luhn_digit :: "nat \<times> nat \<Rightarrow> nat" where
  "luhn_digit = (\<lambda>(place, digit).
     if place mod 2 = 0 then digit
     else if digit * 2 > 9 then digit * 2 - 9 else digit * 2)"

definition luhn :: "string \<Rightarrow> bool" where
  "luhn text =
     (let ds = map digit_value (filter is_ascii_digit text)
      in if length ds < 2 then False
         else sum_list (map luhn_digit (enumerate 0 (rev ds))) mod 10 = 0)"

definition maskable :: "(string \<Rightarrow> bool) \<Rightarrow> string \<Rightarrow> bool" where
  "maskable alphabetic text =
     (if alphabetic text then True else \<not> list_ex is_ascii_digit text \<or> luhn text)"

definition replacement :: "string \<Rightarrow> string" where
  "replacement label = ''[masked:'' @ label @ '']''"

definition slice :: "string \<Rightarrow> nat \<Rightarrow> nat \<Rightarrow> string" where
  "slice text lo hi = take (hi - lo) (drop lo text)"

text \<open>\<open>replace_all\<close> with a closure: the text between matches is kept.\<close>

fun replace_spans :: "(string \<Rightarrow> string) \<Rightarrow> string \<Rightarrow> nat \<Rightarrow> (nat \<times> nat) list \<Rightarrow> string" where
  "replace_spans f text prev [] = drop prev text"
| "replace_spans f text prev ((lo, hi) # rest) =
     slice text prev lo @ f (slice text lo hi) @ replace_spans f text hi rest"

definition mask_match :: "(string \<Rightarrow> bool) \<Rightarrow> string \<Rightarrow> string \<Rightarrow> string" where
  "mask_match alphabetic label found =
     (if maskable alphabetic found then replacement label else found)"

definition replace_all :: "(string \<Rightarrow> bool) \<Rightarrow> string \<times> matcher \<Rightarrow> string \<Rightarrow> string" where
  "replace_all alphabetic = (\<lambda>(label, pattern) text.
     replace_spans (mask_match alphabetic label) text 0 (pattern text))"

section \<open>Masking\<close>

definition mask_pattern ::
  "(string \<Rightarrow> bool) \<Rightarrow> string \<times> matcher \<Rightarrow> string \<times> bool \<times> string list \<Rightarrow>
     string \<times> bool \<times> string list" where
  "mask_pattern alphabetic p = (\<lambda>(text, changed, account).
     let replaced = replace_all alphabetic p text
     in if replaced \<noteq> text
        then (replaced, True, if fst p \<in> set account then account else account @ [fst p])
        else (text, changed, account))"

definition mask_round ::
  "(string \<Rightarrow> bool) \<Rightarrow> mask_policy \<Rightarrow> string \<Rightarrow> string list \<Rightarrow> string \<times> bool \<times> string list" where
  "mask_round alphabetic policy text account =
     fold (mask_pattern alphabetic) (patterns policy) (text, False, account)"

fun mask_rounds ::
  "(string \<Rightarrow> bool) \<Rightarrow> mask_policy \<Rightarrow> nat \<Rightarrow> string \<Rightarrow> string list \<Rightarrow> string \<times> string list" where
  "mask_rounds alphabetic policy 0 text account = (text, account)"
| "mask_rounds alphabetic policy (Suc n) text account =
     (let (text', changed, account') = mask_round alphabetic policy text account
      in if changed then mask_rounds alphabetic policy n text' account' else (text', account'))"

definition mask :: "(string \<Rightarrow> bool) \<Rightarrow> mask_policy \<Rightarrow> string \<Rightarrow> masked" where
  "mask alphabetic policy body =
     (let (text, account) = mask_rounds alphabetic policy MAX_ROUNDS body []
      in \<lparr>masked_text = text, masked_fields = account\<rparr>)"

definition counts :: "(string \<Rightarrow> bool) \<Rightarrow> string \<Rightarrow> string \<times> matcher \<Rightarrow> bool" where
  "counts alphabetic text = (\<lambda>(label, pattern).
     list_ex (\<lambda>(lo, hi). maskable alphabetic (slice text lo hi)) (pattern text))"

definition first_match :: "(string \<Rightarrow> bool) \<Rightarrow> mask_policy \<Rightarrow> string \<Rightarrow> string option" where
  "first_match alphabetic policy text =
     map_option fst (List.find (counts alphabetic text) (patterns policy))"

section \<open>Loading\<close>

definition check_replacements_are_inert ::
  "(string \<Rightarrow> bool) \<Rightarrow> mask_policy \<Rightarrow> (unit, contract_error) result" where
  "check_replacements_are_inert alphabetic policy =
     try_all (\<lambda>(label, _).
       case first_match alphabetic policy (replacement label) of
         Some hit \<Rightarrow> Err (Spec (PatternMatchesReplacement hit label))
       | None \<Rightarrow> Ok ()) (patterns policy)"

definition read_pattern ::
  "matcher_compiler \<Rightarrow> (string \<times> matcher) list \<Rightarrow> yaml \<Rightarrow>
     ((string \<times> matcher) list, contract_error) result" where
  "read_pattern compile ps item =
     (if Option.bind (as_mapping_get item ''action'') as_str \<noteq> Some ''mask'' then Ok ps
      else
        and_then (required_str item ''name'' ''pattern'') (\<lambda>label.
        and_then (required_str item ''regex'' label) (\<lambda>source.
        and_then (ok_or (Spec (UnusablePattern label)) (compile source)) (\<lambda>compiled.
          Ok (ps @ [(label, compiled)])))))"

definition policy_from_yaml ::
  "(string \<Rightarrow> bool) \<Rightarrow> yaml_loader \<Rightarrow> matcher_compiler \<Rightarrow> string \<Rightarrow>
     (mask_policy, contract_error) result" where
  "policy_from_yaml alphabetic load compile yaml =
     and_then (single_document load yaml) (\<lambda>doc.
     and_then (check_version doc) (\<lambda>_.
     and_then (required_str doc ''policy'' ''redaction policy'') (\<lambda>name.
     and_then
       (case Option.bind (as_mapping_get doc ''patterns'') as_vec of
          Some items \<Rightarrow> try_fold (read_pattern compile) [] items
        | None \<Rightarrow> Ok []) (\<lambda>ps.
     let policy = \<lparr>policy_name = name, patterns = ps\<rparr> in
     and_then (check_replacements_are_inert alphabetic policy) (\<lambda>_. Ok policy)))))"

text \<open>\<open>Redaction\<close> of the service: None where the deployment configures no policy.\<close>

record redaction =
  red_policy :: "mask_policy option"

definition redaction_parse ::
  "(string \<Rightarrow> bool) \<Rightarrow> yaml_loader \<Rightarrow> matcher_compiler \<Rightarrow> string \<Rightarrow>
     (redaction, contract_error) result" where
  "redaction_parse alphabetic load compile text =
     and_then (policy_from_yaml alphabetic load compile text) (\<lambda>p. Ok \<lparr>red_policy = Some p\<rparr>)"

text \<open>\<open>file\<close> is what \<open>read_to_string_opt\<close> found: None where there is no policy file.\<close>

definition redaction_load ::
  "(string \<Rightarrow> bool) \<Rightarrow> yaml_loader \<Rightarrow> matcher_compiler \<Rightarrow> string option \<Rightarrow>
     (redaction, contract_error) result" where
  "redaction_load alphabetic load compile file =
     (case file of
        None \<Rightarrow> Ok \<lparr>red_policy = None\<rparr>
      | Some text \<Rightarrow> redaction_parse alphabetic load compile text)"

definition redaction_name :: "redaction \<Rightarrow> string" where
  "redaction_name r = (case red_policy r of None \<Rightarrow> [] | Some p \<Rightarrow> policy_name p)"

definition redaction_first_match :: "(string \<Rightarrow> bool) \<Rightarrow> redaction \<Rightarrow> string \<Rightarrow> string option" where
  "redaction_first_match alphabetic r text =
     Option.bind (red_policy r) (\<lambda>p. first_match alphabetic p text)"

section \<open>Lemmas on rounds\<close>

abbreviation round_text :: "(string \<Rightarrow> bool) \<Rightarrow> mask_policy \<Rightarrow> string \<Rightarrow> string" where
  "round_text alphabetic policy \<equiv> fold (replace_all alphabetic) (patterns policy)"

definition quiet :: "(string \<Rightarrow> bool) \<Rightarrow> (string \<times> matcher) list \<Rightarrow> string \<Rightarrow> bool" where
  "quiet alphabetic ps body \<longleftrightarrow> (\<forall>p \<in> set ps. replace_all alphabetic p body = body)"

lemma quiet_Cons [simp]:
  "quiet alphabetic (p # ps) body \<longleftrightarrow> replace_all alphabetic p body = body \<and> quiet alphabetic ps body"
  by (auto simp: quiet_def)

lemma quiet_Nil [simp]: "quiet alphabetic [] body"
  by (simp add: quiet_def)

lemma mask_pattern_simps:
  "replace_all alphabetic p body = body \<Longrightarrow> mask_pattern alphabetic p (body, c, f) = (body, c, f)"
  "replace_all alphabetic p body \<noteq> body \<Longrightarrow> mask_pattern alphabetic p (body, c, f)
     = (replace_all alphabetic p body, True, if fst p \<in> set f then f else f @ [fst p])"
  by (simp_all add: mask_pattern_def Let_def)

lemma quiet_round_text: "quiet alphabetic ps body \<Longrightarrow> fold (replace_all alphabetic) ps body = body"
  by (induction ps) auto

lemma fold_mask_pattern_text:
  "fst (fold (mask_pattern alphabetic) ps (body, c, f)) = fold (replace_all alphabetic) ps body"
proof (induction ps arbitrary: body c f)
  case (Cons p ps)
  then show ?case by (cases "replace_all alphabetic p body = body") (simp_all add: mask_pattern_simps)
qed simp

lemma fold_mask_pattern_quiet:
  "quiet alphabetic ps body \<Longrightarrow> fold (mask_pattern alphabetic) ps (body, c, f) = (body, c, f)"
  by (induction ps) (auto simp: mask_pattern_simps)

lemma fold_mask_pattern_keeps:
  assumes "fold (mask_pattern alphabetic) ps (body, c, f) = (body', c', f')"
  shows "(c \<longrightarrow> c') \<and> (f \<noteq> [] \<longrightarrow> f' \<noteq> []) \<and> (distinct f \<longrightarrow> distinct f')
    \<and> set f' \<subseteq> set f \<union> fst ` set ps"
  using assms
proof (induction ps arbitrary: body c f)
  case (Cons p ps)
  show ?case
  proof (cases "replace_all alphabetic p body = body")
    case True
    with Cons show ?thesis by (fastforce simp: mask_pattern_simps)
  next
    case False
    define g where "g = (if fst p \<in> set f then f else f @ [fst p])"
    have g: "f \<noteq> [] \<longrightarrow> g \<noteq> []" "distinct f \<longrightarrow> distinct g" "set g \<subseteq> set f \<union> {fst p}"
      by (auto simp: g_def)
    from Cons.prems False
    have "fold (mask_pattern alphabetic) ps (replace_all alphabetic p body, True, g) = (body', c', f')"
      by (simp add: mask_pattern_simps g_def)
    from Cons.IH [OF this] g show ?thesis by auto
  qed
qed simp

lemma fold_mask_pattern_changes:
  assumes "fold (mask_pattern alphabetic) ps (body, c, f) = (body', c', f')"
    and "\<not> quiet alphabetic ps body"
  shows "c' \<and> f' \<noteq> []"
  using assms
proof (induction ps arbitrary: f)
  case (Cons p ps)
  show ?case
  proof (cases "replace_all alphabetic p body = body")
    case True
    with Cons.IH [of f] Cons.prems show ?thesis by (simp add: mask_pattern_simps)
  next
    case False
    define g where "g = (if fst p \<in> set f then f else f @ [fst p])"
    have "g \<noteq> []" by (auto simp: g_def)
    moreover from Cons.prems(1) False
    have "fold (mask_pattern alphabetic) ps (replace_all alphabetic p body, True, g) = (body', c', f')"
      by (simp add: mask_pattern_simps g_def)
    ultimately show ?thesis using fold_mask_pattern_keeps by blast
  qed
qed simp

lemma mask_round_changed:
  assumes "mask_round alphabetic policy body account = (body', changed, account')"
  shows "changed \<longleftrightarrow> \<not> quiet alphabetic (patterns policy) body"
    and "body' = round_text alphabetic policy body"
    and "\<not> changed \<Longrightarrow> account' = account" and "changed \<Longrightarrow> account' \<noteq> []"
    and "distinct account \<Longrightarrow> distinct account'"
    and "set account' \<subseteq> set account \<union> fst ` set (patterns policy)"
proof -
  have f: "fold (mask_pattern alphabetic) (patterns policy) (body, False, account)
      = (body', changed, account')"
    using assms by (simp add: mask_round_def)
  have q: "\<not> changed \<and> account' = account" if "quiet alphabetic (patterns policy) body"
    using fold_mask_pattern_quiet [OF that, of False account] f by simp
  note nq = fold_mask_pattern_changes [OF f]
  show "changed \<longleftrightarrow> \<not> quiet alphabetic (patterns policy) body" using q nq by blast
  show "\<not> changed \<Longrightarrow> account' = account" using q nq by blast
  show "changed \<Longrightarrow> account' \<noteq> []" using q nq by blast
  show "body' = round_text alphabetic policy body"
    using fold_mask_pattern_text [of alphabetic "patterns policy" body False account] f by simp
  show "distinct account \<Longrightarrow> distinct account'" "set account' \<subseteq> set account \<union> fst ` set (patterns policy)"
    using fold_mask_pattern_keeps [OF f] by simp_all
qed

lemma mask_rounds_text:
  assumes "mask_rounds alphabetic policy n body account = (body', account')"
  shows "\<exists>k \<le> n. body' = (round_text alphabetic policy ^^ k) body
    \<and> (k = n \<or> quiet alphabetic (patterns policy) body')"
  using assms
proof (induction n arbitrary: body account)
  case 0
  then show ?case by simp
next
  case (Suc n)
  obtain t c g where r: "mask_round alphabetic policy body account = (t, c, g)" by (cases "mask_round alphabetic policy body account")
  note mr = mask_round_changed(1,2) [OF r]
  show ?case
  proof (cases c)
    case True
    with Suc.prems r have "mask_rounds alphabetic policy n t g = (body', account')" by simp
    from Suc.IH [OF this] obtain k where "k \<le> n" "body' = (round_text alphabetic policy ^^ k) t"
      "k = n \<or> quiet alphabetic (patterns policy) body'" by blast
    with mr(2) show ?thesis by (intro exI [of _ "Suc k"]) (simp add: funpow_swap1)
  next
    case False
    with mr have q: "quiet alphabetic (patterns policy) body" by simp
    with Suc.prems r mr False have "body' = body" by (simp add: quiet_round_text)
    with q show ?thesis by (intro exI [of _ 0]) simp
  qed
qed

lemma mask_rounds_account:
  assumes "mask_rounds alphabetic policy n body account = (body', account')"
  shows "(distinct account \<longrightarrow> distinct account') \<and> (account \<noteq> [] \<longrightarrow> account' \<noteq> [])
    \<and> set account' \<subseteq> set account \<union> fst ` set (patterns policy)"
  using assms
proof (induction n arbitrary: body account)
  case 0
  then show ?case by simp
next
  case (Suc n)
  obtain t c g where r: "mask_round alphabetic policy body account = (t, c, g)" by (cases "mask_round alphabetic policy body account")
  note mr = mask_round_changed(3-6) [OF r]
  show ?case
  proof (cases c)
    case True
    with Suc.prems r have "mask_rounds alphabetic policy n t g = (body', account')" by simp
    from Suc.IH [OF this] mr True show ?thesis by blast
  next
    case False
    with Suc.prems r mr show ?thesis by simp
  qed
qed

lemma mask_quiet_iff:
  "mask alphabetic policy body = \<lparr>masked_text = body, masked_fields = []\<rparr>
     \<longleftrightarrow> quiet alphabetic (patterns policy) body"
proof -
  obtain t c g where r: "mask_round alphabetic policy body [] = (t, c, g)" by (cases "mask_round alphabetic policy body []")
  note mr = mask_round_changed(1-4) [OF r]
  have four: "mask_rounds alphabetic policy MAX_ROUNDS body [] =
      (if c then mask_rounds alphabetic policy 3 t g else (t, g))"
    using r by (simp add: MAX_ROUNDS_def eval_nat_numeral)
  obtain u h where u: "mask_rounds alphabetic policy 3 t g = (u, h)" by (cases "mask_rounds alphabetic policy 3 t g")
  show ?thesis
    using four mr u mask_rounds_account [OF u]
    by (cases c) (auto simp: mask_def quiet_round_text)
qed

lemma mask_fields_Nil_iff:
  "masked_fields (mask alphabetic policy body) = [] \<longleftrightarrow> quiet alphabetic (patterns policy) body"
proof -
  obtain t c g where r: "mask_round alphabetic policy body [] = (t, c, g)" by (cases "mask_round alphabetic policy body []")
  note mr = mask_round_changed(1-4) [OF r]
  have four: "mask_rounds alphabetic policy MAX_ROUNDS body [] =
      (if c then mask_rounds alphabetic policy 3 t g else (t, g))"
    using r by (simp add: MAX_ROUNDS_def eval_nat_numeral)
  obtain u h where u: "mask_rounds alphabetic policy 3 t g = (u, h)" by (cases "mask_rounds alphabetic policy 3 t g")
  show ?thesis
    using four mr u mask_rounds_account [OF u] by (cases c) (auto simp: mask_def)
qed

lemma quiet_mask_iff:
  "quiet alphabetic (patterns policy) (masked_text (mask alphabetic policy body)) \<longleftrightarrow>
     (\<exists>k \<le> MAX_ROUNDS. quiet alphabetic (patterns policy) ((round_text alphabetic policy ^^ k) body))"
proof -
  obtain t g where m: "mask_rounds alphabetic policy MAX_ROUNDS body [] = (t, g)" by (cases "mask_rounds alphabetic policy MAX_ROUNDS body []")
  from mask_rounds_text [OF m] obtain j where j: "j \<le> MAX_ROUNDS"
    "t = (round_text alphabetic policy ^^ j) body"
    "j = MAX_ROUNDS \<or> quiet alphabetic (patterns policy) t" by blast
  have stays: "quiet alphabetic (patterns policy) ((round_text alphabetic policy ^^ (d + k)) body)"
    if "quiet alphabetic (patterns policy) ((round_text alphabetic policy ^^ k) body)" for d k
    using that by (induction d) (simp_all add: quiet_round_text)
  have "quiet alphabetic (patterns policy) t" if "k \<le> MAX_ROUNDS"
    "quiet alphabetic (patterns policy) ((round_text alphabetic policy ^^ k) body)" for k
    using stays [OF that(2), of "MAX_ROUNDS - k"] that(1) j by auto
  with j m show ?thesis by (auto simp: mask_def)
qed

section \<open>Lemmas on matches\<close>

text \<open>What \<open>find_iter\<close> documents: the matches are in order, do not overlap and lie within the text.\<close>

fun spans_ok :: "nat \<Rightarrow> nat \<Rightarrow> (nat \<times> nat) list \<Rightarrow> bool" where
  "spans_ok prev len [] = (prev \<le> len)"
| "spans_ok prev len ((lo, hi) # rest) =
     (prev \<le> lo \<and> lo \<le> hi \<and> hi \<le> len \<and> spans_ok hi len rest)"

definition matcher_ok :: "matcher \<Rightarrow> bool" where
  "matcher_ok m \<longleftrightarrow> (\<forall>body. spans_ok 0 (length body) (m body))"

lemma slice_drop:
  assumes "a \<le> b" "b \<le> length t" shows "slice t a b @ drop b t = drop a t"
proof -
  have "drop b t = drop (b - a) (drop a t)" using assms by simp
  then show ?thesis by (simp add: slice_def del: drop_drop)
qed

lemma spans_ok_le: "spans_ok a n sp \<Longrightarrow> a \<le> n"
  by (cases sp) auto

lemma replace_spans_id:
  assumes "spans_ok prev (length t) sp" "\<forall>(lo, hi) \<in> set sp. f (slice t lo hi) = slice t lo hi"
  shows "replace_spans f t prev sp = drop prev t"
  using assms
proof (induction sp arbitrary: prev)
  case (Cons p sp)
  obtain lo hi where p: "p = (lo, hi)" by (cases p)
  with Cons have "replace_spans f t hi sp = drop hi t" by simp
  with Cons.prems p slice_drop [of lo hi t] slice_drop [of prev lo t] show ?case by simp
qed simp

lemma first_match_None_quiet:
  assumes "first_match alphabetic policy body = None"
    and "\<forall>(label, m) \<in> set (patterns policy). matcher_ok m"
  shows "quiet alphabetic (patterns policy) body"
  unfolding quiet_def
proof
  fix p assume p: "p \<in> set (patterns policy)"
  obtain label m where lm: "p = (label, m)" by (cases p)
  have "\<not> counts alphabetic body p" using assms(1) p unfolding lm
    by (simp add: first_match_def find_None_iff lm)
  then have "\<forall>(lo, hi) \<in> set (m body). mask_match alphabetic label (slice body lo hi) = slice body lo hi"
    by (auto simp: lm counts_def list_ex_iff mask_match_def)
  moreover have "spans_ok 0 (length body) (m body)" using assms(2) p lm by (auto simp: matcher_ok_def)
  ultimately show "replace_all alphabetic p body = body"
    by (simp add: replace_all_def lm replace_spans_id)
qed

section \<open>Lemmas on the checksum\<close>

lemma luhn_digit_less: "d < 10 \<Longrightarrow> luhn_digit (i, d) < 10"
  by (auto simp: luhn_digit_def)

lemma luhn_digit_inject:
  assumes "d < 10" "e < 10" "luhn_digit (i, d) = luhn_digit (i, e)" shows "d = e"
  using assms by (simp add: luhn_digit_def split: if_splits) presburger+

lemma luhn_sum_one_digit:
  assumes "d < 10" "e < 10" "d \<noteq> e"
    and "sum_list (map luhn_digit (enumerate 0 (xs @ d # ys))) mod 10 = 0"
  shows "sum_list (map luhn_digit (enumerate 0 (xs @ e # ys))) mod 10 \<noteq> 0"
proof
  define s where "s = sum_list (map luhn_digit (enumerate 0 xs))
    + sum_list (map luhn_digit (enumerate (Suc (length xs)) ys))"
  have sum: "sum_list (map luhn_digit (enumerate 0 (xs @ c # ys))) = s + luhn_digit (length xs, c)" for c
    by (simp add: s_def enumerate_append_eq)
  assume "sum_list (map luhn_digit (enumerate 0 (xs @ e # ys))) mod 10 = 0"
  then have "(s + luhn_digit (length xs, d)) mod 10 = 0" "(s + luhn_digit (length xs, e)) mod 10 = 0"
    using assms(4) sum by simp_all
  moreover have "luhn_digit (length xs, d) < 10" "luhn_digit (length xs, e) < 10"
    using assms(1,2) luhn_digit_less by auto
  ultimately have "luhn_digit (length xs, d) = luhn_digit (length xs, e)" by presburger
  with assms(1-3) luhn_digit_inject show False by blast
qed

section \<open>Lemmas on loading\<close>

lemma read_pattern_compiled:
  assumes "read_pattern compile ps item = Ok ps'" "\<forall>(l, m) \<in> set ps. \<exists>src. compile src = Some m"
  shows "\<forall>(l, m) \<in> set ps'. \<exists>src. compile src = Some m"
  using assms by (auto simp: read_pattern_def split: if_splits)

lemma policy_from_yaml_Ok:
  assumes "policy_from_yaml alphabetic load compile yaml = Ok policy"
  shows "\<forall>(l, m) \<in> set (patterns policy). \<exists>src. compile src = Some m"
    and "\<forall>(l, m) \<in> set (patterns policy). first_match alphabetic policy (replacement l) = None"
proof -
  from assms obtain doc where
    ps: "(case Option.bind (as_mapping_get doc ''patterns'') as_vec of
        Some items \<Rightarrow> try_fold (read_pattern compile) [] items | None \<Rightarrow> Ok []) = Ok (patterns policy)"
    and inert: "check_replacements_are_inert alphabetic policy = Ok ()"
    by (auto simp: policy_from_yaml_def Let_def)
  show "\<forall>(l, m) \<in> set (patterns policy). \<exists>src. compile src = Some m"
  proof (cases "Option.bind (as_mapping_get doc ''patterns'') as_vec")
    case (Some items)
    with ps have "try_fold (read_pattern compile) [] items = Ok (patterns policy)" by simp
    then show ?thesis by (rule try_fold_invariant) (simp, rule read_pattern_compiled)
  qed (use ps in simp)
  show "\<forall>(l, m) \<in> set (patterns policy). first_match alphabetic policy (replacement l) = None"
    using inert by (auto simp: check_replacements_are_inert_def try_all_Ok_iff split: option.splits)
qed

section \<open>A policy that never settles\<close>

text \<open>
  The pattern \<open>\A(x|\[masked:p\])[0-9]\<close>, labelled \<open>p\<close>: its replacement, with a digit after it,
  is a match again.
\<close>

definition ascii_alphabetic :: "string \<Rightarrow> bool" where
  "ascii_alphabetic s \<longleftrightarrow> list_ex (\<lambda>c. is_ascii_upper c \<or> is_ascii_lower c) s"

definition nesting_matcher :: matcher where
  "nesting_matcher s =
     (let n = (if starts_with ''x'' s then 1 else if starts_with ''[masked:p]'' s then 10 else 0)
      in if 0 < n \<and> n < length s \<and> is_ascii_digit (s ! n) then [(0, n + 1)] else [])"

definition nesting_spec :: yaml_loader where
  "nesting_spec _ = Some [YMap [(YStr ''policy'', YStr ''v1''), (YStr ''patterns'', YSeq [YMap
     [(YStr ''name'', YStr ''p''), (YStr ''regex'', YStr ''nested''), (YStr ''action'', YStr ''mask'')]])]]"

definition nesting_policy :: mask_policy where
  "nesting_policy = \<lparr>policy_name = ''v1'', patterns = [(''p'', nesting_matcher)]\<rparr>"

lemma nesting_policy_loads:
  "policy_from_yaml ascii_alphabetic nesting_spec (\<lambda>_. Some nesting_matcher) [] = Ok nesting_policy"
proof -
  have "first_match ascii_alphabetic nesting_policy (replacement ''p'') = None" by code_simp
  then show ?thesis
    by (simp add: policy_from_yaml_def single_document_def nesting_spec_def check_version_def
        required_str_def read_pattern_def check_replacements_are_inert_def Let_def
        nesting_policy_def)
qed

lemma nesting_matcher_ok: "matcher_ok nesting_matcher"
  by (auto simp: matcher_ok_def nesting_matcher_def Let_def)

section \<open>Properties\<close>

text \<open>
  Masking a masked body again is a no-op, with an empty account, exactly when one of the first
  four rounds left the body settled, that is unchanged by every pattern.
\<close>

theorem mask_idempotent_iff:
  "mask alphabetic policy (masked_text (mask alphabetic policy body))
     = \<lparr>masked_text = masked_text (mask alphabetic policy body), masked_fields = []\<rparr>
   \<longleftrightarrow> (\<exists>k \<le> MAX_ROUNDS. quiet alphabetic (patterns policy) ((round_text alphabetic policy ^^ k) body))"
  by (simp add: mask_quiet_iff quiet_mask_iff)

text \<open>
  The writer and the service read one policy. A body in which the service's check finds nothing
  is a body masking returns as it arrived, with an empty account. The matches are taken to be what
  \<open>find_iter\<close> documents.
\<close>

theorem accepted_body_left_alone:
  assumes "\<forall>(label, m) \<in> set (patterns policy). matcher_ok m"
    and "first_match alphabetic policy body = None"
  shows "mask alphabetic policy body = \<lparr>masked_text = body, masked_fields = []\<rparr>"
  by (simp add: mask_quiet_iff first_match_None_quiet assms)

theorem accepted_body_left_alone_witness:
  "mask ascii_alphabetic nesting_policy ''plain 42''
     = \<lparr>masked_text = ''plain 42'', masked_fields = []\<rparr>"
proof (rule accepted_body_left_alone)
  show "\<forall>(label, m) \<in> set (patterns nesting_policy). matcher_ok m"
    by (simp add: nesting_policy_def nesting_matcher_ok)
  show "first_match ascii_alphabetic nesting_policy ''plain 42'' = None" by code_simp
qed

text \<open>
  What replaces a match is never masked itself. Under a policy that loads, the replacement of
  each of its patterns is a text masking leaves alone, so a retry does not nest placeholders that
  stand alone.
\<close>

theorem loaded_replacement_inert:
  assumes "policy_from_yaml alphabetic load compile yaml = Ok policy"
    and "\<forall>src m. compile src = Some m \<longrightarrow> matcher_ok m"
    and "(label, m) \<in> set (patterns policy)"
  shows "mask alphabetic policy (replacement label)
    = \<lparr>masked_text = replacement label, masked_fields = []\<rparr>"
proof -
  have "\<forall>(l, m) \<in> set (patterns policy). matcher_ok m"
    using policy_from_yaml_Ok(1) [OF assms(1)] assms(2) by blast
  moreover have "first_match alphabetic policy (replacement label) = None"
    using policy_from_yaml_Ok(2) [OF assms(1)] assms(3) by auto
  ultimately show ?thesis by (simp add: mask_quiet_iff first_match_None_quiet)
qed

theorem loaded_replacement_inert_witness:
  "mask ascii_alphabetic nesting_policy ''[masked:p]''
     = \<lparr>masked_text = ''[masked:p]'', masked_fields = []\<rparr>"
proof -
  have r: "replacement ''p'' = ''[masked:p]''" by (simp add: replacement_def)
  show ?thesis
    using loaded_replacement_inert [OF nesting_policy_loads, of "''p''" nesting_matcher]
    by (simp add: nesting_matcher_ok nesting_policy_def r)
qed

text \<open>
  Masking is not idempotent in general. The loader accepts this policy, four rounds leave a body
  of it unsettled, and masking the result again takes more out.
\<close>

theorem mask_can_stop_short:
  "policy_from_yaml ascii_alphabetic nesting_spec (\<lambda>_. Some nesting_matcher) [] = Ok nesting_policy
   \<and> masked_text (mask ascii_alphabetic nesting_policy ''x12345678'') = ''[masked:p]5678''
   \<and> masked_text (mask ascii_alphabetic nesting_policy ''[masked:p]5678'') = ''[masked:p]''"
proof -
  have "masked_text (mask ascii_alphabetic nesting_policy ''x12345678'') = ''[masked:p]5678''"
    by code_simp
  moreover have "masked_text (mask ascii_alphabetic nesting_policy ''[masked:p]5678'') = ''[masked:p]''"
    by code_simp
  ultimately show ?thesis using nesting_policy_loads by simp
qed

text \<open>
  The account is faithful. It names each pattern at most once and only patterns of the policy,
  and it is empty only where the body came back as it was sent.
\<close>

theorem mask_account_faithful:
  "distinct (masked_fields (mask alphabetic policy body))
   \<and> set (masked_fields (mask alphabetic policy body)) \<subseteq> fst ` set (patterns policy)
   \<and> (masked_text (mask alphabetic policy body) \<noteq> body
      \<longrightarrow> masked_fields (mask alphabetic policy body) \<noteq> [])"
proof -
  obtain t g where m: "mask_rounds alphabetic policy MAX_ROUNDS body [] = (t, g)"
    by (cases "mask_rounds alphabetic policy MAX_ROUNDS body []")
  have "mask alphabetic policy body = \<lparr>masked_text = body, masked_fields = []\<rparr>"
    if "masked_fields (mask alphabetic policy body) = []"
    using that by (simp add: mask_fields_Nil_iff mask_quiet_iff)
  then show ?thesis using mask_rounds_account [OF m] m by (auto simp: mask_def)
qed

theorem mask_account_faithful_witness:
  "masked_text (mask ascii_alphabetic nesting_policy ''x12345678'') \<noteq> ''x12345678''
   \<and> masked_fields (mask ascii_alphabetic nesting_policy ''x12345678'') \<noteq> []"
proof -
  have t: "masked_text (mask ascii_alphabetic nesting_policy ''x12345678'') \<noteq> ''x12345678''" by code_simp
  with mask_account_faithful [of ascii_alphabetic nesting_policy "''x12345678''"] show ?thesis by blast
qed

text \<open>
  The Luhn check catches every single-digit slip. A match that passes it fails it once any one
  of its digits is replaced by another.
\<close>

theorem luhn_catches_one_digit:
  assumes "luhn (pre @ c # post)" "is_ascii_digit c" "is_ascii_digit c'" "c \<noteq> c'"
  shows "\<not> luhn (pre @ c' # post)"
proof -
  have "digit_value c \<noteq> digit_value c'"
    using assms(2-4) by (auto simp: is_ascii_digit_def digit_value_def simp flip: byte_of_inject)
  from luhn_sum_one_digit [OF digit_value_less [OF assms(2)] digit_value_less [OF assms(3)] this]
  show ?thesis using assms(1-3) by (auto simp: luhn_def Let_def split: if_splits)
qed

theorem luhn_catches_one_digit_witness:
  "luhn ''79927398713'' \<and> \<not> luhn ''79927398723''"
proof -
  have p: "luhn (''799273987'' @ CHR ''1'' # ''3'')" by code_simp
  show ?thesis
    using p luhn_catches_one_digit [OF p, of "CHR ''2''"] by (simp add: is_ascii_digit_def byte_of_def)
qed

end
