(* ===== verification/Extract.thy ===== *)
theory Extract
  imports Entity
begin

text \<open>
  \<open>yaam-contract/src/extract.rs\<close>: inferring entity references from prose. A guard pattern is compiled
  by the parameter \<open>compile\<close> as an entity kind's is. \<open>reread\<close> is the \<open>f32\<close> a parsed \<open>f64\<close> gives when it
  is written out and read back (NaN where that fails), which is the library's number formatting; the
  loader checks what it returns, so nothing is assumed of it.
\<close>

definition FIELD_CONFIDENCE :: f32 where
  "FIELD_CONFIDENCE = F32 1"

text \<open>The \<open>f32\<close> nearest to 0.9.\<close>

definition HIGH_CONFIDENCE_FLOOR :: f32 where
  "HIGH_CONFIDENCE_FLOOR = F32 (15099494 / 16777216)"

definition INFERRED_ROLE :: role where
  "INFERRED_ROLE = Related"

definition MAX_WINDOW :: nat where
  "MAX_WINDOW = 32"

definition EDGE_PUNCTUATION :: "string list" where
  "EDGE_PUNCTUATION =
     [''('', '')'', ''['', '']'', ''{'', ''}'', ''<'', ''>'', [CHR 0x22], [CHR 0x27], [CHR 0x60],
      ''*'', '','', ''.'', '';'', '':'', ''!'', ''?'', ''|'', ''-'',
      [CHR 0xE2, CHR 0x80, CHR 0x94], [CHR 0xE2, CHR 0x80, CHR 0x93], [CHR 0xE2, CHR 0x80, CHR 0xA6]]"

section \<open>Words\<close>

record token =
  tok_text :: string
  tok_folded :: string

definition trim_edges :: "string \<Rightarrow> string" where
  "trim_edges word =
     rev (strip_all (map rev EDGE_PUNCTUATION) (rev (strip_all EDGE_PUNCTUATION word)))"

definition token_new :: "case_maps \<Rightarrow> string \<Rightarrow> token" where
  "token_new cm word =
     (let body = trim_edges word in \<lparr>tok_text = body, tok_folded = to_lowercase cm body\<rparr>)"

definition tokens :: "case_maps \<Rightarrow> string \<Rightarrow> token list" where
  "tokens cm body = filter (\<lambda>t. tok_text t \<noteq> []) (map (token_new cm) (split_whitespace body))"

section \<open>Rules\<close>

record kind_rules =
  rule_kind :: string
  anchors :: "string list"
  window :: nat
  rule_confidence :: f32
  require :: "(string \<Rightarrow> bool) list"
  refuse :: "(string \<Rightarrow> bool) list"
  stopwords :: "string set"

record extractor =
  ex_registry :: registry
  ex_kinds :: "kind_rules list"

definition candidate :: "case_maps \<Rightarrow> kind_rules \<Rightarrow> registry \<Rightarrow> string \<Rightarrow> string option" where
  "candidate cm rules reg word =
     (case ok (canonicalise cm reg (rule_kind rules) word) of
        None \<Rightarrow> None
      | Some ident \<Rightarrow>
          if to_lowercase cm ident \<in> stopwords rules \<or> list_ex (\<lambda>guard. guard ident) (refuse rules)
          then None
          else if list_all (\<lambda>guard. guard ident) (require rules) then Some ident else None)"

definition anchor_distance :: "kind_rules \<Rightarrow> token list \<Rightarrow> nat \<Rightarrow> nat option" where
  "anchor_distance rules toks i =
     List.find (\<lambda>back. tok_folded (toks ! (i - back)) \<in> set (anchors rules))
       [1..<Suc (min (window rules) i)]"

section \<open>Reading text\<close>

definition resolve_step ::
  "case_maps \<Rightarrow> registry \<Rightarrow> token list \<Rightarrow> nat \<Rightarrow> kind_rules \<Rightarrow>
     (nat \<times> entity_ref) option \<times> bool \<Rightarrow> (nat \<times> entity_ref) option \<times> bool" where
  "resolve_step cm reg toks i rules = (\<lambda>(best, tied).
     case candidate cm rules reg (tok_text (toks ! i)) of
       None \<Rightarrow> (best, tied)
     | Some ident \<Rightarrow>
         (case anchor_distance rules toks i of
            None \<Rightarrow> (best, tied)
          | Some distance \<Rightarrow>
              let here = (Some (distance, \<lparr>ent_kind = rule_kind rules, ent_id = ident,
                     ent_role = INFERRED_ROLE, ent_confidence = rule_confidence rules\<rparr>), False)
              in (case best of
                    None \<Rightarrow> here
                  | Some (nearest, _) \<Rightarrow>
                      if nearest < distance then (best, tied)
                      else if nearest = distance then (best, True)
                      else here)))"

definition resolve :: "case_maps \<Rightarrow> extractor \<Rightarrow> token list \<Rightarrow> nat \<Rightarrow> entity_ref option" where
  "resolve cm ex toks i =
     (let (best, tied) = fold (resolve_step cm (ex_registry ex) toks i) (ex_kinds ex) (None, False)
      in if tied then None else map_option snd best)"

definition same_key :: "entity_ref \<Rightarrow> entity_ref \<Rightarrow> bool" where
  "same_key a b \<longleftrightarrow> ent_kind a = ent_kind b \<and> ent_id a = ent_id b"

definition push_new :: "entity_ref list \<Rightarrow> entity_ref \<Rightarrow> entity_ref list" where
  "push_new found e = (if list_ex (\<lambda>seen. same_key seen e) found then found else found @ [e])"

definition from_text :: "case_maps \<Rightarrow> extractor \<Rightarrow> string \<Rightarrow> entity_ref list" where
  "from_text cm ex body =
     (let toks = tokens cm body
      in fold (\<lambda>i found. case resolve cm ex toks i of None \<Rightarrow> found | Some e \<Rightarrow> push_new found e)
           [0..<length toks] [])"

definition from_query :: "case_maps \<Rightarrow> extractor \<Rightarrow> string \<Rightarrow> entity_ref list" where
  "from_query cm ex body =
     fold (\<lambda>tok. fold (\<lambda>rules found.
         case candidate cm rules (ex_registry ex) (tok_text tok) of
           None \<Rightarrow> found
         | Some ident \<Rightarrow>
             push_new found \<lparr>ent_kind = rule_kind rules, ent_id = ident, ent_role = INFERRED_ROLE,
               ent_confidence = rule_confidence rules\<rparr>) (ex_kinds ex))
       (tokens cm body) []"

definition from_field ::
  "case_maps \<Rightarrow> extractor \<Rightarrow> string \<Rightarrow> string \<Rightarrow> role \<Rightarrow> (entity_ref, contract_error) result" where
  "from_field cm ex k val r =
     and_then (canonicalise cm (ex_registry ex) k val) (\<lambda>ident.
       Ok \<lparr>ent_kind = k, ent_id = ident, ent_role = r, ent_confidence = FIELD_CONFIDENCE\<rparr>)"

section \<open>Loading\<close>

definition string_list ::
  "yaml option \<Rightarrow> string \<Rightarrow> string \<Rightarrow> (string list, contract_error) result" where
  "string_list node field owner =
     (case node of
        None \<Rightarrow> Ok []
      | Some y \<Rightarrow>
          and_then (ok_or (Spec (NonListField owner field)) (as_vec y)) (\<lambda>items.
            try_map (\<lambda>item. ok_or (Spec (NonStringEntry owner field)) (as_str item)) items))"

definition guards ::
  "regex_compiler \<Rightarrow> yaml option \<Rightarrow> string \<Rightarrow> string \<Rightarrow> ((string \<Rightarrow> bool) list, contract_error) result" where
  "guards compile node field owner =
     and_then (string_list node field owner) (\<lambda>ps.
       try_map (\<lambda>pattern. ok_or (Spec (UnusableGuard owner field pattern)) (compile pattern)) ps)"

definition read_window ::
  "yaml option \<Rightarrow> string \<Rightarrow> nat option \<Rightarrow> (nat, contract_error) result" where
  "read_window node owner inherited =
     (case node of
        None \<Rightarrow> ok_or (Spec (MissingWindow owner)) inherited
      | Some y \<Rightarrow>
          and_then (ok_or (Spec (NonIntegerWindow owner)) (as_integer y)) (\<lambda>width.
            if 1 \<le> width \<and> width \<le> int MAX_WINDOW then Ok (nat width)
            else Err (Spec (WindowOutOfRange owner width))))"

definition read_confidence ::
  "(f32 \<Rightarrow> f32) \<Rightarrow> yaml option \<Rightarrow> string \<Rightarrow> f32 option \<Rightarrow> (f32, contract_error) result" where
  "read_confidence reread node owner inherited =
     (case node of
        None \<Rightarrow> ok_or (Spec (MissingConfidence owner)) inherited
      | Some y \<Rightarrow>
          case as_integer y of
            Some whole \<Rightarrow> Err (Spec (ConfidenceNotBelowFloor owner (F32 (of_int whole))))
          | None \<Rightarrow>
            and_then (ok_or (Spec (NonNumericConfidence owner)) (as_floating_point y)) (\<lambda>written.
              let c = reread written
              in if f32_less (F32 0) c \<and> f32_less c HIGH_CONFIDENCE_FLOOR then Ok c
                 else Err (Spec (ConfidenceNotBelowFloor owner c))))"

record extract_defaults =
  def_window :: nat
  def_confidence :: f32

definition read_defaults ::
  "(f32 \<Rightarrow> f32) \<Rightarrow> yaml \<Rightarrow> (extract_defaults, contract_error) result" where
  "read_defaults reread doc =
     and_then (ok_or (Spec (MissingSection ''defaults'')) (as_mapping_get doc ''defaults'')) (\<lambda>node.
     if as_mapping node = None then Err (Spec (SectionNotMapping ''defaults''))
     else
       and_then (read_window (as_mapping_get node ''window'') ''defaults'' None) (\<lambda>w.
       and_then (read_confidence reread (as_mapping_get node ''confidence'') ''defaults'' None) (\<lambda>c.
         Ok \<lparr>def_window = w, def_confidence = c\<rparr>)))"

definition fold_anchor ::
  "case_maps \<Rightarrow> string \<Rightarrow> string \<Rightarrow> (string, contract_error) result" where
  "fold_anchor cm name anchor =
     (if length (split_whitespace anchor) \<noteq> 1 then Err (Spec (AnchorNotOneWord name anchor))
      else Ok (to_lowercase cm anchor))"

definition fold_stopword ::
  "case_maps \<Rightarrow> registry \<Rightarrow> string \<Rightarrow> string \<Rightarrow> (string, contract_error) result" where
  "fold_stopword cm reg name word =
     (if is_ok (canonicalise cm reg name word) then Ok (to_lowercase cm word)
      else Err (Spec (StopwordCannotMatch name word)))"

definition read_rules ::
  "case_maps \<Rightarrow> regex_compiler \<Rightarrow> (f32 \<Rightarrow> f32) \<Rightarrow> string \<Rightarrow> yaml \<Rightarrow> extract_defaults \<Rightarrow> registry \<Rightarrow>
     (kind_rules, contract_error) result" where
  "read_rules cm compile reread name node defaults reg =
     and_then (string_list (as_mapping_get node ''anchors'') ''anchors'' name) (\<lambda>written.
     if written = [] then Err (Spec (NoAnchors name))
     else
     and_then (try_map (fold_anchor cm name) written) (\<lambda>folded.
     and_then (guards compile (as_mapping_get node ''require'') ''require'' name) (\<lambda>req.
     and_then (guards compile (as_mapping_get node ''refuse'') ''refuse'' name) (\<lambda>ref.
     and_then (string_list (as_mapping_get node ''stopwords'') ''stopwords'' name) (\<lambda>stops.
     and_then (try_map (fold_stopword cm reg name) stops) (\<lambda>stopped.
     and_then (read_window (as_mapping_get node ''window'') name (Some (def_window defaults))) (\<lambda>w.
     and_then (read_confidence reread (as_mapping_get node ''confidence'') name
        (Some (def_confidence defaults))) (\<lambda>c.
       Ok \<lparr>rule_kind = name, anchors = folded, window = w, rule_confidence = c,
           require = req, refuse = ref, stopwords = set stopped\<rparr>))))))))"

definition read_kind_rules ::
  "case_maps \<Rightarrow> regex_compiler \<Rightarrow> (f32 \<Rightarrow> f32) \<Rightarrow> extract_defaults \<Rightarrow> registry \<Rightarrow>
     (string, kind_rules) btree \<Rightarrow> yaml \<times> yaml \<Rightarrow>
     ((string, kind_rules) btree, contract_error) result" where
  "read_kind_rules cm compile reread defaults reg ks = (\<lambda>(key, node).
     and_then (key_name key ''extractor kind'') (\<lambda>name.
     if \<not> list_ex (\<lambda>k. kind_name k = name) (registry_kinds reg) then Err (UnknownEntityKind name)
     else
       and_then (read_rules cm compile reread name node defaults reg) (\<lambda>rules.
         Ok (bt_insert name rules ks))))"

definition extractor_from_yaml ::
  "case_maps \<Rightarrow> yaml_loader \<Rightarrow> regex_compiler \<Rightarrow> (f32 \<Rightarrow> f32) \<Rightarrow> registry \<Rightarrow> string \<Rightarrow>
     (extractor, contract_error) result" where
  "extractor_from_yaml cm load compile reread reg yaml =
     and_then (single_document load yaml) (\<lambda>doc.
     and_then (check_version doc) (\<lambda>_.
     and_then (read_defaults reread doc) (\<lambda>defaults.
     and_then (required_mapping doc ''kinds'') (\<lambda>entries.
     and_then (try_fold (read_kind_rules cm compile reread defaults reg) [] entries) (\<lambda>ks.
       Ok \<lparr>ex_registry = reg, ex_kinds = map snd ks\<rparr>)))))"

section \<open>What one word supports\<close>

text \<open>The reference one rule offers for a word, with the distance of its anchor.\<close>

definition claim ::
  "case_maps \<Rightarrow> registry \<Rightarrow> token list \<Rightarrow> nat \<Rightarrow> kind_rules \<Rightarrow> (nat \<times> entity_ref) option" where
  "claim cm reg toks i rules =
     Option.bind (candidate cm rules reg (tok_text (toks ! i))) (\<lambda>ident.
       map_option (\<lambda>d. (d, \<lparr>ent_kind = rule_kind rules, ent_id = ident,
           ent_role = INFERRED_ROLE, ent_confidence = rule_confidence rules\<rparr>))
         (anchor_distance rules toks i))"

lemma resolve_step_claim:
  "resolve_step cm reg toks i rules (best, tied) =
     (case claim cm reg toks i rules of
        None \<Rightarrow> (best, tied)
      | Some (d, e) \<Rightarrow>
          (case best of None \<Rightarrow> (Some (d, e), False)
           | Some (n, _) \<Rightarrow>
               if n < d then (best, tied) else if n = d then (best, True) else (Some (d, e), False)))"
  by (simp add: resolve_step_def claim_def Let_def split: option.split)

text \<open>What the walk over the rules knows after the rules \<open>ks\<close>: the nearest anchor and whether it
  is shared.\<close>

definition at_distance :: "('k \<Rightarrow> (nat \<times> 'e) option) \<Rightarrow> nat \<Rightarrow> 'k list \<Rightarrow> 'k list" where
  "at_distance cl d ks = filter (\<lambda>r. map_option fst (cl r) = Some d) ks"

fun nearest_so_far ::
  "('k \<Rightarrow> (nat \<times> 'e) option) \<Rightarrow> 'k list \<Rightarrow> (nat \<times> 'e) option \<times> bool \<Rightarrow> bool" where
  "nearest_so_far cl ks (None, tied) = (\<not> tied \<and> (\<forall>r \<in> set ks. cl r = None))"
| "nearest_so_far cl ks (Some (d, e), tied) =
     ((\<exists>r \<in> set ks. cl r = Some (d, e))
      \<and> (\<forall>r \<in> set ks. \<forall>d' e'. cl r = Some (d', e') \<longrightarrow> d \<le> d')
      \<and> (tied \<longleftrightarrow> 1 < length (at_distance cl d ks)))"

lemma at_distance_snoc: "at_distance cl d (ks @ [r]) =
    at_distance cl d ks @ (if map_option fst (cl r) = Some d then [r] else [])"
  by (simp add: at_distance_def)

lemma at_distance_Nil_iff:
  "at_distance cl d ks = [] \<longleftrightarrow> (\<forall>r \<in> set ks. \<forall>e. cl r \<noteq> Some (d, e))"
  by (force simp: at_distance_def filter_empty_conv)

lemma nearest_so_far_step:
  assumes "nearest_so_far (claim cm reg toks i) ks st"
  shows "nearest_so_far (claim cm reg toks i) (ks @ [r]) (resolve_step cm reg toks i r st)"
proof -
  obtain best tied where st: "st = (best, tied)" by (cases st)
  let ?cl = "claim cm reg toks i"
  show ?thesis
  proof (cases "?cl r")
    case None
    with assms st show ?thesis
      by (cases best) (auto simp: resolve_step_claim at_distance_snoc)
  next
    case (Some p)
    then obtain d e where cl: "?cl r = Some (d, e)" by (cases p) auto
    show ?thesis
    proof (cases best)
      case None
      then have "at_distance ?cl d ks = []" using assms st by (auto simp: at_distance_Nil_iff)
      with None cl assms st show ?thesis by (auto simp: resolve_step_claim at_distance_snoc)
    next
      case (Some q)
      then obtain n f where q: "best = Some (n, f)" by (cases q) auto
      with assms st obtain r0 where r0: "r0 \<in> set ks" "?cl r0 = Some (n, f)"
        and least: "\<And>r' d' e'. r' \<in> set ks \<Longrightarrow> ?cl r' = Some (d', e') \<Longrightarrow> n \<le> d'"
        and tie: "tied \<longleftrightarrow> 1 < length (at_distance ?cl n ks)" by auto
      consider "n < d" | "n = d" | "d < n" by linarith
      then show ?thesis
      proof cases
        case 1
        with q cl st r0 least tie show ?thesis by (auto simp: resolve_step_claim at_distance_snoc)
      next
        case 2
        have "at_distance ?cl n ks \<noteq> []" using r0 by (auto simp: at_distance_Nil_iff)
        with 2 q cl st r0 least show ?thesis
          by (auto simp: resolve_step_claim at_distance_snoc)
      next
        case 3
        then have "at_distance ?cl d ks = []" using least by (force simp: at_distance_Nil_iff)
        with 3 q cl st least show ?thesis
          by (auto simp: resolve_step_claim at_distance_snoc dest!: least)
      qed
    qed
  qed
qed

lemma nearest_so_far_fold:
  "nearest_so_far (claim cm reg toks i) ks (fold (resolve_step cm reg toks i) ks (None, False))"
proof (induction ks rule: rev_induct)
  case Nil
  then show ?case by simp
next
  case (snoc r ks)
  then show ?case using nearest_so_far_step by fastforce
qed

lemma resolve_Some_iff:
  "resolve cm ex toks i = Some e \<longleftrightarrow>
     (\<exists>d. \<exists>r \<in> set (ex_kinds ex). claim cm (ex_registry ex) toks i r = Some (d, e)
        \<and> length (at_distance (claim cm (ex_registry ex) toks i) d (ex_kinds ex)) = 1
        \<and> (\<forall>r' \<in> set (ex_kinds ex). \<forall>d' e'.
             claim cm (ex_registry ex) toks i r' = Some (d', e') \<longrightarrow> d \<le> d'))"
proof -
  let ?cl = "claim cm (ex_registry ex) toks i" and ?ks = "ex_kinds ex"
  obtain best tied where f: "fold (resolve_step cm (ex_registry ex) toks i) ?ks (None, False) = (best, tied)"
    by (cases "fold (resolve_step cm (ex_registry ex) toks i) ?ks (None, False)")
  have near: "nearest_so_far ?cl ?ks (best, tied)" using nearest_so_far_fold f by metis
  have res: "resolve cm ex toks i = (if tied then None else map_option snd best)"
    by (simp add: resolve_def f)
  show ?thesis
  proof (cases best)
    case None
    with near res show ?thesis by auto
  next
    case (Some q)
    then obtain n g where q: "best = Some (n, g)" by (cases q) auto
    with near obtain r0 where r0: "r0 \<in> set ?ks" "?cl r0 = Some (n, g)"
      and least: "\<And>r' d' e'. r' \<in> set ?ks \<Longrightarrow> ?cl r' = Some (d', e') \<Longrightarrow> n \<le> d'"
      and tie: "tied \<longleftrightarrow> 1 < length (at_distance ?cl n ?ks)" by auto
    have ne: "at_distance ?cl n ?ks \<noteq> []" using r0 by (auto simp: at_distance_Nil_iff)
    show ?thesis
    proof
      assume "resolve cm ex toks i = Some e"
      then have "\<not> tied" "g = e" using res q by (auto split: if_splits)
      with ne tie have "length (at_distance ?cl n ?ks) = 1" by (cases "at_distance ?cl n ?ks") auto
      with r0 least \<open>g = e\<close> show "\<exists>d. \<exists>r \<in> set ?ks. ?cl r = Some (d, e)
        \<and> length (at_distance ?cl d ?ks) = 1
        \<and> (\<forall>r' \<in> set ?ks. \<forall>d' e'. ?cl r' = Some (d', e') \<longrightarrow> d \<le> d')" by blast
    next
      assume "\<exists>d. \<exists>r \<in> set ?ks. ?cl r = Some (d, e) \<and> length (at_distance ?cl d ?ks) = 1
        \<and> (\<forall>r' \<in> set ?ks. \<forall>d' e'. ?cl r' = Some (d', e') \<longrightarrow> d \<le> d')"
      then obtain d r where r: "r \<in> set ?ks" "?cl r = Some (d, e)"
        and one: "length (at_distance ?cl d ?ks) = 1"
        and min: "\<And>r' d' e'. r' \<in> set ?ks \<Longrightarrow> ?cl r' = Some (d', e') \<Longrightarrow> d \<le> d'" by blast
      have "n = d" using least [OF r] min [OF r0] by simp
      with r r0 have "r \<in> set (at_distance ?cl n ?ks)" "r0 \<in> set (at_distance ?cl n ?ks)"
        by (simp_all add: at_distance_def)
      with one \<open>n = d\<close> have "r = r0" by (auto simp: length_Suc_conv)
      with r r0 have "g = e" by simp
      with tie one \<open>n = d\<close> res q show "resolve cm ex toks i = Some e" by simp
    qed
  qed
qed

section \<open>Collecting references\<close>

lemma push_new_distinct:
  "distinct (map (\<lambda>e. (ent_kind e, ent_id e)) found) \<Longrightarrow>
     distinct (map (\<lambda>e. (ent_kind e, ent_id e)) (push_new found e))"
  by (auto simp: push_new_def list_ex_iff same_key_def)

lemma set_push_new: "set found \<subseteq> set (push_new found e)" "set (push_new found e) \<subseteq> insert e (set found)"
  by (auto simp: push_new_def)

lemma push_new_has: "\<exists>f \<in> set (push_new found e). same_key f e"
  by (auto simp: push_new_def list_ex_iff same_key_def)

text \<open>Pushing every reference of a list of offers, which both readers of a text come down to.\<close>

definition collect :: "entity_ref list \<Rightarrow> entity_ref option list \<Rightarrow> entity_ref list" where
  "collect found offers =
     fold (\<lambda>offer found. case offer of None \<Rightarrow> found | Some e \<Rightarrow> push_new found e) offers found"

lemma collect_distinct:
  "distinct (map (\<lambda>e. (ent_kind e, ent_id e)) found) \<Longrightarrow>
     distinct (map (\<lambda>e. (ent_kind e, ent_id e)) (collect found offers))"
proof (induction offers arbitrary: found)
  case (Cons offer offers)
  then show ?case by (cases offer) (simp_all add: collect_def push_new_distinct)
qed (simp add: collect_def)

lemma collect_subset: "e \<in> set (collect found offers) \<Longrightarrow> e \<in> set found \<or> Some e \<in> set offers"
proof (induction offers arbitrary: found)
  case (Cons offer offers)
  show ?case
  proof (cases offer)
    case None
    with Cons show ?thesis by (auto simp: collect_def)
  next
    case (Some f)
    with Cons.prems have "e \<in> set (collect (push_new found f) offers)" by (simp add: collect_def)
    from Cons.IH [OF this] set_push_new(2) [of found f] Some show ?thesis by auto
  qed
qed (simp add: collect_def)

lemma collect_keeps: "set found \<subseteq> set (collect found offers)"
proof (induction offers arbitrary: found)
  case (Cons offer offers)
  show ?case
  proof (cases offer)
    case None
    with Cons [of found] show ?thesis by (simp add: collect_def)
  next
    case (Some f)
    with Cons [of "push_new found f"] set_push_new(1) [of found f] show ?thesis
      by (auto simp: collect_def)
  qed
qed (simp add: collect_def)

lemma collect_has:
  "Some e \<in> set offers \<Longrightarrow> \<exists>f \<in> set (collect found offers). same_key f e"
proof (induction offers arbitrary: found)
  case (Cons offer offers)
  show ?case
  proof (cases "offer = Some e")
    case True
    obtain f where "f \<in> set (push_new found e)" "same_key f e" using push_new_has by blast
    moreover have "set (push_new found e) \<subseteq> set (collect found (offer # offers))"
      using collect_keeps [of "push_new found e" offers] True by (simp add: collect_def)
    ultimately show ?thesis by blast
  next
    case False
    with Cons show ?thesis by (cases offer) (auto simp: collect_def)
  qed
qed simp

lemma from_text_collect:
  "from_text cm ex body =
     collect [] (map (resolve cm ex (tokens cm body)) [0..<length (tokens cm body)])"
  by (simp add: from_text_def collect_def Let_def fold_map comp_def)

definition query_offer :: "case_maps \<Rightarrow> extractor \<Rightarrow> token \<Rightarrow> kind_rules \<Rightarrow> entity_ref option" where
  "query_offer cm ex tok rules = map_option
     (\<lambda>ident. \<lparr>ent_kind = rule_kind rules, ent_id = ident, ent_role = INFERRED_ROLE,
        ent_confidence = rule_confidence rules\<rparr>)
     (candidate cm rules (ex_registry ex) (tok_text tok))"

lemma fold_concat_map: "fold (\<lambda>x. fold g (h x)) xs = fold g (concat (map h xs))"
  by (induction xs) (auto simp: fun_eq_iff)

lemma from_query_collect:
  "from_query cm ex body = collect [] (concat (map (\<lambda>tok. map (query_offer cm ex tok) (ex_kinds ex))
     (tokens cm body)))"
proof -
  have push: "(\<lambda>rules found. case candidate cm rules (ex_registry ex) (tok_text tok) of
           None \<Rightarrow> found
         | Some ident \<Rightarrow>
             push_new found \<lparr>ent_kind = rule_kind rules, ent_id = ident, ent_role = INFERRED_ROLE,
               ent_confidence = rule_confidence rules\<rparr>)
     = (\<lambda>rules found. case query_offer cm ex tok rules of None \<Rightarrow> found | Some e \<Rightarrow> push_new found e)"
    for tok by (auto simp: query_offer_def fun_eq_iff split: option.split)
  show ?thesis
    unfolding from_query_def push collect_def
    by (simp add: fold_map comp_def flip: fold_concat_map)
qed

lemma candidate_Some:
  assumes "candidate cm rules reg word = Some ident"
  shows "canonicalise cm reg (rule_kind rules) word = Ok ident"
    and "to_lowercase cm ident \<notin> stopwords rules"
    and "\<forall>guard \<in> set (refuse rules). \<not> guard ident"
    and "\<forall>guard \<in> set (require rules). guard ident"
  using assms by (auto simp: candidate_def list_ex_iff list_all_iff split: option.splits if_splits)

lemma anchor_distance_Some:
  assumes "anchor_distance rules toks i = Some d"
  shows "0 < d \<and> d \<le> window rules \<and> d \<le> i \<and> tok_folded (toks ! (i - d)) \<in> set (anchors rules)"
  using find_Some_D [OF assms [unfolded anchor_distance_def]] by auto

lemma resolve_SomeD:
  assumes "resolve cm ex toks i = Some e"
  obtains r d where "r \<in> set (ex_kinds ex)" "claim cm (ex_registry ex) toks i r = Some (d, e)"
    and "\<And>r' d' e'. r' \<in> set (ex_kinds ex) \<Longrightarrow> r' \<noteq> r \<Longrightarrow>
      claim cm (ex_registry ex) toks i r' = Some (d', e') \<Longrightarrow> d < d'"
proof -
  let ?cl = "claim cm (ex_registry ex) toks i"
  from assms obtain d r where r: "r \<in> set (ex_kinds ex)" "?cl r = Some (d, e)"
    and one: "length (at_distance ?cl d (ex_kinds ex)) = 1"
    and least: "\<And>r' d' e'. r' \<in> set (ex_kinds ex) \<Longrightarrow> ?cl r' = Some (d', e') \<Longrightarrow> d \<le> d'"
    unfolding resolve_Some_iff by blast
  have "d < d'" if "r' \<in> set (ex_kinds ex)" "r' \<noteq> r" "?cl r' = Some (d', e')" for r' d' e'
  proof (rule ccontr)
    assume "\<not> d < d'"
    with least [OF that(1,3)] that(3) have "?cl r' = Some (d, e')" by simp
    with r that(1) have "r \<in> set (at_distance ?cl d (ex_kinds ex))" "r' \<in> set (at_distance ?cl d (ex_kinds ex))"
      by (simp_all add: at_distance_def)
    with one that(2) show False by (auto simp: length_Suc_conv)
  qed
  with r that show ?thesis by blast
qed

lemma claim_Some:
  assumes "claim cm reg toks i r = Some (d, e)"
  shows "candidate cm r reg (tok_text (toks ! i)) = Some (ent_id e)"
    and "anchor_distance r toks i = Some d"
    and "e = \<lparr>ent_kind = rule_kind r, ent_id = ent_id e, ent_role = Related,
      ent_confidence = rule_confidence r\<rparr>"
  using assms by (auto simp: claim_def bind_eq_Some_conv INFERRED_ROLE_def)

lemma from_text_resolve:
  assumes "e \<in> set (from_text cm ex body)"
  obtains i where "i < length (tokens cm body)" "resolve cm ex (tokens cm body) i = Some e"
proof -
  have "Some e \<in> set (map (resolve cm ex (tokens cm body)) [0..<length (tokens cm body)])"
    using collect_subset [OF assms [unfolded from_text_collect]] by simp
  with that show ?thesis by auto
qed

lemma from_text_rule:
  assumes "e \<in> set (from_text cm ex body)"
  shows "\<exists>r \<in> set (ex_kinds ex). e = \<lparr>ent_kind = rule_kind r, ent_id = ent_id e, ent_role = Related,
      ent_confidence = rule_confidence r\<rparr>"
proof -
  from assms obtain i where "resolve cm ex (tokens cm body) i = Some e" by (rule from_text_resolve)
  then show ?thesis by (rule resolve_SomeD) (blast dest: claim_Some(3))
qed

lemma floor_below_one: "(15099494 / 16777216 :: rat) < 1"
  by simp

section \<open>What loading establishes\<close>

definition below_floor :: "f32 \<Rightarrow> bool" where
  "below_floor c \<longleftrightarrow> f32_less (F32 0) c \<and> f32_less c HIGH_CONFIDENCE_FLOOR"

definition rules_ok :: "registry \<Rightarrow> kind_rules \<Rightarrow> bool" where
  "rules_ok reg r \<longleftrightarrow> rule_kind r \<in> kind_name ` set (registry_kinds reg)
     \<and> below_floor (rule_confidence r) \<and> 1 \<le> window r \<and> window r \<le> MAX_WINDOW \<and> anchors r \<noteq> []"

lemma read_window_Ok:
  assumes "read_window node owner inherited = Ok w"
    and "\<forall>v. inherited = Some v \<longrightarrow> 1 \<le> v \<and> v \<le> MAX_WINDOW"
  shows "1 \<le> w \<and> w \<le> MAX_WINDOW"
  using assms by (auto simp: read_window_def split: option.splits if_splits)

lemma read_confidence_Ok:
  assumes "read_confidence reread node owner inherited = Ok c"
    and "\<forall>v. inherited = Some v \<longrightarrow> below_floor v"
  shows "below_floor c"
  using assms by (auto simp: read_confidence_def Let_def below_floor_def split: option.splits if_splits)

lemma read_defaults_Ok:
  assumes "read_defaults reread doc = Ok d"
  shows "1 \<le> def_window d \<and> def_window d \<le> MAX_WINDOW \<and> below_floor (def_confidence d)"
proof -
  from assms have "\<exists>w c. read_window w ''defaults'' None = Ok (def_window d)
      \<and> read_confidence reread c ''defaults'' None = Ok (def_confidence d)"
    by (auto simp: read_defaults_def split: if_splits)
  then show ?thesis using read_window_Ok read_confidence_Ok by blast
qed

lemma read_rules_Ok:
  assumes "read_rules cm compile reread name node defaults reg = Ok r"
    and d: "1 \<le> def_window defaults \<and> def_window defaults \<le> MAX_WINDOW \<and> below_floor (def_confidence defaults)"
  shows "rule_kind r = name" "below_floor (rule_confidence r)" "1 \<le> window r \<and> window r \<le> MAX_WINDOW"
    "anchors r \<noteq> []"
proof -
  from assms(1) obtain written where
    r: "written \<noteq> []" "try_map (fold_anchor cm name) written = Ok (anchors r)" "rule_kind r = name"
    "read_window (as_mapping_get node ''window'') name (Some (def_window defaults)) = Ok (window r)"
    "read_confidence reread (as_mapping_get node ''confidence'') name (Some (def_confidence defaults))
       = Ok (rule_confidence r)"
    by (auto simp: read_rules_def split: if_splits)
  show "rule_kind r = name" by (rule r(3))
  show "below_floor (rule_confidence r)" by (rule read_confidence_Ok [OF r(5)]) (use d in simp)
  show "1 \<le> window r \<and> window r \<le> MAX_WINDOW" by (rule read_window_Ok [OF r(4)]) (use d in simp)
  show "anchors r \<noteq> []" using try_map_length [OF r(2)] r(1) by auto
qed

lemma extractor_from_yaml_Ok:
  assumes "extractor_from_yaml cm load compile reread reg yaml = Ok ex"
  shows "ex_registry ex = reg" and "\<forall>r \<in> set (ex_kinds ex). rules_ok reg r"
proof -
  from assms obtain doc defaults entries ks where
    d: "read_defaults reread doc = Ok defaults"
    and fold: "try_fold (read_kind_rules cm compile reread defaults reg) [] entries = Ok ks"
    and ex: "ex = \<lparr>ex_registry = reg, ex_kinds = map snd ks\<rparr>"
    by (auto simp: extractor_from_yaml_def)
  have step: "\<forall>r \<in> snd ` set m'. rules_ok reg r"
    if "read_kind_rules cm compile reread defaults reg m entry = Ok m'" "\<forall>r \<in> snd ` set m. rules_ok reg r"
    for m m' entry
  proof -
    obtain key node where entry: "entry = (key, node)" by (cases entry)
    from that(1) obtain name r where
      name: "list_ex (\<lambda>k. kind_name k = name) (registry_kinds reg)"
      and r: "read_rules cm compile reread name node defaults reg = Ok r" and m': "m' = bt_insert name r m"
      unfolding read_kind_rules_def entry by (auto split: if_splits)
    have "rules_ok reg r"
      using read_rules_Ok [OF r read_defaults_Ok [OF d]] name
      by (auto simp: rules_ok_def list_ex_iff image_iff intro: sym)
    with that(2) m' show ?thesis by (auto dest: set_bt_insertD)
  qed
  have "\<forall>r \<in> snd ` set ks. rules_ok reg r"
    by (rule try_fold_invariant [OF fold]) (simp, rule step)
  with ex show "ex_registry ex = reg" and "\<forall>r \<in> set (ex_kinds ex). rules_ok reg r" by auto
qed

section \<open>A small extractor\<close>

definition sample_rules :: yaml_loader where
  "sample_rules _ = Some [YMap
     [(YStr ''defaults'', YMap [(YStr ''window'', YInt 4), (YStr ''confidence'', YFloat (F32 (3 / 4)))]),
      (YStr ''kinds'', YMap [(YStr ''ticket'', YMap [(YStr ''anchors'', YSeq [YStr ''ticket''])])])]]"

definition sample_extractor :: extractor where
  "sample_extractor = \<lparr>ex_registry = sample_registry, ex_kinds =
     [\<lparr>rule_kind = ''ticket'', anchors = [''ticket''], window = 4, rule_confidence = F32 (3 / 4),
       require = [], refuse = [], stopwords = {}\<rparr>]\<rparr>"

lemma sample_extractor_loads:
  "extractor_from_yaml ascii_case sample_rules sample_regex (\<lambda>f. f) sample_registry [] = Ok sample_extractor"
proof -
  have "split_whitespace ''ticket'' = [''ticket'']" by code_simp
  moreover have "map ascii_lower ''ticket'' = ''ticket''" by code_simp
  moreover have "list_ex (\<lambda>k. kind_name k = ''ticket'') (registry_kinds sample_registry)"
    by (simp add: sample_registry_def registry_kinds_def Let_def)
  ultimately show ?thesis
    by (simp add: extractor_from_yaml_def single_document_def sample_rules_def check_version_def
        read_defaults_def read_window_def read_confidence_def HIGH_CONFIDENCE_FLOOR_def MAX_WINDOW_def
        required_mapping_def read_kind_rules_def key_name_def read_rules_def string_list_def guards_def
        fold_anchor_def ascii_case_def sample_extractor_def Let_def)
qed

lemma sample_extractor_reads:
  "from_text ascii_case sample_extractor ''the ticket proj-42'' =
     [\<lparr>ent_kind = ''ticket'', ent_id = ''PROJ-42'', ent_role = Related, ent_confidence = F32 (3 / 4)\<rparr>]"
  by code_simp

section \<open>Properties\<close>

text \<open>
  A reference inferred from prose has evidence and no rival. Some word of the text is, for one of
  the configured rules, a canonical identifier that passes the rule's guards and is not one of its
  stopwords; one of the rule's anchors stands before that word, within the rule's window; and every
  other rule that admits the word has its nearest anchor strictly further away. The reference claims
  the role \<open>Related\<close> and the rule's confidence.
\<close>

theorem inferred_reference_has_evidence:
  assumes "e \<in> set (from_text cm ex body)"
  shows "\<exists>i r d. i < length (tokens cm body) \<and> r \<in> set (ex_kinds ex)
    \<and> canonicalise cm (ex_registry ex) (rule_kind r) (tok_text (tokens cm body ! i)) = Ok (ent_id e)
    \<and> list_all (\<lambda>guard. guard (ent_id e)) (require r) \<and> \<not> list_ex (\<lambda>guard. guard (ent_id e)) (refuse r)
    \<and> to_lowercase cm (ent_id e) \<notin> stopwords r
    \<and> 0 < d \<and> d \<le> window r \<and> d \<le> i \<and> tok_folded (tokens cm body ! (i - d)) \<in> set (anchors r)
    \<and> (\<forall>r' d' c. r' \<in> set (ex_kinds ex) \<and> r' \<noteq> r
         \<and> candidate cm r' (ex_registry ex) (tok_text (tokens cm body ! i)) = Some c
         \<and> anchor_distance r' (tokens cm body) i = Some d' \<longrightarrow> d < d')
    \<and> e = \<lparr>ent_kind = rule_kind r, ent_id = ent_id e, ent_role = Related, ent_confidence = rule_confidence r\<rparr>"
proof -
  let ?toks = "tokens cm body"
  from assms obtain i where i: "i < length ?toks" "resolve cm ex ?toks i = Some e"
    by (rule from_text_resolve)
  from i(2) obtain r d where r: "r \<in> set (ex_kinds ex)"
    "claim cm (ex_registry ex) ?toks i r = Some (d, e)"
    and alone: "\<And>r' d' e'. r' \<in> set (ex_kinds ex) \<Longrightarrow> r' \<noteq> r \<Longrightarrow>
      claim cm (ex_registry ex) ?toks i r' = Some (d', e') \<Longrightarrow> d < d'"
    by (rule resolve_SomeD) blast
  have "\<forall>r' d' c. r' \<in> set (ex_kinds ex) \<and> r' \<noteq> r
      \<and> candidate cm r' (ex_registry ex) (tok_text (?toks ! i)) = Some c
      \<and> anchor_distance r' ?toks i = Some d' \<longrightarrow> d < d'"
    using alone by (auto simp: claim_def)
  moreover note candidate_Some [OF claim_Some(1) [OF r(2)]] anchor_distance_Some [OF claim_Some(2) [OF r(2)]]
    claim_Some(3) [OF r(2)]
  ultimately show ?thesis using i(1) r(1) by (intro exI [of _ i] exI [of _ r] exI [of _ d])
      (simp add: list_all_iff list_ex_iff)
qed

theorem inferred_reference_has_evidence_witness:
  "\<exists>r. r \<in> set (ex_kinds sample_extractor) \<and> to_lowercase ascii_case ''PROJ-42'' \<notin> stopwords r"
  using inferred_reference_has_evidence
      [of "\<lparr>ent_kind = ''ticket'', ent_id = ''PROJ-42'', ent_role = Related, ent_confidence = F32 (3 / 4)\<rparr>"
        ascii_case sample_extractor "''the ticket proj-42''"]
  by (simp only: sample_extractor_reads list.set insertI1 entity_ref.simps) blast

text \<open>
  Prose never reads like a structured field. Under rules that load, every reference inferred from
  a text or a question names a kind the registry lists and carries a confidence above zero and below
  the floor from which references are joined on, while a structured field's carries exactly one.
\<close>

theorem inferred_below_floor:
  assumes "extractor_from_yaml cm load compile reread reg yaml = Ok ex"
    and "e \<in> set (from_text cm ex body) \<union> set (from_query cm ex body)"
  shows "ent_kind e \<in> kind_name ` set (registry_kinds reg) \<and> ent_role e = Related
    \<and> f32_less (F32 0) (ent_confidence e) \<and> f32_less (ent_confidence e) HIGH_CONFIDENCE_FLOOR
    \<and> f32_less HIGH_CONFIDENCE_FLOOR FIELD_CONFIDENCE"
proof -
  have "\<exists>r \<in> set (ex_kinds ex). e = \<lparr>ent_kind = rule_kind r, ent_id = ent_id e, ent_role = Related,
      ent_confidence = rule_confidence r\<rparr>"
  proof (cases "e \<in> set (from_text cm ex body)")
    case True
    then show ?thesis using from_text_rule by blast
  next
    case False
    with assms(2) have "\<exists>tok. \<exists>r \<in> set (ex_kinds ex). query_offer cm ex tok r = Some e"
      unfolding from_query_collect using collect_subset [of e "[]"] by fastforce
    then show ?thesis by (auto simp: query_offer_def INFERRED_ROLE_def)
  qed
  then obtain r where "r \<in> set (ex_kinds ex)" "e = \<lparr>ent_kind = rule_kind r, ent_id = ent_id e,
      ent_role = Related, ent_confidence = rule_confidence r\<rparr>" by blast
  moreover from this(1) have "rules_ok reg r" using extractor_from_yaml_Ok(2) [OF assms(1)] by blast
  ultimately show ?thesis
    by (metis (no_types, lifting) entity_ref.select_convs(1,3,4) rules_ok_def below_floor_def
        HIGH_CONFIDENCE_FLOOR_def FIELD_CONFIDENCE_def f32_less.simps(1) floor_below_one)
qed

theorem inferred_below_floor_witness:
  "f32_less (F32 (3 / 4)) HIGH_CONFIDENCE_FLOOR \<and> f32_less HIGH_CONFIDENCE_FLOOR FIELD_CONFIDENCE"
  using inferred_below_floor [OF sample_extractor_loads,
      of "\<lparr>ent_kind = ''ticket'', ent_id = ''PROJ-42'', ent_role = Related, ent_confidence = F32 (3 / 4)\<rparr>"
        "''the ticket proj-42''"]
  by (simp add: sample_extractor_reads)

text \<open>
  Each reader of a text returns a key at most once, and a question is read at least as widely as
  prose: whatever key \<open>from_text\<close> infers from a text, \<open>from_query\<close> returns for it.
\<close>

theorem query_reads_more_than_text:
  "distinct (map (\<lambda>e. (ent_kind e, ent_id e)) (from_text cm ex body))
   \<and> distinct (map (\<lambda>e. (ent_kind e, ent_id e)) (from_query cm ex body))
   \<and> (\<lambda>e. (ent_kind e, ent_id e)) ` set (from_text cm ex body)
       \<subseteq> (\<lambda>e. (ent_kind e, ent_id e)) ` set (from_query cm ex body)"
proof (intro conjI subsetI)
  show "distinct (map (\<lambda>e. (ent_kind e, ent_id e)) (from_text cm ex body))"
    unfolding from_text_collect by (rule collect_distinct) simp
  show "distinct (map (\<lambda>e. (ent_kind e, ent_id e)) (from_query cm ex body))"
    unfolding from_query_collect by (rule collect_distinct) simp
  fix key assume "key \<in> (\<lambda>e. (ent_kind e, ent_id e)) ` set (from_text cm ex body)"
  then obtain e where e: "e \<in> set (from_text cm ex body)" and key: "key = (ent_kind e, ent_id e)" by blast
  from e obtain i where i: "i < length (tokens cm body)" "resolve cm ex (tokens cm body) i = Some e"
    by (rule from_text_resolve)
  from i(2) obtain r d where r: "r \<in> set (ex_kinds ex)"
    and cl: "claim cm (ex_registry ex) (tokens cm body) i r = Some (d, e)"
    by (rule resolve_SomeD) blast
  have "query_offer cm ex (tokens cm body ! i) r = Some e"
    using cl by (auto simp: query_offer_def claim_def bind_eq_Some_conv)
  with i(1) r have "Some e \<in> set (concat (map (\<lambda>tok. map (query_offer cm ex tok) (ex_kinds ex)) (tokens cm body)))"
    by simp (metis image_eqI nth_mem)
  from collect_has [OF this, of "[]"] obtain f where "f \<in> set (from_query cm ex body)" "same_key f e"
    by (auto simp: from_query_collect)
  with key show "key \<in> (\<lambda>e. (ent_kind e, ent_id e)) ` set (from_query cm ex body)"
    by (intro image_eqI [of _ _ f]) (simp_all add: same_key_def)
qed

end
