(* ===== verification/Index.thy ===== *)
theory Index
  imports Action_Record "HOL-Library.AList" "HOL-Library.Product_Lexorder"
begin

text \<open>
  \<open>yaam-store/src/store.rs\<close> and \<open>schema.rs\<close>: the index, its tables and every write on them. A table is
  the list of its rows, keyed by its primary or unique key; a statement is a function on the tables
  with the conflict clause the code gives it. \<open>publish\<close> is one transaction: an error returns no new
  tables. \<open>epoch_ms\<close> is SQLite's \<open>unixepoch\<close> expression, None where it yields NULL, which the column
  refuses. The frontmatter column holds the structure the JSON text spells. A byte string is a \<open>string\<close>.
\<close>

section \<open>Tables\<close>

datatype (plugins only: code) store_error =
    NullTimestamp string                       \<comment> \<open>record\<close>
  | BodyCheckFailed string
  | ForeignKeyFailed string
  | SealedBodySearchable string
  | KeyedTwice string string                   \<comment> \<open>record and subject\<close>
  | UnnamedSubject string string
  | SchemaTooNew nat nat                       \<comment> \<open>found and supported\<close>
  | SqliteFailed                               \<comment> \<open>the database itself; nothing of the transaction stays\<close>

record record_row =
  rec_pk :: nat
  rec_schema_ver :: schema_ver
  rec_frontmatter :: record_structure
  rec_body :: string
  rec_at_ms :: int
  rec_received_ms :: int

record ref_row =
  ref_confidence :: f32
  ref_received_ms :: int

record entity_row =
  first_seen_ms :: int
  last_seen_ms :: int
  ref_count :: nat

record subject_row =
  sub_role :: string
  sub_canon :: canon_ver
  sub_epoch :: string
  sub_wrapped :: "string option"

datatype job_state = Pending | Claimed | Done

record job_row =
  job_id :: nat
  job_record :: string
  job_kind :: string
  job_state :: job_state
  job_attempts :: nat
  job_enqueued_ms :: int
  job_not_before_ms :: int
  job_claimed_ms :: "int option"

record quarantine_row =
  q_staging_path :: string
  q_qkek_date :: string
  q_first_seen_ms :: int

record index =
  record_rows :: "(string \<times> record_row) list"
  record_attrs :: "((nat \<times> string) \<times> string) list"
  entity_refs :: "((nat \<times> string \<times> string \<times> string) \<times> ref_row) list"
  entity_rows :: "((string \<times> string) \<times> entity_row) list"
  record_subjects :: "((nat \<times> string) \<times> subject_row) list"
  fanout_queue :: "job_row list"
  timeline_mentions :: "(string \<times> string \<times> string) list"
  quarantine_pending :: "(string \<times> quarantine_row) list"
  records_fts :: "(nat \<times> string) list"

definition empty_index :: index where
  "empty_index = \<lparr>record_rows = [], record_attrs = [], entity_refs = [], entity_rows = [],
     record_subjects = [], fanout_queue = [], timeline_mentions = [], quarantine_pending = [],
     records_fts = []\<rparr>"

definition JOB_BUNDLE :: string where
  "JOB_BUNDLE = ''bundle''"

definition JOB_SUBJECT_LINK :: string where
  "JOB_SUBJECT_LINK = ''subject_link''"

text \<open>The key SQLite gives a new row of an \<open>INTEGER PRIMARY KEY\<close> table.\<close>

definition fresh_pk :: "nat list \<Rightarrow> nat" where
  "fresh_pk pks = Suc (foldr max pks 0)"

section \<open>Publishing\<close>

record publish_input =
  pi_record :: action_record
  pi_searchable_body :: string
  pi_subject_keys :: "(subject_hash \<times> string \<times> string) list"

definition role_text :: "role \<Rightarrow> string" where
  "role_text r = (case r of Primary \<Rightarrow> ''primary'' | Context \<Rightarrow> ''context'' | Related \<Rightarrow> ''related'')"

definition subject_role_text :: "subject_role \<Rightarrow> string" where
  "subject_role_text r = (case r of Principal \<Rightarrow> ''principal'' | Party \<Rightarrow> ''party'')"

definition show_int :: "int \<Rightarrow> string" where
  "show_int i = (if i < 0 then CHR ''-'' # show_nat (nat (- i)) else show_nat (nat i))"

definition attr_text :: "attr_value \<Rightarrow> string" where
  "attr_text v = (case v of
     AText s \<Rightarrow> s | AInt i \<Rightarrow> show_int i | ABool b \<Rightarrow> if b then ''true'' else ''false'')"

abbreviation doc_id :: "action_record \<Rightarrow> string" where
  "doc_id doc \<equiv> record_id_str (record_id doc)"

text \<open>The insert trigger keeps the full-text rows beside the records'.\<close>

definition insert_record ::
  "(string \<Rightarrow> int option) \<Rightarrow> index \<Rightarrow> action_record \<Rightarrow> string \<Rightarrow> (index, store_error) result" where
  "insert_record epoch_ms idx doc body =
     (case (epoch_ms (at_time doc), epoch_ms (received_at doc)) of
        (Some a, Some r) \<Rightarrow>
          if body \<noteq> [] \<and> data_class doc = SubjectDerived then Err (BodyCheckFailed (doc_id doc))
          else if map_of (record_rows idx) (doc_id doc) \<noteq> None then Ok idx
          else
            let pk = fresh_pk (map (\<lambda>(_, row). rec_pk row) (record_rows idx))
            in Ok (idx\<lparr>record_rows := record_rows idx @ [(doc_id doc,
                   \<lparr>rec_pk = pk, rec_schema_ver = schema_ver doc, rec_frontmatter = structure_of doc,
                    rec_body = body, rec_at_ms = a, rec_received_ms = r\<rparr>)],
                 records_fts := records_fts idx @ [(pk, body)]\<rparr>)
      | _ \<Rightarrow> Err (NullTimestamp (doc_id doc)))"

definition insert_attrs :: "nat \<Rightarrow> action_record \<Rightarrow> index \<Rightarrow> index" where
  "insert_attrs pk doc idx =
     idx\<lparr>record_attrs :=
       fold (\<lambda>(key, v). AList.update (pk, key) (attr_text v)) (attrs doc) (record_attrs idx)\<rparr>"

definition ref_entity :: "nat \<times> string \<times> string \<times> string \<Rightarrow> string \<times> string" where
  "ref_entity = (\<lambda>(_, k, e, _). (k, e))"

definition recount :: "((nat \<times> string \<times> string \<times> string) \<times> ref_row) list \<Rightarrow> string \<Rightarrow> string \<Rightarrow>
    entity_row option" where
  "recount refs k e =
     (let times = map (\<lambda>(_, row). ref_received_ms row)
                    (filter (\<lambda>(key, _). ref_entity key = (k, e)) refs)
      in if times = [] then None
         else Some \<lparr>first_seen_ms = Min (set times), last_seen_ms = Max (set times),
                    ref_count = length times\<rparr>)"

definition insert_entity :: "nat \<Rightarrow> int \<Rightarrow> entity_ref \<Rightarrow> index \<Rightarrow> index" where
  "insert_entity pk received_ms e idx =
     (let refs = AList.update (pk, ent_kind e, ent_id e, role_text (ent_role e))
                   \<lparr>ref_confidence = ent_confidence e, ref_received_ms = received_ms\<rparr> (entity_refs idx)
      in idx\<lparr>entity_refs := refs,
             entity_rows := (case recount refs (ent_kind e) (ent_id e) of
                None \<Rightarrow> entity_rows idx
              | Some row \<Rightarrow> AList.update (ent_kind e, ent_id e) row (entity_rows idx))\<rparr>)"

definition insert_entities :: "nat \<Rightarrow> int \<Rightarrow> action_record \<Rightarrow> index \<Rightarrow> index" where
  "insert_entities pk received_ms doc idx = fold (insert_entity pk received_ms) (entities doc) idx"

definition collect_key ::
  "string \<Rightarrow> (string, string \<times> string) btree \<Rightarrow> subject_hash \<times> string \<times> string \<Rightarrow>
     ((string, string \<times> string) btree, store_error) result" where
  "collect_key rid keys = (\<lambda>(hash, epoch, wrapped).
     if bt_get keys (subject_hash_str hash) \<noteq> None then Err (KeyedTwice rid (subject_hash_str hash))
     else Ok (bt_insert (subject_hash_str hash) (epoch, wrapped) keys))"

definition merge_subject :: "subject_row \<Rightarrow> subject_row option \<Rightarrow> subject_row" where
  "merge_subject excluded old =
     (case old of
        None \<Rightarrow> excluded
      | Some row \<Rightarrow>
          \<lparr>sub_role = sub_role excluded, sub_canon = sub_canon excluded,
           sub_epoch = (if sub_wrapped excluded = None then sub_epoch row else sub_epoch excluded),
           sub_wrapped = (case sub_wrapped excluded of None \<Rightarrow> sub_wrapped row | Some w \<Rightarrow> Some w)\<rparr>)"

text \<open>One subject's row; the share it takes leaves the map.\<close>

definition insert_subject ::
  "nat \<Rightarrow> subject_ref \<Rightarrow> ((nat \<times> string) \<times> subject_row) list \<times> (string, string \<times> string) btree \<Rightarrow>
     ((nat \<times> string) \<times> subject_row) list \<times> (string, string \<times> string) btree" where
  "insert_subject pk s = (\<lambda>(rows, keys).
     let hash = subject_hash_str (subj_hash s);
         keyed = bt_get keys hash;
         row = \<lparr>sub_role = subject_role_text (subj_role s), sub_canon = subj_canon s,
                sub_epoch = (case keyed of None \<Rightarrow> [] | Some (epoch, _) \<Rightarrow> epoch),
                sub_wrapped = map_option snd keyed\<rparr>
     in (AList.update (pk, hash) (merge_subject row (map_of rows (pk, hash))) rows,
         filter (\<lambda>(h, _). h \<noteq> hash) keys))"

definition insert_subjects ::
  "nat \<Rightarrow> publish_input \<Rightarrow> index \<Rightarrow> (index, store_error) result" where
  "insert_subjects pk input idx =
     (let doc = pi_record input in
      and_then (try_fold (collect_key (doc_id doc)) [] (pi_subject_keys input)) (\<lambda>keys.
        let (rows, left) = fold (insert_subject pk) (subjects doc) (record_subjects idx, keys)
        in case left of
             [] \<Rightarrow> Ok (idx\<lparr>record_subjects := rows\<rparr>)
           | (unnamed, _) # _ \<Rightarrow> Err (UnnamedSubject (doc_id doc) unnamed)))"

definition enqueue_job :: "string \<Rightarrow> string \<Rightarrow> int \<Rightarrow> job_row list \<Rightarrow> job_row list" where
  "enqueue_job rid k received_ms queue =
     (if list_ex (\<lambda>j. job_record j = rid \<and> job_kind j = k) queue then queue
      else queue @ [\<lparr>job_id = fresh_pk (map job_id queue), job_record = rid, job_kind = k,
        job_state = Pending, job_attempts = 0, job_enqueued_ms = received_ms,
        job_not_before_ms = 0, job_claimed_ms = None\<rparr>])"

definition enqueue_fanout :: "action_record \<Rightarrow> int \<Rightarrow> index \<Rightarrow> index" where
  "enqueue_fanout doc received_ms idx =
     (let queue = enqueue_job (doc_id doc) JOB_BUNDLE received_ms (fanout_queue idx)
      in idx\<lparr>fanout_queue :=
           (if subjects doc \<noteq> [] then enqueue_job (doc_id doc) JOB_SUBJECT_LINK received_ms queue
            else queue)\<rparr>)"

definition publish ::
  "(string \<Rightarrow> int option) \<Rightarrow> index \<Rightarrow> publish_input \<Rightarrow> (index, store_error) result" where
  "publish epoch_ms idx input =
     (let doc = pi_record input in
      if data_class doc = SubjectDerived \<and> pi_searchable_body input \<noteq> []
      then Err (SealedBodySearchable (doc_id doc))
      else
        and_then (insert_record epoch_ms idx doc (pi_searchable_body input)) (\<lambda>idx1.
          case map_of (record_rows idx1) (doc_id doc) of
            None \<Rightarrow> Err (NullTimestamp (doc_id doc))
          | Some row \<Rightarrow>
              let pk = rec_pk row; received_ms = rec_received_ms row;
                  idx2 = insert_entities pk received_ms doc (insert_attrs pk doc idx1)
              in and_then (insert_subjects pk input idx2) (\<lambda>idx3.
                   Ok (enqueue_fanout doc received_ms idx3))))"

text \<open>\<open>Writer::publish\<close>: a batch of one, rolled back when it is dropped uncommitted.\<close>

definition writer_publish ::
  "(string \<Rightarrow> int option) \<Rightarrow> index \<Rightarrow> publish_input \<Rightarrow> index \<times> (unit, store_error) result" where
  "writer_publish epoch_ms idx input =
     (case publish epoch_ms idx input of
        Ok idx' \<Rightarrow> (idx', Ok ())
      | Err e \<Rightarrow> (idx, Err e))"

section \<open>The other writes\<close>

definition truncate_derived :: "index \<Rightarrow> index" where
  "truncate_derived idx = empty_index"

definition enqueue_quarantine :: "int \<Rightarrow> string \<Rightarrow> string \<Rightarrow> string \<Rightarrow> index \<Rightarrow> index" where
  "enqueue_quarantine clock_ms rid qkek_date spool_path idx =
     (if map_of (quarantine_pending idx) rid \<noteq> None then idx
      else idx\<lparr>quarantine_pending := quarantine_pending idx @ [(rid,
        \<lparr>q_staging_path = spool_path, q_qkek_date = qkek_date, q_first_seen_ms = clock_ms\<rparr>)]\<rparr>)"

definition dequeue_quarantine :: "string \<Rightarrow> index \<Rightarrow> index" where
  "dequeue_quarantine rid idx =
     idx\<lparr>quarantine_pending := filter (\<lambda>(r, _). r \<noteq> rid) (quarantine_pending idx)\<rparr>"

definition ready :: "int \<Rightarrow> job_row \<Rightarrow> bool" where
  "ready now j \<longleftrightarrow> job_state j = Pending \<and> job_not_before_ms j \<le> now"

text \<open>The claim: the oldest ready jobs, by enqueue time and then by key, up to the limit.\<close>

definition claim_ids :: "nat \<Rightarrow> int \<Rightarrow> job_row list \<Rightarrow> nat list" where
  "claim_ids limit now queue =
     map job_id (take limit (sort_key (\<lambda>j. (job_enqueued_ms j, job_id j)) (filter (ready now) queue)))"

definition claim_job :: "int \<Rightarrow> job_row \<Rightarrow> job_row" where
  "claim_job now j =
     j\<lparr>job_state := Claimed, job_attempts := Suc (job_attempts j), job_claimed_ms := Some now\<rparr>"

definition claim_fanout :: "nat \<Rightarrow> int \<Rightarrow> index \<Rightarrow> index \<times> job_row list" where
  "claim_fanout limit now idx =
     (let ids = claim_ids limit now (fanout_queue idx);
          queue = map (\<lambda>j. if job_id j \<in> set ids then claim_job now j else j) (fanout_queue idx)
      in (idx\<lparr>fanout_queue := queue\<rparr>, filter (\<lambda>j. job_id j \<in> set ids) queue))"

definition complete_fanout :: "nat \<Rightarrow> index \<Rightarrow> index" where
  "complete_fanout jid idx =
     idx\<lparr>fanout_queue := map (\<lambda>j. if job_id j = jid
       then j\<lparr>job_state := Done, job_claimed_ms := None\<rparr> else j) (fanout_queue idx)\<rparr>"

definition fail_fanout :: "nat \<Rightarrow> int \<Rightarrow> index \<Rightarrow> index" where
  "fail_fanout jid not_before_ms idx =
     idx\<lparr>fanout_queue := map (\<lambda>j. if job_id j = jid \<and> job_state j = Claimed
       then j\<lparr>job_state := Pending, job_claimed_ms := None, job_not_before_ms := not_before_ms\<rparr>
       else j) (fanout_queue idx)\<rparr>"

definition stale :: "int \<Rightarrow> job_row \<Rightarrow> bool" where
  "stale claimed_before_ms j \<longleftrightarrow> job_state j = Claimed
     \<and> (case job_claimed_ms j of None \<Rightarrow> False | Some t \<Rightarrow> t \<le> claimed_before_ms)"

definition reclaim_stale_fanout :: "int \<Rightarrow> index \<Rightarrow> index \<times> nat" where
  "reclaim_stale_fanout claimed_before_ms idx =
     (idx\<lparr>fanout_queue := map (\<lambda>j. if stale claimed_before_ms j
         then j\<lparr>job_state := Pending, job_claimed_ms := None\<rparr> else j) (fanout_queue idx)\<rparr>,
      length (filter (stale claimed_before_ms) (fanout_queue idx)))"

text \<open>
  A claim on a line holds a transaction open: \<open>Some idx'\<close> is what committing it makes of the index;
  dropping it keeps \<open>idx\<close>. None: the line is already written.
\<close>

definition claim_timeline_mention ::
  "string \<Rightarrow> string \<Rightarrow> string \<Rightarrow> index \<Rightarrow> (index option, store_error) result" where
  "claim_timeline_mention rid k entity_id idx =
     (if (rid, k, entity_id) \<in> set (timeline_mentions idx) then Ok None
      else if map_of (record_rows idx) rid = None then Err (ForeignKeyFailed rid)
      else Ok (Some (idx\<lparr>timeline_mentions := timeline_mentions idx @ [(rid, k, entity_id)]\<rparr>)))"

section \<open>Migration\<close>

definition SCHEMA_VERSION :: nat where
  "SCHEMA_VERSION = 1"

text \<open>The version of the file and the steps run on it.\<close>

definition migrate :: "nat \<Rightarrow> (nat \<times> nat list, store_error) result" where
  "migrate found =
     (if SCHEMA_VERSION < found then Err (SchemaTooNew found SCHEMA_VERSION)
      else let steps = filter (\<lambda>target. found < target) [1..<Suc SCHEMA_VERSION]
           in Ok (if steps = [] then found else List.last steps, steps))"

section \<open>Lemmas on tables\<close>

lemma alist_eqI:
  assumes "map fst a = map fst b" "distinct (map fst a)" "map_of a = map_of b"
  shows "a = b"
proof -
  have "snd (a ! i) = snd (b ! i)" "fst (a ! i) = fst (b ! i)" if i: "i < length a" for i
  proof -
    have len: "length a = length b" using assms(1) by (metis length_map)
    show f: "fst (a ! i) = fst (b ! i)" using assms(1) i len by (metis nth_map)
    have "map_of a (fst (a ! i)) = Some (snd (a ! i))"
      using assms(2) i by (metis map_of_is_SomeI nth_mem prod.collapse)
    moreover have "map_of b (fst (b ! i)) = Some (snd (b ! i))"
      using assms(1,2) i len by (metis map_of_is_SomeI nth_mem prod.collapse)
    ultimately show "snd (a ! i) = snd (b ! i)" using assms(3) f by simp
  qed
  moreover have "length a = length b" using assms(1) by (metis length_map)
  ultimately show ?thesis by (simp add: list_eq_iff_nth_eq prod_eq_iff)
qed

definition put_all :: "('a \<Rightarrow> 'k) \<Rightarrow> ('a \<Rightarrow> 'v) \<Rightarrow> 'a list \<Rightarrow> ('k \<times> 'v) list \<Rightarrow> ('k \<times> 'v) list" where
  "put_all key val xs table = fold (\<lambda>x. AList.update (key x) (val x)) xs table"

lemma put_all_simps [simp]:
  "put_all key val [] table = table"
  "put_all key val (x # xs) table = put_all key val xs (AList.update (key x) (val x) table)"
  by (simp_all add: put_all_def)

lemma map_of_put_all:
  "map_of (put_all key val xs table) = map_of table ++ map_of (rev (map (\<lambda>x. (key x, val x)) xs))"
  by (induction xs arbitrary: table) (simp_all add: update_conv')

lemma keys_put_all_present:
  "key ` set xs \<subseteq> fst ` set table \<Longrightarrow> map fst (put_all key val xs table) = map fst table"
proof (induction xs arbitrary: table)
  case (Cons x xs)
  then have "map fst (AList.update (key x) (val x) table) = map fst table" by (simp add: update_keys)
  with Cons show ?case by (metis (no_types, lifting) image_subset_iff list.set_intros(2) list.set_map put_all_simps(2))
qed simp

lemma distinct_put_all: "distinct (map fst table) \<Longrightarrow> distinct (map fst (put_all key val xs table))"
  by (induction xs arbitrary: table) (simp_all add: distinct_update)

lemma set_keys_put_all: "fst ` set (put_all key val xs table) = fst ` set table \<union> key ` set xs"
  by (induction xs arbitrary: table) (auto simp: dom_update)

lemma map_add_twice: "m ++ n ++ n = m ++ n"
  by (auto simp: map_add_def fun_eq_iff split: option.split)

lemma put_all_idem:
  assumes "distinct (map fst table)"
  shows "put_all key val xs (put_all key val xs table) = put_all key val xs table"
proof (rule alist_eqI)
  show "map fst (put_all key val xs (put_all key val xs table)) = map fst (put_all key val xs table)"
    by (rule keys_put_all_present) (simp add: set_keys_put_all)
  show "distinct (map fst (put_all key val xs (put_all key val xs table)))"
    by (intro distinct_put_all assms)
  show "map_of (put_all key val xs (put_all key val xs table)) = map_of (put_all key val xs table)"
    unfolding map_of_put_all by (rule map_add_twice)
qed

lemma fresh_pk_greater: "n \<in> set pks \<Longrightarrow> n < fresh_pk pks"
  by (induction pks) (auto simp: fresh_pk_def less_Suc_eq_le max_def)

lemma fresh_pk_notin: "fresh_pk pks \<notin> set pks"
  using fresh_pk_greater by blast

section \<open>The invariant\<close>

definition records_ok :: "index \<Rightarrow> bool" where
  "records_ok idx \<longleftrightarrow>
     distinct (map fst (record_rows idx))
     \<and> distinct (map (\<lambda>(_, row). rec_pk row) (record_rows idx))
     \<and> (\<forall>(rid, row) \<in> set (record_rows idx).
          rid = record_id_str (record_id (rec_frontmatter row))
          \<and> (rec_body row = [] \<or> data_class (rec_frontmatter row) \<noteq> SubjectDerived))
     \<and> records_fts idx = map (\<lambda>(_, row). (rec_pk row, rec_body row)) (record_rows idx)"

definition catalogue_ok :: "index \<Rightarrow> bool" where
  "catalogue_ok idx \<longleftrightarrow> distinct (map fst (entity_rows idx))
     \<and> distinct (map fst (entity_refs idx)) \<and> distinct (map fst (record_attrs idx))
     \<and> (\<forall>k e. map_of (entity_rows idx) (k, e) = recount (entity_refs idx) k e)"

definition queue_ok :: "index \<Rightarrow> bool" where
  "queue_ok idx \<longleftrightarrow>
     distinct (map job_id (fanout_queue idx))
     \<and> distinct (map (\<lambda>j. (job_record j, job_kind j)) (fanout_queue idx))
     \<and> (\<forall>j \<in> set (fanout_queue idx). job_record j \<in> fst ` set (record_rows idx)
          \<and> (job_state j = Claimed \<longleftrightarrow> job_claimed_ms j \<noteq> None))"

definition mentions_ok :: "index \<Rightarrow> bool" where
  "mentions_ok idx \<longleftrightarrow> distinct (timeline_mentions idx)
     \<and> (\<forall>(rid, _) \<in> set (timeline_mentions idx). rid \<in> fst ` set (record_rows idx))"

definition index_ok :: "index \<Rightarrow> bool" where
  "index_ok idx \<longleftrightarrow> records_ok idx \<and> catalogue_ok idx \<and> queue_ok idx \<and> mentions_ok idx"

lemma index_ok_empty: "index_ok empty_index"
  by (simp add: index_ok_def records_ok_def catalogue_ok_def queue_ok_def mentions_ok_def
      empty_index_def recount_def)

lemma insert_record_Ok:
  assumes "insert_record epoch_ms idx doc body = Ok idx1" "records_ok idx"
  shows "records_ok idx1 \<and> map_of (record_rows idx1) (doc_id doc) \<noteq> None
    \<and> fst ` set (record_rows idx) \<subseteq> fst ` set (record_rows idx1)
    \<and> record_attrs idx1 = record_attrs idx \<and> entity_refs idx1 = entity_refs idx
    \<and> entity_rows idx1 = entity_rows idx \<and> record_subjects idx1 = record_subjects idx
    \<and> fanout_queue idx1 = fanout_queue idx \<and> timeline_mentions idx1 = timeline_mentions idx
    \<and> quarantine_pending idx1 = quarantine_pending idx"
proof -
  from assms(1) obtain a r where ms: "epoch_ms (at_time doc) = Some a" "epoch_ms (received_at doc) = Some r"
    by (auto simp: insert_record_def split: option.splits)
  show ?thesis
  proof (cases "map_of (record_rows idx) (doc_id doc)")
    case (Some row)
    with assms ms have "idx1 = idx" by (simp add: insert_record_def split: if_splits)
    with assms(2) Some show ?thesis by simp
  next
    case None
    define pk where "pk = fresh_pk (map (\<lambda>(_, row). rec_pk row) (record_rows idx))"
    define row where "row = \<lparr>rec_pk = pk, rec_schema_ver = schema_ver doc,
      rec_frontmatter = structure_of doc, rec_body = body, rec_at_ms = a, rec_received_ms = r\<rparr>"
    have idx1: "idx1 = idx\<lparr>record_rows := record_rows idx @ [(doc_id doc, row)],
        records_fts := records_fts idx @ [(pk, body)]\<rparr>" "body = [] \<or> data_class doc \<noteq> SubjectDerived"
      using assms(1) ms None
      by (auto simp: insert_record_def Let_def pk_def row_def split: if_splits)
    have "pk \<notin> set (map (\<lambda>(_, row). rec_pk row) (record_rows idx))"
      unfolding pk_def by (rule fresh_pk_notin)
    moreover have "doc_id doc \<notin> fst ` set (record_rows idx)" using None by (simp add: map_of_eq_None_iff)
    ultimately show ?thesis
      using assms(2) idx1 None by (auto simp: records_ok_def row_def structure_of_def map_add_def)
  qed
qed

lemma filter_update_other:
  "\<not> Q key \<Longrightarrow> filter (\<lambda>(k, _). Q k) (AList.update key v al) = filter (\<lambda>(k, _). Q k) al"
  by (induction al) auto

lemma recount_update_other:
  assumes "(k, e) \<noteq> (k0, e0)"
  shows "recount (AList.update (pk, k0, e0, rl) row refs) k e = recount refs k e"
proof -
  have "filter (\<lambda>(key, _). ref_entity key = (k, e)) (AList.update (pk, k0, e0, rl) row refs)
      = filter (\<lambda>(key, _). ref_entity key = (k, e)) refs"
    by (rule filter_update_other) (use assms in \<open>auto simp: ref_entity_def\<close>)
  then show ?thesis by (simp only: recount_def)
qed

lemma recount_update_Some:
  "\<exists>row'. recount (AList.update (pk, k, e, rl) row refs) k e = Some row'"
proof -
  have "((pk, k, e, rl), row) \<in> set (AList.update (pk, k, e, rl) row refs)"
    by (induction refs) auto
  then have "((pk, k, e, rl), row)
      \<in> set (filter (\<lambda>(key, _). ref_entity key = (k, e)) (AList.update (pk, k, e, rl) row refs))"
    by (simp add: ref_entity_def)
  then have "filter (\<lambda>(key, _). ref_entity key = (k, e)) (AList.update (pk, k, e, rl) row refs) \<noteq> []"
    by (metis empty_iff list.set(1))
  then show ?thesis by (simp add: recount_def Let_def)
qed

lemma insert_entity_catalogue:
  assumes "catalogue_ok idx" shows "catalogue_ok (insert_entity pk ms en idx)"
proof -
  let ?refs = "AList.update (pk, ent_kind en, ent_id en, role_text (ent_role en))
      \<lparr>ref_confidence = ent_confidence en, ref_received_ms = ms\<rparr> (entity_refs idx)"
  obtain row where row: "recount ?refs (ent_kind en) (ent_id en) = Some row"
    using recount_update_Some by blast
  have "map_of (AList.update (ent_kind en, ent_id en) row (entity_rows idx)) (k, e) = recount ?refs k e" for k e
    using assms row recount_update_other [of k e "ent_kind en" "ent_id en"]
    by (cases "(k, e) = (ent_kind en, ent_id en)") (auto simp: catalogue_ok_def update_conv')
  with assms row show ?thesis
    by (simp add: catalogue_ok_def insert_entity_def Let_def distinct_update)
qed

lemma insert_entities_catalogue:
  "catalogue_ok idx \<Longrightarrow> catalogue_ok (insert_entities pk ms doc idx)"
proof -
  have "catalogue_ok idx \<Longrightarrow> catalogue_ok (fold (insert_entity pk ms) es idx)" for es
    by (induction es arbitrary: idx) (auto intro: insert_entity_catalogue)
  then show "catalogue_ok idx \<Longrightarrow> ?thesis" by (simp add: insert_entities_def)
qed

text \<open>What each part of a publish leaves alone.\<close>

lemma insert_attrs_frame [simp]:
  "record_rows (insert_attrs pk doc idx) = record_rows idx"
  "entity_refs (insert_attrs pk doc idx) = entity_refs idx"
  "entity_rows (insert_attrs pk doc idx) = entity_rows idx"
  "record_subjects (insert_attrs pk doc idx) = record_subjects idx"
  "fanout_queue (insert_attrs pk doc idx) = fanout_queue idx"
  "timeline_mentions (insert_attrs pk doc idx) = timeline_mentions idx"
  "quarantine_pending (insert_attrs pk doc idx) = quarantine_pending idx"
  "records_fts (insert_attrs pk doc idx) = records_fts idx"
  by (simp_all add: insert_attrs_def)

lemma fold_insert_entity_frame:
  "record_rows (fold (insert_entity pk ms) es idx) = record_rows idx
   \<and> record_attrs (fold (insert_entity pk ms) es idx) = record_attrs idx
   \<and> record_subjects (fold (insert_entity pk ms) es idx) = record_subjects idx
   \<and> fanout_queue (fold (insert_entity pk ms) es idx) = fanout_queue idx
   \<and> timeline_mentions (fold (insert_entity pk ms) es idx) = timeline_mentions idx
   \<and> quarantine_pending (fold (insert_entity pk ms) es idx) = quarantine_pending idx
   \<and> records_fts (fold (insert_entity pk ms) es idx) = records_fts idx"
  by (induction es arbitrary: idx) (simp_all add: insert_entity_def Let_def)

lemma insert_entities_frame [simp]:
  "record_rows (insert_entities pk ms doc idx) = record_rows idx"
  "record_attrs (insert_entities pk ms doc idx) = record_attrs idx"
  "record_subjects (insert_entities pk ms doc idx) = record_subjects idx"
  "fanout_queue (insert_entities pk ms doc idx) = fanout_queue idx"
  "timeline_mentions (insert_entities pk ms doc idx) = timeline_mentions idx"
  "quarantine_pending (insert_entities pk ms doc idx) = quarantine_pending idx"
  "records_fts (insert_entities pk ms doc idx) = records_fts idx"
  by (simp_all add: insert_entities_def fold_insert_entity_frame)

lemma insert_subjects_frame:
  assumes "insert_subjects pk input idx = Ok idx'"
  shows "\<exists>rows. idx' = idx\<lparr>record_subjects := rows\<rparr>"
proof -
  from assms obtain keys where k: "try_fold (collect_key (doc_id (pi_record input))) [] (pi_subject_keys input) = Ok keys"
    by (auto simp: insert_subjects_def Let_def)
  obtain rows left where "fold (insert_subject pk) (subjects (pi_record input)) (record_subjects idx, keys) = (rows, left)"
    by (cases "fold (insert_subject pk) (subjects (pi_record input)) (record_subjects idx, keys)")
  with assms k show ?thesis by (cases left) (auto simp: insert_subjects_def Let_def)
qed

definition queue_rows_ok :: "string set \<Rightarrow> job_row list \<Rightarrow> bool" where
  "queue_rows_ok rids queue \<longleftrightarrow> distinct (map job_id queue)
     \<and> distinct (map (\<lambda>j. (job_record j, job_kind j)) queue)
     \<and> (\<forall>j \<in> set queue. job_record j \<in> rids \<and> (job_state j = Claimed \<longleftrightarrow> job_claimed_ms j \<noteq> None))"

lemma queue_ok_rows: "queue_ok idx \<longleftrightarrow> queue_rows_ok (fst ` set (record_rows idx)) (fanout_queue idx)"
  by (simp add: queue_ok_def queue_rows_ok_def)

lemma enqueue_job_ok:
  assumes "queue_rows_ok rids queue" "rid \<in> rids"
  shows "queue_rows_ok rids (enqueue_job rid k ms queue)"
proof (cases "list_ex (\<lambda>j. job_record j = rid \<and> job_kind j = k) queue")
  case True
  with assms show ?thesis by (simp add: enqueue_job_def)
next
  case False
  moreover have "fresh_pk (map job_id queue) \<notin> job_id ` set queue"
    using fresh_pk_notin [of "map job_id queue"] by simp
  ultimately show ?thesis using assms
    by (auto simp: enqueue_job_def queue_rows_ok_def list_ex_iff)
qed

lemma publish_parts:
  assumes "publish epoch_ms idx input = Ok idx'"
  obtains idx1 row rows where
    "insert_record epoch_ms idx (pi_record input) (pi_searchable_body input) = Ok idx1"
    "map_of (record_rows idx1) (doc_id (pi_record input)) = Some row"
    "insert_subjects (rec_pk row) input (insert_entities (rec_pk row) (rec_received_ms row) (pi_record input)
       (insert_attrs (rec_pk row) (pi_record input) idx1))
     = Ok ((insert_entities (rec_pk row) (rec_received_ms row) (pi_record input)
       (insert_attrs (rec_pk row) (pi_record input) idx1))\<lparr>record_subjects := rows\<rparr>)"
    "idx' = enqueue_fanout (pi_record input) (rec_received_ms row)
       ((insert_entities (rec_pk row) (rec_received_ms row) (pi_record input)
         (insert_attrs (rec_pk row) (pi_record input) idx1))\<lparr>record_subjects := rows\<rparr>)"
proof -
  from assms obtain idx1 row idx3 where
    p: "insert_record epoch_ms idx (pi_record input) (pi_searchable_body input) = Ok idx1"
    "map_of (record_rows idx1) (doc_id (pi_record input)) = Some row"
    "insert_subjects (rec_pk row) input (insert_entities (rec_pk row) (rec_received_ms row) (pi_record input)
       (insert_attrs (rec_pk row) (pi_record input) idx1)) = Ok idx3"
    "idx' = enqueue_fanout (pi_record input) (rec_received_ms row) idx3"
    by (auto simp: publish_def Let_def split: if_splits option.splits)
  from insert_subjects_frame [OF p(3)] p that show ?thesis by blast
qed

lemma publish_ok:
  assumes "publish epoch_ms idx input = Ok idx'" "index_ok idx"
  shows "index_ok idx'"
proof -
  let ?doc = "pi_record input"
  from assms(1) obtain idx1 row rows where
    p: "insert_record epoch_ms idx ?doc (pi_searchable_body input) = Ok idx1"
    "map_of (record_rows idx1) (doc_id ?doc) = Some row"
    "idx' = enqueue_fanout ?doc (rec_received_ms row)
       ((insert_entities (rec_pk row) (rec_received_ms row) ?doc
         (insert_attrs (rec_pk row) ?doc idx1))\<lparr>record_subjects := rows\<rparr>)"
    by (rule publish_parts)
  have ok: "records_ok idx" "catalogue_ok idx" "queue_ok idx" "mentions_ok idx"
    using assms(2) by (simp_all add: index_ok_def)
  note i = insert_record_Ok [OF p(1) ok(1)]
  have rid: "doc_id ?doc \<in> fst ` set (record_rows idx1)" using map_of_SomeD [OF p(2)] by force
  let ?idx2 = "insert_entities (rec_pk row) (rec_received_ms row) ?doc (insert_attrs (rec_pk row) ?doc idx1)"
  have "catalogue_ok (insert_attrs (rec_pk row) ?doc idx1)"
    using ok(2) i distinct_put_all [of "record_attrs idx" "\<lambda>(key, v). (rec_pk row, key)" "\<lambda>(key, v). attr_text v"]
    by (simp add: catalogue_ok_def insert_attrs_def put_all_def case_prod_unfold)
  then have "catalogue_ok ?idx2" by (rule insert_entities_catalogue)
  then have "catalogue_ok idx'" by (simp add: p(3) catalogue_ok_def enqueue_fanout_def Let_def)
  moreover have "records_ok idx'" using i by (simp add: p(3) records_ok_def enqueue_fanout_def Let_def)
  moreover have rr: "record_rows idx' = record_rows idx1" "timeline_mentions idx' = timeline_mentions idx"
    using i by (simp_all add: p(3) enqueue_fanout_def Let_def)
  have "rid \<in> fst ` set (record_rows idx1)" if "(rid, x) \<in> set (timeline_mentions idx)" for rid x
  proof -
    have "fst ` set (record_rows idx) \<subseteq> fst ` set (record_rows idx1)" using i by simp
    moreover have "rid \<in> fst ` set (record_rows idx)" using ok(4) that by (auto simp: mentions_ok_def)
    ultimately show ?thesis by (rule subsetD)
  qed
  then have "mentions_ok idx'" using ok(4) by (auto simp: mentions_ok_def rr)
  moreover have "queue_rows_ok (fst ` set (record_rows idx1)) (fanout_queue idx)"
    using ok(3) i by (auto simp: queue_ok_rows queue_rows_ok_def)
  then have "queue_ok idx'" using i rid
    by (simp add: p(3) queue_ok_rows enqueue_fanout_def Let_def enqueue_job_ok)
  ultimately show ?thesis by (simp add: index_ok_def)
qed

section \<open>Reachable indexes\<close>

text \<open>Every write the single \<open>Writer\<close> can make. A failed publish and a dropped timeline claim leave the
  index as it was, and so are no step.\<close>

inductive index_step :: "(string \<Rightarrow> int option) \<Rightarrow> index \<Rightarrow> index \<Rightarrow> bool" for epoch_ms where
  publish_step: "publish epoch_ms idx input = Ok idx' \<Longrightarrow> index_step epoch_ms idx idx'"
| truncate_step: "index_step epoch_ms idx (truncate_derived idx)"
| hold_back_step: "index_step epoch_ms idx (enqueue_quarantine now rid date path idx)"
| settle_step: "index_step epoch_ms idx (dequeue_quarantine rid idx)"
| claim_step: "index_step epoch_ms idx (fst (claim_fanout limit now idx))"
| complete_step: "index_step epoch_ms idx (complete_fanout jid idx)"
| fail_step: "index_step epoch_ms idx (fail_fanout jid t idx)"
| reclaim_step: "index_step epoch_ms idx (fst (reclaim_stale_fanout t idx))"
| mention_step: "claim_timeline_mention rid k e idx = Ok (Some idx') \<Longrightarrow> index_step epoch_ms idx idx'"

inductive reachable_index :: "(string \<Rightarrow> int option) \<Rightarrow> index \<Rightarrow> bool" for epoch_ms where
  fresh: "reachable_index epoch_ms empty_index"
| written: "reachable_index epoch_ms idx \<Longrightarrow> index_step epoch_ms idx idx' \<Longrightarrow> reachable_index epoch_ms idx'"

text \<open>A change of the queue alone, job by job, that keeps the keys.\<close>

lemma map_queue_ok:
  assumes "index_ok idx"
    and "\<And>j. job_id (f j) = job_id j \<and> job_record (f j) = job_record j \<and> job_kind (f j) = job_kind j"
    and "\<And>j. (job_state j = Claimed \<longleftrightarrow> job_claimed_ms j \<noteq> None) \<Longrightarrow>
      (job_state (f j) = Claimed \<longleftrightarrow> job_claimed_ms (f j) \<noteq> None)"
  shows "index_ok (idx\<lparr>fanout_queue := map f (fanout_queue idx)\<rparr>)"
proof -
  have "map job_id (map f q) = map job_id q"
    "map (\<lambda>j. (job_record j, job_kind j)) (map f q) = map (\<lambda>j. (job_record j, job_kind j)) q" for q
    using assms(2) by simp_all
  moreover have "queue_rows_ok (fst ` set (record_rows idx)) (fanout_queue idx)"
    using assms(1) by (simp add: index_ok_def queue_ok_rows)
  ultimately have "queue_rows_ok (fst ` set (record_rows idx)) (map f (fanout_queue idx))"
    using assms(2,3) unfolding queue_rows_ok_def by (simp del: map_map)
  with assms(1) show ?thesis
    by (simp add: index_ok_def queue_ok_rows records_ok_def catalogue_ok_def mentions_ok_def)
qed

lemma claim_fanout_ok: "index_ok idx \<Longrightarrow> index_ok (fst (claim_fanout limit now idx))"
  unfolding claim_fanout_def Let_def fst_conv by (erule map_queue_ok) (auto simp: claim_job_def)

lemma complete_fanout_ok: "index_ok idx \<Longrightarrow> index_ok (complete_fanout jid idx)"
  unfolding complete_fanout_def by (erule map_queue_ok) auto

lemma fail_fanout_ok: "index_ok idx \<Longrightarrow> index_ok (fail_fanout jid t idx)"
  unfolding fail_fanout_def by (erule map_queue_ok) auto

lemma reclaim_ok: "index_ok idx \<Longrightarrow> index_ok (fst (reclaim_stale_fanout t idx))"
  unfolding reclaim_stale_fanout_def fst_conv by (erule map_queue_ok) auto

lemma quarantine_ok:
  "index_ok idx \<Longrightarrow> index_ok (enqueue_quarantine now rid date path idx)"
  "index_ok idx \<Longrightarrow> index_ok (dequeue_quarantine rid idx)"
  by (simp_all add: index_ok_def records_ok_def catalogue_ok_def queue_ok_def mentions_ok_def
      enqueue_quarantine_def dequeue_quarantine_def)

lemma mention_ok:
  assumes "claim_timeline_mention rid k e idx = Ok (Some idx')" "index_ok idx"
  shows "index_ok idx'"
proof -
  have "idx' = idx\<lparr>timeline_mentions := timeline_mentions idx @ [(rid, k, e)]\<rparr>"
    "(rid, k, e) \<notin> set (timeline_mentions idx)" "rid \<in> fst ` set (record_rows idx)"
    using assms(1) by (auto simp: claim_timeline_mention_def map_of_eq_None_iff split: if_splits)
  with assms(2) show ?thesis
    by (simp add: index_ok_def records_ok_def catalogue_ok_def queue_ok_def mentions_ok_def)
qed

lemma index_step_ok: "index_step epoch_ms idx idx' \<Longrightarrow> index_ok idx \<Longrightarrow> index_ok idx'"
  by (induction rule: index_step.induct)
    (simp_all add: publish_ok truncate_derived_def index_ok_empty quarantine_ok claim_fanout_ok
      complete_fanout_ok fail_fanout_ok reclaim_ok mention_ok)

lemma reachable_index_ok: "reachable_index epoch_ms idx \<Longrightarrow> index_ok idx"
  by (induction rule: reachable_index.induct) (simp_all add: index_ok_empty index_step_ok)

section \<open>Replay\<close>

lemma insert_attrs_replay:
  assumes "distinct (map fst (record_attrs idx))"
    and "record_attrs idx' = record_attrs (insert_attrs pk doc idx)"
  shows "insert_attrs pk doc idx' = idx'"
  using assms put_all_idem [of "record_attrs idx" "\<lambda>(key, v). (pk, key)" "\<lambda>(key, v). attr_text v" "attrs doc"]
  by (simp add: insert_attrs_def put_all_def case_prod_unfold)

lemma fold_insert_entity_refs:
  "entity_refs (fold (insert_entity pk ms) es idx) =
     put_all (\<lambda>e. (pk, ent_kind e, ent_id e, role_text (ent_role e)))
       (\<lambda>e. \<lparr>ref_confidence = ent_confidence e, ref_received_ms = ms\<rparr>) es (entity_refs idx)"
  by (induction es arbitrary: idx) (simp_all add: insert_entity_def Let_def)

lemma insert_entity_keys:
  assumes "catalogue_ok idx"
  shows "fst ` set (entity_rows (insert_entity pk ms e idx))
    = insert (ent_kind e, ent_id e) (fst ` set (entity_rows idx))"
proof -
  obtain row where "recount (AList.update (pk, ent_kind e, ent_id e, role_text (ent_role e))
      \<lparr>ref_confidence = ent_confidence e, ref_received_ms = ms\<rparr> (entity_refs idx)) (ent_kind e) (ent_id e) = Some row"
    using recount_update_Some by blast
  then show ?thesis by (simp add: insert_entity_def Let_def dom_update)
qed

lemma fold_insert_entity_keys:
  "catalogue_ok idx \<Longrightarrow> fst ` set (entity_rows (fold (insert_entity pk ms) es idx))
     = (\<lambda>e. (ent_kind e, ent_id e)) ` set es \<union> fst ` set (entity_rows idx)"
  by (induction es arbitrary: idx) (auto simp: insert_entity_keys insert_entity_catalogue)

lemma insert_entity_key_list:
  assumes "(ent_kind e, ent_id e) \<in> fst ` set (entity_rows idx)"
  shows "map fst (entity_rows (insert_entity pk ms e idx)) = map fst (entity_rows idx)"
  using assms by (simp add: insert_entity_def Let_def update_keys split: option.split)

lemma fold_insert_entity_key_list:
  "(\<lambda>e. (ent_kind e, ent_id e)) ` set es \<subseteq> fst ` set (entity_rows idx) \<Longrightarrow>
     map fst (entity_rows (fold (insert_entity pk ms) es idx)) = map fst (entity_rows idx)"
proof (induction es arbitrary: idx)
  case (Cons e es)
  then have k: "map fst (entity_rows (insert_entity pk ms e idx)) = map fst (entity_rows idx)"
    by (intro insert_entity_key_list) simp
  then have "fst ` set (entity_rows (insert_entity pk ms e idx)) = fst ` set (entity_rows idx)"
    by (metis list.set_map)
  with Cons k show ?case by simp
qed simp

lemma insert_entities_replay:
  assumes ok: "catalogue_ok idx"
    and same: "entity_refs idx' = entity_refs (insert_entities pk ms doc idx)"
      "entity_rows idx' = entity_rows (insert_entities pk ms doc idx)"
    and attrs: "distinct (map fst (record_attrs idx'))"
  shows "insert_entities pk ms doc idx' = idx'"
proof -
  let ?F = "insert_entities pk ms doc"
  have ok1: "catalogue_ok (?F idx)" using ok by (rule insert_entities_catalogue)
  have ok': "catalogue_ok idx'" using ok1 same attrs by (simp add: catalogue_ok_def)
  have ok2: "catalogue_ok (?F idx')" using ok' by (rule insert_entities_catalogue)
  have refs: "entity_refs (?F idx') = entity_refs idx'"
    using same(1) ok
    by (auto simp: insert_entities_def fold_insert_entity_refs catalogue_ok_def intro: put_all_idem)
  have rows: "entity_rows (?F idx') = entity_rows idx'"
  proof (rule alist_eqI)
    show "map fst (entity_rows (?F idx')) = map fst (entity_rows idx')"
      unfolding insert_entities_def
      by (rule fold_insert_entity_key_list)
        (use ok same(2) in \<open>simp add: insert_entities_def fold_insert_entity_keys\<close>)
    show "distinct (map fst (entity_rows (?F idx')))" using ok2 by (simp add: catalogue_ok_def)
    show "map_of (entity_rows (?F idx')) = map_of (entity_rows idx')"
      using ok2 ok' refs by (auto simp: catalogue_ok_def fun_eq_iff)
  qed
  show ?thesis by (rule index.equality) (simp_all add: refs rows)
qed

lemma merge_subject_idem: "merge_subject row (Some (merge_subject row old)) = merge_subject row old"
  by (cases old) (auto simp: merge_subject_def split: option.split)

lemma insert_subjects_replay:
  assumes "length (subjects (pi_record input)) \<le> 1"
    and "insert_subjects pk input idx = Ok idx2" and "record_subjects idx' = record_subjects idx2"
  shows "insert_subjects pk input idx' = Ok idx'"
proof -
  from assms(2) obtain keys where
    k: "try_fold (collect_key (doc_id (pi_record input))) [] (pi_subject_keys input) = Ok keys"
    by (auto simp: insert_subjects_def Let_def)
  consider "subjects (pi_record input) = []" | s where "subjects (pi_record input) = [s]"
    using assms(1) by (cases "subjects (pi_record input)") auto
  then show ?thesis
  proof cases
    case 1
    with assms(2) k have "keys = []" by (cases keys) (auto simp: insert_subjects_def Let_def)
    with 1 k show ?thesis by (simp add: insert_subjects_def Let_def)
  next
    case (2 s)
    let ?h = "subject_hash_str (subj_hash s)"
    define row where "row = \<lparr>sub_role = subject_role_text (subj_role s), sub_canon = subj_canon s,
      sub_epoch = (case bt_get keys ?h of None \<Rightarrow> [] | Some (epoch, _) \<Rightarrow> epoch),
      sub_wrapped = map_option snd (bt_get keys ?h)\<rparr>"
    have step: "insert_subject pk s (rows, keys) = (AList.update (pk, ?h) (merge_subject row (map_of rows (pk, ?h))) rows,
        filter (\<lambda>(h, _). h \<noteq> ?h) keys)" for rows
      by (simp add: insert_subject_def Let_def row_def)
    from assms(2) 2 k have left: "filter (\<lambda>(h, _). h \<noteq> ?h) keys = []"
      and idx2: "record_subjects idx2 = AList.update (pk, ?h)
        (merge_subject row (map_of (record_subjects idx) (pk, ?h))) (record_subjects idx)"
      by (auto simp: insert_subjects_def Let_def step split: list.splits)
    have "AList.update (pk, ?h) (merge_subject row (map_of (record_subjects idx') (pk, ?h))) (record_subjects idx')
        = record_subjects idx'"
      by (rule update_triv) (simp add: assms(3) idx2 update_conv' merge_subject_idem)
    with 2 k left show ?thesis by (simp add: insert_subjects_def Let_def step)
  qed
qed

lemma enqueue_job_has: "list_ex (\<lambda>j. job_record j = rid \<and> job_kind j = k) (enqueue_job rid k ms queue)"
  by (simp add: enqueue_job_def)

lemma enqueue_job_keeps:
  "list_ex P queue \<Longrightarrow> list_ex P (enqueue_job rid k ms queue)"
  by (auto simp: enqueue_job_def)

lemma enqueue_fanout_replay:
  assumes "fanout_queue idx' = fanout_queue (enqueue_fanout doc ms idx)"
  shows "enqueue_fanout doc ms idx' = idx'"
proof -
  have b: "list_ex (\<lambda>j. job_record j = doc_id doc \<and> job_kind j = JOB_BUNDLE) (fanout_queue idx')"
    using assms by (simp add: enqueue_fanout_def Let_def enqueue_job_has enqueue_job_keeps)
  have l: "list_ex (\<lambda>j. job_record j = doc_id doc \<and> job_kind j = JOB_SUBJECT_LINK) (fanout_queue idx')"
    if "subjects doc \<noteq> []"
    using assms that by (simp add: enqueue_fanout_def Let_def enqueue_job_has)
  have "enqueue_job (doc_id doc) JOB_BUNDLE ms (fanout_queue idx') = fanout_queue idx'"
    using b by (simp add: enqueue_job_def)
  moreover have "subjects doc \<noteq> [] \<longrightarrow> enqueue_job (doc_id doc) JOB_SUBJECT_LINK ms (fanout_queue idx') = fanout_queue idx'"
    using l by (simp add: enqueue_job_def)
  ultimately show ?thesis by (simp add: enqueue_fanout_def Let_def)
qed

lemma insert_record_replay:
  assumes "insert_record epoch_ms idx doc body = Ok idx1" "map_of (record_rows idx') (doc_id doc) \<noteq> None"
  shows "insert_record epoch_ms idx' doc body = Ok idx'"
  using assms by (auto simp: insert_record_def split: option.splits if_splits)

lemma publish_replay_ok:
  assumes pub: "publish epoch_ms idx input = Ok idx'" and ok: "index_ok idx"
    and one: "length (subjects (pi_record input)) \<le> 1"
  shows "publish epoch_ms idx' input = Ok idx'"
proof -
  let ?doc = "pi_record input"
  from pub obtain idx1 row rows where
    p1: "insert_record epoch_ms idx ?doc (pi_searchable_body input) = Ok idx1"
    and p2: "map_of (record_rows idx1) (doc_id ?doc) = Some row"
    and p3: "insert_subjects (rec_pk row) input (insert_entities (rec_pk row) (rec_received_ms row) ?doc
       (insert_attrs (rec_pk row) ?doc idx1))
     = Ok ((insert_entities (rec_pk row) (rec_received_ms row) ?doc
       (insert_attrs (rec_pk row) ?doc idx1))\<lparr>record_subjects := rows\<rparr>)"
    and p4: "idx' = enqueue_fanout ?doc (rec_received_ms row)
       ((insert_entities (rec_pk row) (rec_received_ms row) ?doc
         (insert_attrs (rec_pk row) ?doc idx1))\<lparr>record_subjects := rows\<rparr>)"
    by (rule publish_parts)
  let ?pk = "rec_pk row" and ?ms = "rec_received_ms row"
  have i: "catalogue_ok idx1" "distinct (map fst (record_attrs idx1))"
    using insert_record_Ok [OF p1] ok by (simp_all add: index_ok_def catalogue_ok_def)
  have cat2: "catalogue_ok (insert_attrs ?pk ?doc idx1)"
    using i distinct_put_all [OF i(2), of "\<lambda>(key, v). (?pk, key)" "\<lambda>(key, v). attr_text v" "attrs ?doc"]
    by (simp add: catalogue_ok_def insert_attrs_def put_all_def case_prod_unfold)
  have parts: "record_rows idx' = record_rows idx1"
    "record_attrs idx' = record_attrs (insert_attrs ?pk ?doc idx1)"
    "entity_refs idx' = entity_refs (insert_entities ?pk ?ms ?doc (insert_attrs ?pk ?doc idx1))"
    "entity_rows idx' = entity_rows (insert_entities ?pk ?ms ?doc (insert_attrs ?pk ?doc idx1))"
    "record_subjects idx' = rows"
    by (simp_all add: p4 enqueue_fanout_def Let_def)
  have "insert_record epoch_ms idx' ?doc (pi_searchable_body input) = Ok idx'"
    by (rule insert_record_replay [OF p1]) (simp add: parts p2)
  moreover have "insert_attrs ?pk ?doc idx' = idx'"
    by (rule insert_attrs_replay [OF i(2) parts(2)])
  moreover have "insert_entities ?pk ?ms ?doc idx' = idx'"
    using cat2 by (rule insert_entities_replay) (use cat2 parts in \<open>simp_all add: catalogue_ok_def\<close>)
  moreover have "insert_subjects ?pk input idx' = Ok idx'"
    by (rule insert_subjects_replay [OF one p3]) (simp add: parts)
  moreover have "enqueue_fanout ?doc ?ms idx' = idx'"
    by (rule enqueue_fanout_replay) (simp add: p4)
  moreover have "\<not> (data_class ?doc = SubjectDerived \<and> pi_searchable_body input \<noteq> [])"
    using pub by (auto simp: publish_def Let_def split: if_splits)
  ultimately show ?thesis using p2 by (simp add: publish_def Let_def parts(1))
qed

section \<open>Claiming\<close>

abbreviation age :: "job_row \<Rightarrow> int \<times> nat" where
  "age j \<equiv> (job_enqueued_ms j, job_id j)"

text \<open>The jobs a claim takes, as they stand before it.\<close>

definition oldest_ready :: "nat \<Rightarrow> int \<Rightarrow> job_row list \<Rightarrow> job_row list" where
  "oldest_ready limit now queue = take limit (sort_key age (filter (ready now) queue))"

lemma oldest_ready_ids:
  assumes "distinct (map job_id queue)" "j \<in> set queue"
  shows "job_id j \<in> set (claim_ids limit now queue) \<longleftrightarrow> j \<in> set (oldest_ready limit now queue)"
proof -
  have "set (oldest_ready limit now queue) \<subseteq> set queue"
    using set_take_subset [of limit "sort_key age (filter (ready now) queue)"]
    by (auto simp: oldest_ready_def)
  moreover have "inj_on job_id (set queue)" using assms(1) by (simp add: distinct_map)
  ultimately show ?thesis using assms(2)
    by (auto simp: claim_ids_def simp flip: oldest_ready_def dest: inj_onD)
qed

lemma oldest_ready_facts:
  shows "set (oldest_ready limit now queue) \<subseteq> {j \<in> set queue. ready now j}"
    and "length (oldest_ready limit now queue) \<le> limit"
    and "a \<in> set (oldest_ready limit now queue) \<Longrightarrow> b \<in> set queue \<Longrightarrow> ready now b \<Longrightarrow>
      b \<notin> set (oldest_ready limit now queue) \<Longrightarrow> age a \<le> age b"
    and "length (oldest_ready limit now queue) < limit \<Longrightarrow> b \<in> set queue \<Longrightarrow> ready now b \<Longrightarrow>
      b \<in> set (oldest_ready limit now queue)"
proof -
  let ?s = "sort_key age (filter (ready now) queue)"
  have split: "?s = oldest_ready limit now queue @ drop limit ?s" by (simp add: oldest_ready_def)
  have set: "set ?s = {j \<in> set queue. ready now j}" by auto
  show "set (oldest_ready limit now queue) \<subseteq> {j \<in> set queue. ready now j}"
    using split set by (metis Un_upper1 set_append)
  show "length (oldest_ready limit now queue) \<le> limit" by (simp add: oldest_ready_def)
  have mem: "b \<in> set (oldest_ready limit now queue) \<or> b \<in> set (drop limit ?s)"
    if "b \<in> set queue" "ready now b"
    using that set split by (metis (no_types, lifting) Un_iff mem_Collect_eq set_append)
  have "sorted (map age (oldest_ready limit now queue) @ map age (drop limit ?s))"
    using sorted_sort_key [of age "filter (ready now) queue"] split by (metis map_append)
  then show "age a \<le> age b" if "a \<in> set (oldest_ready limit now queue)" "b \<in> set queue" "ready now b"
    "b \<notin> set (oldest_ready limit now queue)"
    using that mem [OF that(2,3)] by (auto simp: sorted_append)
  show "b \<in> set (oldest_ready limit now queue)"
    if "length (oldest_ready limit now queue) < limit" "b \<in> set queue" "ready now b"
    using that mem [OF that(2,3)] by (auto simp: oldest_ready_def)
qed

lemma claim_fanout_shape:
  assumes "distinct (map job_id (fanout_queue idx))" "claim_fanout limit now idx = (idx', jobs)"
  shows "jobs = map (claim_job now) (filter (\<lambda>j. j \<in> set (oldest_ready limit now (fanout_queue idx))) (fanout_queue idx))"
    and "fanout_queue idx' = map (\<lambda>j. if j \<in> set (oldest_ready limit now (fanout_queue idx))
       then claim_job now j else j) (fanout_queue idx)"
proof -
  let ?ids = "set (claim_ids limit now (fanout_queue idx))"
  have jobs: "jobs = filter (\<lambda>j. job_id j \<in> ?ids) (map (\<lambda>j. if job_id j \<in> ?ids then claim_job now j else j) (fanout_queue idx))"
    and queue: "fanout_queue idx' = map (\<lambda>j. if job_id j \<in> ?ids then claim_job now j else j) (fanout_queue idx)"
    using assms(2) by (auto simp: claim_fanout_def Let_def)
  show "fanout_queue idx' = map (\<lambda>j. if j \<in> set (oldest_ready limit now (fanout_queue idx))
       then claim_job now j else j) (fanout_queue idx)"
    unfolding queue using oldest_ready_ids [OF assms(1)] by (auto intro: map_cong)
  have "jobs = map (claim_job now) (filter (\<lambda>j. job_id j \<in> ?ids) (fanout_queue idx))"
    unfolding jobs by (induction "fanout_queue idx") (auto simp: filter_map comp_def claim_job_def
        intro!: map_cong filter_cong)
  also have "\<dots> = map (claim_job now) (filter (\<lambda>j. j \<in> set (oldest_ready limit now (fanout_queue idx))) (fanout_queue idx))"
  proof -
    have "filter (\<lambda>j. job_id j \<in> ?ids) (fanout_queue idx)
        = filter (\<lambda>j. j \<in> set (oldest_ready limit now (fanout_queue idx))) (fanout_queue idx)"
      by (rule filter_cong) (simp_all add: oldest_ready_ids [OF assms(1)])
    then show ?thesis by simp
  qed
  finally show "jobs = \<dots>" .
qed

section \<open>Properties\<close>

text \<open>
  C30: a publish can be replayed. Once a record the contract accepts is in the index, publishing the
  same input again succeeds and changes no row of any table: the counters, the shares, the queue and
  the full-text rows stay as they are.
\<close>

theorem publish_replay_is_noop:
  assumes "reachable_index epoch_ms idx"
    and "validate (pi_record input) = Ok ()"
    and "writer_publish epoch_ms idx input = (idx', Ok ())"
  shows "writer_publish epoch_ms idx' input = (idx', Ok ())"
proof -
  have "publish epoch_ms idx input = Ok idx'"
    using assms(3) by (auto simp: writer_publish_def split: result.splits)
  moreover have "length (subjects (pi_record input)) \<le> 1"
    using assms(2) by (simp add: validate_well_formed well_formed_def)
  ultimately show ?thesis
    using publish_replay_ok reachable_index_ok [OF assms(1)] by (simp add: writer_publish_def)
qed

text \<open>
  The entity catalogue never drifts. In every index the writer can reach, an entity's catalogue
  row is what recounting the references gives: how many there are, and their earliest and latest
  server time, and an entity no reference names has no row.
\<close>

theorem catalogue_matches_references:
  assumes "reachable_index epoch_ms idx"
  shows "map_of (entity_rows idx) (k, e) =
     (let times = map (\<lambda>(_, row). ref_received_ms row)
                    (filter (\<lambda>(key, _). ref_entity key = (k, e)) (entity_refs idx))
      in if times = [] then None
         else Some \<lparr>first_seen_ms = Min (set times), last_seen_ms = Max (set times),
                    ref_count = length times\<rparr>)"
  using reachable_index_ok [OF assms] by (simp add: index_ok_def catalogue_ok_def recount_def)

text \<open>
  Search is no way around sealing. In every index the writer can reach, a subject-derived record
  has an empty body column and an empty full-text row, and a full-text row belongs to a record.
\<close>

theorem sealed_body_never_searchable:
  assumes "reachable_index epoch_ms idx"
    and "(rid, row) \<in> set (record_rows idx)" "data_class (rec_frontmatter row) = SubjectDerived"
    and "(rec_pk row, body) \<in> set (records_fts idx)"
  shows "rec_body row = [] \<and> body = []"
proof -
  have ok: "records_ok idx" using reachable_index_ok [OF assms(1)] by (simp add: index_ok_def)
  then have "rec_body row = []" using assms(2,3) by (auto simp: records_ok_def)
  moreover from ok assms(4) obtain rid' row' where r': "(rid', row') \<in> set (record_rows idx)"
    "rec_pk row' = rec_pk row" "rec_body row' = body"
    by (auto simp: records_ok_def)
  moreover have "(rid', row') = (rid, row)"
    using ok r'(1,2) assms(2) unfolding records_ok_def distinct_map
    by (metis (mono_tags, lifting) case_prod_conv inj_onD)
  ultimately show ?thesis by simp
qed

text \<open>
  A claim is exclusive and fair. It hands out at most \<open>limit\<close> jobs; each was pending and ready
  before and is claimed, with one more attempt, after; every job it leaves is unchanged; a ready job
  it leaves is no older than any it took; and it leaves a ready job only where the limit was reached.
\<close>

theorem claim_takes_oldest_ready:
  assumes "reachable_index epoch_ms idx" "claim_fanout limit now idx = (idx', jobs)"
  shows "length jobs \<le> limit
    \<and> (\<exists>taken. distinct taken \<and> jobs = map (claim_job now) taken
        \<and> (\<forall>a \<in> set taken. a \<in> set (fanout_queue idx) \<and> ready now a)
        \<and> (\<forall>b \<in> set (fanout_queue idx). b \<notin> set taken \<longrightarrow>
             b \<in> set (fanout_queue idx')
             \<and> (ready now b \<longrightarrow> length jobs = limit \<and> (\<forall>a \<in> set taken. age a \<le> age b))))"
proof -
  let ?q = "fanout_queue idx" and ?old = "oldest_ready limit now (fanout_queue idx)"
  define taken where "taken = filter (\<lambda>j. j \<in> set ?old) ?q"
  have d: "distinct (map job_id ?q)"
    using reachable_index_ok [OF assms(1)] by (simp add: index_ok_def queue_ok_def)
  note shape = claim_fanout_shape [OF d assms(2)] and old = oldest_ready_facts [where limit = limit and now = now and queue = "?q"]
  have dq: "distinct ?q" using d by (simp add: distinct_map)
  have st: "set taken = set ?old" using old(1) by (auto simp: taken_def)
  have dold: "distinct ?old" using dq by (simp add: oldest_ready_def)
  have "distinct taken" using dq by (simp add: taken_def)
  then have len: "length taken = length ?old" using st dold by (metis distinct_card)
  have jobs: "jobs = map (claim_job now) taken" by (simp add: shape(1) taken_def)
  have "b \<in> set (fanout_queue idx')
      \<and> (ready now b \<longrightarrow> length jobs = limit \<and> (\<forall>a \<in> set taken. age a \<le> age b))"
    if "b \<in> set ?q" "b \<notin> set taken" for b
    using that old(2-4) st len jobs by (fastforce simp: shape(2) image_iff intro: le_neq_implies_less)
  with \<open>distinct taken\<close> jobs old(1,2) st len show ?thesis
    by (intro conjI exI [of _ taken]) auto
qed

text \<open>
  Finished work is never resurrected. Whatever write follows, short of dropping every derived row,
  a job that is done stays in the queue under its key, done, with the attempts it had: neither a
  replayed publish, nor a late failure report, nor reclaiming stale claims brings it back.
\<close>

theorem done_job_stays_done:
  assumes "reachable_index epoch_ms idx" "index_step epoch_ms idx idx'" "idx' \<noteq> truncate_derived idx"
    and "j \<in> set (fanout_queue idx)" "job_state j = Done"
  shows "\<exists>j' \<in> set (fanout_queue idx'). job_id j' = job_id j \<and> job_record j' = job_record j
    \<and> job_kind j' = job_kind j \<and> job_state j' = Done \<and> job_attempts j' = job_attempts j"
  using assms(2,3,4,5)
proof cases
  case (publish_step input)
  have "j \<in> set (enqueue_job rid k ms queue)" if "j \<in> set queue" for rid k ms queue
    using that by (simp add: enqueue_job_def)
  moreover have "records_ok idx" using reachable_index_ok [OF assms(1)] by (simp add: index_ok_def)
  ultimately have "j \<in> set (fanout_queue idx')"
    using publish_step assms(4) insert_record_Ok
    by (elim publish_parts) (force simp: enqueue_fanout_def Let_def)
  with assms(5) show ?thesis by blast
next
  case (claim_step limit now)
  have "distinct (map job_id (fanout_queue idx))"
    using reachable_index_ok [OF assms(1)] by (simp add: index_ok_def queue_ok_def)
  note shape = claim_fanout_shape(2) [OF this, of limit now "fst (claim_fanout limit now idx)"
      "snd (claim_fanout limit now idx)"]
  have "j \<notin> set (oldest_ready limit now (fanout_queue idx))"
    using oldest_ready_facts(1) [where limit = limit and now = now and queue = "fanout_queue idx"] assms(5)
    by (auto simp: ready_def)
  with assms(4) have "j \<in> set (fanout_queue idx')" using shape claim_step by (force simp: image_iff)
  with assms(5) show ?thesis by blast
next
  case (complete_step jid)
  have mem: "(if job_id j = jid then j\<lparr>job_state := Done, job_claimed_ms := None\<rparr> else j) \<in> set (fanout_queue idx')"
    using assms(4) complete_step by (auto simp: complete_fanout_def)
  show ?thesis by (rule bexI [OF _ mem]) (use assms(5) in auto)
qed (auto simp: enqueue_quarantine_def dequeue_quarantine_def complete_fanout_def fail_fanout_def
    reclaim_stale_fanout_def stale_def claim_timeline_mention_def image_iff split: if_splits)

text \<open>
  A timeline line is written once. Committing a claim on a line makes every later claim on it
  answer that it is already written, until the derived rows are dropped, and a claim that is dropped
  instead leaves the line owed.
\<close>

theorem timeline_line_once:
  assumes "claim_timeline_mention rid k e idx = Ok (Some idx1)"
  shows "claim_timeline_mention rid k e idx1 = Ok None
    \<and> (index_step epoch_ms idx1 idx2 \<and> idx2 \<noteq> truncate_derived idx1 \<and> records_ok idx1 \<longrightarrow>
         claim_timeline_mention rid k e idx2 = Ok None)"
proof -
  have here: "(rid, k, e) \<in> set (timeline_mentions idx1)"
    using assms by (auto simp: claim_timeline_mention_def split: if_splits)
  have "(rid, k, e) \<in> set (timeline_mentions idx2)"
    if "index_step epoch_ms idx1 idx2" "idx2 \<noteq> truncate_derived idx1" "records_ok idx1"
    using that
  proof cases
    case (publish_step input)
    from publish_step show ?thesis
    proof (rule publish_parts)
      fix idx0 row rows
      assume "insert_record epoch_ms idx1 (pi_record input) (pi_searchable_body input) = Ok idx0"
        and idx2: "idx2 = enqueue_fanout (pi_record input) (rec_received_ms row)
          ((insert_entities (rec_pk row) (rec_received_ms row) (pi_record input)
            (insert_attrs (rec_pk row) (pi_record input) idx0))\<lparr>record_subjects := rows\<rparr>)"
      from insert_record_Ok [OF this(1) that(3)] here show ?thesis
        by (simp add: idx2 enqueue_fanout_def Let_def)
    qed
  qed (use here in \<open>auto simp: enqueue_quarantine_def dequeue_quarantine_def complete_fanout_def
      fail_fanout_def reclaim_stale_fanout_def claim_fanout_def Let_def claim_timeline_mention_def
      split: if_splits\<close>)
  with here show ?thesis by (simp add: claim_timeline_mention_def)
qed

section \<open>A small index\<close>

definition sample_clock :: "string \<Rightarrow> int option" where
  "sample_clock _ = Some 0"

definition sample_input :: publish_input where
  "sample_input = \<lparr>pi_record = sample_record, pi_searchable_body = ''shipped'', pi_subject_keys = []\<rparr>"

definition sealed_input :: publish_input where
  "sealed_input = \<lparr>pi_record = sample_sealed, pi_searchable_body = [],
     pi_subject_keys = [(sample_hash, ''2026-Q1'', ''share'')]\<rparr>"

definition sample_index :: index where
  "sample_index = (case publish sample_clock empty_index sample_input of Ok i \<Rightarrow> i | Err _ \<Rightarrow> empty_index)"

definition sealed_index :: index where
  "sealed_index = (case publish sample_clock empty_index sealed_input of Ok i \<Rightarrow> i | Err _ \<Rightarrow> empty_index)"

lemma sample_published: "publish sample_clock empty_index sample_input = Ok sample_index"
proof -
  have "is_ok (publish sample_clock empty_index sample_input)" by code_simp
  then show ?thesis by (auto simp: is_ok_iff sample_index_def)
qed

lemma sealed_published: "publish sample_clock empty_index sealed_input = Ok sealed_index"
proof -
  have "is_ok (publish sample_clock empty_index sealed_input)" by code_simp
  then show ?thesis by (auto simp: is_ok_iff sealed_index_def)
qed

lemma sample_reachable: "reachable_index sample_clock sample_index" "reachable_index sample_clock sealed_index"
  using reachable_index.written [OF reachable_index.fresh index_step.publish_step]
    sample_published sealed_published by blast+

lemma sample_input_parts [simp]: "pi_record sample_input = sample_record"
  by (simp add: sample_input_def)

lemma sample_written: "writer_publish sample_clock empty_index sample_input = (sample_index, Ok ())"
  by (simp add: writer_publish_def sample_published)

theorem publish_replay_is_noop_witness:
  "writer_publish sample_clock sample_index sample_input = (sample_index, Ok ())"
  by (rule publish_replay_is_noop [OF reachable_index.fresh _ sample_written])
    (simp add: sample_record_valid)

theorem catalogue_matches_references_witness:
  "map_of (entity_rows sample_index) (''ticket'', ''PROJ-42'')
     = Some \<lparr>first_seen_ms = 0, last_seen_ms = 0, ref_count = 1\<rparr>"
proof -
  have "map (\<lambda>(_, row). ref_received_ms row)
      (filter (\<lambda>(key, _). ref_entity key = (''ticket'', ''PROJ-42'')) (entity_refs sample_index)) = [0]"
    by code_simp
  then show ?thesis
    using catalogue_matches_references [OF sample_reachable(1), of "''ticket''" "''PROJ-42''"] by simp
qed

lemma sealed_index_row: "\<exists>row. record_rows sealed_index = [(doc_id sample_sealed, row)]
   \<and> data_class (rec_frontmatter row) = SubjectDerived \<and> rec_pk row = 1 \<and> records_fts sealed_index = [(1, [])]"
proof -
  have rows: "map (\<lambda>(rid, row). (rid, rec_pk row, data_class (rec_frontmatter row))) (record_rows sealed_index)
      = [(doc_id sample_sealed, 1, SubjectDerived)]" by code_simp
  have "records_fts sealed_index = [(1, [])]" by code_simp
  moreover obtain p where "record_rows sealed_index = [p]"
    using arg_cong [OF rows, of length] by (auto simp: length_Suc_conv)
  ultimately show ?thesis using rows by (cases p) auto
qed

theorem sealed_body_never_searchable_witness:
  "\<exists>row. record_rows sealed_index = [(doc_id sample_sealed, row)] \<and> rec_body row = []"
proof -
  from sealed_index_row obtain row where r: "record_rows sealed_index = [(doc_id sample_sealed, row)]"
    "data_class (rec_frontmatter row) = SubjectDerived" "rec_pk row = 1" "records_fts sealed_index = [(1, [])]"
    by blast
  then show ?thesis
    using sealed_body_never_searchable [OF sample_reachable(2), of "doc_id sample_sealed" row "[]"] by simp
qed

theorem claim_takes_oldest_ready_witness:
  "map job_kind (snd (claim_fanout 1 0 sealed_index)) = [''bundle'']
   \<and> length (snd (claim_fanout 1 0 sealed_index)) \<le> 1"
proof
  show "map job_kind (snd (claim_fanout 1 0 sealed_index)) = [''bundle'']" by code_simp
  show "length (snd (claim_fanout 1 0 sealed_index)) \<le> 1"
    using claim_takes_oldest_ready [OF sample_reachable(2) prod.collapse [symmetric], of 1 0] by simp
qed

definition done_index :: index where
  "done_index = complete_fanout 1 sealed_index"

theorem done_job_stays_done_witness:
  "\<exists>j'. j' \<in> set (fanout_queue (fst (claim_fanout 9 7 done_index))) \<and> job_id j' = 1 \<and> job_state j' = Done"
proof -
  have reach: "reachable_index sample_clock done_index"
    unfolding done_index_def
    by (rule reachable_index.written [OF sample_reachable(2) index_step.complete_step])
  define job where "job = hd (fanout_queue done_index)"
  have j: "fanout_queue done_index \<noteq> []" "job_state job = Done" "job_id job = 1"
    unfolding job_def by code_simp+
  then have "job \<in> set (fanout_queue done_index)" by (simp add: job_def)
  moreover have "fanout_queue (fst (claim_fanout 9 7 done_index)) \<noteq> []" by code_simp
  then have "fst (claim_fanout 9 7 done_index) \<noteq> truncate_derived done_index"
    by (auto simp: truncate_derived_def empty_index_def)
  ultimately show ?thesis
    using done_job_stays_done [OF reach index_step.claim_step, of 9 7 job] j by auto
qed

theorem timeline_line_once_witness:
  "\<exists>idx1. claim_timeline_mention (doc_id sample_record) ''ticket'' ''PROJ-42'' sample_index = Ok (Some idx1)
     \<and> claim_timeline_mention (doc_id sample_record) ''ticket'' ''PROJ-42'' idx1 = Ok None"
proof -
  have "(doc_id sample_record, ''ticket'', ''PROJ-42'') \<notin> set (timeline_mentions sample_index)"
    "map_of (record_rows sample_index) (doc_id sample_record) \<noteq> None" by code_simp+
  then obtain idx1 where c: "claim_timeline_mention (doc_id sample_record) ''ticket'' ''PROJ-42'' sample_index
      = Ok (Some idx1)"
    by (auto simp: claim_timeline_mention_def)
  with timeline_line_once [OF c] show ?thesis by blast
qed

end
