(* ===== verification/Crypto_Error.thy ===== *)
theory Crypto_Error
  imports Contract_Error
begin

text \<open>
  \<open>yaam-crypto/src/error.rs\<close>. As in the contract's errors, a sentence of prose is a constructor with
  the values it quotes; what the operating system reports of an I/O failure is its text.
\<close>

datatype (plugins only: code) block_reason =
    BlockEmpty
  | NoOpenFence
  | Unterminated
  | NoCloseFence
  | FieldLines nat
  | UnsupportedFormat string
  | UnsupportedAlg string
  | NonceNotTwelve
  | ExpectedKey string string                  \<comment> \<open>key and line\<close>
  | BadHexField string
  | NoShares
  | ShareNotPair string
  | BadShareSubject contract_error
  | BadShareHex string
  | BadEpochLabel string
  | SubjectKeyUnwrapped string nat             \<comment> \<open>subject and bytes\<close>
  | ShareUnwrapped string nat
  | CannotWrap nat
  | WrappedShort nat
  | SubjectKeyNot32
  | HkdfRejected
  | DataKeyNot32
  | NoFormatMarker
  | TooShortForHeader nat
  | WrappedKeyFormat nat
  | UnknownScheme nat
  | UnusableCost string
  | CannotDerive string
  | DerivedKeyNot32
  | CannotWrapKey nat
  | EnvelopeShort nat
  | EnvelopeVersion nat
  | NotAKeyLong string nat                     \<comment> \<open>which key and bytes\<close>

datatype (plugins only: code) io_reason =
    UnsafeComponent string
  | EntryHasNoName
  | EntryNotPseudonym string
  | EntryNotEpoch string
  | TombstoneNotPseudonym string
  | NotFound string
  | Failed string

datatype (plugins only: code) crypto_error =
    Authentication
  | KeyAbsent string string                    \<comment> \<open>subject and epoch\<close>
  | Tombstoned string
  | ShareCount nat nat                         \<comment> \<open>expected and got\<close>
  | MalformedBlock block_reason
  | SubjectKeyLength nat nat
  | SubjectKeyNotHex
  | SubjectKeyUnavailable string
  | SubjectKeyCheckMalformed
  | SubjectIdEmpty nat
  | CryptoIo io_reason

end
