(* ===== verification/Epoch.thy ===== *)
theory Epoch
  imports Crypto_Error Timestamp
begin

text \<open>
  The calendar epoch a subject's key belongs to, from \<open>yaam-crypto/src/seal.rs\<close>: a quarter, as the
  label \<open>2026-Q3\<close>. Retention compares labels, so a label this build did not write must not be read as
  a quarter.
\<close>

datatype epoch = Epoch (epoch_str: string)

text \<open>The calendar of the crypto crate, which is a copy of its own.\<close>

definition civil_from_millis :: "int \<Rightarrow> int \<times> int" where
  "civil_from_millis ms =
     (let days = ms div 86400000;
          z = days + 719468;
          era = z div 146097;
          doe = z - era * 146097;
          yoe = (doe - doe div 1460 + doe div 36524 - doe div 146096) div 365;
          year = yoe + era * 400;
          doy = doe - (365 * yoe + yoe div 4 - yoe div 100);
          mp = (5 * doy + 2) div 153;
          month = (if mp < 10 then mp + 3 else mp - 9)
      in (if month \<le> 2 then year + 1 else year, month))"

definition quarter_label :: "int \<Rightarrow> int \<Rightarrow> epoch" where
  "quarter_label year quarter = Epoch (format_width 4 year @ ''-Q'' @ format_width 0 quarter)"

definition epoch_containing :: "int \<Rightarrow> epoch" where
  "epoch_containing received_ms =
     (let (year, month) = civil_from_millis received_ms
      in quarter_label year ((month - 1) div 3 + 1))"

definition epoch_from_stored :: "string \<Rightarrow> (epoch, crypto_error) result" where
  "epoch_from_stored label =
     (if label = [] \<or> CHR ''/'' \<in> set label \<or> CHR 0x5C \<in> set label \<or> contains label ''..''
      then Err (MalformedBlock (BadEpochLabel label)) else Ok (Epoch label))"

text \<open>\<open>parse\<close> of a run of ASCII digits into an \<open>i64\<close> or a \<open>u32\<close>: None for no digits, or too many.\<close>

definition parse_digits :: "nat \<Rightarrow> string \<Rightarrow> nat option" where
  "parse_digits limit s = (if s = [] \<or> limit < nat_of_digits s then None else Some (nat_of_digits s))"

definition epoch_quarter :: "epoch \<Rightarrow> (int \<times> int) option" where
  "epoch_quarter e =
     Option.bind (rsplit_once (epoch_str e) ''-Q'') (\<lambda>(year, quarter).
     if \<not> list_all is_ascii_digit year \<or> \<not> list_all is_ascii_digit quarter then None
     else
       Option.bind (parse_digits 9223372036854775807 year) (\<lambda>y.
       Option.bind (parse_digits 4294967295 quarter) (\<lambda>q.
         if 1 \<le> q \<and> q \<le> 4 then Some (int y, int q) else None)))"

text \<open>Arithmetic on an \<open>i64\<close>, which wraps in a release build; a debug build stops instead.\<close>

definition wrap_i64 :: "int \<Rightarrow> int" where
  "wrap_i64 n = (n + 2 ^ 63) mod 2 ^ 64 - 2 ^ 63"

definition epoch_index :: "epoch \<Rightarrow> int option" where
  "epoch_index e = map_option (\<lambda>(year, quarter). wrap_i64 (year * 4 + quarter - 1)) (epoch_quarter e)"

definition quarters_before :: "epoch \<Rightarrow> nat \<Rightarrow> epoch option" where
  "quarters_before e back =
     Option.bind (epoch_index e) (\<lambda>i.
       let index = wrap_i64 (i - int back); year = index div 4; quarter = index mod 4 + 1
       in if 1 \<le> year \<and> year \<le> 9999 then Some (quarter_label year quarter) else None)"

definition precedes :: "epoch \<Rightarrow> epoch \<Rightarrow> bool option" where
  "precedes e f =
     Option.bind (epoch_index e) (\<lambda>i. Option.bind (epoch_index f) (\<lambda>j. Some (i < j)))"

section \<open>Lemmas\<close>

lemma wrap_i64_id: "- (2 ^ 63) \<le> n \<Longrightarrow> n < 2 ^ 63 \<Longrightarrow> wrap_i64 n = n"
  by (simp add: wrap_i64_def)

lemma wrap_i64_range: "- (2 ^ 63) \<le> wrap_i64 n" "wrap_i64 n < 2 ^ 63"
  using pos_mod_bound [of "2 ^ 64" "n + 2 ^ 63"] pos_mod_sign [of "2 ^ 64" "n + 2 ^ 63"] by (simp_all add: wrap_i64_def)

lemma civil_from_millis_eq:
  "civil_from_millis ms = (let (y, m, _) = civil_from_ms ms in (y, m))"
  unfolding civil_from_millis_def civil_from_ms_def civil_from_days_def MS_PER_DAY_def Let_def prod.case
  by (rule refl)

lemma parse_digits_Some:
  "s \<noteq> [] \<Longrightarrow> nat_of_digits s \<le> limit \<Longrightarrow> parse_digits limit s = Some (nat_of_digits s)"
  by (simp add: parse_digits_def)

lemma format_width_digits:
  assumes "0 \<le> n"
  shows "list_all is_ascii_digit (format_width w n)" "nat_of_digits (format_width w n) = nat n"
    "format_width w n \<noteq> []"
  using assms show_nat_digits by (auto simp: format_width_def zero_pad_def nat_of_digits_zeros list_all_iff)

lemma format_width_negative: "n < 0 \<Longrightarrow> hd (format_width w n) = CHR ''-'' \<and> format_width w n \<noteq> []"
  by (simp add: format_width_def)

lemma quarter_label_split:
  assumes "1 \<le> q"
  shows "rsplit_once (epoch_str (quarter_label y q)) ''-Q'' = Some (format_width 4 y, format_width 0 q)"
proof -
  have "CHR ''Q'' \<notin> set (format_width 0 q)"
    using format_width_digits(1) [of q 0] assms by (auto simp: list_all_iff is_ascii_digit_def byte_of_def)
  then show ?thesis unfolding quarter_label_def epoch.sel by (intro rsplit_once_last) simp_all
qed

lemma epoch_quarter_label:
  assumes "1 \<le> q" "q \<le> 4" "y \<le> 9223372036854775807"
  shows "epoch_quarter (quarter_label y q) = (if 0 \<le> y then Some (y, q) else None)"
proof (cases "0 \<le> y")
  case True
  have "nat y \<le> 9223372036854775807" "nat q \<le> 4294967295" "1 \<le> nat q" "nat q \<le> 4"
    using assms by (simp_all add: nat_le_iff le_nat_iff)
  with True assms show ?thesis
    by (simp add: epoch_quarter_def quarter_label_split format_width_digits parse_digits_def)
next
  case False
  then have "\<not> list_all is_ascii_digit (format_width 4 y)"
    using format_width_negative [of y 4] by (cases "format_width 4 y") (auto simp: is_ascii_digit_def byte_of_def)
  with False assms(1) show ?thesis by (simp add: epoch_quarter_def quarter_label_split)
qed

lemma epoch_index_label:
  "1 \<le> q \<Longrightarrow> q \<le> 4 \<Longrightarrow> 0 \<le> y \<Longrightarrow> y \<le> 9999 \<Longrightarrow> epoch_index (quarter_label y q) = Some (y * 4 + q - 1)"
  by (simp add: epoch_index_def epoch_quarter_label wrap_i64_id)

text \<open>Below the year from which the arithmetic wraps, the index orders labels as the calendar does.\<close>

definition quarter_number :: "int \<times> int \<Rightarrow> int" where
  "quarter_number = (\<lambda>(year, quarter). year * 4 + quarter - 1)"

lemma epoch_quarter_range: "epoch_quarter e = Some (y, q) \<Longrightarrow> 0 \<le> y \<and> 1 \<le> q \<and> q \<le> 4"
  by (auto simp: epoch_quarter_def bind_eq_Some_conv split: if_splits)

lemma epoch_index_calendar:
  assumes "epoch_quarter e = Some (y, q)" "y < 2 ^ 61"
  shows "epoch_index e = Some (quarter_number (y, q))"
proof -
  have "wrap_i64 (y * 4 + q - 1) = y * 4 + q - 1"
    using epoch_quarter_range [OF assms(1)] assms(2) by (intro wrap_i64_id) simp_all
  with assms(1) show ?thesis by (simp add: epoch_index_def quarter_number_def)
qed

section \<open>Properties\<close>

text \<open>
  The epoch of an instant is the quarter its date falls in by the contract's calendar, and its
  label reads back as that quarter whenever the year is not negative (up to the largest \<open>i64\<close>); the
  label of a negative year is one retention declines to read.
\<close>

theorem epoch_label_reads_back:
  assumes "civil_from_ms ms = (y, m, d)" "y \<le> 9223372036854775807" "1 \<le> m" "m \<le> 12"
  shows "epoch_quarter (epoch_containing ms) = (if 0 \<le> y then Some (y, (m - 1) div 3 + 1) else None)"
proof -
  have "epoch_containing ms = quarter_label y ((m - 1) div 3 + 1)"
    using assms(1) by (simp add: epoch_containing_def civil_from_millis_eq)
  moreover have "1 \<le> (m - 1) div 3 + 1" using assms(3) pos_imp_zdiv_nonneg_iff [of 3 "m - 1"] by simp
  moreover have "(m - 1) div 3 + 1 \<le> 4" using assms(4) zdiv_mono1 [of "m - 1" 11 3] by simp
  ultimately show ?thesis using assms(2) by (simp only: epoch_quarter_label)
qed

theorem epoch_label_reads_back_witness:
  "epoch_quarter (epoch_containing 1787217242000) = Some (2026, 3)"
proof -
  have "civil_from_ms 1787217242000 = (2026, 8, 20)" by code_simp
  from epoch_label_reads_back [OF this] show ?thesis by simp
qed

text \<open>
  Counting quarters back is exact where the arithmetic does not wrap. The epoch that many quarters before
  another precedes it by that many, so an epoch precedes another exactly when it lies a positive number of
  quarters back. The count is a \<open>u32\<close>.
\<close>

lemma quarters_before_quarter:
  assumes "quarters_before e back = Some f"
  obtains i y q where "epoch_index e = Some i" "epoch_quarter f = Some (y, q)" "1 \<le> y" "y \<le> 9999"
    "quarter_number (y, q) = wrap_i64 (i - int back)" "epoch_index f = Some (wrap_i64 (i - int back))"
proof -
  from assms obtain i where i: "epoch_index e = Some i"
    and step: "(let index = wrap_i64 (i - int back); year = index div 4; quarter = index mod 4 + 1
       in if 1 \<le> year \<and> year \<le> 9999 then Some (quarter_label year quarter) else None) = Some f"
    unfolding quarters_before_def bind_eq_Some_conv by blast
  define n where "n = wrap_i64 (i - int back)"
  define year where "year = n div 4"
  define quarter where "quarter = n mod 4 + 1"
  have y: "1 \<le> year" "year \<le> 9999" and f: "f = quarter_label year quarter"
    using step unfolding Let_def n_def [symmetric] year_def [symmetric] quarter_def [symmetric] by (simp_all split: if_splits)
  have q: "1 \<le> quarter" "quarter \<le> 4" by (simp_all add: quarter_def)
  have eq: "epoch_quarter f = Some (year, quarter)" using y q by (simp add: f epoch_quarter_label)
  have num: "quarter_number (year, quarter) = n" by (simp add: quarter_number_def year_def quarter_def)
  have "year < 2 ^ 61" using y(2) by simp
  from that [OF i eq y] num epoch_index_calendar [OF eq this] show ?thesis by (simp add: n_def)
qed

theorem quarters_before_exact:
  assumes "quarters_before e back = Some f" "epoch_quarter e = Some (y, q)" "y < 2 ^ 61" "back < 2 ^ 32"
  shows "epoch_index f = Some (quarter_number (y, q) - int back) \<and> precedes f e = Some (0 < back)"
proof -
  have e: "epoch_index e = Some (quarter_number (y, q))" by (rule epoch_index_calendar [OF assms(2,3)])
  from epoch_quarter_range [OF assms(2)] assms(3) have "0 \<le> quarter_number (y, q)" "quarter_number (y, q) < 2 ^ 63"
    by (simp_all add: quarter_number_def)
  moreover have "int back < 2 ^ 32" using assms(4) by (simp add: nat_less_real_le flip: of_nat_less_iff [where ?'a = int])
  ultimately have "wrap_i64 (quarter_number (y, q) - int back) = quarter_number (y, q) - int back"
    by (intro wrap_i64_id) simp_all
  with e have "epoch_index f = Some (quarter_number (y, q) - int back)"
    using quarters_before_quarter [OF assms(1)] by (metis option.inject)
  with e show ?thesis by (simp add: precedes_def)
qed

theorem quarters_before_exact_witness:
  "quarters_before (Epoch ''2026-Q1'') 2 = Some (Epoch ''2025-Q3'')
   \<and> precedes (Epoch ''2025-Q3'') (Epoch ''2026-Q1'') = Some True"
proof -
  have l: "quarter_label 2026 1 = Epoch ''2026-Q1''" "quarter_label 2025 3 = Epoch ''2025-Q3''"
    by (simp_all add: quarter_label_def format_width_def zero_pad_def show_nat.simps digit_char_def char_of_def bit_0)
  have "epoch_index (Epoch ''2026-Q1'') = Some 8104" using epoch_index_label [of 1 2026] by (simp add: l)
  then have q: "quarters_before (Epoch ''2026-Q1'') 2 = Some (Epoch ''2025-Q3'')"
    by (simp add: quarters_before_def Let_def l wrap_i64_id)
  have "epoch_quarter (Epoch ''2026-Q1'') = Some (2026, 1)" using epoch_quarter_label [of 1 2026] by (simp add: l)
  from quarters_before_exact [OF q this] have "precedes (Epoch ''2025-Q3'') (Epoch ''2026-Q1'') = Some True"
    by auto
  with q show ?thesis by (rule conjI)
qed

end
