(* ===== verification/Subject_Key.thy ===== *)
theory Subject_Key
  imports Crypto_Error Ids Entity
begin

text \<open>
  \<open>yaam-crypto/src/subject.rs\<close>: the keyed pseudonym. HMAC-SHA256 is a parameter \<open>hmac\<close> of key and
  message, the normal form of the \<open>unicode_normalization\<close> crate a parameter \<open>nfc\<close>, and \<open>hex_decode\<close>
  the decoder of the \<open>hex\<close> crate; a byte string is a \<open>string\<close>.
\<close>

definition SUBJECT_KEY_LEN :: nat where
  "SUBJECT_KEY_LEN = 32"

definition HEX_DIGITS :: string where
  "HEX_DIGITS = ''0123456789abcdef''"

definition DOMAIN :: string where
  "DOMAIN = ''subject-pseudo:1''"

definition CHECK_DOMAIN :: string where
  "CHECK_DOMAIN = ''subject-keychk:1''"

definition CHECK_LEN :: nat where
  "CHECK_LEN = 32"

datatype canon = Minimal

definition LIVE :: "canon list" where
  "LIVE = [Minimal]"

definition CURRENT :: canon where
  "CURRENT = Minimal"

fun canon_version :: "canon \<Rightarrow> canon_ver" where
  "canon_version Minimal = CanonVer 1"

fun canon_canonicalise ::
  "(string \<Rightarrow> string) \<Rightarrow> case_maps \<Rightarrow> canon \<Rightarrow> string \<Rightarrow> (string, crypto_error) result" where
  "canon_canonicalise nfc cm Minimal raw =
     (let out = nfc (to_lowercase cm (nfc (trim raw)))
      in if out = [] then Err (SubjectIdEmpty 1) else Ok out)"

record pseudonym =
  ps_hash :: subject_hash
  ps_canon_ver :: canon_ver

datatype subject_key = SubjectKey (subject_key_bytes: string)

datatype key_check = KeyCheck (key_check_bytes: string)

definition hex_byte :: "char \<Rightarrow> string" where
  "hex_byte b = [HEX_DIGITS ! (byte_of b div 16), HEX_DIGITS ! (byte_of b mod 16)]"

definition hex_encode :: "string \<Rightarrow> string" where
  "hex_encode bytes = concat (map hex_byte bytes)"

definition key_check_parse ::
  "(string \<Rightarrow> string option) \<Rightarrow> string \<Rightarrow> (key_check, crypto_error) result" where
  "key_check_parse hex_decode text =
     (case hex_decode text of
        None \<Rightarrow> Err SubjectKeyCheckMalformed
      | Some bytes \<Rightarrow>
          if length bytes = CHECK_LEN then Ok (KeyCheck bytes) else Err SubjectKeyCheckMalformed)"

definition key_check_display :: "key_check \<Rightarrow> string" where
  "key_check_display c = hex_encode (key_check_bytes c)"

definition key_from_bytes :: "string \<Rightarrow> (subject_key, crypto_error) result" where
  "key_from_bytes bytes =
     (if length bytes = SUBJECT_KEY_LEN then Ok (SubjectKey bytes)
      else Err (SubjectKeyLength SUBJECT_KEY_LEN (length bytes)))"

definition key_from_hex ::
  "(string \<Rightarrow> string option) \<Rightarrow> string \<Rightarrow> (subject_key, crypto_error) result" where
  "key_from_hex hex_decode hex =
     (case hex_decode hex of None \<Rightarrow> Err SubjectKeyNotHex | Some bytes \<Rightarrow> key_from_bytes bytes)"

definition check_value :: "(string \<Rightarrow> string \<Rightarrow> string) \<Rightarrow> subject_key \<Rightarrow> key_check" where
  "check_value hmac k = KeyCheck (hmac (subject_key_bytes k) CHECK_DOMAIN)"

text \<open>\<open>u32::to_be_bytes\<close>.\<close>

definition be_bytes :: "nat \<Rightarrow> string" where
  "be_bytes n = map (\<lambda>k. char_of (n div 256 ^ k mod 256)) [3, 2, 1, 0]"

fun canon_number :: "canon_ver \<Rightarrow> nat" where
  "canon_number (CanonVer n) = n"

definition tag_message :: "canon_ver \<Rightarrow> string \<Rightarrow> string" where
  "tag_message ver canonical = DOMAIN @ be_bytes (canon_number ver) @ canonical"

definition tag :: "(string \<Rightarrow> string \<Rightarrow> string) \<Rightarrow> subject_key \<Rightarrow> canon_ver \<Rightarrow> string \<Rightarrow> pseudonym" where
  "tag hmac k ver canonical =
     \<lparr>ps_hash = SubjectHash (SUBJECT_PREFIX @ hex_encode (hmac (subject_key_bytes k) (tag_message ver canonical))),
      ps_canon_ver = ver\<rparr>"

definition derive ::
  "(string \<Rightarrow> string \<Rightarrow> string) \<Rightarrow> (string \<Rightarrow> string) \<Rightarrow> case_maps \<Rightarrow> subject_key \<Rightarrow> canon \<Rightarrow> string \<Rightarrow>
     (pseudonym, crypto_error) result" where
  "derive hmac nfc cm k canon raw =
     and_then (canon_canonicalise nfc cm canon raw) (\<lambda>canonical.
       Ok (tag hmac k (canon_version canon) canonical))"

section \<open>Lemmas\<close>

lemma hex_digits_lower: "n < 16 \<Longrightarrow> is_lower_hex (HEX_DIGITS ! n)"
proof -
  assume "n < 16"
  moreover have "\<forall>c \<in> set HEX_DIGITS. is_lower_hex c"
    by (simp add: HEX_DIGITS_def is_lower_hex_def)
  moreover have "length HEX_DIGITS = 16" by (simp add: HEX_DIGITS_def)
  ultimately show ?thesis by (metis nth_mem)
qed

lemma hex_digits_inject:
  assumes "m < 16" "n < 16" "HEX_DIGITS ! m = HEX_DIGITS ! n" shows "m = n"
proof -
  have "distinct HEX_DIGITS" "length HEX_DIGITS = 16" by (simp_all add: HEX_DIGITS_def)
  with assms show ?thesis by (metis nth_eq_iff_index_eq)
qed

lemma hex_byte_digits: "list_all is_lower_hex (hex_byte b)" "length (hex_byte b) = 2"
proof -
  have "byte_of b div 16 < 16" using byte_of_less [of b] by linarith
  moreover have "byte_of b mod 16 < 16" by simp
  ultimately show "list_all is_lower_hex (hex_byte b)" by (simp add: hex_byte_def hex_digits_lower)
qed (simp add: hex_byte_def)

lemma hex_byte_inject: "hex_byte b = hex_byte c \<longleftrightarrow> b = c"
proof
  assume "hex_byte b = hex_byte c"
  moreover have "byte_of b div 16 < 16" "byte_of c div 16 < 16"
    using byte_of_less [of b] byte_of_less [of c] by linarith+
  ultimately have "byte_of b div 16 = byte_of c div 16" "byte_of b mod 16 = byte_of c mod 16"
    by (auto simp: hex_byte_def intro!: hex_digits_inject)
  then have "byte_of b = byte_of c" by (metis div_mult_mod_eq)
  then show "b = c" by simp
qed simp

lemma hex_encode_digits: "list_all is_lower_hex (hex_encode bs)" "length (hex_encode bs) = 2 * length bs"
  by (induction bs) (simp_all add: hex_encode_def hex_byte_digits)

lemma hex_encode_inject: "hex_encode bs = hex_encode cs \<longleftrightarrow> bs = cs"
proof (induction bs arbitrary: cs)
  case Nil
  have "hex_encode [] = []" by (simp add: hex_encode_def)
  then show ?case using hex_encode_digits(2) [of cs]
    by (metis length_0_conv mult_is_0 zero_neq_numeral)
next
  case (Cons b bs)
  show ?case
  proof (cases cs)
    case Nil
    have "hex_encode [] = []" by (simp add: hex_encode_def)
    then have "hex_encode (b # bs) \<noteq> hex_encode []" using hex_encode_digits(2) [of "b # bs"] by auto
    with Nil show ?thesis by simp
  next
    case (Cons c cs')
    have "hex_encode (b # bs) = hex_encode cs \<longleftrightarrow> hex_byte b = hex_byte c \<and> hex_encode bs = hex_encode cs'"
      using hex_byte_digits(2) [of b] hex_byte_digits(2) [of c] Cons by (simp add: hex_encode_def)
    with Cons.IH [of cs'] Cons show ?thesis by (simp add: hex_byte_inject)
  qed
qed

lemma char_of_mod_inject: "(char_of (m mod 256) :: char) = char_of (n mod 256) \<longleftrightarrow> m mod 256 = (n mod 256 :: nat)"
proof
  assume "(char_of (m mod 256) :: char) = char_of (n mod 256)"
  then have "byte_of (char_of (m mod 256)) = byte_of (char_of (n mod 256))" by (rule arg_cong)
  then show "m mod 256 = n mod 256" by simp
qed simp

lemma div_mod_inject: "x div k = y div k \<Longrightarrow> x mod k = y mod k \<Longrightarrow> x = (y :: nat)"
  by (metis div_mult_mod_eq)

lemma be_bytes_inject:
  assumes "m < 2 ^ 32" "n < 2 ^ 32" "be_bytes m = be_bytes n" shows "m = n"
proof -
  have b: "m mod 256 = n mod 256" "m div 256 mod 256 = n div 256 mod 256"
    "m div 65536 mod 256 = n div 65536 mod 256" "m div 16777216 mod 256 = n div 16777216 mod 256"
    using assms(3) unfolding be_bytes_def list.map list.inject char_of_mod_inject by simp_all
  have nest: "x div 65536 div 256 = x div 16777216" "x div 256 div 256 = x div 65536" for x :: nat
    by (simp_all flip: div_mult2_eq)
  have "m div 16777216 < 256" "n div 16777216 < 256"
    using assms(1,2) by (simp_all add: less_mult_imp_div_less)
  then have "m div 16777216 = n div 16777216" using b(4) by simp
  then have "m div 65536 = n div 65536" using div_mod_inject [of "m div 65536" 256 "n div 65536"] b(3)
    unfolding nest by simp
  then have "m div 256 = n div 256" using div_mod_inject [of "m div 256" 256 "n div 256"] b(2)
    unfolding nest by simp
  then show ?thesis using b(1) by (rule div_mod_inject)
qed

lemma length_be_bytes [simp]: "length (be_bytes n) = 4"
  by (simp add: be_bytes_def)

section \<open>Properties\<close>

text \<open>
  A derived pseudonym has the one shape the rest of the system admits, whatever the identifier,
  provided the HMAC yields thirty-two bytes as SHA-256 does: it parses as a subject hash, and it
  carries the version of the ruleset that ran.
\<close>

theorem derived_hash_is_canonical:
  assumes "\<forall>k m. length (hmac k m) = 32"
    and "derive hmac nfc cm key canon raw = Ok p"
  shows "subject_hash_try_from (subject_hash_str (ps_hash p)) = Ok (ps_hash p)
    \<and> ps_canon_ver p = canon_version canon"
proof -
  from assms(2) obtain canonical where p: "p = tag hmac key (canon_version canon) canonical"
    by (auto simp: derive_def)
  have "valid_subject_hash (ps_hash p)"
    using assms(1) hex_encode_digits by (simp add: p tag_def valid_subject_hash_def SUBJECT_PREFIX_def)
  then show ?thesis by (simp add: subject_hash_try_from_Ok_iff) (simp add: p tag_def)
qed

text \<open>
  The HMAC input is framed without ambiguity. Two pseudonyms are taken over one message only for
  one version and one canonical identifier; no pseudonym is taken over the message of the key's check
  value; and under one key two pseudonyms agree only where the HMAC of their messages does.
\<close>

theorem pseudonym_framing:
  assumes "canon_number v < 2 ^ 32" "canon_number w < 2 ^ 32"
  shows "(tag_message v a = tag_message w b \<longleftrightarrow> v = w \<and> a = b)
    \<and> tag_message v a \<noteq> CHECK_DOMAIN
    \<and> (ps_hash (tag hmac k v a) = ps_hash (tag hmac k w b) \<longleftrightarrow>
         hmac (subject_key_bytes k) (tag_message v a) = hmac (subject_key_bytes k) (tag_message w b))"
proof -
  have "tag_message v a = tag_message w b \<longleftrightarrow> be_bytes (canon_number v) = be_bytes (canon_number w) \<and> a = b"
    by (simp add: tag_message_def)
  moreover have "be_bytes (canon_number v) = be_bytes (canon_number w) \<longleftrightarrow> v = w"
    using be_bytes_inject [OF assms] by (cases v; cases w) auto
  moreover have "length CHECK_DOMAIN < length (tag_message v a)"
    by (simp add: tag_message_def CHECK_DOMAIN_def DOMAIN_def)
  ultimately show ?thesis by (auto simp: tag_def hex_encode_inject)
qed

definition sample_hmac :: "string \<Rightarrow> string \<Rightarrow> string" where
  "sample_hmac k m = take 32 (m @ replicate 32 (CHR ''k''))"

lemma sample_hmac_length: "length (sample_hmac k m) = 32"
  by (simp add: sample_hmac_def)

definition sample_key :: subject_key where
  "sample_key = SubjectKey (replicate 32 (CHR ''x''))"

theorem derived_hash_is_canonical_witness:
  "\<exists>p. derive sample_hmac (\<lambda>s. s) ascii_case sample_key Minimal ''ticket:PROJ-42'' = Ok p
     \<and> subject_hash_try_from (subject_hash_str (ps_hash p)) = Ok (ps_hash p)"
proof -
  have "is_ok (canon_canonicalise (\<lambda>s. s) ascii_case Minimal ''ticket:PROJ-42'')" by code_simp
  then have "is_ok (derive sample_hmac (\<lambda>s. s) ascii_case sample_key Minimal ''ticket:PROJ-42'')"
    by (auto simp: is_ok_iff derive_def)
  then obtain p where p: "derive sample_hmac (\<lambda>s. s) ascii_case sample_key Minimal ''ticket:PROJ-42'' = Ok p"
    by (auto simp: is_ok_iff)
  with derived_hash_is_canonical [OF _ p] show ?thesis by (simp add: sample_hmac_length)
qed

theorem pseudonym_framing_witness:
  "tag_message (CanonVer 1) ''a'' \<noteq> tag_message (CanonVer 2) ''a''
   \<and> tag_message (CanonVer 1) ''a'' \<noteq> CHECK_DOMAIN"
  using pseudonym_framing [of "CanonVer 1" "CanonVer 2" "''a''" "''a''"] by simp

end
