(* ===== verification/Random_Bytes.thy ===== *)
theory Random_Bytes
  imports Rust_Std "HOL-Library.Stream" "HOL-Library.Word"
begin

text \<open>
  \<open>fill_random\<close> of \<open>yaam-crypto/src/seal.rs\<close>: the operating system's generator is a stream of bytes,
  and a draw takes the next ones. The stream is an argument of every operation that draws, and what
  is left of it a result, so the order of the draws is the code's.
\<close>

type_synonym rng = "char stream"

definition fill_random :: "nat \<Rightarrow> rng \<Rightarrow> string \<times> rng" where
  "fill_random n rng = (stake n rng, sdrop n rng)"

lemma fill_random_length [simp]: "fill_random n rng = (bytes, rng') \<Longrightarrow> length bytes = n"
  by (auto simp: fill_random_def)

lemma length_fst_fill_random [simp]: "length (fst (fill_random n rng)) = n"
  by (simp add: fill_random_def)

lemma stake_sconst: "stake n (sconst x) = replicate n x"
  by (induction n) (simp_all del: stake_siterate)

lemma fill_random_sconst [simp]: "fill_random n (sconst x) = (replicate n x, sconst x)"
  by (simp add: fill_random_def sdrop_siterate stake_sconst del: stake_siterate)

text \<open>Little-endian bytes of a \<open>u32\<close>: \<open>to_le_bytes\<close> and \<open>from_le_bytes\<close>.\<close>

definition to_le_bytes :: "32 word \<Rightarrow> string" where
  "to_le_bytes w = map (\<lambda>k. char_of (unat w div 256 ^ k mod 256)) [0, 1, 2, 3]"

definition from_le_bytes :: "string \<Rightarrow> 32 word" where
  "from_le_bytes bytes = word_of_nat (foldr (\<lambda>b n. byte_of b + 256 * n) bytes 0)"

lemma length_to_le_bytes [simp]: "length (to_le_bytes w) = 4"
  by (simp add: to_le_bytes_def)

lemma from_le_bytes_to_le_bytes [simp]: "from_le_bytes (to_le_bytes w) = w"
proof -
  have nest: "x div 65536 div 256 = x div 16777216" "x div 256 div 256 = x div 65536" for x :: nat
    by (simp_all flip: div_mult2_eq)
  have split: "x mod 256 + 256 * (x div 256) = x" for x :: nat by simp
  have "unat w < 2 ^ LENGTH(32)" by (rule unsigned_less)
  then have less: "unat w < 2 ^ 32" by simp
  let ?n = "unat w"
  have "?n div 16777216 < 256" using less by (simp add: less_mult_imp_div_less)
  then have "?n div 65536 mod 256 + 256 * (?n div 16777216 mod 256) = ?n div 65536"
    using split [of "?n div 65536"] by (simp add: nest)
  then have "?n div 256 mod 256 + 256 * (?n div 65536 mod 256 + 256 * (?n div 16777216 mod 256)) = ?n div 256"
    using split [of "?n div 256"] by (simp only: nest)
  then have "?n mod 256 + 256 * (?n div 256 mod 256 + 256 * (?n div 65536 mod 256
      + 256 * (?n div 16777216 mod 256))) = ?n"
    using split [of ?n] by (simp only:)
  moreover have "byte_of (char_of x) = x mod 256" for x by (simp add: byte_of_def)
  moreover have "?n div 16777216 mod 256 = ?n div 16777216"
    using \<open>?n div 16777216 < 256\<close> by (rule mod_less)
  ultimately have "foldr (\<lambda>b n. byte_of b + 256 * n) (to_le_bytes w) 0 = ?n"
    by (simp add: to_le_bytes_def)
  then show ?thesis by (simp add: from_le_bytes_def)
qed

end
