(* ===== verification/Wrapper.thy ===== *)
theory Wrapper
  imports Crypto_Error Random_Bytes
begin

text \<open>
  \<open>yaam-crypto/src/wrapper.rs\<close>: key material at rest. Argon2id and AES key wrap with padding are the
  crates \<open>argon2\<close> and \<open>aes-kw\<close> and are the fields of \<open>wrap_crates\<close>; what \<open>argon2\<close> reports is its text.
\<close>

definition MAGIC :: string where
  "MAGIC = ''YAAMKW''"

definition FORMAT_VER :: char where
  "FORMAT_VER = CHR 0x01"

definition SALT_LEN :: nat where
  "SALT_LEN = 16"

definition KEK_LEN :: nat where
  "KEK_LEN = 32"

definition HEADER_LEN :: nat where
  "HEADER_LEN = length MAGIC + 2 + SALT_LEN + 12"

datatype scheme = PassphraseArgon2id

fun scheme_byte :: "scheme \<Rightarrow> char" where
  "scheme_byte PassphraseArgon2id = CHR 0x01"

definition scheme_from_byte :: "char \<Rightarrow> scheme option" where
  "scheme_from_byte byte = (if byte = CHR 0x01 then Some PassphraseArgon2id else None)"

fun scheme_name :: "scheme \<Rightarrow> string" where
  "scheme_name PassphraseArgon2id = ''argon2id over a passphrase, then AES-256 key wrap''"

datatype wrapping = Named scheme | Unnamed | Unmarked

definition wrapping_of :: "string \<Rightarrow> wrapping" where
  "wrapping_of stored =
     (if length stored < length MAGIC \<or> take (length MAGIC) stored \<noteq> MAGIC then Unmarked
      else if length stored \<le> length MAGIC + 1 \<or> stored ! length MAGIC \<noteq> FORMAT_VER then Unnamed
      else case scheme_from_byte (stored ! (length MAGIC + 1)) of
             Some s \<Rightarrow> Named s
           | None \<Rightarrow> Unnamed)"

record cost =
  memory_kib :: "32 word"
  passes :: "32 word"
  lanes :: "32 word"

definition cost_default :: cost where
  "cost_default = \<lparr>memory_kib = 19 * 1024, passes = 2, lanes = 1\<rparr>"

definition cost_to_bytes :: "cost \<Rightarrow> string" where
  "cost_to_bytes c = to_le_bytes (memory_kib c) @ to_le_bytes (passes c) @ to_le_bytes (lanes c)"

definition cost_from_bytes :: "string \<Rightarrow> cost" where
  "cost_from_bytes bytes =
     (let word = \<lambda>pos. from_le_bytes (take 4 (drop pos bytes))
      in \<lparr>memory_kib = word 0, passes = word 4, lanes = word 8\<rparr>)"

text \<open>The parameter check and the hash of \<open>argon2\<close>, and the two directions of \<open>KwpAes256\<close>.\<close>

record wrap_crates =
  argon2_params :: "cost \<Rightarrow> (unit, string) result"
  argon2id :: "cost \<Rightarrow> string \<Rightarrow> string \<Rightarrow> (string, string) result"
  kwp_wrap_key :: "string \<Rightarrow> string \<Rightarrow> string option"
  kwp_unwrap_key :: "string \<Rightarrow> string \<Rightarrow> string option"

definition kek_derive :: "wrap_crates \<Rightarrow> string \<Rightarrow> string \<Rightarrow> cost \<Rightarrow> (string, crypto_error) result" where
  "kek_derive crates passphrase salt c =
     and_then (map_err (\<lambda>e. MalformedBlock (UnusableCost e)) (argon2_params crates c)) (\<lambda>_.
       map_err (\<lambda>e. MalformedBlock (CannotDerive e)) (argon2id crates c passphrase salt))"

definition kwp_wrap :: "wrap_crates \<Rightarrow> string \<Rightarrow> string \<Rightarrow> (string, crypto_error) result" where
  "kwp_wrap crates kek key =
     (if length kek \<noteq> KEK_LEN then Err (MalformedBlock DerivedKeyNot32)
      else ok_or (MalformedBlock (CannotWrapKey (length key))) (kwp_wrap_key crates kek key))"

definition kwp_unwrap :: "wrap_crates \<Rightarrow> string \<Rightarrow> string \<Rightarrow> (string, crypto_error) result" where
  "kwp_unwrap crates kek wrapped =
     (if length kek \<noteq> KEK_LEN then Err (MalformedBlock DerivedKeyNot32)
      else ok_or Authentication (kwp_unwrap_key crates kek wrapped))"

record passphrase_wrapper =
  pw_passphrase :: string
  pw_salt :: string
  pw_cost :: cost
  pw_kek :: string

definition pw_with_salt ::
  "wrap_crates \<Rightarrow> string \<Rightarrow> string \<Rightarrow> cost \<Rightarrow> (passphrase_wrapper, crypto_error) result" where
  "pw_with_salt crates passphrase salt c =
     and_then (kek_derive crates passphrase salt c) (\<lambda>kek.
       Ok \<lparr>pw_passphrase = passphrase, pw_salt = salt, pw_cost = c, pw_kek = kek\<rparr>)"

definition pw_new ::
  "wrap_crates \<Rightarrow> string \<Rightarrow> rng \<Rightarrow> (passphrase_wrapper, crypto_error) result \<times> rng" where
  "pw_new crates passphrase rng =
     (let (salt, rng') = fill_random SALT_LEN rng
      in (pw_with_salt crates passphrase salt cost_default, rng'))"

definition kek_for ::
  "wrap_crates \<Rightarrow> passphrase_wrapper \<Rightarrow> string \<Rightarrow> cost \<Rightarrow> (string, crypto_error) result" where
  "kek_for crates w salt c =
     (if salt = pw_salt w \<and> c = pw_cost w then Ok (pw_kek w)
      else kek_derive crates (pw_passphrase w) salt c)"

record wrap_header =
  hd_salt :: string
  hd_cost :: cost

definition header_parse :: "string \<Rightarrow> (wrap_header, crypto_error) result" where
  "header_parse blob =
     (if length blob < length MAGIC \<or> take (length MAGIC) blob \<noteq> MAGIC
      then Err (MalformedBlock NoFormatMarker)
      else if length blob < HEADER_LEN then Err (MalformedBlock (TooShortForHeader (length blob)))
      else
        let pos = length MAGIC in
        if blob ! pos \<noteq> FORMAT_VER then Err (MalformedBlock (WrappedKeyFormat (byte_of (blob ! pos))))
        else case scheme_from_byte (blob ! (pos + 1)) of
          None \<Rightarrow> Err (MalformedBlock (UnknownScheme (byte_of (blob ! (pos + 1)))))
        | Some _ \<Rightarrow> Ok \<lparr>hd_salt = take SALT_LEN (drop (pos + 2) blob),
            hd_cost = cost_from_bytes (take 12 (drop (pos + 2 + SALT_LEN) blob))\<rparr>)"

definition pw_wrap :: "wrap_crates \<Rightarrow> passphrase_wrapper \<Rightarrow> string \<Rightarrow> (string, crypto_error) result" where
  "pw_wrap crates w key =
     and_then (kwp_wrap crates (pw_kek w) key) (\<lambda>wrapped.
       Ok (MAGIC @ [FORMAT_VER] @ [scheme_byte PassphraseArgon2id] @ pw_salt w
           @ cost_to_bytes (pw_cost w) @ wrapped))"

definition pw_unwrap :: "wrap_crates \<Rightarrow> passphrase_wrapper \<Rightarrow> string \<Rightarrow> (string, crypto_error) result" where
  "pw_unwrap crates w wrapped =
     and_then (header_parse wrapped) (\<lambda>header.
     and_then (kek_for crates w (hd_salt header) (hd_cost header)) (\<lambda>kek.
       kwp_unwrap crates kek (drop HEADER_LEN wrapped)))"

section \<open>Lemmas\<close>

lemma length_cost_to_bytes [simp]: "length (cost_to_bytes c) = 12"
  by (simp add: cost_to_bytes_def)

lemma cost_from_bytes_to_bytes [simp]: "cost_from_bytes (cost_to_bytes c) = c"
  by (simp add: cost_from_bytes_def cost_to_bytes_def)

lemma wrap_lengths [simp]: "length MAGIC = 6" "SALT_LEN = 16" "HEADER_LEN = 36" "KEK_LEN = 32"
  by (simp_all add: MAGIC_def SALT_LEN_def HEADER_LEN_def KEK_LEN_def)

lemma header_parse_written:
  assumes "length salt = 16"
  shows "header_parse (MAGIC @ [FORMAT_VER] @ [scheme_byte s] @ salt @ cost_to_bytes c @ rest)
      = Ok \<lparr>hd_salt = salt, hd_cost = c\<rparr>"
    and "drop HEADER_LEN (MAGIC @ [FORMAT_VER] @ [scheme_byte s] @ salt @ cost_to_bytes c @ rest) = rest"
  using assms by (cases s; simp add: header_parse_def nth_append scheme_from_byte_def)+

lemma wrapping_of_written: "wrapping_of (MAGIC @ [FORMAT_VER] @ [scheme_byte s] @ rest) = Named s"
  by (cases s) (simp add: wrapping_of_def nth_append scheme_from_byte_def)

lemma header_parse_Ok_marked:
  assumes "header_parse blob = Ok h" shows "\<exists>s. wrapping_of blob = Named s"
  using assms by (auto simp: header_parse_def wrapping_of_def Let_def split: if_splits option.splits)

lemma kek_for_rederives:
  assumes "pw_with_salt crates passphrase salt c = Ok w"
  shows "kek_for crates w salt' c' = kek_derive crates passphrase salt' c'"
  using assms by (auto simp: pw_with_salt_def kek_for_def)

lemma pw_unwrap_pw_wrap:
  assumes "pw_with_salt crates passphrase salt c = Ok w" "length salt = 16"
    and "pw_with_salt crates passphrase salt' c' = Ok w'"
    and "\<forall>kek k b. kwp_wrap_key crates kek k = Some b \<longrightarrow> kwp_unwrap_key crates kek b = Some k"
    and "pw_wrap crates w key = Ok blob"
  shows "pw_unwrap crates w' blob = Ok key" and "wrapping_of blob = Named PassphraseArgon2id"
proof -
  from assms(1) obtain kek where kek: "kek_derive crates passphrase salt c = Ok kek"
    and w: "w = \<lparr>pw_passphrase = passphrase, pw_salt = salt, pw_cost = c, pw_kek = kek\<rparr>"
    by (auto simp: pw_with_salt_def)
  from assms(5) obtain wrapped where wr: "kwp_wrap crates kek key = Ok wrapped"
    and blob: "blob = MAGIC @ [FORMAT_VER] @ [scheme_byte PassphraseArgon2id] @ salt @ cost_to_bytes c @ wrapped"
    by (auto simp: pw_wrap_def w)
  have "kwp_unwrap crates kek wrapped = Ok key"
    using wr assms(4) by (auto simp: kwp_wrap_def kwp_unwrap_def split: if_splits)
  moreover have "kek_for crates w' salt c = Ok kek" using kek_for_rederives [OF assms(3)] kek by simp
  ultimately show "pw_unwrap crates w' blob = Ok key"
    unfolding pw_unwrap_def blob header_parse_written [OF assms(2)] by simp
  show "wrapping_of blob = Named PassphraseArgon2id" unfolding blob wrapping_of_written by simp
qed

section \<open>Properties\<close>

text \<open>
  Cost parameters can rise. Whatever one wrapper writes, every wrapper of the same passphrase
  reads back, whatever its own salt and cost, and what is written is marked with the scheme that
  wrote it. The key wrap is taken to unwrap what it wrapped.
\<close>

theorem wrapped_key_survives_rising_cost:
  assumes "pw_with_salt crates passphrase salt c = Ok w" "length salt = 16"
    and "pw_with_salt crates passphrase salt' c' = Ok w'"
    and "\<forall>kek k b. kwp_wrap_key crates kek k = Some b \<longrightarrow> kwp_unwrap_key crates kek b = Some k"
    and "pw_wrap crates w key = Ok blob"
  shows "pw_unwrap crates w' blob = Ok key \<and> wrapping_of blob = Named PassphraseArgon2id"
  using pw_unwrap_pw_wrap [OF assms] by (rule conjI)

text \<open>
  A wrapper opened over key material in the clear never guesses. Bytes that do not carry the
  marker of a scheme this build names do not unwrap, whatever the passphrase, and the failure is an
  error, never an absent key.
\<close>

theorem unmarked_key_never_unwraps:
  assumes "wrapping_of blob \<noteq> Named PassphraseArgon2id"
  shows "\<exists>reason. pw_unwrap crates w blob = Err (MalformedBlock reason)"
proof (cases "header_parse blob")
  case (Ok h)
  with assms show ?thesis using header_parse_Ok_marked by (metis scheme.exhaust)
next
  case (Err e)
  then have "\<exists>reason. e = MalformedBlock reason"
    by (auto simp: header_parse_def Let_def split: if_splits option.splits)
  with Err show ?thesis by (auto simp: pw_unwrap_def)
qed

section \<open>Sample crates\<close>

definition sample_crates :: wrap_crates where
  "sample_crates = \<lparr>argon2_params = (\<lambda>c. if lanes c = 0 then Err ''lanes'' else Ok ()),
     argon2id = (\<lambda>c passphrase salt. Ok (take 32 (passphrase @ salt @ replicate 32 (CHR ''0'')))),
     kwp_wrap_key = (\<lambda>kek k. Some (kek @ k)),
     kwp_unwrap_key = (\<lambda>kek b. if take (length kek) b = kek then Some (drop (length kek) b) else None)\<rparr>"

theorem wrapped_key_survives_rising_cost_witness:
  "\<exists>w w' blob. pw_with_salt sample_crates ''pass'' (replicate 16 (CHR ''a'')) cost_default = Ok w
     \<and> pw_with_salt sample_crates ''pass'' [] (cost_default\<lparr>passes := 3\<rparr>) = Ok w'
     \<and> pw_wrap sample_crates w ''key'' = Ok blob \<and> pw_unwrap sample_crates w' blob = Ok ''key''"
proof -
  define w where "w = \<lparr>pw_passphrase = ''pass'', pw_salt = replicate 16 (CHR ''a''), pw_cost = cost_default,
    pw_kek = ''pass'' @ replicate 16 (CHR ''a'') @ replicate 12 (CHR ''0'')\<rparr>"
  define w' where "w' = \<lparr>pw_passphrase = ''pass'', pw_salt = [], pw_cost = cost_default\<lparr>passes := 3\<rparr>,
    pw_kek = ''pass'' @ replicate 28 (CHR ''0'')\<rparr>"
  have w: "pw_with_salt sample_crates ''pass'' (replicate 16 (CHR ''a'')) cost_default = Ok w"
    by (simp add: pw_with_salt_def kek_derive_def sample_crates_def cost_default_def w_def)
  have w': "pw_with_salt sample_crates ''pass'' [] (cost_default\<lparr>passes := 3\<rparr>) = Ok w'"
    by (simp add: pw_with_salt_def kek_derive_def sample_crates_def cost_default_def w'_def)
  have "is_ok (pw_wrap sample_crates w ''key'')"
    by (simp add: is_ok_iff pw_wrap_def kwp_wrap_def w_def sample_crates_def)
  then obtain blob where b: "pw_wrap sample_crates w ''key'' = Ok blob" by (auto simp: is_ok_iff)
  have "pw_unwrap sample_crates w' blob = Ok ''key''"
    using wrapped_key_survives_rising_cost [OF w _ w' _ b] by (simp add: sample_crates_def)
  with w w' b show ?thesis by blast
qed

theorem unmarked_key_never_unwraps_witness:
  "\<exists>reason. pw_unwrap sample_crates w (replicate 32 (CHR ''k'')) = Err (MalformedBlock reason)"
proof (rule unmarked_key_never_unwraps)
  have "take (length MAGIC) (replicate 32 (CHR ''k'')) \<noteq> MAGIC" by (simp add: MAGIC_def)
  then show "wrapping_of (replicate 32 (CHR ''k'')) \<noteq> Named PassphraseArgon2id"
    by (simp add: wrapping_of_def)
qed

end
