(* ===== verification/Key_Store.thy ===== *)
theory Key_Store
  imports Epoch Subject_Key Action_Record Wrapper "HOL-Library.AList" "HOL-Library.Product_Lexorder"
begin

text \<open>
  \<open>yaam-crypto/src/keystore.rs\<close>: custody of the subject keys. The files under the root are
  \<open>key_files\<close>: a directory of epochs for each subject, and the erasure markers. What the file system
  may refuse is \<open>ks_refuses\<close>, from an operation and a path to the text it fails with; a path is its
  components under the root. The trait object a store is opened with is \<open>key_wrapper\<close>.
\<close>

record key_wrapper =
  kw_wrap :: "string \<Rightarrow> (string, crypto_error) result"
  kw_unwrap :: "string \<Rightarrow> (string, crypto_error) result"
  kw_scheme :: string
  kw_protects :: bool

definition passthrough :: key_wrapper where
  "passthrough = \<lparr>kw_wrap = Ok, kw_unwrap = Ok,
     kw_scheme = ''none - key material is stored as written (development only)'', kw_protects = False\<rparr>"

text \<open>The \<open>KeyWrapper\<close> of a passphrase, which keeps the trait's default answer to \<open>protects\<close>.\<close>

definition passphrase_key_wrapper :: "wrap_crates \<Rightarrow> passphrase_wrapper \<Rightarrow> key_wrapper" where
  "passphrase_key_wrapper crates w = \<lparr>kw_wrap = pw_wrap crates w, kw_unwrap = pw_unwrap crates w,
     kw_scheme = scheme_name PassphraseArgon2id, kw_protects = True\<rparr>"

datatype disk_op = Reading | Writing | Making | Removing

record fs_key_store =
  ks_wrapper :: key_wrapper
  ks_refuses :: "disk_op \<Rightarrow> string list \<Rightarrow> string option"

record key_files =
  ks_keys :: "(string \<times> (string \<times> string) list) list"
  ks_tombstones :: "string list"

definition permitted :: "fs_key_store \<Rightarrow> disk_op \<Rightarrow> string list \<Rightarrow> (unit, crypto_error) result" where
  "permitted st act path =
     (case ks_refuses st act path of None \<Rightarrow> Ok () | Some d \<Rightarrow> Err (CryptoIo (Failed d)))"

definition safe_component :: "string \<Rightarrow> (string, crypto_error) result" where
  "safe_component value =
     (if value = [] \<or> list_ex (\<lambda>c. c = CHR ''/'' \<or> c = CHR 0x5C \<or> c = CHR 0x00) value
         \<or> contains value ''..''
      then Err (CryptoIo (UnsafeComponent value))
      else Ok value)"

definition subject_dir :: "subject_hash \<Rightarrow> (string list, crypto_error) result" where
  "subject_dir subject = and_then (safe_component (subject_hash_str subject)) (\<lambda>c. Ok [''keys'', c])"

definition key_path :: "subject_hash \<Rightarrow> epoch \<Rightarrow> (string list, crypto_error) result" where
  "key_path subject ep =
     and_then (subject_dir subject) (\<lambda>dir.
     and_then (safe_component (epoch_str ep)) (\<lambda>c. Ok (dir @ [c])))"

definition tombstone_path :: "subject_hash \<Rightarrow> (string list, crypto_error) result" where
  "tombstone_path subject =
     and_then (safe_component (subject_hash_str subject)) (\<lambda>c. Ok [''tombstones'', c])"

definition read_key :: "key_files \<Rightarrow> subject_hash \<Rightarrow> epoch \<Rightarrow> string option" where
  "read_key ks subject ep =
     Option.bind (map_of (ks_keys ks) (subject_hash_str subject)) (\<lambda>dir. map_of dir (epoch_str ep))"

text \<open>\<open>Path::exists\<close>: a marker the file system will not let be read does not exist.\<close>

definition is_tombstoned :: "fs_key_store \<Rightarrow> key_files \<Rightarrow> subject_hash \<Rightarrow> (bool, crypto_error) result" where
  "is_tombstoned st ks subject =
     and_then (tombstone_path subject) (\<lambda>path.
       Ok (ks_refuses st Reading path = None \<and> subject_hash_str subject \<in> set (ks_tombstones ks)))"

definition fs_get ::
  "fs_key_store \<Rightarrow> key_files \<Rightarrow> subject_hash \<Rightarrow> epoch \<Rightarrow> (string option, crypto_error) result" where
  "fs_get st ks subject ep =
     and_then (is_tombstoned st ks subject) (\<lambda>erased.
       if erased then Ok None
       else and_then (key_path subject ep) (\<lambda>path.
            and_then (permitted st Reading path) (\<lambda>_.
              case read_key ks subject ep of
                None \<Rightarrow> Ok None
              | Some stored \<Rightarrow> and_then (kw_unwrap (ks_wrapper st) stored) (\<lambda>key.
                  if length key \<noteq> KEK_LEN
                  then Err (MalformedBlock (SubjectKeyUnwrapped (subject_hash_str subject) (length key)))
                  else Ok (Some key)))))"

definition create_subject_dir :: "subject_hash \<Rightarrow> key_files \<Rightarrow> key_files" where
  "create_subject_dir subject ks =
     (if map_of (ks_keys ks) (subject_hash_str subject) = None
      then ks\<lparr>ks_keys := ks_keys ks @ [(subject_hash_str subject, [])]\<rparr> else ks)"

datatype written = Wrote key_files | AlreadyExists | NotWritten crypto_error

text \<open>\<open>write_private_new\<close> on a key file: \<open>create_new\<close> fails where the file is there already.\<close>

definition write_key_new ::
  "fs_key_store \<Rightarrow> subject_hash \<Rightarrow> epoch \<Rightarrow> string list \<Rightarrow> string \<Rightarrow> key_files \<Rightarrow> written" where
  "write_key_new st subject ep path bytes ks =
     (case permitted st Writing path of
        Err e \<Rightarrow> NotWritten e
      | Ok _ \<Rightarrow>
          (case map_of (ks_keys ks) (subject_hash_str subject) of
             None \<Rightarrow> NotWritten (CryptoIo (NotFound (epoch_str ep)))
           | Some dir \<Rightarrow>
               if map_of dir (epoch_str ep) \<noteq> None then AlreadyExists
               else Wrote (ks\<lparr>ks_keys :=
                 AList.update (subject_hash_str subject) (dir @ [(epoch_str ep, bytes)]) (ks_keys ks)\<rparr>)))"

text \<open>
  \<open>meanwhile\<close> is what other processes do to the files between the look and the write.
\<close>

definition fs_mint ::
  "fs_key_store \<Rightarrow> (key_files \<Rightarrow> key_files) \<Rightarrow> subject_hash \<Rightarrow> epoch \<Rightarrow> key_files \<Rightarrow> rng \<Rightarrow>
     (string, crypto_error) result \<times> key_files \<times> rng" where
  "fs_mint st meanwhile subject ep ks rng =
     (case is_tombstoned st ks subject of
        Err e \<Rightarrow> (Err e, ks, rng)
      | Ok True \<Rightarrow> (Err (Tombstoned (subject_hash_str subject)), ks, rng)
      | Ok False \<Rightarrow>
     (case fs_get st ks subject ep of
        Err e \<Rightarrow> (Err e, ks, rng)
      | Ok (Some existing) \<Rightarrow> (Ok existing, ks, rng)
      | Ok None \<Rightarrow>
     (case and_then (subject_dir subject) (permitted st Making) of
        Err e \<Rightarrow> (Err e, ks, rng)
      | Ok _ \<Rightarrow>
          let ks1 = create_subject_dir subject ks; (key, rng') = fill_random KEK_LEN rng
          in (case kw_wrap (ks_wrapper st) key of
                Err e \<Rightarrow> (Err e, ks1, rng')
              | Ok wrapped \<Rightarrow>
                  let ks2 = meanwhile ks1
                  in (case key_path subject ep of
                        Err e \<Rightarrow> (Err e, ks2, rng')
                      | Ok path \<Rightarrow>
                          (case write_key_new st subject ep path wrapped ks2 of
                             Wrote ks3 \<Rightarrow> (Ok key, ks3, rng')
                           | AlreadyExists \<Rightarrow>
                               (and_then (fs_get st ks2 subject ep)
                                  (ok_or (KeyAbsent (subject_hash_str subject) (epoch_str ep))), ks2, rng')
                           | NotWritten e \<Rightarrow> (Err e, ks2, rng')))))))"

definition destroy_subject ::
  "fs_key_store \<Rightarrow> subject_hash \<Rightarrow> key_files \<Rightarrow> (unit, crypto_error) result \<times> key_files" where
  "destroy_subject st subject ks =
     (case and_then (subject_dir subject) (permitted st Removing) of
        Err e \<Rightarrow> (Err e, ks)
      | Ok _ \<Rightarrow> (Ok (), ks\<lparr>ks_keys := filter (\<lambda>(s, _). s \<noteq> subject_hash_str subject) (ks_keys ks)\<rparr>))"

definition destroy_epoch ::
  "fs_key_store \<Rightarrow> subject_hash \<Rightarrow> epoch \<Rightarrow> key_files \<Rightarrow> (unit, crypto_error) result \<times> key_files" where
  "destroy_epoch st subject ep ks =
     (case and_then (key_path subject ep) (permitted st Removing) of
        Err e \<Rightarrow> (Err e, ks)
      | Ok _ \<Rightarrow> (Ok (), ks\<lparr>ks_keys := map (\<lambda>(s, dir).
          (s, if s = subject_hash_str subject then filter (\<lambda>(e, _). e \<noteq> epoch_str ep) dir else dir)) (ks_keys ks)\<rparr>))"

definition tombstone ::
  "fs_key_store \<Rightarrow> subject_hash \<Rightarrow> key_files \<Rightarrow> (unit, crypto_error) result \<times> key_files" where
  "tombstone st subject ks =
     (case and_then (tombstone_path subject) (permitted st Writing) of
        Err e \<Rightarrow> (Err e, ks)
      | Ok _ \<Rightarrow>
          if subject_hash_str subject \<in> set (ks_tombstones ks) then (Ok (), ks)
          else (Ok (), ks\<lparr>ks_tombstones := ks_tombstones ks @ [subject_hash_str subject]\<rparr>))"
section \<open>Reading the store over\<close>

datatype key_material =
    NoMaterial
  | AllWrapped "scheme option" nat
  | AllUnwrapped nat
  | MixedMaterial nat nat                      \<comment> \<open>wrapped and unwrapped\<close>

fun exposed :: "key_material \<Rightarrow> bool" where
  "exposed NoMaterial = False"
| "exposed (AllWrapped _ _) = False"
| "exposed (AllUnwrapped _) = True"
| "exposed (MixedMaterial _ _) = True"

definition key_files_of :: "key_files \<Rightarrow> (string list \<times> string) list" where
  "key_files_of ks = concat (map (\<lambda>(s, dir). map (\<lambda>(e, bytes). ([''keys'', s, e], bytes)) dir) (ks_keys ks))"

record material_count =
  mc_wrapped :: nat
  mc_unwrapped :: nat
  mc_named :: "scheme option"
  mc_one :: bool

definition count_key_file :: "material_count \<Rightarrow> string \<Rightarrow> material_count" where
  "count_key_file mc stored =
     (case wrapping_of stored of
        Named s \<Rightarrow>
          (let mc' = mc\<lparr>mc_wrapped := Suc (mc_wrapped mc)\<rparr>
           in case mc_named mc of
                None \<Rightarrow> mc'\<lparr>mc_named := Some s\<rparr>
              | Some seen \<Rightarrow> if seen \<noteq> s then mc'\<lparr>mc_one := False\<rparr> else mc')
      | Unnamed \<Rightarrow> mc\<lparr>mc_wrapped := Suc (mc_wrapped mc), mc_one := False\<rparr>
      | Unmarked \<Rightarrow> mc\<lparr>mc_unwrapped := Suc (mc_unwrapped mc)\<rparr>)"

definition key_material :: "fs_key_store \<Rightarrow> key_files \<Rightarrow> (key_material, crypto_error) result" where
  "key_material st ks =
     and_then
       (try_fold (\<lambda>mc (path, stored). and_then (permitted st Reading path) (\<lambda>_. Ok (count_key_file mc stored)))
          \<lparr>mc_wrapped = 0, mc_unwrapped = 0, mc_named = None, mc_one = True\<rparr> (key_files_of ks))
       (\<lambda>mc.
         let scheme = (if mc_one mc then mc_named mc else None)
         in Ok (if mc_wrapped mc = 0 \<and> mc_unwrapped mc = 0 then NoMaterial
                else if mc_wrapped mc = 0 then AllUnwrapped (mc_unwrapped mc)
                else if mc_unwrapped mc = 0 then AllWrapped scheme (mc_wrapped mc)
                else MixedMaterial (mc_wrapped mc) (mc_unwrapped mc)))"

definition tombstoned_subjects :: "key_files \<Rightarrow> (subject_hash list, crypto_error) result" where
  "tombstoned_subjects ks =
     and_then
       (try_map (\<lambda>name. map_err (\<lambda>_. CryptoIo (TombstoneNotPseudonym name)) (subject_hash_try_from name))
          (ks_tombstones ks))
       (\<lambda>found. Ok (sort_key subject_hash_str found))"

definition key_epochs :: "key_files \<Rightarrow> ((subject_hash \<times> epoch) list, crypto_error) result" where
  "key_epochs ks =
     and_then
       (try_map (\<lambda>(name, dir).
          and_then (map_err (\<lambda>_. CryptoIo (EntryNotPseudonym name)) (subject_hash_try_from name)) (\<lambda>hash.
            try_map (\<lambda>(label, _).
              and_then (map_err (\<lambda>_. CryptoIo (EntryNotEpoch label)) (epoch_from_stored label)) (\<lambda>ep.
                Ok (hash, ep))) dir))
          (ks_keys ks))
       (\<lambda>found. Ok (sort_key (\<lambda>(h, e). (subject_hash_str h, epoch_str e)) (concat found)))"

section \<open>The contract of a key store\<close>

text \<open>
  What the sealing primitives rely on: a minted key is the one fetched from then on, minting takes no
  key away, and an erased subject has no key and is minted none.
\<close>

locale key_store =
  fixes get :: "'st \<Rightarrow> subject_hash \<Rightarrow> epoch \<Rightarrow> (string option, crypto_error) result"
    and mint :: "subject_hash \<Rightarrow> epoch \<Rightarrow> 'st \<Rightarrow> rng \<Rightarrow> (string, crypto_error) result \<times> 'st \<times> rng"
    and erased :: "'st \<Rightarrow> subject_hash \<Rightarrow> (bool, crypto_error) result"
  assumes minted_is_fetched: "mint s e st rng = (Ok k, st', rng') \<Longrightarrow> get st' s e = Ok (Some k)"
    and mint_keeps: "mint s e st rng = (r, st', rng') \<Longrightarrow> get st s' e' = Ok (Some k)
      \<Longrightarrow> get st' s' e' = Ok (Some k)"
    and fetched_length: "get st s e = Ok (Some k) \<Longrightarrow> length k = 32"
    and erased_no_key: "erased st s = Ok True \<Longrightarrow> get st s e = Ok None"
    and erased_not_minted: "erased st s = Ok True \<Longrightarrow> \<exists>x. mint s e st rng = (Err x, st, rng)"
begin

lemma minted_length: "mint s e st rng = (Ok k, st', rng') \<Longrightarrow> length k = 32"
  using minted_is_fetched fetched_length by blast

lemma mint_again:
  assumes "mint s e st rng = (Ok k, st', rng')" "mint s e st' rng' = (r, st'', rng'')"
  shows "get st'' s e = Ok (Some k)"
  using mint_keeps [OF assms(2) minted_is_fetched [OF assms(1)]] .

end

text \<open>A wrapper that gives back what it wrapped makes the files a key store.\<close>

locale key_wrapping =
  fixes w :: key_wrapper
  assumes unwrap_wrap: "kw_wrap w k = Ok b \<Longrightarrow> kw_unwrap w b = Ok k"

interpretation unwrapped: key_wrapping passthrough
  by unfold_locales (simp add: passthrough_def)

lemma passphrase_key_wrapping:
  assumes "pw_with_salt crates passphrase salt c = Ok w" "length salt = 16"
    and "\<forall>kek k b. kwp_wrap_key crates kek k = Some b \<longrightarrow> kwp_unwrap_key crates kek b = Some k"
  shows "key_wrapping (passphrase_key_wrapper crates w)"
proof
  fix k b assume "kw_wrap (passphrase_key_wrapper crates w) k = Ok b"
  then show "kw_unwrap (passphrase_key_wrapper crates w) b = Ok k"
    using pw_unwrap_pw_wrap [OF assms(1,2) assms(1,3)] by (simp add: passphrase_key_wrapper_def)
qed

section \<open>Lemmas\<close>

lemma read_key_create_dir [simp]: "read_key (create_subject_dir s ks) s' e = read_key ks s' e"
  by (auto simp: read_key_def create_subject_dir_def map_add_def split: option.splits)

lemma is_tombstoned_create_dir [simp]: "is_tombstoned st (create_subject_dir s ks) s' = is_tombstoned st ks s'"
  by (simp add: is_tombstoned_def create_subject_dir_def)

lemma fs_get_cong:
  assumes "is_tombstoned st ks s = is_tombstoned st ks' s" "read_key ks s e = read_key ks' s e"
  shows "fs_get st ks s e = fs_get st ks' s e"
  unfolding fs_get_def assms ..

lemma fs_get_create_dir [simp]: "fs_get st (create_subject_dir s ks) s' e = fs_get st ks s' e"
  by (rule fs_get_cong) simp_all

lemma subject_hash_str_inject [simp]: "subject_hash_str a = subject_hash_str b \<longleftrightarrow> a = b"
  by (cases a; cases b) simp

lemma epoch_str_inject [simp]: "epoch_str a = epoch_str b \<longleftrightarrow> a = b"
  by (cases a; cases b) simp

lemma write_key_new_Wrote:
  assumes "write_key_new st s e path bytes ks = Wrote ks'"
  shows "read_key ks s e = None"
    and "read_key ks' s' e' = (if s' = s \<and> e' = e then Some bytes else read_key ks s' e')"
    and "is_tombstoned st' ks' s' = is_tombstoned st' ks s'"
  using assms by (auto simp: write_key_new_def read_key_def is_tombstoned_def update_conv map_add_def
      split: result.splits option.splits if_splits)

lemma fs_get_key: "fs_get st ks s e = Ok (Some k) \<Longrightarrow> length k = 32 \<and> (\<exists>b. read_key ks s e = Some b)"
  by (auto simp: fs_get_def split: if_splits option.splits)

lemma fs_mint_erased:
  "is_tombstoned st ks s = Ok True
    \<Longrightarrow> fs_mint st meanwhile s e ks rng = (Err (Tombstoned (subject_hash_str s)), ks, rng)"
  by (simp add: fs_mint_def)

text \<open>Every way a mint ends: refused, found, written, or beaten to the file.\<close>

lemma fs_mint_elim:
  assumes "fs_mint st meanwhile s e ks rng = (r, ks', rng')"
  obtains (refused) x where "r = Err x" "ks' = ks \<or> ks' = create_subject_dir s ks"
  | (found) k where "r = Ok k" "ks' = ks" "fs_get st ks s e = Ok (Some k)"
  | (beaten) "ks' = meanwhile (create_subject_dir s ks)"
      "(\<exists>x. r = Err x) \<or> (\<exists>k. r = Ok k \<and> fs_get st ks' s e = Ok (Some k))"
  | (wrote) k b path where "r = Ok k" "length k = 32" "kw_wrap (ks_wrapper st) k = Ok b"
      "fs_get st ks s e = Ok None" "is_tombstoned st ks s = Ok False"
      "key_path s e = Ok path" "permitted st Reading path = Ok ()"
      "write_key_new st s e path b (meanwhile (create_subject_dir s ks)) = Wrote ks'"
proof -
  consider (tomb) x where "is_tombstoned st ks s = Err x" | (dead) "is_tombstoned st ks s = Ok True"
    | (live) "is_tombstoned st ks s = Ok False"
    by (metis (full_types) result.exhaust)
  then show ?thesis
  proof cases
    case tomb with assms show ?thesis by (auto simp: fs_mint_def intro: refused)
  next
    case dead with assms show ?thesis by (auto simp: fs_mint_def intro: refused)
  next
    case live
    consider (err) x where "fs_get st ks s e = Err x" | (some) k where "fs_get st ks s e = Ok (Some k)"
      | (none) "fs_get st ks s e = Ok None"
      by (metis option.exhaust result.exhaust)
    then show ?thesis
    proof cases
      case err with assms live show ?thesis by (auto simp: fs_mint_def intro: refused)
    next
      case some with assms live show ?thesis by (auto simp: fs_mint_def intro: found)
    next
      case none
      obtain key rng1 where rnd: "fill_random KEK_LEN rng = (key, rng1)" by fastforce
      then have key: "length key = 32" using fill_random_length [OF rnd] by simp
      note run = assms [unfolded fs_mint_def live none rnd Let_def, simplified]
      from none live obtain path where path: "key_path s e = Ok path" "permitted st Reading path = Ok ()"
        by (auto simp: fs_get_def)
      show ?thesis
      proof (cases "and_then (subject_dir s) (permitted st Making)")
        case (Err x) with run show ?thesis by (auto intro: refused)
      next
        case (Ok u)
        show ?thesis
        proof (cases "kw_wrap (ks_wrapper st) key")
          case (Err x)
          with run \<open>and_then _ _ = Ok u\<close> have "r = Err x" "ks' = create_subject_dir s ks"
            by (auto simp del: and_then_eq_Ok)
          then show ?thesis by (intro refused [of x]) simp_all
        next
          case (Ok b)
          note run = run [unfolded \<open>and_then _ _ = Ok u\<close> Ok path(1), simplified]
          show ?thesis
          proof (cases "write_key_new st s e path b (meanwhile (create_subject_dir s ks))")
            case (Wrote ks3) with run Ok key none live path show ?thesis by (auto intro: wrote)
          next
            case AlreadyExists
            with run Ok have "ks' = meanwhile (create_subject_dir s ks)"
              "r = and_then (fs_get st ks' s e) (ok_or (KeyAbsent (subject_hash_str s) (epoch_str e)))"
              by auto
            from this(2) have "fs_get st ks' s e = Ok (Some k)" if "r = Ok k" for k
              using that by (metis and_then_eq_Ok ok_or_eq_Ok)
            then have "(\<exists>x. r = Err x) \<or> (\<exists>k. r = Ok k \<and> fs_get st ks' s e = Ok (Some k))"
              by (metis result.exhaust)
            with \<open>ks' = _\<close> show ?thesis by (rule beaten)
          next
            case (NotWritten x) with run Ok show ?thesis by (auto intro: beaten)
          qed
        qed
      qed
    qed
  qed
qed

lemma fs_mint_fetched:
  assumes "key_wrapping (ks_wrapper st)" "fs_mint st meanwhile s e ks rng = (Ok k, ks', rng')"
    and "\<And>ks. is_tombstoned st (meanwhile ks) s = is_tombstoned st ks s"
  shows "fs_get st ks' s e = Ok (Some k)"
  using assms(2)
proof (cases rule: fs_mint_elim)
  case (wrote k' b path)
  note key_wrapping.unwrap_wrap [OF assms(1)] and wr = write_key_new_Wrote [OF wrote(8)]
  with wrote show ?thesis by (simp add: fs_get_def wr assms(3))
qed auto

lemma fs_mint_keeps:
  assumes "fs_mint st meanwhile s e ks rng = (r, ks', rng')" "fs_get st ks s' e' = Ok (Some k)"
    and "\<And>ks. fs_get st ks s' e' = Ok (Some k) \<Longrightarrow> fs_get st (meanwhile ks) s' e' = Ok (Some k)"
  shows "fs_get st ks' s' e' = Ok (Some k)"
  using assms(1)
proof (cases rule: fs_mint_elim)
  case (wrote k' b path)
  note wr = write_key_new_Wrote [OF wrote(8)]
  have got: "fs_get st (meanwhile (create_subject_dir s ks)) s' e' = Ok (Some k)"
    using assms(2,3) by simp
  then have "\<not> (s' = s \<and> e' = e)" using fs_get_key wr(1) by fastforce
  then have "fs_get st ks' s' e' = fs_get st (meanwhile (create_subject_dir s ks)) s' e'"
    by (intro fs_get_cong) (auto simp: wr)
  with got show ?thesis by simp
qed (use assms in auto)

text \<open>
  The files of one process are a key store. Its reader and its minter run with nothing in between;
  what concurrent mints do is the subject of a property below.
\<close>

lemma fs_key_store:
  assumes kw: "key_wrapping (ks_wrapper st)"
  shows "key_store (fs_get st) (fs_mint st id) (is_tombstoned st)"
proof
  show "fs_get st ks' s e = Ok (Some k)" if "fs_mint st id s e ks rng = (Ok k, ks', rng')"
    for s e k ks ks' rng rng'
    using fs_mint_fetched [OF kw that] by simp
  show "fs_get st ks' s' e' = Ok (Some k)"
    if "fs_mint st id s e ks rng = (r, ks', rng')" "fs_get st ks s' e' = Ok (Some k)"
    for s e r ks ks' rng rng' s' e' k
    using fs_mint_keeps [OF that] by simp
  show "length k = 32" if "fs_get st ks s e = Ok (Some k)" for ks s e k
    using fs_get_key [OF that] by blast
  show "fs_get st ks s e = Ok None" if "is_tombstoned st ks s = Ok True" for ks s e
    using that by (simp add: fs_get_def)
  show "\<exists>x. fs_mint st id s e ks rng = (Err x, ks, rng)" if "is_tombstoned st ks s = Ok True" for ks s e rng
    using fs_mint_erased [OF that] by blast
qed

sublocale key_wrapping \<subseteq> files: key_store
  "fs_get \<lparr>ks_wrapper = w, ks_refuses = refuses\<rparr>"
  "fs_mint \<lparr>ks_wrapper = w, ks_refuses = refuses\<rparr> id"
  "is_tombstoned \<lparr>ks_wrapper = w, ks_refuses = refuses\<rparr>"
  for refuses :: "disk_op \<Rightarrow> string list \<Rightarrow> string option"
  by (rule fs_key_store) (simp add: key_wrapping_axioms)

lemma safe_component_plain:
  assumes "v \<noteq> []" "\<forall>c \<in> set v. c \<noteq> CHR ''/'' \<and> c \<noteq> CHR 0x5C \<and> c \<noteq> CHR 0x00 \<and> c \<noteq> CHR ''.''"
  shows "safe_component v = Ok v"
proof -
  have "\<not> contains v ''..''"
  proof
    assume "contains v ''..''"
    then obtain a b where "v = a @ ''..'' @ b" unfolding contains_iff by blast
    then have "CHR ''.'' \<in> set v" by simp
    with assms(2) show False by blast
  qed
  moreover have "\<not> list_ex (\<lambda>c. c = CHR ''/'' \<or> c = CHR 0x5C \<or> c = CHR 0x00) v"
    using assms(2) unfolding list_ex_iff by blast
  ultimately show ?thesis using assms(1) unfolding safe_component_def by simp
qed

lemma safe_subject:
  assumes "valid_subject_hash h" shows "safe_component (subject_hash_str h) = Ok (subject_hash_str h)"
proof (rule safe_component_plain)
  show "subject_hash_str h \<noteq> []" using assms by (auto simp: valid_subject_hash_def)
  have "\<forall>c \<in> set (subject_hash_str h). id_byte c"
    using valid_subject_hash_bytes [OF assms] unfolding list_all_iff .
  then show "\<forall>c \<in> set (subject_hash_str h). c \<noteq> CHR ''/'' \<and> c \<noteq> CHR 0x5C \<and> c \<noteq> CHR 0x00 \<and> c \<noteq> CHR ''.''"
    using id_byte_not_special by blast
qed

section \<open>Key files as a map\<close>

lemma read_key_destroy_subject:
  "read_key (ks\<lparr>ks_keys := filter (\<lambda>(n, _). n \<noteq> subject_hash_str s) (ks_keys ks)\<rparr>) s' e
     = (if s' = s then None else read_key ks s' e)"
proof -
  have "map_of (filter (\<lambda>(n, _). n \<noteq> a) xs) b = (if b = a then None else map_of xs b)"
    for a b and xs :: "(string \<times> (string \<times> string) list) list"
    by (induction xs) auto
  then show ?thesis by (simp add: read_key_def)
qed

lemma read_key_destroy_epoch:
  "read_key (ks\<lparr>ks_keys := map (\<lambda>(n, dir).
       (n, if n = subject_hash_str s then filter (\<lambda>(l, _). l \<noteq> epoch_str e) dir else dir)) (ks_keys ks)\<rparr>) s' e'
     = (if s' = s \<and> e' = e then None else read_key ks s' e')"
proof -
  have dir: "map_of (filter (\<lambda>(l, _). l \<noteq> a) xs) b = (if b = a then None else map_of xs b)"
    for a b and xs :: "(string \<times> string) list"
    by (induction xs) auto
  have "map_of (map (\<lambda>(n, dir). (n, if n = a then f dir else dir)) xs) b
      = map_option (\<lambda>dir. if b = a then f dir else dir) (map_of xs b)"
    for a b f and xs :: "(string \<times> (string \<times> string) list) list"
    by (induction xs) auto
  then show ?thesis by (cases "map_of (ks_keys ks) (subject_hash_str s')") (auto simp: read_key_def dir)
qed

lemma is_tombstoned_keys [simp]: "is_tombstoned st (ks\<lparr>ks_keys := m\<rparr>) s = is_tombstoned st ks s"
  by (simp add: is_tombstoned_def)

lemma read_key_tombstones [simp]: "read_key (ks\<lparr>ks_tombstones := t\<rparr>) s e = read_key ks s e"
  by (simp add: read_key_def)

lemma tombstone_Ok:
  assumes "tombstone st s ks = (Ok (), ks')"
  shows "set (ks_tombstones ks') = insert (subject_hash_str s) (set (ks_tombstones ks))"
    and "read_key ks' s' e = read_key ks s' e"
  using assms by (auto simp: tombstone_def split: result.splits if_splits)

lemma fs_get_absent:
  assumes "read_key ks s e = None" "ks_refuses st Reading = (\<lambda>_. None)"
  shows "fs_get st ks s e = (case and_then (is_tombstoned st ks s) (\<lambda>t. if t then Ok [] else key_path s e)
    of Err x \<Rightarrow> Err x | Ok _ \<Rightarrow> Ok None)"
  using assms by (cases "is_tombstoned st ks s"; cases "key_path s e") (simp_all add: fs_get_def permitted_def)

lemma fs_get_no_path:
  "key_path s e = Err x \<Longrightarrow> fs_get st ks s e
     = and_then (is_tombstoned st ks s) (\<lambda>erased. if erased then Ok None else Err x)"
  by (cases "is_tombstoned st ks s") (simp_all add: fs_get_def)

text \<open>One step of one process on the keys of one subject, whatever its outcome.\<close>

inductive ks_step :: "fs_key_store \<Rightarrow> subject_hash \<Rightarrow> key_files \<Rightarrow> key_files \<Rightarrow> bool" for st s where
  minting: "ks_step st s ks (fst (snd (fs_mint st id s e ks rng)))"
| destroying: "ks_step st s ks (snd (destroy_subject st s ks))"
| retiring: "ks_step st s ks (snd (destroy_epoch st s e ks))"
| erasing: "ks_step st s ks (snd (tombstone st s ks))"

inductive_cases ks_step_cases: "ks_step st s ks ks'"

abbreviation ks_reaches :: "fs_key_store \<Rightarrow> key_files \<Rightarrow> key_files \<Rightarrow> bool" where
  "ks_reaches st \<equiv> (\<lambda>ks ks'. \<exists>s. ks_step st s ks ks')\<^sup>*\<^sup>*"

lemma fs_mint_tombstones [simp]: "ks_tombstones (fst (snd (fs_mint st id s e ks rng))) = ks_tombstones ks"
proof -
  obtain r ks' rng' where m: "fs_mint st id s e ks rng = (r, ks', rng')" by (cases "fs_mint st id s e ks rng")
  have c: "ks_tombstones (create_subject_dir s ks) = ks_tombstones ks" by (simp add: create_subject_dir_def)
  from m show ?thesis
  proof (cases rule: fs_mint_elim)
    case (wrote k b path)
    from wrote(8) have "ks_tombstones ks' = ks_tombstones (create_subject_dir s ks)"
      by (auto simp: write_key_new_def split: result.splits option.splits if_splits)
    with m c show ?thesis by simp
  qed (use m c in auto)
qed

lemma ks_step_tombstones: "ks_step st s ks ks' \<Longrightarrow> set (ks_tombstones ks) \<subseteq> set (ks_tombstones ks')"
  by (erule ks_step_cases)
    (auto simp: destroy_subject_def destroy_epoch_def tombstone_def split: result.splits)

lemma ks_step_other:
  assumes "ks_step st t ks ks'" "s \<noteq> t"
  shows "fs_get st ks' s e = fs_get st ks s e"
  using assms(1)
proof cases
  case (minting e' rng)
  obtain r ks'' rng' where m: "fs_mint st id t e' ks rng = (r, ks'', rng')" by (cases "fs_mint st id t e' ks rng")
  from m have "fs_get st ks'' s e = fs_get st ks s e"
  proof (cases rule: fs_mint_elim)
    case (wrote k b path)
    note wr = write_key_new_Wrote [OF wrote(8)]
    have "fs_get st ks'' s e = fs_get st (create_subject_dir t ks) s e"
      using assms(2) by (intro fs_get_cong) (auto simp: wr)
    then show ?thesis by simp
  qed auto
  with m minting show ?thesis by simp
next
  case destroying
  show ?thesis unfolding destroying using assms(2)
    by (intro fs_get_cong) (auto simp: destroy_subject_def read_key_destroy_subject split: result.splits)
next
  case (retiring e')
  show ?thesis unfolding retiring using assms(2)
    by (intro fs_get_cong) (auto simp: destroy_epoch_def read_key_destroy_epoch split: result.splits)
next
  case erasing
  show ?thesis unfolding erasing using assms(2)
    by (intro fs_get_cong) (auto simp: tombstone_def is_tombstoned_def split: result.splits)
qed

lemma ks_reaches_tombstones:
  "ks_reaches st ks ks' \<Longrightarrow> set (ks_tombstones ks) \<subseteq> set (ks_tombstones ks')"
  by (induction rule: rtranclp_induct) (use ks_step_tombstones in blast)+

lemma count_key_files:
  "try_fold (\<lambda>mc (path, stored). and_then (permitted st Reading path) (\<lambda>_. Ok (count_key_file mc stored))) mc files = Ok mc'
    \<Longrightarrow> mc_unwrapped mc' = mc_unwrapped mc + length (filter (\<lambda>(_, b). wrapping_of b = Unmarked) files)
      \<and> mc_wrapped mc' = mc_wrapped mc + length (filter (\<lambda>(_, b). wrapping_of b \<noteq> Unmarked) files)"
proof (induction files arbitrary: mc)
  case (Cons f files)
  have "mc_unwrapped (count_key_file mc (snd f)) = mc_unwrapped mc + (if wrapping_of (snd f) = Unmarked then 1 else 0)
    \<and> mc_wrapped (count_key_file mc (snd f)) = mc_wrapped mc + (if wrapping_of (snd f) = Unmarked then 0 else 1)"
    by (auto simp: count_key_file_def Let_def split: wrapping.split option.split)
  then show ?case using Cons.IH [of "count_key_file mc (snd f)"] Cons.prems by (auto split: prod.splits)
qed simp

lemma erased_for_good:
  assumes "is_tombstoned st ks s = Ok True" "ks_reaches st ks ks'"
  shows "is_tombstoned st ks' s = Ok True"
  using assms(1) ks_reaches_tombstones [OF assms(2)] by (auto simp: is_tombstoned_def)

section \<open>Properties\<close>

text \<open>
  The first key wins. Where two processes both find no key and both mint one, the one that comes
  second to the file discards its own and adopts the other's: both hold one key, and it is the key
  fetched from then on, so no record is sealed under a key that is lost.
\<close>

theorem concurrent_mints_agree:
  assumes "key_wrapping (ks_wrapper st)"
    and "fs_get st ks s e = Ok None"
    and "fs_mint st id s e (create_subject_dir s ks) rngB = (Ok kB, ksB, rngB')"
    and "fs_mint st (\<lambda>_. ksB) s e ks rngA = (Ok kA, ksA, rngA')"
  shows "kA = kB \<and> fs_get st ksA s e = Ok (Some kB)"
proof -
  have B: "fs_get st ksB s e = Ok (Some kB)" using fs_mint_fetched [OF assms(1,3)] by simp
  from assms(4) show ?thesis
  proof (cases rule: fs_mint_elim)
    case (wrote k b path)
    with B fs_get_key [OF B] write_key_new_Wrote(1) [OF wrote(8)] show ?thesis by simp
  qed (use assms(2) B in auto)
qed

text \<open>
  C25: the key files implement a map from subject and epoch to a key. With its marker readable, a mint
  that answers binds exactly its pair, destroying an epoch unbinds exactly that pair, destroying a
  subject unbinds all its epochs, an erasure marker hides them all; nothing else changes.
\<close>

theorem key_files_refine_map:
  assumes "key_wrapping (ks_wrapper st)" "ks_refuses st Reading = (\<lambda>_. None)"
  shows "(fs_mint st id s e ks rng = (Ok k, ks1, rng1) \<longrightarrow>
            fs_get st ks1 s' e' = (if s' = s \<and> e' = e then Ok (Some k) else fs_get st ks s' e'))
    \<and> (destroy_epoch st s e ks = (Ok (), ks2) \<longrightarrow>
            fs_get st ks2 s' e' = (if s' = s \<and> e' = e then Ok None else fs_get st ks s' e'))
    \<and> (destroy_subject st s ks = (Ok (), ks3) \<longrightarrow>
            fs_get st ks3 s' e' = (if s' = s \<and> is_ok (key_path s e') then Ok None else fs_get st ks s' e'))
    \<and> (tombstone st s ks = (Ok (), ks4) \<longrightarrow>
            fs_get st ks4 s' e' = (if s' = s then Ok None else fs_get st ks s' e'))"
proof (intro conjI impI)
  assume m: "fs_mint st id s e ks rng = (Ok k, ks1, rng1)"
  then have "fs_get st ks1 s e = Ok (Some k)" using fs_mint_fetched [OF assms(1)] by simp
  moreover from m have "fs_get st ks1 s' e' = fs_get st ks s' e'" if "\<not> (s' = s \<and> e' = e)"
  proof (cases rule: fs_mint_elim)
    case (wrote k b path)
    note wr = write_key_new_Wrote [OF wrote(8)]
    have "fs_get st ks1 s' e' = fs_get st (create_subject_dir s ks) s' e'"
      using that by (intro fs_get_cong) (auto simp: wr)
    then show ?thesis by simp
  qed auto
  ultimately show "fs_get st ks1 s' e' = (if s' = s \<and> e' = e then Ok (Some k) else fs_get st ks s' e')" by simp
next
  assume d: "destroy_epoch st s e ks = (Ok (), ks2)"
  then obtain path where "key_path s e = Ok path" by (auto simp: destroy_epoch_def split: result.splits)
  moreover from this have "is_ok (tombstone_path s)"
    by (auto simp: key_path_def subject_dir_def tombstone_path_def is_ok_iff)
  moreover from d have r: "read_key ks2 s' e' = (if s' = s \<and> e' = e then None else read_key ks s' e')"
    "is_tombstoned st ks2 s' = is_tombstoned st ks s'" for s' e'
    by (auto simp: destroy_epoch_def read_key_destroy_epoch split: result.splits)
  ultimately show "fs_get st ks2 s' e' = (if s' = s \<and> e' = e then Ok None else fs_get st ks s' e')"
    by (auto simp: fs_get_absent [OF _ assms(2)] is_tombstoned_def is_ok_iff intro: fs_get_cong)
next
  assume d: "destroy_subject st s ks = (Ok (), ks3)"
  then obtain c where c: "safe_component (subject_hash_str s) = Ok c"
    by (auto simp: destroy_subject_def subject_dir_def split: result.splits)
  from d have r: "read_key ks3 s' e' = (if s' = s then None else read_key ks s' e')"
    "is_tombstoned st ks3 s' = is_tombstoned st ks s'" for s' e'
    by (auto simp: destroy_subject_def read_key_destroy_subject split: result.splits)
  have "fs_get st ks3 s e' = fs_get st ks s e'" if "\<not> is_ok (key_path s e')"
    using that by (cases "key_path s e'") (simp_all add: fs_get_no_path r)
  moreover have "fs_get st ks3 s e' = Ok None" if "is_ok (key_path s e')"
    using that c by (auto simp: fs_get_absent [OF _ assms(2)] r is_tombstoned_def tombstone_path_def is_ok_iff)
  moreover have "fs_get st ks3 s' e' = fs_get st ks s' e'" if "s' \<noteq> s"
    using that by (intro fs_get_cong) (simp_all add: r)
  ultimately show "fs_get st ks3 s' e' = (if s' = s \<and> is_ok (key_path s e') then Ok None else fs_get st ks s' e')"
    by auto
next
  assume t: "tombstone st s ks = (Ok (), ks4)"
  note tomb = tombstone_Ok [OF t]
  from t obtain path where "tombstone_path s = Ok path" by (auto simp: tombstone_def split: result.splits)
  then have "fs_get st ks4 s e' = Ok None" by (simp add: fs_get_def is_tombstoned_def assms(2) tomb)
  moreover have "fs_get st ks4 s' e' = fs_get st ks s' e'" if "s' \<noteq> s"
    using that by (intro fs_get_cong) (simp_all add: tomb is_tombstoned_def)
  ultimately show "fs_get st ks4 s' e' = (if s' = s then Ok None else fs_get st ks s' e')" by auto
qed

text \<open>
  C26: erasure is final. Once a subject is erased, whatever mints, destructions and erasures follow, of
  any subject, it stays erased, no epoch of it has a key, and no key is minted for it again.
\<close>

theorem erasure_is_final:
  assumes "is_tombstoned st ks s = Ok True" "ks_reaches st ks ks'"
  shows "is_tombstoned st ks' s = Ok True \<and> fs_get st ks' s e = Ok None
    \<and> fs_mint st id s e ks' rng = (Err (Tombstoned (subject_hash_str s)), ks', rng)"
  using erased_for_good [OF assms] fs_mint_erased by (auto simp: fs_get_def)

text \<open>
  What a report says of the material on disk is what the files say, and not what the wrapper in
  force would write: it counts every key file once, and calls the store exposed exactly when one of
  them carries no marker.
\<close>

theorem key_material_tells_exposure:
  assumes "key_material st ks = Ok m"
  shows "(exposed m \<longleftrightarrow> (\<exists>path b. (path, b) \<in> set (key_files_of ks) \<and> wrapping_of b = Unmarked))
    \<and> (m = NoMaterial \<longleftrightarrow> key_files_of ks = [])
    \<and> key_material (st\<lparr>ks_wrapper := w\<rparr>) ks = Ok m"
proof -
  let ?f = "key_files_of ks" and ?zero = "\<lparr>mc_wrapped = 0, mc_unwrapped = 0, mc_named = None, mc_one = True\<rparr>"
  from assms obtain mc where mc:
    "try_fold (\<lambda>mc (path, stored). and_then (permitted st Reading path) (\<lambda>_. Ok (count_key_file mc stored))) ?zero ?f = Ok mc"
    by (auto simp: key_material_def)
  note counts = count_key_files [OF this]
  have "m = (if mc_wrapped mc = 0 \<and> mc_unwrapped mc = 0 then NoMaterial
      else if mc_wrapped mc = 0 then AllUnwrapped (mc_unwrapped mc)
      else if mc_unwrapped mc = 0 then AllWrapped (if mc_one mc then mc_named mc else None) (mc_wrapped mc)
      else MixedMaterial (mc_wrapped mc) (mc_unwrapped mc))"
    using assms mc by (simp add: key_material_def Let_def)
  moreover have "mc_unwrapped mc = 0 \<longleftrightarrow> \<not> (\<exists>path b. (path, b) \<in> set ?f \<and> wrapping_of b = Unmarked)"
    using counts by (auto simp: filter_empty_conv)
  moreover have "mc_wrapped mc + mc_unwrapped mc = length ?f"
    using counts sum_length_filter_compl [of "\<lambda>(_, b). wrapping_of b = Unmarked" ?f]
    by (simp add: case_prod_unfold)
  moreover have "permitted (st\<lparr>ks_wrapper := w\<rparr>) = permitted st" by (simp add: permitted_def fun_eq_iff)
  ultimately show ?thesis using assms by (auto simp: key_material_def)
qed

text \<open>
  An erasure marker that cannot be read is taken for no marker. Where the file system will not let
  the marker be looked at, the store answers that the subject is not erased, instead of failing, and
  mints a key for a subject that has a marker.
\<close>

theorem unreadable_marker_reads_as_absent:
  assumes "ks_refuses st = (\<lambda>act path. if act = Reading \<and> path = [''tombstones'', subject_hash_str s] then Some d else None)"
    and "ks_wrapper st = passthrough" "key_path s e = Ok path" "read_key ks s e = None"
    and "subject_hash_str s \<in> set (ks_tombstones ks)"
  shows "is_tombstoned st ks s = Ok False \<and> (\<exists>k ks' rng'. fs_mint st id s e ks rng = (Ok k, ks', rng'))"
proof -
  obtain c where c: "safe_component (subject_hash_str s) = Ok c" "c = subject_hash_str s"
    using assms(3) by (auto simp: key_path_def subject_dir_def safe_component_def split: if_splits)
  have path: "path = [''keys'', subject_hash_str s, epoch_str e]"
    using assms(3) c by (auto simp: key_path_def subject_dir_def safe_component_def split: if_splits)
  have alive: "is_tombstoned st ks s = Ok False"
    using c by (simp add: is_tombstoned_def tombstone_path_def assms(1))
  have none: "fs_get st ks s e = Ok None"
    by (simp add: fs_get_def alive assms(3,4) permitted_def assms(1) path)
  obtain key rng' where rnd: "fill_random KEK_LEN rng = (key, rng')" by fastforce
  have dir: "\<exists>d. map_of (ks_keys (create_subject_dir s ks)) (subject_hash_str s) = Some d \<and> map_of d (epoch_str e) = None"
    using assms(4) by (auto simp: create_subject_dir_def read_key_def map_add_def split: option.splits)
  then obtain ks' where "write_key_new st s e path key (create_subject_dir s ks) = Wrote ks'"
    by (auto simp: write_key_new_def permitted_def assms(1) path)
  then have "fs_mint st id s e ks rng = (Ok key, ks', rng')"
    using c by (simp add: fs_mint_def alive none rnd [simplified] subject_dir_def permitted_def assms(1-3)
        passthrough_def Let_def)
  with alive show ?thesis by blast
qed

section \<open>Sample store\<close>

definition sample_store :: fs_key_store where
  "sample_store = \<lparr>ks_wrapper = passthrough, ks_refuses = (\<lambda>_ _. None)\<rparr>"

definition no_keys :: key_files where
  "no_keys = \<lparr>ks_keys = [], ks_tombstones = []\<rparr>"

definition sample_epoch :: epoch where
  "sample_epoch = Epoch ''2026-Q1''"

definition key_of :: "subject_hash \<Rightarrow> key_files" where
  "key_of h = \<lparr>ks_keys = [(subject_hash_str h, [(''2026-Q1'', replicate 32 (CHR ''k''))])],
     ks_tombstones = []\<rparr>"

abbreviation one_key :: key_files where
  "one_key \<equiv> key_of sample_hash"

lemma sample_store_simps [simp]:
  "ks_wrapper sample_store = passthrough" "ks_refuses sample_store = (\<lambda>_ _. None)"
  "permitted sample_store act path = Ok ()" "kw_wrap passthrough = Ok" "kw_unwrap passthrough = Ok"
  by (simp_all add: sample_store_def passthrough_def permitted_def)

lemma create_subject_dir_idem [simp]: "create_subject_dir s (create_subject_dir s ks) = create_subject_dir s ks"
  by (auto simp: create_subject_dir_def map_add_def split: option.splits)

lemma sample_store_wrapping: "key_wrapping (ks_wrapper sample_store)"
  by (simp add: unwrapped.key_wrapping_axioms)

lemma sample_hash_valid [simp]: "valid_subject_hash sample_hash"
  by (simp add: sample_hash_def valid_subject_hash_def is_lower_hex_def list_all_iff)

lemma sample_paths [simp]:
  assumes "valid_subject_hash h"
  shows "tombstone_path h = Ok [''tombstones'', subject_hash_str h]"
    and "subject_dir h = Ok [''keys'', subject_hash_str h]"
    and "key_path h sample_epoch = Ok [''keys'', subject_hash_str h, ''2026-Q1'']"
proof -
  have "safe_component ''2026-Q1'' = Ok ''2026-Q1''" by (rule safe_component_plain) simp_all
  then show "tombstone_path h = Ok [''tombstones'', subject_hash_str h]"
    "subject_dir h = Ok [''keys'', subject_hash_str h]"
    "key_path h sample_epoch = Ok [''keys'', subject_hash_str h, ''2026-Q1'']"
    by (simp_all add: tombstone_path_def subject_dir_def key_path_def sample_epoch_def safe_subject [OF assms])
qed

lemma sample_alive [simp]:
  assumes "valid_subject_hash h"
  shows "is_tombstoned sample_store no_keys h = Ok False" "is_tombstoned sample_store (key_of h) h = Ok False"
  using assms by (simp_all add: is_tombstoned_def no_keys_def key_of_def)

lemma sample_get [simp]:
  assumes "valid_subject_hash h"
  shows "fs_get sample_store no_keys h sample_epoch = Ok None"
    and "fs_get sample_store (key_of h) h sample_epoch = Ok (Some (replicate 32 (CHR ''k'')))"
proof -
  have "read_key no_keys h sample_epoch = None"
    "read_key (key_of h) h sample_epoch = Some (replicate 32 (CHR ''k''))"
    by (simp_all add: read_key_def no_keys_def key_of_def sample_epoch_def)
  with assms show "fs_get sample_store no_keys h sample_epoch = Ok None"
    "fs_get sample_store (key_of h) h sample_epoch = Ok (Some (replicate 32 (CHR ''k'')))"
    by (simp_all add: fs_get_def)
qed

lemma sample_mint:
  assumes "valid_subject_hash h"
  shows "fs_mint sample_store id h sample_epoch no_keys (sconst (CHR ''k''))
     = (Ok (replicate 32 (CHR ''k'')), key_of h, sconst (CHR ''k''))"
proof -
  have "write_key_new sample_store h sample_epoch path bytes (create_subject_dir h no_keys)
      = Wrote \<lparr>ks_keys = [(subject_hash_str h, [(''2026-Q1'', bytes)])], ks_tombstones = []\<rparr>" for path bytes
    by (simp add: write_key_new_def create_subject_dir_def no_keys_def sample_epoch_def)
  with assms show ?thesis by (simp add: fs_mint_def Let_def key_of_def)
qed

theorem concurrent_mints_agree_witness:
  "\<exists>kA ksA. fs_get sample_store ksA sample_hash sample_epoch = Ok (Some (replicate 32 (CHR ''k'')))
     \<and> kA = replicate 32 (CHR ''k'')"
proof -
  have same: "fs_mint sample_store id sample_hash sample_epoch (create_subject_dir sample_hash no_keys) (sconst (CHR ''k''))
    = (Ok (replicate 32 (CHR ''k'')), one_key, sconst (CHR ''k''))"
    using sample_mint [OF sample_hash_valid] by (simp add: fs_mint_def Let_def)
  have "write_key_new sample_store sample_hash sample_epoch path bytes one_key = AlreadyExists" for path bytes
    by (simp add: write_key_new_def key_of_def sample_epoch_def)
  then have A: "fs_mint sample_store (\<lambda>_. one_key) sample_hash sample_epoch no_keys (sconst (CHR ''a''))
    = (Ok (replicate 32 (CHR ''k'')), one_key, sconst (CHR ''a''))"
    by (simp add: fs_mint_def Let_def)
  show ?thesis
    using concurrent_mints_agree [OF sample_store_wrapping sample_get(1) [OF sample_hash_valid] same A] by blast
qed

theorem key_files_refine_map_witness:
  "fs_get sample_store (snd (tombstone sample_store sample_hash one_key)) sample_hash sample_epoch = Ok None"
proof -
  have t: "tombstone sample_store sample_hash one_key = (Ok (), snd (tombstone sample_store sample_hash one_key))"
    by (simp add: tombstone_def)
  have r: "ks_refuses sample_store Reading = (\<lambda>_. None)" by simp
  from key_files_refine_map [OF sample_store_wrapping r, of sample_hash sample_epoch one_key] t show ?thesis
    by (metis (full_types))
qed

definition erased_keys :: key_files where
  "erased_keys = \<lparr>ks_keys = [], ks_tombstones = [subject_hash_str sample_hash]\<rparr>"

theorem erasure_is_final_witness:
  "fs_get sample_store erased_keys sample_hash sample_epoch = Ok None"
proof -
  have "is_tombstoned sample_store erased_keys sample_hash = Ok True"
    by (simp add: is_tombstoned_def erased_keys_def)
  from erasure_is_final [OF this rtranclp.rtrancl_refl] show ?thesis by blast
qed

theorem key_material_tells_exposure_witness:
  "exposed (AllUnwrapped 1) \<and> key_material sample_store one_key = Ok (AllUnwrapped 1)"
proof -
  have "wrapping_of (replicate 32 (CHR ''k'')) = Unmarked" by (simp add: wrapping_of_def MAGIC_def)
  then have "key_material sample_store one_key = Ok (AllUnwrapped 1)"
    by (simp add: key_material_def key_files_of_def key_of_def count_key_file_def)
  from key_material_tells_exposure [OF this, of passthrough] this show ?thesis by auto
qed

theorem unreadable_marker_reads_as_absent_witness:
  "\<exists>st k ks' rng'. fs_mint st id sample_hash sample_epoch erased_keys (sconst (CHR ''k'')) = (Ok k, ks', rng')"
proof -
  let ?st = "\<lparr>ks_wrapper = passthrough, ks_refuses = (\<lambda>act path.
    if act = Reading \<and> path = [''tombstones'', subject_hash_str sample_hash] then Some ''denied'' else None)\<rparr>"
  have "read_key erased_keys sample_hash sample_epoch = None" by (simp add: read_key_def erased_keys_def)
  with unreadable_marker_reads_as_absent [of ?st sample_hash "''denied''" sample_epoch _ erased_keys]
  show ?thesis by (simp add: erased_keys_def) blast
qed

end
