(* ===== verification/Seal.thy ===== *)
theory Seal
  imports Key_Store "HOL-Library.Multiset"
begin

unbundle bit_operations_syntax

text \<open>
  \<open>yaam-crypto/src/seal.rs\<close>: sealing and unsealing a body. The primitives of the crates \<open>sha2\<close>,
  \<open>hkdf\<close>, \<open>aes-gcm\<close> and \<open>aes-kw\<close> are the fields of \<open>seal_crates\<close>, None where one refuses; what the
  code relies on is \<open>seal_crates_ok\<close>. The key store is an argument, as the code's trait object is, in
  the form of its \<open>get\<close> at a state and of its \<open>mint\<close>.
\<close>

definition KEY_LEN :: nat where
  "KEY_LEN = 32"

definition IV_LEN :: nat where
  "IV_LEN = 8"

definition HKDF_SALT :: string where
  "HKDF_SALT = ''yaam/dek/v1/salt''"

definition FORMAT_VERSION :: string where
  "FORMAT_VERSION = ''v1''"

record seal_crates =
  sha256 :: "string \<Rightarrow> string"
  hkdf :: "string \<Rightarrow> string \<Rightarrow> string \<Rightarrow> string option"        \<comment> \<open>salt, input and info\<close>
  gcm_encrypt :: "string \<Rightarrow> string \<Rightarrow> string \<Rightarrow> string \<Rightarrow> string option" \<comment> \<open>key, nonce, aad, text\<close>
  gcm_decrypt :: "string \<Rightarrow> string \<Rightarrow> string \<Rightarrow> string \<Rightarrow> string option"
  kw_wrap_key :: "string \<Rightarrow> string \<Rightarrow> string option"
  kw_unwrap_key :: "string \<Rightarrow> string \<Rightarrow> string option"

definition seal_crates_ok :: "seal_crates \<Rightarrow> bool" where
  "seal_crates_ok c \<longleftrightarrow>
     (\<forall>k n a p ct. gcm_encrypt c k n a p = Some ct \<longrightarrow> gcm_decrypt c k n a ct = Some p)
     \<and> (\<forall>k s w. kw_wrap_key c k s = Some w \<longrightarrow> kw_unwrap_key c k w = Some s \<and> length w = length s + IV_LEN)"

datatype nonce = Nonce (nonce_bytes: string)

record bare_share =
  bs_subject :: subject_hash
  bs_bytes :: string

record wrapped_share =
  ws_subject :: subject_hash
  ws_bytes :: string

datatype dek = Dek (dek_bytes: string)

record sealed_body =
  sb_nonce :: nonce
  sb_epoch :: epoch
  sb_shares :: "wrapped_share list"
  sb_ciphertext :: string

definition nonce_generate :: "rng \<Rightarrow> nonce \<times> rng" where
  "nonce_generate rng = (let (bytes, rng') = fill_random 12 rng in (Nonce bytes, rng'))"

definition dek_generate :: "rng \<Rightarrow> dek \<times> rng" where
  "dek_generate rng = (let (bytes, rng') = fill_random KEY_LEN rng in (Dek bytes, rng'))"

definition byte_xor :: "char \<Rightarrow> char \<Rightarrow> char" where
  "byte_xor a b = char_of (byte_of a XOR byte_of b)"

text \<open>The loop that xors one array of bytes into another of the same length.\<close>

definition xor_bytes :: "string \<Rightarrow> string \<Rightarrow> string" where
  "xor_bytes acc bytes = map2 byte_xor acc bytes"

definition canonical_subjects :: "subject_hash list \<Rightarrow> (subject_hash list, crypto_error) result" where
  "canonical_subjects subs =
     (if subs = [] then Err (ShareCount 1 0)
      else
        let ordered = sort_key subject_hash_str subs;
            unique = 1 + length (filter (\<lambda>(a, b). subject_hash_str a \<noteq> subject_hash_str b) (zip ordered (tl ordered)))
        in if unique \<noteq> length ordered then Err (ShareCount unique (length ordered)) else Ok ordered)"

definition subject_digest :: "seal_crates \<Rightarrow> subject_hash list \<Rightarrow> string" where
  "subject_digest c subs = sha256 c (concat (map (\<lambda>s. subject_hash_str s @ [CHR 0x0A]) subs))"

definition dek_info :: "seal_crates \<Rightarrow> record_id \<Rightarrow> subject_hash list \<Rightarrow> string" where
  "dek_info c rid subs =
     ''yaam/dek/v1'' @ [CHR 0x00] @ record_id_str rid @ [CHR 0x00] @ subject_digest c subs"

definition associated_data :: "seal_crates \<Rightarrow> record_id \<Rightarrow> subject_hash list \<Rightarrow> string" where
  "associated_data c rid subs =
     record_id_str rid @ [CHR 0x00] @ FORMAT_VERSION @ [CHR 0x00] @ subject_digest c subs"

definition combine_shares :: "string list \<Rightarrow> string" where
  "combine_shares shares = foldl xor_bytes (replicate KEY_LEN (CHR 0x00)) shares"

definition dek_derive :: "seal_crates \<Rightarrow> record_id \<Rightarrow> bare_share list \<Rightarrow> (dek, crypto_error) result" where
  "dek_derive c rid shares =
     and_then (canonical_subjects (map bs_subject shares)) (\<lambda>subs.
       let combined = combine_shares (map bs_bytes shares)
       in map_err (\<lambda>_. MalformedBlock HkdfRejected)
            (and_then (ok_or () (hkdf c HKDF_SALT combined (dek_info c rid subs))) (\<lambda>key. Ok (Dek key))))"

fun split_leading :: "string \<Rightarrow> subject_hash list \<Rightarrow> subject_hash \<Rightarrow> rng \<Rightarrow> bare_share list \<times> rng" where
  "split_leading remainder [] last_subject rng =
     ([\<lparr>bs_subject = last_subject, bs_bytes = remainder\<rparr>], rng)"
| "split_leading remainder (s # leading) last_subject rng =
     (let (share, rng1) = fill_random KEY_LEN rng;
          (shares, rng2) = split_leading (xor_bytes remainder share) leading last_subject rng1
      in (\<lparr>bs_subject = s, bs_bytes = share\<rparr> # shares, rng2))"

definition dek_split ::
  "dek \<Rightarrow> subject_hash list \<Rightarrow> rng \<Rightarrow> (bare_share list, crypto_error) result \<times> rng" where
  "dek_split master subs rng =
     (case canonical_subjects subs of
        Err e \<Rightarrow> (Err e, rng)
      | Ok ordered \<Rightarrow>
          if ordered = [] then (Err (ShareCount 1 0), rng)
          else let (shares, rng') = split_leading (dek_bytes master) (butlast ordered) (List.last ordered) rng
               in (Ok shares, rng'))"

definition encrypt :: "seal_crates \<Rightarrow> dek \<Rightarrow> nonce \<Rightarrow> string \<Rightarrow> string \<Rightarrow> (string, crypto_error) result" where
  "encrypt c k n aad plaintext =
     (if length (dek_bytes k) \<noteq> KEY_LEN then Err (MalformedBlock DataKeyNot32)
      else ok_or Authentication (gcm_encrypt c (dek_bytes k) (nonce_bytes n) aad plaintext))"

definition decrypt :: "seal_crates \<Rightarrow> dek \<Rightarrow> nonce \<Rightarrow> string \<Rightarrow> string \<Rightarrow> (string, crypto_error) result" where
  "decrypt c k n aad ciphertext =
     (if length (dek_bytes k) \<noteq> KEY_LEN then Err (MalformedBlock DataKeyNot32)
      else ok_or Authentication (gcm_decrypt c (dek_bytes k) (nonce_bytes n) aad ciphertext))"

definition wrap_share :: "seal_crates \<Rightarrow> string \<Rightarrow> string \<Rightarrow> (string, crypto_error) result" where
  "wrap_share c kek share =
     (if length kek \<noteq> KEY_LEN then Err (MalformedBlock SubjectKeyNot32)
      else ok_or (MalformedBlock (CannotWrap (length share))) (kw_wrap_key c kek share))"

definition unwrap_share :: "seal_crates \<Rightarrow> string \<Rightarrow> string \<Rightarrow> (string, crypto_error) result" where
  "unwrap_share c kek wrapped =
     (if length kek \<noteq> KEY_LEN then Err (MalformedBlock SubjectKeyNot32)
      else if length wrapped < 2 * IV_LEN then Err (MalformedBlock (WrappedShort (length wrapped)))
      else ok_or Authentication (kw_unwrap_key c kek wrapped))"

type_synonym 'st minter = "subject_hash \<Rightarrow> epoch \<Rightarrow> 'st \<Rightarrow> rng \<Rightarrow> (string, crypto_error) result \<times> 'st \<times> rng"

type_synonym fetcher = "subject_hash \<Rightarrow> epoch \<Rightarrow> (string option, crypto_error) result"

text \<open>The loop that mints each subject's key and wraps its share under it.\<close>

fun wrap_shares ::
  "'st minter \<Rightarrow> seal_crates \<Rightarrow> epoch \<Rightarrow> bare_share list \<Rightarrow> 'st \<Rightarrow> rng \<Rightarrow>
     (wrapped_share list, crypto_error) result \<times> 'st \<times> rng" where
  "wrap_shares mint c ep [] st rng = (Ok [], st, rng)"
| "wrap_shares mint c ep (share # bare) st rng =
     (case mint (bs_subject share) ep st rng of
        (Err e, st1, rng1) \<Rightarrow> (Err e, st1, rng1)
      | (Ok kek, st1, rng1) \<Rightarrow>
          (case wrap_share c kek (bs_bytes share) of
             Err e \<Rightarrow> (Err e, st1, rng1)
           | Ok bytes \<Rightarrow>
               (case wrap_shares mint c ep bare st1 rng1 of
                  (Err e, st2, rng2) \<Rightarrow> (Err e, st2, rng2)
                | (Ok shares, st2, rng2) \<Rightarrow>
                    (Ok (\<lparr>ws_subject = bs_subject share, ws_bytes = bytes\<rparr> # shares), st2, rng2))))"

definition seal ::
  "'st minter \<Rightarrow> seal_crates \<Rightarrow> record_id \<Rightarrow> subject_hash list \<Rightarrow> epoch \<Rightarrow> string \<Rightarrow> 'st \<Rightarrow> rng \<Rightarrow>
     (sealed_body, crypto_error) result \<times> 'st \<times> rng" where
  "seal mint c rid subs ep plaintext st rng =
     (case canonical_subjects subs of
        Err e \<Rightarrow> (Err e, st, rng)
      | Ok ordered \<Rightarrow>
          let (master, rng1) = dek_generate rng
          in (case dek_split master ordered rng1 of
                (Err e, rng2) \<Rightarrow> (Err e, st, rng2)
              | (Ok bare, rng2) \<Rightarrow>
                  (case dek_derive c rid bare of
                     Err e \<Rightarrow> (Err e, st, rng2)
                   | Ok k \<Rightarrow>
                       let (n, rng3) = nonce_generate rng2; aad = associated_data c rid ordered
                       in (case encrypt c k n aad plaintext of
                             Err e \<Rightarrow> (Err e, st, rng3)
                           | Ok ciphertext \<Rightarrow>
                               (case wrap_shares mint c ep bare st rng3 of
                                  (Err e, st', rng') \<Rightarrow> (Err e, st', rng')
                                | (Ok shares, st', rng') \<Rightarrow>
                                    (Ok \<lparr>sb_nonce = n, sb_epoch = ep, sb_shares = shares,
                                         sb_ciphertext = ciphertext\<rparr>, st', rng'))))))"

definition unwrap_one ::
  "fetcher \<Rightarrow> seal_crates \<Rightarrow> epoch \<Rightarrow> wrapped_share \<Rightarrow> (bare_share, crypto_error) result" where
  "unwrap_one get c ep share =
     and_then (and_then (get (ws_subject share) ep)
       (ok_or (KeyAbsent (subject_hash_str (ws_subject share)) (epoch_str ep)))) (\<lambda>kek.
     and_then (unwrap_share c kek (ws_bytes share)) (\<lambda>unwrapped.
       if length unwrapped \<noteq> KEY_LEN
       then Err (MalformedBlock (ShareUnwrapped (subject_hash_str (ws_subject share)) (length unwrapped)))
       else Ok \<lparr>bs_subject = ws_subject share, bs_bytes = unwrapped\<rparr>))"

definition unseal :: "fetcher \<Rightarrow> seal_crates \<Rightarrow> record_id \<Rightarrow> sealed_body \<Rightarrow> (string, crypto_error) result" where
  "unseal get c rid body =
     and_then (try_map (unwrap_one get c (sb_epoch body)) (sb_shares body)) (\<lambda>bare.
     and_then (canonical_subjects (map bs_subject bare)) (\<lambda>subs.
     and_then (dek_derive c rid bare) (\<lambda>k.
       decrypt c k (sb_nonce body) (associated_data c rid subs) (sb_ciphertext body))))"

section \<open>Bytes\<close>

lemma byte_of_xor: "byte_of (byte_xor a b) = byte_of a XOR byte_of b"
proof -
  have t: "take_bit 8 (byte_of x) = byte_of x" for x
    using byte_of_less [of x] by (simp add: take_bit_nat_eq_self)
  have "byte_of (byte_xor a b) = take_bit 8 (byte_of a XOR byte_of b)"
    by (simp add: byte_xor_def byte_of_def take_bit_eq_mod)
  then show ?thesis by (simp add: take_bit_xor t)
qed

lemma byte_xor_laws:
  "byte_xor a b = byte_xor b a" "byte_xor (byte_xor a b) c = byte_xor a (byte_xor b c)"
  "byte_xor a a = CHR 0x00" "byte_xor a (CHR 0x00) = a" "byte_xor (CHR 0x00) a = a"
proof -
  have z: "byte_of (CHR 0x00) = 0" by (simp add: byte_of_def)
  show "byte_xor a b = byte_xor b a" "byte_xor (byte_xor a b) c = byte_xor a (byte_xor b c)"
    "byte_xor a a = CHR 0x00" "byte_xor a (CHR 0x00) = a" "byte_xor (CHR 0x00) a = a"
    by (simp_all flip: byte_of_inject add: byte_of_xor z ac_simps)
qed

lemma length_xor_bytes [simp]: "length (xor_bytes xs ys) = min (length xs) (length ys)"
  by (simp add: xor_bytes_def)

lemma nth_xor_bytes: "i < length xs \<Longrightarrow> i < length ys \<Longrightarrow> xor_bytes xs ys ! i = byte_xor (xs ! i) (ys ! i)"
  by (simp add: xor_bytes_def)

abbreviation "zeros \<equiv> replicate KEY_LEN (CHR 0x00)"

lemma xor_bytes_laws:
  assumes "length xs = KEY_LEN" "length ys = KEY_LEN" "length zs = KEY_LEN"
  shows "xor_bytes xs ys = xor_bytes ys xs" "xor_bytes (xor_bytes xs ys) zs = xor_bytes xs (xor_bytes ys zs)"
    "xor_bytes xs xs = zeros" "xor_bytes xs zeros = xs" "xor_bytes zeros xs = xs"
proof -
  note n = nth_xor_bytes assms
  show "xor_bytes xs ys = xor_bytes ys xs"
    by (rule nth_equalityI) (simp_all add: n byte_xor_laws(1))
  show "xor_bytes (xor_bytes xs ys) zs = xor_bytes xs (xor_bytes ys zs)"
    by (rule nth_equalityI) (simp_all add: n byte_xor_laws(2))
  show "xor_bytes xs xs = zeros" "xor_bytes xs zeros = xs" "xor_bytes zeros xs = xs"
    by (rule nth_equalityI; simp add: n byte_xor_laws(3-5))+
qed

lemma foldl_xor:
  "length acc = KEY_LEN \<Longrightarrow> \<forall>s \<in> set shares. length s = KEY_LEN
    \<Longrightarrow> foldl xor_bytes acc shares = xor_bytes acc (combine_shares shares)
      \<and> length (combine_shares shares) = KEY_LEN"
proof (induction shares arbitrary: acc)
  case (Cons s shares)
  have z: "length zeros = KEY_LEN" by simp
  from Cons.prems have "length (xor_bytes acc s) = KEY_LEN" "length (xor_bytes zeros s) = KEY_LEN" by simp_all
  with Cons.IH [of "xor_bytes acc s"] Cons.IH [of "xor_bytes zeros s"] Cons.prems
  show ?case by (auto simp: combine_shares_def xor_bytes_laws)
qed (simp add: combine_shares_def xor_bytes_laws)

lemma combine_shares_Cons:
  assumes "length s = KEY_LEN" "\<forall>t \<in> set shares. length t = KEY_LEN"
  shows "combine_shares (s # shares) = xor_bytes s (combine_shares shares)"
  using foldl_xor [OF assms] xor_bytes_laws(5) [OF assms(1)] assms
  by (simp add: combine_shares_def xor_bytes_laws(5) [OF assms(1) assms(1) assms(1)])

section \<open>Subject sets\<close>

lemma adjacent_distinct:
  fixes xs :: "'a::linorder list"
  shows "sorted xs \<Longrightarrow> list_all (\<lambda>(a, b). a \<noteq> b) (zip xs (tl xs)) \<longleftrightarrow> distinct xs"
proof (induction xs)
  case (Cons x xs)
  then show ?case by (cases xs) auto
qed simp

lemma filter_length_iff: "length (filter P xs) = length xs \<longleftrightarrow> (\<forall>x \<in> set xs. P x)"
  by (induction xs) (auto dest: arg_cong [where f = "\<lambda>n. Suc n"] simp: le_imp_less_Suc less_imp_neq)

lemma sort_key_Nil_iff [simp]: "sort_key f xs = [] \<longleftrightarrow> xs = []"
  by (metis length_0_conv length_sort)

lemma canonical_subjects_Ok_iff:
  "canonical_subjects subs = Ok ordered
     \<longleftrightarrow> subs \<noteq> [] \<and> distinct subs \<and> ordered = sort_key subject_hash_str subs"
proof (cases "subs = []")
  case False
  define xs where "xs = sort_key subject_hash_str subs"
  let ?names = "map subject_hash_str xs"
  have len: "length xs = length subs" "xs \<noteq> []" using False by (simp_all add: xs_def)
  have pairs: "zip ?names (tl ?names) = map (\<lambda>(a, b). (subject_hash_str a, subject_hash_str b)) (zip xs (tl xs))"
    unfolding map_tl [symmetric] zip_map_map ..
  have "1 + length (filter (\<lambda>(a, b). subject_hash_str a \<noteq> subject_hash_str b) (zip xs (tl xs))) = length xs
      \<longleftrightarrow> list_all (\<lambda>(a, b). subject_hash_str a \<noteq> subject_hash_str b) (zip xs (tl xs))"
  proof -
    let ?P = "\<lambda>(a, b). subject_hash_str a \<noteq> subject_hash_str b"
    have "length (zip xs (tl xs)) = length xs - 1" by simp
    moreover have "length (filter ?P (zip xs (tl xs))) = length (zip xs (tl xs))
        \<longleftrightarrow> (\<forall>p \<in> set (zip xs (tl xs)). ?P p)"
      by (rule filter_length_iff)
    moreover have "0 < length xs" using len(2) by simp
    ultimately show ?thesis unfolding list_all_iff by linarith
  qed
  also have "\<dots> \<longleftrightarrow> list_all (\<lambda>(a, b). a \<noteq> b) (zip ?names (tl ?names))"
    unfolding pairs by (auto simp: list_all_iff)
  also have "\<dots> \<longleftrightarrow> distinct ?names" by (rule adjacent_distinct) (simp add: xs_def)
  also have "\<dots> \<longleftrightarrow> distinct subs"
  proof -
    have "inj_on subject_hash_str (set xs)" by (simp add: inj_on_def)
    then have "distinct ?names \<longleftrightarrow> distinct xs" by (simp add: distinct_map)
    then show ?thesis by (simp add: xs_def)
  qed
  finally show ?thesis using False by (auto simp: canonical_subjects_def xs_def [symmetric] Let_def)
qed (simp add: canonical_subjects_def)

lemma canonical_subjects_again:
  "canonical_subjects subs = Ok ordered \<Longrightarrow> canonical_subjects ordered = Ok ordered"
  by (auto simp: canonical_subjects_Ok_iff sort_key_id_if_sorted)

section \<open>Shares\<close>

lemma split_leading_facts:
  assumes "split_leading remainder leading s rng = (shares, rng')" "length remainder = KEY_LEN"
  shows "map bs_subject shares = leading @ [s] \<and> (\<forall>b \<in> set (map bs_bytes shares). length b = KEY_LEN)
    \<and> combine_shares (map bs_bytes shares) = remainder"
  using assms
proof (induction remainder leading s rng arbitrary: shares rng' rule: split_leading.induct)
  case (1 remainder s rng)
  then show ?case by (auto simp: combine_shares_def xor_bytes_laws)
next
  case (2 remainder t leading s rng)
  obtain share rng1 where d: "fill_random KEY_LEN rng = (share, rng1)" by fastforce
  obtain rest rng2 where r: "split_leading (xor_bytes remainder share) leading s rng1 = (rest, rng2)" by fastforce
  have len: "length share = KEY_LEN" using d by simp
  have IH: "map bs_subject rest = leading @ [s]" "\<forall>b \<in> set (map bs_bytes rest). length b = KEY_LEN"
    "combine_shares (map bs_bytes rest) = xor_bytes remainder share"
    using "2.IH" [OF d [symmetric] refl r] "2.prems"(2) len by auto
  have "shares = \<lparr>bs_subject = t, bs_bytes = share\<rparr> # rest" using "2.prems"(1) d r by simp
  moreover have "xor_bytes share (xor_bytes remainder share) = remainder"
    using xor_bytes_laws [OF len "2.prems"(2) len] xor_bytes_laws [OF "2.prems"(2) len len] by metis
  ultimately show ?case using IH len combine_shares_Cons [OF len, of "map bs_bytes rest"] by auto
qed

lemma dek_split_Ok:
  assumes "dek_split k subs rng = (Ok shares, rng')" "length (dek_bytes k) = KEY_LEN"
  shows "canonical_subjects subs = Ok (map bs_subject shares)"
    and "\<forall>b \<in> set (map bs_bytes shares). length b = KEY_LEN"
    and "combine_shares (map bs_bytes shares) = dek_bytes k"
proof -
  from assms(1) obtain ordered where o: "canonical_subjects subs = Ok ordered" "ordered \<noteq> []"
    and s: "split_leading (dek_bytes k) (butlast ordered) (List.last ordered) rng = (shares, rng')"
    by (auto simp: dek_split_def split: result.splits if_splits prod.splits)
  note f = split_leading_facts [OF s assms(2)]
  with o show "canonical_subjects subs = Ok (map bs_subject shares)" by simp
  from f show "\<forall>b \<in> set (map bs_bytes shares). length b = KEY_LEN"
    "combine_shares (map bs_bytes shares) = dek_bytes k" by simp_all
qed

lemma foldl_xor_perm:
  assumes "mset xs = mset ys" "\<forall>s \<in> set xs. length s = KEY_LEN"
  shows "combine_shares xs = combine_shares ys"
  using assms
proof (induction xs arbitrary: ys)
  case (Cons x xs)
  from Cons.prems(1) have "x \<in> set ys" by (metis list.set_intros(1) set_mset_mset)
  then obtain as bs where ys: "ys = as @ x # bs" by (meson split_list)
  have lens: "\<forall>s \<in> set ys. length s = KEY_LEN" using Cons.prems by (metis set_mset_mset)
  have "mset xs = mset (as @ bs)" using Cons.prems(1) by (simp add: ys)
  with Cons have IH: "combine_shares xs = combine_shares (as @ bs)" by simp
  have split: "combine_shares (us @ vs) = xor_bytes (combine_shares us) (combine_shares vs)"
    if "\<forall>s \<in> set us \<union> set vs. length s = KEY_LEN" for us vs
  proof -
    have "length (combine_shares us) = KEY_LEN" using foldl_xor [of zeros us] that by simp
    with foldl_xor [of "combine_shares us" vs] that show ?thesis by (simp add: combine_shares_def)
  qed
  have A: "length (combine_shares as) = KEY_LEN" and B: "length (combine_shares bs) = KEY_LEN"
    and X: "length x = KEY_LEN"
    using foldl_xor [of zeros] lens by (auto simp: ys)
  have "combine_shares ys = xor_bytes (combine_shares as) (xor_bytes x (combine_shares bs))"
    using split [of as "x # bs"] combine_shares_Cons [of x bs] lens by (simp add: ys)
  also have "\<dots> = xor_bytes x (xor_bytes (combine_shares as) (combine_shares bs))"
    using xor_bytes_laws [OF A X B] xor_bytes_laws [OF X A B] by metis
  also have "xor_bytes (combine_shares as) (combine_shares bs) = combine_shares (as @ bs)"
    using split [of as bs] lens by (simp add: ys)
  also have "xor_bytes x (combine_shares (as @ bs)) = combine_shares (x # xs)"
    using combine_shares_Cons [of x xs] Cons.prems(2) IH by simp
  finally show ?case by simp
qed simp

section \<open>Sealing over any key store\<close>

lemma unwrap_wrap_share:
  assumes "seal_crates_ok c" "wrap_share c kek share = Ok w" "length share = KEY_LEN"
  shows "unwrap_share c kek w = Ok share"
  using assms by (auto simp: wrap_share_def unwrap_share_def seal_crates_ok_def IV_LEN_def KEY_LEN_def
      split: if_splits)

lemma decrypt_encrypt:
  "seal_crates_ok c \<Longrightarrow> encrypt c k n aad p = Ok ct \<Longrightarrow> decrypt c k n aad ct = Ok p"
  by (auto simp: encrypt_def decrypt_def seal_crates_ok_def split: if_splits)

text \<open>What a seal leaves behind, whatever the store: shares wrapped under keys that are fetched.\<close>

definition share_of :: "fetcher \<Rightarrow> seal_crates \<Rightarrow> epoch \<Rightarrow> bare_share \<Rightarrow> wrapped_share \<Rightarrow> bool" where
  "share_of get c ep b w \<longleftrightarrow> ws_subject w = bs_subject b
     \<and> (\<exists>k. get (bs_subject b) ep = Ok (Some k) \<and> wrap_share c k (bs_bytes b) = Ok (ws_bytes w))"

context key_store
begin

lemma wrap_shares_keeps:
  "wrap_shares mint c ep bare st rng = (r, st', rng') \<Longrightarrow> get st s e = Ok (Some k) \<Longrightarrow> get st' s e = Ok (Some k)"
proof (induction bare arbitrary: st rng r st' rng')
  case (Cons b bare)
  obtain m st1 rng1 where m: "mint (bs_subject b) ep st rng = (m, st1, rng1)" by (metis prod_cases3)
  have g: "get st1 s e = Ok (Some k)" using mint_keeps [OF m Cons.prems(2)] .
  obtain r2 st2 rng2 where r2: "wrap_shares mint c ep bare st1 rng1 = (r2, st2, rng2)" by (metis prod_cases3)
  from Cons.IH [OF r2 g] Cons.prems(1) m g r2 show ?case by (cases m; cases r2) (auto split: result.splits)
qed simp

lemma wrap_shares_share_of:
  "wrap_shares mint c ep bare st rng = (Ok ws, st', rng') \<Longrightarrow> list_all2 (share_of (get st') c ep) bare ws"
proof (induction bare arbitrary: st rng ws st' rng')
  case (Cons b bare)
  obtain m st1 rng1 where m: "mint (bs_subject b) ep st rng = (m, st1, rng1)" by (metis prod_cases3)
  obtain r2 st2 rng2 where r2: "wrap_shares mint c ep bare st1 rng1 = (r2, st2, rng2)" by (metis prod_cases3)
  from Cons.prems m r2 obtain kek bytes ws2 where k: "m = Ok kek" "wrap_share c kek (bs_bytes b) = Ok bytes"
    "r2 = Ok ws2" "st' = st2" "rng' = rng2" "ws = \<lparr>ws_subject = bs_subject b, ws_bytes = bytes\<rparr> # ws2"
    by (auto split: result.splits)
  have "get st1 (bs_subject b) ep = Ok (Some kek)" using minted_is_fetched m k(1) by blast
  then have "get st' (bs_subject b) ep = Ok (Some kek)" using wrap_shares_keeps [OF r2] k(4) by simp
  with k Cons.IH r2 show ?case by (auto simp: share_of_def)
qed simp

lemma unwrap_share_of:
  assumes "seal_crates_ok c" "list_all2 (share_of (get st) c ep) bare ws"
    and "\<forall>b \<in> set (map bs_bytes bare). length b = KEY_LEN"
  shows "try_map (unwrap_one (get st) c ep) ws = Ok bare"
  using assms(2,3)
proof (induction rule: list_all2_induct)
  case (Cons b bare w ws)
  then obtain k where "get st (bs_subject b) ep = Ok (Some k)" "ws_subject w = bs_subject b"
    "wrap_share c k (bs_bytes b) = Ok (ws_bytes w)" "length (bs_bytes b) = KEY_LEN"
    by (auto simp: share_of_def)
  then have "unwrap_one (get st) c ep w = Ok b"
    using unwrap_wrap_share [OF assms(1)] by (cases b) (simp add: unwrap_one_def)
  with Cons show ?case by simp
qed simp

lemma seal_parts:
  assumes "seal mint c rid subs ep plaintext st rng = (Ok body, st', rng')"
  obtains ordered bare k where "canonical_subjects subs = Ok ordered" "map bs_subject bare = ordered"
    "canonical_subjects ordered = Ok ordered"
    "\<forall>b \<in> set (map bs_bytes bare). length b = KEY_LEN" "dek_derive c rid bare = Ok k"
    "encrypt c k (sb_nonce body) (associated_data c rid ordered) plaintext = Ok (sb_ciphertext body)"
    "list_all2 (share_of (get st') c ep) bare (sb_shares body)" "sb_epoch body = ep"
proof -
  from assms obtain ordered where o: "canonical_subjects subs = Ok ordered"
    by (auto simp: seal_def split: result.splits)
  obtain master rng1 where g: "dek_generate rng = (master, rng1)" by fastforce
  then have len: "length (dek_bytes master) = KEY_LEN" by (auto simp: dek_generate_def split: prod.splits)
  obtain split_result rng2 where sp: "dek_split master ordered rng1 = (split_result, rng2)" by fastforce
  with assms o g obtain bare where b: "split_result = Ok bare"
    by (cases split_result) (auto simp: seal_def)
  from assms o g sp b obtain k where k: "dek_derive c rid bare = Ok k"
    by (auto simp: seal_def split: result.splits)
  obtain n rng3 where n: "nonce_generate rng2 = (n, rng3)" by fastforce
  from assms o g sp b k n obtain ct where ct: "encrypt c k n (associated_data c rid ordered) plaintext = Ok ct"
    by (auto simp: seal_def Let_def split: result.splits)
  obtain ws st2 rng4 where w: "wrap_shares mint c ep bare st rng3 = (ws, st2, rng4)" by (metis prod_cases3)
  from assms o g sp b k n ct w obtain shares where s: "ws = Ok shares" "st' = st2"
    "body = \<lparr>sb_nonce = n, sb_epoch = ep, sb_shares = shares, sb_ciphertext = ct\<rparr>"
    by (auto simp: seal_def Let_def split: result.splits)
  note split_facts = dek_split_Ok [OF sp [unfolded b] len]
  have again: "canonical_subjects ordered = Ok ordered" using o by (rule canonical_subjects_again)
  with split_facts(1) have "map bs_subject bare = ordered" by simp
  with o again split_facts(2) k ct s w wrap_shares_share_of [of c ep bare st rng3 shares st2 rng4] show ?thesis
    by (intro that [of ordered bare k]) simp_all
qed

lemma unseal_seal:
  assumes "seal_crates_ok c" "seal mint c rid subs ep plaintext st rng = (Ok body, st', rng')"
    and "\<And>s k. s \<in> set subs \<Longrightarrow> get st' s ep = Ok (Some k) \<Longrightarrow> get st'' s ep = Ok (Some k)"
  shows "unseal (get st'') c rid body = Ok plaintext"
  using assms(2)
proof (rule seal_parts)
  fix ordered bare k
  assume o: "canonical_subjects subs = Ok ordered" and m: "map bs_subject bare = ordered"
    and again: "canonical_subjects ordered = Ok ordered"
    and len: "\<forall>b \<in> set (map bs_bytes bare). length b = KEY_LEN" and k: "dek_derive c rid bare = Ok k"
    and ct: "encrypt c k (sb_nonce body) (associated_data c rid ordered) plaintext = Ok (sb_ciphertext body)"
    and shares: "list_all2 (share_of (get st') c ep) bare (sb_shares body)" and ep: "sb_epoch body = ep"
  have "set ordered = set subs" using o by (auto simp: canonical_subjects_Ok_iff)
  then have "\<And>b. b \<in> set bare \<Longrightarrow> bs_subject b \<in> set subs" using m by force
  then have "list_all2 (share_of (get st'') c ep) bare (sb_shares body)"
    using assms(3) by (intro list.rel_mono_strong [OF shares]) (auto simp: share_of_def)
  from unwrap_share_of [OF assms(1) this len] show ?thesis
    using m again k decrypt_encrypt [OF assms(1) ct] by (simp add: unseal_def ep)
qed

lemma unseal_erased:
  assumes "erased st s = Ok True" "s \<in> ws_subject ` set (sb_shares body)"
  shows "\<exists>x. unseal (get st) c rid body = Err x"
proof (cases "try_map (unwrap_one (get st) c (sb_epoch body)) (sb_shares body)")
  case (Ok bare)
  from assms(2) obtain w where w: "w \<in> set (sb_shares body)" "ws_subject w = s" by auto
  with Ok obtain b where "unwrap_one (get st) c (sb_epoch body) w = Ok b"
    by (auto simp: try_map_Ok_iff list_all2_conv_all_nth in_set_conv_nth)
  with erased_no_key [OF assms(1)] w(2) show ?thesis by (simp add: unwrap_one_def)
qed (simp add: unseal_def)

lemma seal_erased:
  assumes "erased st s = Ok True" "bs_subject ` set bare = {s}"
  shows "\<exists>x rng'. wrap_shares mint c ep bare st rng = (Err x, st, rng')"
proof -
  from assms(2) obtain b bs where b: "bare = b # bs" by (cases bare) auto
  with assms(2) have "bs_subject b = s" by auto
  moreover obtain x where "mint s ep st rng = (Err x, st, rng)" using erased_not_minted [OF assms(1)] by blast
  ultimately show ?thesis using b by simp
qed

end

section \<open>Order and framing\<close>

lemma sort_key_str_mset:
  assumes "mset xs = mset ys" shows "sort_key subject_hash_str xs = sort_key subject_hash_str ys"
proof -
  have "map subject_hash_str (sort_key subject_hash_str zs) = sort (map subject_hash_str zs)" for zs
    by (rule sym, rule properties_for_sort) simp_all
  moreover have "sort (map subject_hash_str xs) = sort (map subject_hash_str ys)"
    by (rule properties_for_sort) (simp_all add: assms)
  ultimately have "map subject_hash_str (sort_key subject_hash_str xs) = map subject_hash_str (sort_key subject_hash_str ys)"
    by simp
  then show ?thesis by (rule map_injective) (simp add: inj_def)
qed

lemma canonical_subjects_mset: "mset xs = mset ys \<Longrightarrow> canonical_subjects xs = canonical_subjects ys"
  using sort_key_str_mset [of xs ys] by (cases "xs = []"; cases "ys = []") (auto simp: canonical_subjects_def)

definition framed :: "subject_hash list \<Rightarrow> string" where
  "framed subs = concat (map (\<lambda>s. subject_hash_str s @ [CHR 0x0A]) subs)"

lemma framed_inject:
  assumes "\<forall>s \<in> set subs \<union> set subs'. valid_subject_hash s"
  shows "framed subs = framed subs' \<longleftrightarrow> subs = subs'"
  using assms
proof (induction subs arbitrary: subs')
  case Nil then show ?case by (cases subs') (auto simp: framed_def)
next
  case (Cons s subs)
  show ?case
  proof (cases subs')
    case Nil then show ?thesis by (simp add: framed_def)
  next
    case (Cons t subs'')
    have "length (subject_hash_str s) = length (subject_hash_str t)"
      using Cons.prems Cons by (auto simp: valid_subject_hash_def)
    then show ?thesis using Cons.IH [of subs''] Cons.prems Cons by (auto simp: framed_def)
  qed
qed

lemma NUL_not_in_record_id: "valid_record_id r \<Longrightarrow> CHR 0x00 \<notin> set (record_id_str r)"
  using valid_record_id_bytes [of r] id_byte_not_special [of "CHR 0x00"] unfolding list_all_iff by blast

section \<open>Properties\<close>

inductive apart_step :: "fs_key_store \<Rightarrow> subject_hash set \<Rightarrow> key_files \<Rightarrow> key_files \<Rightarrow> bool" for st ss where
  "ks_step st t ks ks' \<Longrightarrow> t \<notin> ss \<Longrightarrow> apart_step st ss ks ks'"

text \<open>
  C23: what is sealed can be read. A body sealed over the key files unseals to what was sealed, for its
  own record, whatever mints, destructions and erasures of other subjects follow, provided the crates'
  decryption and unwrapping invert their encryption and wrapping, and the key wrapper its wrapping.
\<close>

theorem sealed_body_unseals:
  assumes "key_wrapping (ks_wrapper st)" "seal_crates_ok c"
    and "seal (fs_mint st id) c rid subs ep plaintext ks rng = (Ok body, ks', rng')"
    and "(apart_step st (set subs))\<^sup>*\<^sup>* ks' ks''"
  shows "unseal (fs_get st ks'') c rid body = Ok plaintext"
proof -
  have "fs_get st ks'' s ep = fs_get st ks' s ep" if "s \<in> set subs" for s
    using assms(4)
  proof (induction rule: rtranclp_induct)
    case (step k k')
    then show ?case using ks_step_other that by (metis apart_step.cases)
  qed simp
  then show ?thesis
    by (intro key_store.unseal_seal [OF fs_key_store [OF assms(1)] assms(2,3)]) auto
qed

text \<open>
  C24: erasing a subject makes every body sealed under it unreadable, for good. Once one of its subjects
  is erased no sequence of mints, destructions and erasures makes the body unseal again, and where it
  has that one subject the failure is the absent key; nor is anything sealed for that subject again.
\<close>

theorem erased_body_stays_unreadable:
  assumes "key_wrapping (ks_wrapper st)" "is_tombstoned st ks s = Ok True" "ks_reaches st ks ks'"
    and "s \<in> ws_subject ` set (sb_shares body)"
  shows "(\<exists>x. unseal (fs_get st ks') c rid body = Err x)
    \<and> (length (sb_shares body) = 1 \<longrightarrow> unseal (fs_get st ks') c rid body
         = Err (KeyAbsent (subject_hash_str s) (epoch_str (sb_epoch body))))
    \<and> (\<exists>x rng'. seal (fs_mint st id) c rid [s] ep plaintext ks' rng = (Err x, ks', rng'))"
proof (intro conjI impI)
  have dead: "is_tombstoned st ks' s = Ok True"
    using erased_for_good [OF assms(2,3)] .
  note ks = key_store.unseal_erased [OF fs_key_store [OF assms(1)] dead]
    key_store.seal_erased [OF fs_key_store [OF assms(1)] dead]
  show "\<exists>x. unseal (fs_get st ks') c rid body = Err x" using ks(1) assms(4) .
  have none: "fs_get st ks' s e = Ok None" for e using dead by (simp add: fs_get_def)
  show "unseal (fs_get st ks') c rid body = Err (KeyAbsent (subject_hash_str s) (epoch_str (sb_epoch body)))"
    if "length (sb_shares body) = 1"
  proof -
    from that assms(4) obtain w where "sb_shares body = [w]" "ws_subject w = s"
      by (cases "sb_shares body") auto
    then show ?thesis by (simp add: unseal_def unwrap_one_def none)
  qed
  show "\<exists>x rng'. seal (fs_mint st id) c rid [s] ep plaintext ks' rng = (Err x, ks', rng')"
  proof -
    have wrap: "\<exists>x rng'. wrap_shares (fs_mint st id) c ep bare ks' rng = (Err x, ks', rng')"
      if "dek_split master [s] r1 = (Ok bare, r2)" "length (dek_bytes master) = KEY_LEN" for bare rng master r1 r2
    proof (rule ks(2))
      have "map bs_subject bare = [s]"
        using dek_split_Ok(1) [OF that] by (auto simp: canonical_subjects_Ok_iff)
      then show "bs_subject ` set bare = {s}" by (metis list.simps(15) list.set(1) image_set)
    qed
    have one: "canonical_subjects [s] = Ok [s]" by (simp add: canonical_subjects_Ok_iff)
    obtain master r1 where g: "dek_generate rng = (master, r1)" by fastforce
    then have len: "length (dek_bytes master) = KEY_LEN" by (auto simp: dek_generate_def split: prod.splits)
    obtain sp r2 where sp: "dek_split master [s] r1 = (sp, r2)" by fastforce
    show ?thesis
    proof (cases sp)
      case (Ok bare)
      obtain n r3 where n: "nonce_generate r2 = (n, r3)" by fastforce
      from wrap [OF sp [unfolded Ok] len] obtain x rng' where
        "wrap_shares (fs_mint st id) c ep bare ks' r3 = (Err x, ks', rng')" by blast
      with one g sp Ok n show ?thesis by (auto simp: seal_def Let_def split: result.split)
    qed (use one g sp in \<open>auto simp: seal_def\<close>)
  qed
qed

text \<open>
  The split is n of n. The shares xor to the key they split, and short of one share nothing is known
  of it: whichever share is missing, every key is what the rest and some share combine to. What is
  derived does not depend on the order the shares come in.
\<close>

theorem split_is_n_of_n:
  assumes "dek_split k subs rng = (Ok shares, rng')" "length (dek_bytes k) = KEY_LEN"
    and "i < length shares" "length target = KEY_LEN" "mset shares = mset shares'"
  shows "combine_shares (map bs_bytes shares) = dek_bytes k
    \<and> (\<exists>x. length x = KEY_LEN \<and> combine_shares ((map bs_bytes shares)[i := x]) = target)
    \<and> dek_derive c rid shares' = dek_derive c rid shares"
proof (intro conjI)
  note f = dek_split_Ok [OF assms(1,2)]
  show "combine_shares (map bs_bytes shares) = dek_bytes k" by (rule f(3))
  let ?bs = "map bs_bytes shares"
  define others where "others = take i ?bs @ drop (Suc i) ?bs"
  have "set others \<subseteq> set ?bs"
    using set_take_subset [of i ?bs] set_drop_subset [of "Suc i" ?bs] by (simp add: others_def)
  with f(2) have lens: "\<forall>b \<in> set others. length b = KEY_LEN" by blast
  have O: "length (combine_shares others) = KEY_LEN" using foldl_xor [of zeros others] lens by simp
  let ?x = "xor_bytes target (combine_shares others)"
  have X: "length ?x = KEY_LEN" using assms(4) O by simp
  have "mset (?bs[i := ?x]) = mset (?x # others)"
    using assms(3) by (simp add: upd_conv_take_nth_drop others_def)
  moreover have "\<forall>b \<in> set (?x # others). length b = KEY_LEN" using lens X by simp
  ultimately have "combine_shares (?bs[i := ?x]) = combine_shares (?x # others)"
    using foldl_xor_perm by metis
  also have "\<dots> = target"
    using combine_shares_Cons [OF X lens] xor_bytes_laws [OF assms(4) O O] xor_bytes_laws [OF O O O] 
    by (simp add: xor_bytes_laws(4) [OF assms(4,4,4)])
  finally show "\<exists>x. length x = KEY_LEN \<and> combine_shares (?bs[i := x]) = target" using X by blast
  have "canonical_subjects (map bs_subject shares') = canonical_subjects (map bs_subject shares)"
    by (rule canonical_subjects_mset) (simp add: assms(5))
  moreover have "combine_shares (map bs_bytes shares') = combine_shares ?bs"
    by (rule foldl_xor_perm [symmetric]) (use assms(5) f(2) in simp_all)
  ultimately show "dek_derive c rid shares' = dek_derive c rid shares" by (simp add: dek_derive_def)
qed

text \<open>
  A body is bound to its record and its subject set. The associated data, and the input of the key
  derivation, of two records and subject sets agree exactly where the records are the same and the
  digests agree, and the digests are taken over one text only for one subject set.
\<close>

theorem sealing_context_binds:
  assumes "valid_record_id rid" "valid_record_id rid'"
    and "\<forall>s \<in> set subs \<union> set subs'. valid_subject_hash s"
  shows "(associated_data c rid subs = associated_data c rid' subs'
         \<longleftrightarrow> rid = rid' \<and> sha256 c (framed subs) = sha256 c (framed subs'))
    \<and> (dek_info c rid subs = dek_info c rid' subs'
         \<longleftrightarrow> rid = rid' \<and> sha256 c (framed subs) = sha256 c (framed subs'))
    \<and> (framed subs = framed subs' \<longleftrightarrow> subs = subs')"
proof -
  have len: "length (record_id_str rid) = length (record_id_str rid')"
    using assms(1,2) by (simp add: valid_record_id_def)
  have "record_id_str rid = record_id_str rid' \<longleftrightarrow> rid = rid'" by (cases rid; cases rid') simp
  with len framed_inject [OF assms(3)] show ?thesis
    by (auto simp: associated_data_def dek_info_def subject_digest_def framed_def)
qed

section \<open>Sample sealing\<close>

definition sample_seal_crates :: seal_crates where
  "sample_seal_crates = \<lparr>sha256 = (\<lambda>m. m), hkdf = (\<lambda>salt ikm info. Some ikm),
     gcm_encrypt = (\<lambda>k n a p. Some (k @ n @ a @ p)),
     gcm_decrypt = (\<lambda>k n a c. strip_prefix (k @ n @ a) c),
     kw_wrap_key = (\<lambda>k s. if length k = 32 then Some (take 8 k @ s) else None),
     kw_unwrap_key = (\<lambda>k w. strip_prefix (take 8 k) w)\<rparr>"

lemma sample_seal_crates_ok: "seal_crates_ok sample_seal_crates"
  by (auto simp: seal_crates_ok_def sample_seal_crates_def strip_prefix_iff IV_LEN_def)

abbreviation "sample_id \<equiv> record_id sample_record"

definition sealed_for :: "subject_hash \<Rightarrow> sealed_body" where
  "sealed_for h = \<lparr>sb_nonce = Nonce (replicate 12 (CHR ''k'')), sb_epoch = sample_epoch,
     sb_shares = [\<lparr>ws_subject = h, ws_bytes = replicate 40 (CHR ''k'')\<rparr>],
     sb_ciphertext = replicate 44 (CHR ''k'') @ associated_data sample_seal_crates sample_id [h] @ ''body''\<rparr>"

abbreviation sample_body :: sealed_body where
  "sample_body \<equiv> sealed_for sample_hash"

lemma sample_split:
  "dek_split (Dek (replicate 32 (CHR ''k''))) [h] rng
     = (Ok [\<lparr>bs_subject = h, bs_bytes = replicate 32 (CHR ''k'')\<rparr>], rng)"
proof -
  have "canonical_subjects [h] = Ok [h]" by (simp add: canonical_subjects_Ok_iff)
  then show ?thesis by (simp add: dek_split_def)
qed

lemma sample_seal:
  assumes "valid_subject_hash h"
  shows "seal (fs_mint sample_store id) sample_seal_crates sample_id [h] sample_epoch ''body'' no_keys
     (sconst (CHR ''k'')) = (Ok (sealed_for h), key_of h, sconst (CHR ''k''))"
proof -
  let ?k = "replicate 32 (CHR ''k'')"
  have K: "KEY_LEN = 32" by (simp add: KEY_LEN_def)
  have one: "canonical_subjects [h] = Ok [h]" by (simp add: canonical_subjects_Ok_iff)
  have "combine_shares [?k] = ?k"
    using combine_shares_Cons [of ?k "[]"] xor_bytes_laws(4) [of ?k ?k ?k] by (simp add: combine_shares_def K)
  then have derive: "dek_derive sample_seal_crates sample_id [\<lparr>bs_subject = h, bs_bytes = ?k\<rparr>] = Ok (Dek ?k)"
    by (simp add: dek_derive_def one) (simp add: sample_seal_crates_def)
  have wrap: "wrap_share sample_seal_crates ?k ?k = Ok (replicate 40 (CHR ''k''))"
    by (simp add: wrap_share_def K) (simp add: sample_seal_crates_def flip: replicate_add)
  have enc: "encrypt sample_seal_crates (Dek ?k) (Nonce (replicate 12 (CHR ''k''))) aad p
    = Ok (replicate 44 (CHR ''k'') @ aad @ p)" for aad p
    by (simp add: encrypt_def K) (simp add: sample_seal_crates_def flip: replicate_add append_assoc)
  show ?thesis
    unfolding seal_def one dek_generate_def nonce_generate_def
    by (simp add: K sample_split derive enc sample_mint [OF assms] wrap Let_def sealed_for_def)
qed

theorem sealed_body_unseals_witness:
  "unseal (fs_get sample_store one_key) sample_seal_crates sample_id sample_body = Ok ''body''"
  by (rule sealed_body_unseals [OF sample_store_wrapping sample_seal_crates_ok sample_seal [OF sample_hash_valid] rtranclp.rtrancl_refl])

theorem erased_body_stays_unreadable_witness:
  "unseal (fs_get sample_store erased_keys) sample_seal_crates sample_id sample_body
     = Err (KeyAbsent (subject_hash_str sample_hash) ''2026-Q1'')"
proof -
  have "is_tombstoned sample_store erased_keys sample_hash = Ok True"
    by (simp add: is_tombstoned_def erased_keys_def)
  from erased_body_stays_unreadable [OF sample_store_wrapping this rtranclp.rtrancl_refl, of sample_body
      sample_seal_crates sample_id sample_epoch "''body''" "sconst (CHR ''k'')"]
  show ?thesis by (simp add: sealed_for_def sample_epoch_def)
qed

theorem split_is_n_of_n_witness:
  "combine_shares [replicate 32 (CHR ''k'')] = replicate 32 (CHR ''k'')"
  using split_is_n_of_n [OF sample_split [of sample_hash], of 0 "replicate 32 (CHR ''t'')"] by (simp add: KEY_LEN_def)

theorem sealing_context_binds_witness:
  "associated_data sample_seal_crates sample_id [sample_hash]
     \<noteq> associated_data sample_seal_crates sample_id []"
proof -
  have "valid_record_id sample_id"
    by (simp add: sample_record_def valid_record_id_def is_crockford_digit_def)
  from sealing_context_binds [OF this this, of "[sample_hash]" "[]" sample_seal_crates] sample_hash_valid
  show ?thesis by (auto simp: framed_def sample_seal_crates_def)
qed

end
