(* ===== verification/Rust_Text.thy ===== *)
theory Rust_Text
  imports Rust_Std
begin

text \<open>
  The operations on lines and fields of a text that several components share: \<open>split\<close> at a character,
  \<open>join\<close>, \<open>lines\<close>, and when \<open>trim\<close> has nothing to do.
\<close>

fun split_on :: "char \<Rightarrow> string \<Rightarrow> string list" where
  "split_on d [] = [[]]"
| "split_on d (c # cs) =
     (if c = d then [] # split_on d cs
      else case split_on d cs of [] \<Rightarrow> [[c]] | w # ws \<Rightarrow> (c # w) # ws)"

fun join_with :: "string \<Rightarrow> string list \<Rightarrow> string" where
  "join_with sep [] = []"
| "join_with sep [w] = w"
| "join_with sep (w # ws) = w @ sep @ join_with sep ws"

definition strip_cr :: "string \<Rightarrow> string" where
  "strip_cr line = (if line \<noteq> [] \<and> List.last line = CHR 0x0D then butlast line else line)"

text \<open>\<open>str::lines\<close>: a line that ends in a line feed loses it and a carriage return before it.\<close>

definition str_lines :: "string \<Rightarrow> string list" where
  "str_lines s =
     (let parts = split_on (CHR 0x0A) s
      in map strip_cr (butlast parts) @ (if List.last parts = [] then [] else [List.last parts]))"

lemma split_on_nonempty [simp]: "split_on d s \<noteq> []"
  by (induction s) (auto split: list.split)

lemma split_on_single [simp]: "d \<notin> set s \<Longrightarrow> split_on d s = [s]"
  by (induction s) auto

lemma split_on_append: "d \<notin> set w \<Longrightarrow> split_on d (w @ d # s) = w # split_on d s"
  by (induction w) auto

lemma split_on_parts: "w \<in> set (split_on d s) \<Longrightarrow> d \<notin> set w"
  by (induction s arbitrary: w) (auto split: if_splits list.splits)

lemma split_on_join:
  "ws \<noteq> [] \<Longrightarrow> \<forall>w \<in> set ws. d \<notin> set w \<Longrightarrow> split_on d (join_with [d] ws) = ws"
  by (induction "[d]" ws rule: join_with.induct) (auto simp: split_on_append)

lemma join_split_on: "join_with [d] (split_on d s) = s"
proof (induction s)
  case (Cons c s)
  then show ?case by (cases "split_on d s"; cases "tl (split_on d s)") auto
qed simp

lemma set_join_with: "set (join_with sep ws) \<subseteq> \<Union> (set ` set ws) \<union> set sep"
  by (induction sep ws rule: join_with.induct) auto

lemma str_lines_join:
  assumes "ws \<noteq> []" "List.last ws \<noteq> []" "\<forall>w \<in> set ws. CHR 0x0A \<notin> set w"
    and "\<forall>w \<in> set (butlast ws). w = [] \<or> List.last w \<noteq> CHR 0x0D"
  shows "str_lines (join_with [CHR 0x0A] ws) = ws"
proof -
  have "map strip_cr (butlast ws) = butlast ws"
    using assms(4) by (intro map_idI) (auto simp: strip_cr_def)
  with assms(1,2) show ?thesis by (simp add: str_lines_def split_on_join [OF assms(1,3)])
qed

section \<open>Trimming what has no white space at its ends\<close>

definition ascii_graphic :: "char \<Rightarrow> bool" where
  "ascii_graphic c \<longleftrightarrow> 33 \<le> byte_of c \<and> byte_of c \<le> 126"

lemma white_space_ends:
  "\<forall>w \<in> set white_space. w \<noteq> [] \<and> (byte_of (hd w) \<le> 32 \<or> 128 \<le> byte_of (hd w))
     \<and> (byte_of (List.last w) \<le> 32 \<or> 128 \<le> byte_of (List.last w))"
  by (simp add: white_space_def byte_of_def)

lemma strip_all_other:
  assumes "\<forall>w \<in> set ws. w \<noteq> [] \<and> hd w \<noteq> c"
  shows "strip_all ws (c # s) = c # s"
proof -
  have "List.find (\<lambda>w. starts_with w (c # s)) ws = None"
  proof -
    have "\<not> starts_with w (c # s)" if "w \<in> set ws" for w
      using assms that by (cases w) (auto simp: starts_with_iff)
    then show ?thesis by (auto simp: find_None_iff)
  qed
  moreover have "[] \<notin> set ws" using assms by blast
  ultimately show ?thesis by (simp add: strip_all.simps strip_one_of_def)
qed

lemma strip_all_Nil [simp]: "strip_all white_space [] = []" "strip_all (map rev white_space) [] = []"
proof -
  have "strip_all ws [] = []" if "[] \<notin> set ws" for ws
  proof -
    have "List.find (\<lambda>w. starts_with w []) ws = None"
      using that by (auto simp: find_None_iff starts_with_iff)
    with that show ?thesis by (simp add: strip_all.simps strip_one_of_def)
  qed
  then show "strip_all white_space [] = []" "strip_all (map rev white_space) [] = []"
    using Nil_not_white_space by blast+
qed

lemma trim_start_graphic: "s = [] \<or> ascii_graphic (hd s) \<Longrightarrow> trim_start s = s"
proof (cases s)
  case (Cons c cs)
  assume "s = [] \<or> ascii_graphic (hd s)"
  with Cons have "33 \<le> byte_of c" "byte_of c \<le> 126" by (auto simp: ascii_graphic_def)
  then have "\<forall>w \<in> set white_space. w \<noteq> [] \<and> hd w \<noteq> c" using white_space_ends by fastforce
  with Cons show ?thesis by (simp add: trim_start_def strip_all_other)
qed (simp add: trim_start_def)

lemma trim_end_graphic: "s = [] \<or> ascii_graphic (List.last s) \<Longrightarrow> trim_end s = s"
proof (cases s rule: rev_cases)
  case (snoc cs c)
  assume "s = [] \<or> ascii_graphic (List.last s)"
  with snoc have "33 \<le> byte_of c" "byte_of c \<le> 126" by (auto simp: ascii_graphic_def)
  then have "\<forall>w \<in> set (map rev white_space). w \<noteq> [] \<and> hd w \<noteq> c"
    using white_space_ends by (fastforce simp: hd_rev)
  with snoc show ?thesis by (simp add: trim_end_def strip_all_other)
qed (simp add: trim_end_def)

lemma trim_graphic: "s = [] \<or> ascii_graphic (hd s) \<and> ascii_graphic (List.last s) \<Longrightarrow> trim s = s"
  by (auto simp: trim_def trim_start_graphic trim_end_graphic)

lemma trim_Nil [simp]: "trim [] = []"
  by (simp add: trim_graphic)

end
