(* ===== verification/Sealed_Block.thy ===== *)
theory Sealed_Block
  imports Seal Rust_Text
begin

text \<open>
  \<open>yaam-crypto/src/block.rs\<close>: the fenced block a sealed body is stored as. \<open>hex_decode\<close> is the decoder
  of the \<open>hex\<close> crate; its encoder is \<open>hex_encode\<close>, two lowercase digits a byte.
\<close>

definition ALG :: string where
  "ALG = ''A256GCM+A256KW+HKDF-SHA256''"

definition FENCE_OPEN :: string where
  "FENCE_OPEN = ''```sealed''"

definition FENCE_CLOSE :: string where
  "FENCE_CLOSE = ''```''"

definition share_text :: "wrapped_share \<Rightarrow> string" where
  "share_text s = subject_hash_str (ws_subject s) @ '':'' @ hex_encode (ws_bytes s)"

definition block_lines :: "sealed_body \<Rightarrow> string list" where
  "block_lines body =
     (let shares = map share_text (sort_key (\<lambda>s. subject_hash_str (ws_subject s)) (sb_shares body))
      in [FENCE_OPEN, FORMAT_VERSION, ''alg='' @ ALG, ''nonce='' @ hex_encode (nonce_bytes (sb_nonce body)),
          ''epoch='' @ epoch_str (sb_epoch body), ''shares='' @ join_with '','' shares,
          ''ct='' @ hex_encode (sb_ciphertext body), FENCE_CLOSE])"

definition block_render :: "sealed_body \<Rightarrow> string" where
  "block_render body = join_with [CHR 0x0A] (block_lines body)"

abbreviation malformed :: "block_reason \<Rightarrow> ('a, crypto_error) result" where
  "malformed reason \<equiv> Err (MalformedBlock reason)"

definition field_value :: "string \<Rightarrow> string \<Rightarrow> (string, crypto_error) result" where
  "field_value line key =
     ok_or (MalformedBlock (ExpectedKey key line))
       (Option.bind (strip_prefix key line) (strip_prefix ''=''))"

definition decode_hex :: "(string \<Rightarrow> string option) \<Rightarrow> string \<Rightarrow> string \<Rightarrow> (string, crypto_error) result" where
  "decode_hex hex_decode line key =
     and_then (field_value line key) (\<lambda>v. ok_or (MalformedBlock (BadHexField key)) (hex_decode v))"

definition parse_share :: "(string \<Rightarrow> string option) \<Rightarrow> string \<Rightarrow> (wrapped_share, crypto_error) result" where
  "parse_share hex_decode pair =
     (case split_once pair '':'' of
        None \<Rightarrow> malformed (ShareNotPair pair)
      | Some (subject, wrapped) \<Rightarrow>
          and_then (map_err (\<lambda>e. MalformedBlock (BadShareSubject e)) (subject_hash_try_from subject)) (\<lambda>hash.
          and_then (ok_or (MalformedBlock (BadShareHex subject)) (hex_decode wrapped)) (\<lambda>bytes.
            Ok \<lparr>ws_subject = hash, ws_bytes = bytes\<rparr>)))"

definition parse_shares ::
  "(string \<Rightarrow> string option) \<Rightarrow> string \<Rightarrow> (wrapped_share list, crypto_error) result" where
  "parse_shares hex_decode field =
     (if field = [] then malformed NoShares
      else try_map (parse_share hex_decode) (split_on (CHR '','') field))"

definition block_fields ::
  "(string \<Rightarrow> string option) \<Rightarrow> string list \<Rightarrow> (sealed_body, crypto_error) result" where
  "block_fields hex_decode flds =
     (case flds of
        [version, alg, nonce, ep, shares, ciphertext] \<Rightarrow>
          if version \<noteq> FORMAT_VERSION then malformed (UnsupportedFormat version)
          else
            and_then (field_value alg ''alg'') (\<lambda>a.
              if a \<noteq> ALG then malformed (UnsupportedAlg alg)
              else
                and_then (decode_hex hex_decode nonce ''nonce'') (\<lambda>n.
                  if length n \<noteq> 12 then malformed NonceNotTwelve
                  else
                    and_then (and_then (field_value ep ''epoch'') epoch_from_stored) (\<lambda>e.
                    and_then (and_then (field_value shares ''shares'') (parse_shares hex_decode)) (\<lambda>ss.
                    and_then (decode_hex hex_decode ciphertext ''ct'') (\<lambda>ct.
                      Ok \<lparr>sb_nonce = Nonce n, sb_epoch = e, sb_shares = ss, sb_ciphertext = ct\<rparr>)))))
      | _ \<Rightarrow> malformed (FieldLines (length flds)))"

definition block_parse :: "(string \<Rightarrow> string option) \<Rightarrow> string \<Rightarrow> (sealed_body, crypto_error) result" where
  "block_parse hex_decode text =
     (case map trim (str_lines (trim text)) of
        [] \<Rightarrow> malformed BlockEmpty
      | opening # rest \<Rightarrow>
          if opening \<noteq> FENCE_OPEN then malformed NoOpenFence
          else if rest = [] then malformed Unterminated
          else if List.last rest \<noteq> FENCE_CLOSE then malformed NoCloseFence
          else block_fields hex_decode (butlast rest))"

section \<open>Lemmas\<close>

lemma is_lower_hex_byte: "is_lower_hex c \<longleftrightarrow> 48 \<le> byte_of c \<and> byte_of c \<le> 57 \<or> 97 \<le> byte_of c \<and> byte_of c \<le> 102"
  by (simp add: is_lower_hex_def char_le_iff_byte)

lemma hex_encode_byte: "c \<in> set (hex_encode bs) \<Longrightarrow> is_lower_hex c"
  using hex_encode_digits(1) [of bs] unfolding list_all_iff by blast

lemma subject_byte: "valid_subject_hash h \<Longrightarrow> c \<in> set (subject_hash_str h) \<Longrightarrow> id_byte c"
  using valid_subject_hash_bytes [of h] unfolding list_all_iff by blast

text \<open>The bytes of a line of a block: printable ASCII, and neither of the separators it is split at.\<close>

definition share_byte :: "char \<Rightarrow> bool" where
  "share_byte c \<longleftrightarrow> id_byte c \<or> is_lower_hex c \<or> byte_of c = 58"

lemma share_text_bytes:
  assumes "valid_subject_hash (ws_subject s)" "c \<in> set (share_text s)" shows "share_byte c"
  using assms subject_byte [OF assms(1)] hex_encode_byte
  by (auto simp: share_text_def share_byte_def byte_of_def)

lemma share_byte_range: "share_byte c \<Longrightarrow> ascii_graphic c \<and> byte_of c \<noteq> 44 \<and> c \<noteq> CHR '','' \<and> c \<noteq> CHR 0x0A"
proof -
  assume "share_byte c"
  then have "48 \<le> byte_of c \<and> byte_of c \<le> 122"
    by (auto simp: share_byte_def id_byte_iff is_lower_hex_byte)
  then show ?thesis by (auto simp: ascii_graphic_def byte_of_def)
qed

lemma parse_share_text:
  assumes "\<forall>b. hex_decode (hex_encode b) = Some b" "valid_subject_hash (ws_subject s)"
  shows "parse_share hex_decode (share_text s) = Ok s"
proof -
  have "CHR '':'' \<notin> set (subject_hash_str (ws_subject s))"
    using subject_byte [OF assms(2)] id_byte_not_special by blast
  then have "split_once (share_text s) '':'' = Some (subject_hash_str (ws_subject s), hex_encode (ws_bytes s))"
    unfolding share_text_def by (intro split_once_first) simp_all
  moreover have "subject_hash_try_from (subject_hash_str (ws_subject s)) = Ok (ws_subject s)"
    using assms(2) by (simp add: subject_hash_try_from_Ok_iff)
  ultimately show ?thesis using assms(1) by (cases s) (simp add: parse_share_def)
qed

lemma parse_shares_join:
  assumes "\<forall>b. hex_decode (hex_encode b) = Some b" "ss \<noteq> []" "\<forall>s \<in> set ss. valid_subject_hash (ws_subject s)"
  shows "parse_shares hex_decode (join_with '','' (map share_text ss)) = Ok ss"
proof -
  have "\<forall>w \<in> set (map share_text ss). CHR '','' \<notin> set w"
    using assms(3) share_text_bytes share_byte_range by fastforce
  then have "split_on (CHR '','') (join_with '','' (map share_text ss)) = map share_text ss"
    using assms(2) by (intro split_on_join) simp_all
  moreover have "join_with '','' (map share_text ss) \<noteq> []"
    using assms(2) by (cases ss; cases "tl ss") (auto simp: share_text_def)
  moreover have "try_map (parse_share hex_decode) (map share_text ss) = Ok ss"
    using parse_share_text [OF assms(1)] assms(3) by (simp add: try_map_Ok_iff list_all2_conv_all_nth)
  ultimately show ?thesis by (simp add: parse_shares_def)
qed

definition printable :: "string \<Rightarrow> bool" where
  "printable w \<longleftrightarrow> (\<forall>c \<in> set w. ascii_graphic c)"

lemma printable_Nil [simp]: "printable []"
  by (simp add: printable_def)

lemma printable_Cons [simp]: "printable (c # s) \<longleftrightarrow> ascii_graphic c \<and> printable s"
  by (auto simp: printable_def)

lemma printable_append [simp]: "printable (a @ b) \<longleftrightarrow> printable a \<and> printable b"
  by (auto simp: printable_def)

lemma printable_literals:
  "printable FENCE_OPEN" "printable FENCE_CLOSE" "printable FORMAT_VERSION" "printable ALG"
  "printable ''alg=''" "printable ''nonce=''" "printable ''epoch=''" "printable ''shares=''" "printable ''ct=''"
  "printable '',''"
  by (simp_all add: printable_def ascii_graphic_def byte_of_def FENCE_OPEN_def FENCE_CLOSE_def
      FORMAT_VERSION_def ALG_def)

lemma printable_hex: "printable (hex_encode bs)"
  unfolding printable_def ascii_graphic_def using hex_encode_byte [of _ bs] is_lower_hex_byte by fastforce

lemma printable_join: "\<forall>w \<in> set ws. printable w \<Longrightarrow> printable sep \<Longrightarrow> printable (join_with sep ws)"
  by (induction sep ws rule: join_with.induct) auto

lemma printable_trim: "printable w \<Longrightarrow> trim w = w"
  by (rule trim_graphic) (auto simp: printable_def)

lemma printable_lines:
  assumes "printable (epoch_str (sb_epoch body))"
    and "\<forall>s \<in> set (sb_shares body). valid_subject_hash (ws_subject s)"
  shows "\<forall>w \<in> set (block_lines body). w \<noteq> [] \<and> printable w"
proof -
  have "printable (join_with '','' (map share_text (sort_key (\<lambda>s. subject_hash_str (ws_subject s)) (sb_shares body))))"
    using assms(2) share_text_bytes share_byte_range printable_literals(10)
    by (intro printable_join) (auto simp: printable_def)
  moreover have "FENCE_OPEN \<noteq> []" "FENCE_CLOSE \<noteq> []" "FORMAT_VERSION \<noteq> []"
    by (simp_all add: FENCE_OPEN_def FENCE_CLOSE_def FORMAT_VERSION_def)
  ultimately show ?thesis
    unfolding block_lines_def Let_def using assms(1) printable_literals printable_hex
    by (simp add: ascii_graphic_def byte_of_def)
qed

lemma rendered_lines:
  assumes "\<forall>w \<in> set (block_lines body). w \<noteq> [] \<and> printable w"
  shows "map trim (str_lines (trim (block_render body))) = block_lines body"
proof -
  let ?ws = "block_lines body"
  have ne: "?ws \<noteq> []" "hd ?ws = FENCE_OPEN" "List.last ?ws = FENCE_CLOSE" by (simp_all add: block_lines_def Let_def)
  have char: "c \<noteq> CHR 0x0A \<and> c \<noteq> CHR 0x0D" if "ascii_graphic c" for c
    using that by (auto simp: ascii_graphic_def byte_of_def)
  have "block_render body = FENCE_OPEN @ CHR 0x0A # join_with [CHR 0x0A] (tl ?ws)"
    by (simp add: block_render_def block_lines_def Let_def)
  moreover have "\<exists>rest. block_render body = rest @ FENCE_CLOSE"
    by (simp add: block_render_def block_lines_def Let_def)
  then have "List.last (block_render body) = CHR ''`''" by (auto simp: FENCE_CLOSE_def)
  moreover note \<open>block_render body = FENCE_OPEN @ _\<close>
  ultimately have "hd (block_render body) = CHR ''`''" "List.last (block_render body) = CHR ''`''"
    by (simp_all add: FENCE_OPEN_def)
  then have "trim (block_render body) = block_render body"
    by (intro trim_graphic) (simp add: ascii_graphic_def byte_of_def)
  moreover have "str_lines (block_render body) = ?ws"
    unfolding block_render_def
  proof (rule str_lines_join)
    show "\<forall>w \<in> set ?ws. CHR 0x0A \<notin> set w" using assms char unfolding printable_def by blast
    show "\<forall>w \<in> set (butlast ?ws). w = [] \<or> List.last w \<noteq> CHR 0x0D"
      using assms char unfolding printable_def by (metis in_set_butlastD last_in_set)
  qed (use ne in \<open>simp_all add: FENCE_CLOSE_def\<close>)
  moreover have "map trim ?ws = ?ws" using assms printable_trim by (intro map_idI) blast
  ultimately show ?thesis by simp
qed

text \<open>
  A sealed block reads back as it was written, its shares in the order of their subjects; so one body
  has one block, whatever the order its shares are held in.
\<close>

lemma block_parse_render:
  assumes "\<forall>b. hex_decode (hex_encode b) = Some b"
    and "length (nonce_bytes (sb_nonce body)) = 12" "sb_shares body \<noteq> []"
    and "\<forall>s \<in> set (sb_shares body). valid_subject_hash (ws_subject s)"
    and "epoch_from_stored (epoch_str (sb_epoch body)) = Ok (sb_epoch body)" "printable (epoch_str (sb_epoch body))"
  shows "block_parse hex_decode (block_render body)
    = Ok (body\<lparr>sb_shares := sort_key (\<lambda>s. subject_hash_str (ws_subject s)) (sb_shares body)\<rparr>)"
proof -
  let ?ss = "sort_key (\<lambda>s. subject_hash_str (ws_subject s)) (sb_shares body)"
  note lines = rendered_lines [OF printable_lines [OF assms(6,4)]]
  have shares: "parse_shares hex_decode (join_with '','' (map share_text ?ss)) = Ok ?ss"
    using assms(3,4) by (intro parse_shares_join [OF assms(1)]) simp_all
  have fields: "field_value (''alg='' @ v) ''alg'' = Ok v" "field_value (''nonce='' @ v) ''nonce'' = Ok v"
    "field_value (''epoch='' @ v) ''epoch'' = Ok v" "field_value (''shares='' @ v) ''shares'' = Ok v"
    "field_value (''ct='' @ v) ''ct'' = Ok v" for v
    by (simp_all add: field_value_def)
  have "block_fields hex_decode (butlast (tl (block_lines body))) = Ok (body\<lparr>sb_shares := ?ss\<rparr>)"
    unfolding block_lines_def Let_def block_fields_def decode_hex_def
    using assms(1,2,5) by (simp add: fields [simplified] shares)
  then show ?thesis
    unfolding block_parse_def lines by (simp add: block_lines_def Let_def)
qed

section \<open>A hex decoder\<close>

definition hex_value :: "char \<Rightarrow> nat option" where
  "hex_value c = List.find (\<lambda>n. HEX_DIGITS ! n = c) [0..<16]"

fun sample_hex_decode :: "string \<Rightarrow> string option" where
  "sample_hex_decode [] = Some []"
| "sample_hex_decode [_] = None"
| "sample_hex_decode (a # b # cs) =
     Option.bind (hex_value a) (\<lambda>h. Option.bind (hex_value b) (\<lambda>l.
       map_option (\<lambda>rest. char_of (16 * h + l) # rest) (sample_hex_decode cs)))"

lemma hex_value_digit: "n < 16 \<Longrightarrow> hex_value (HEX_DIGITS ! n) = Some n"
proof (cases "hex_value (HEX_DIGITS ! n)")
  case None
  assume "n < 16"
  with None show ?thesis by (auto simp: hex_value_def find_None_iff)
next
  case (Some m)
  assume "n < 16"
  from Some have "m < 16" "HEX_DIGITS ! m = HEX_DIGITS ! n"
    by (auto simp: hex_value_def find_Some_iff)
  with \<open>n < 16\<close> have "m = n" by (intro hex_digits_inject)
  with Some show ?thesis by simp
qed

lemma sample_hex_decode_encode: "sample_hex_decode (hex_encode bs) = Some bs"
proof (induction bs)
  case (Cons b bs)
  have "byte_of b div 16 < 16" using byte_of_less [of b] by linarith
  moreover have "char_of (16 * (byte_of b div 16) + byte_of b mod 16) = b" by (simp add: byte_of_def)
  ultimately show ?case using Cons by (simp add: hex_encode_def hex_byte_def hex_value_digit)
qed (simp add: hex_encode_def)

end
