(* ===== verification/Core_Error.thy ===== *)
theory Core_Error
  imports Subject_Key Index
begin

text \<open>
  \<open>yaam-core/src/error.rs\<close> and \<open>yaam-md/src/error.rs\<close>: the failures of the write path, each layer's
  carried whole. What the operating system or a parser reports is its text.
\<close>

datatype (plugins only: code) md_error =
    MissingFrontmatter
  | MalformedFrontmatter string
  | MdContract contract_error
  | MdCrypto crypto_error

datatype (plugins only: code) io_failure =
    IoNotFound string
  | IoInvalidData string
  | IoOther string

datatype (plugins only: code) core_error =
    CoreInvalid contract_error
  | SubjectUnresolved
  | CoreCrypto crypto_error
  | CoreStore store_error
  | Markdown md_error
  | SubjectKeyMismatch key_check key_check      \<comment> \<open>recorded and derived\<close>
  | SubjectKeyCheckUnreadable string
  | Held string
  | CoreIo io_failure

definition invalid :: "invalid_reason \<Rightarrow> core_error" where
  "invalid reason = CoreInvalid (Invalid reason)"

end
