(* ===== verification/Layout.thy ===== *)
theory Layout
  imports Core_Error
begin

text \<open>
  \<open>yaam-core/src/layout.rs\<close>: where a record lives under the memory root. A path is its components.
\<close>

definition RECORDS_DIR :: string where "RECORDS_DIR = ''records''"

definition OWNER_DIR :: string where "OWNER_DIR = ''owner''"

definition RECORD_EXT :: string where "RECORD_EXT = ''md''"

record stamp =
  stamp_ms :: int
  stamp_year :: int
  stamp_month :: int
  stamp_day :: int

definition stamp_date :: "stamp \<Rightarrow> string" where
  "stamp_date st = format_width 4 (stamp_year st) @ ''-'' @ format_width 2 (stamp_month st) @ ''-''
     @ format_width 2 (stamp_day st)"

definition stamp_parse :: "string \<Rightarrow> stamp option" where
  "stamp_parse text = map_option (\<lambda>ms. case civil_from_ms ms of (year, month, day) \<Rightarrow>
     \<lparr>stamp_ms = ms, stamp_year = year, stamp_month = month, stamp_day = day\<rparr>) (parse_ms text)"

definition stamp_of :: "action_record \<Rightarrow> (stamp, core_error) result" where
  "stamp_of rec =
     ok_or (invalid (UnreadableReceivedAt (record_id_str (record_id rec)) (received_at rec)))
       (stamp_parse (received_at rec))"

definition owner_segment :: "string \<Rightarrow> (string, core_error) result" where
  "owner_segment agent_name =
     (let segment = to_path_segment agent_name
      in if segment = [] \<or> segment = ''.'' \<or> segment = ''..''
            \<or> list_ex (\<lambda>c. c = CHR 0x5C \<or> c = CHR 0x00) segment
         then Err (invalid (AgentCannotNameDirectory agent_name)) else Ok segment)"

definition record_relative :: "action_record \<Rightarrow> stamp \<Rightarrow> (string list, core_error) result" where
  "record_relative rec st =
     and_then
       (if visibility rec = Owner
        then and_then (owner_segment (agent rec)) (\<lambda>segment. Ok [RECORDS_DIR, OWNER_DIR, segment])
        else Ok [RECORDS_DIR])
       (\<lambda>path. Ok (path @ [format_width 4 (stamp_year st), format_width 2 (stamp_month st),
          format_width 2 (stamp_day st), record_id_str (record_id rec) @ ''.'' @ RECORD_EXT]))"

definition owner_relative :: "action_record \<Rightarrow> (string list option, core_error) result" where
  "owner_relative rec =
     (if visibility rec \<noteq> Owner then Ok None
      else and_then (owner_segment (agent rec)) (\<lambda>segment. Ok (Some [RECORDS_DIR, OWNER_DIR, segment])))"

definition record_mode :: "action_record \<Rightarrow> nat option" where
  "record_mode rec = (if visibility rec = Owner then Some 384 else None)"

section \<open>Lemmas\<close>

lemma format_width_bytes:
  "format_width w n \<noteq> []" "c \<in> set (format_width w n) \<Longrightarrow> is_ascii_digit c \<or> c = CHR ''-''"
  using show_nat_digits by (auto simp: format_width_def zero_pad_def split: if_splits)

lemma format_width_inject [simp]: "format_width w m = format_width w n \<longleftrightarrow> m = n"
proof
  assume eq: "format_width w m = format_width w n"
  have digits: "nat_of_digits (zero_pad k (show_nat x)) = x" for k x
    by (simp add: zero_pad_def nat_of_digits_zeros)
  have sign: "CHR ''-'' \<notin> set (zero_pad k (show_nat x))" for k x
    using show_nat_digits [of x] by (auto simp: zero_pad_def is_ascii_digit_def byte_of_def)
  have "m < 0 \<longleftrightarrow> n < 0"
    using eq sign [of w "nat m"] sign [of w "nat n"] by (metis format_width_def list.set_intros(1))
  then have "nat (if m < 0 then - m else m) = nat (if n < 0 then - n else n)"
    using eq by (auto simp: format_width_def split: if_splits) (metis digits)+
  with \<open>m < 0 \<longleftrightarrow> n < 0\<close> show "m = n" by (auto split: if_splits)
qed simp

text \<open>A name that is one step down a path and nowhere else, on either separator.\<close>

definition plain_component :: "string \<Rightarrow> bool" where
  "plain_component c \<longleftrightarrow> c \<notin> {[], ''.'', ''..''} \<and> set c \<inter> {CHR ''/'', CHR 0x5C, CHR 0x00} = {}"

lemma plain_format_width: "plain_component (format_width w n)"
proof -
  have b: "byte_of c \<noteq> 47 \<and> byte_of c \<noteq> 92 \<and> byte_of c \<noteq> 0 \<and> byte_of c \<noteq> 46"
    if "c \<in> set (format_width w n)" for c
    using format_width_bytes(2) [OF that] by (auto simp: is_ascii_digit_def byte_of_def)
  then have "CHR ''.'' \<notin> set (format_width w n)" "set (format_width w n) \<inter> {CHR ''/'', CHR 0x5C, CHR 0x00} = {}"
    by (force simp: byte_of_def)+
  with format_width_bytes(1) show ?thesis unfolding plain_component_def by fastforce
qed

lemma plain_record_file:
  assumes "valid_record_id r" shows "plain_component (record_id_str r @ ''.'' @ RECORD_EXT)"
proof -
  have "set (record_id_str r) \<inter> {CHR ''/'', CHR 0x5C, CHR 0x00} = {}"
    using valid_record_id_bytes [OF assms] id_byte_not_special unfolding list_all_iff by blast
  moreover have "3 < length (record_id_str r @ ''.'' @ RECORD_EXT)" using assms by (simp add: valid_record_id_def)
  ultimately show ?thesis by (auto simp: plain_component_def RECORD_EXT_def)
qed

lemma owner_segment_Ok:
  assumes "owner_segment a = Ok seg" shows "seg = to_path_segment a \<and> plain_component seg"
proof -
  have "CHR ''/'' \<notin> set (to_path_segment a)"
    using to_path_segment_bytes by blast
  with assms show ?thesis
    by (auto simp: owner_segment_def plain_component_def Let_def list_ex_iff split: if_splits)
qed

lemma record_relative_Ok:
  assumes "record_relative rec st = Ok p"
  obtains (owned) "visibility rec = Owner" "owner_segment (agent rec) = Ok (to_path_segment (agent rec))"
    "p = [RECORDS_DIR, OWNER_DIR, to_path_segment (agent rec), format_width 4 (stamp_year st),
      format_width 2 (stamp_month st), format_width 2 (stamp_day st), record_id_str (record_id rec) @ ''.'' @ RECORD_EXT]"
  | (shared) "visibility rec \<noteq> Owner"
    "p = [RECORDS_DIR, format_width 4 (stamp_year st), format_width 2 (stamp_month st),
      format_width 2 (stamp_day st), record_id_str (record_id rec) @ ''.'' @ RECORD_EXT]"
proof (cases "visibility rec = Owner")
  case True
  then obtain seg where seg: "owner_segment (agent rec) = Ok seg"
    using assms by (cases "owner_segment (agent rec)") (simp_all add: record_relative_def)
  with True assms owner_segment_Ok [OF seg] show ?thesis by (intro owned) (simp_all add: record_relative_def)
next
  case False
  with assms show ?thesis by (intro shared) (simp_all add: record_relative_def)
qed

section \<open>Properties\<close>

text \<open>
  A record's path stays inside the tree. Every component is one plain name, whatever the agent is
  called; an owner's records lie in that owner's own subtree, and no other record is filed there.
\<close>

theorem record_path_confined:
  assumes "record_relative rec st = Ok p" "valid_record_id (record_id rec)"
  shows "list_all plain_component p
    \<and> (if visibility rec = Owner then owner_relative rec = Ok (Some (take 3 p))
       else owner_relative rec = Ok None \<and> p ! 1 \<noteq> OWNER_DIR)"
proof -
  have dirs: "plain_component RECORDS_DIR" "plain_component OWNER_DIR"
    by (simp_all add: plain_component_def RECORDS_DIR_def OWNER_DIR_def)
  have "format_width 4 n \<noteq> OWNER_DIR" for n
    using format_width_bytes(2) [of "CHR ''o''" 4 n] by (auto simp: OWNER_DIR_def is_ascii_digit_def byte_of_def)
  with dirs assms(1) plain_format_width plain_record_file [OF assms(2)] show ?thesis
    by (elim record_relative_Ok) (auto simp: owner_relative_def dest: owner_segment_Ok)
qed

text \<open>
  A path belongs to one record. Two records are filed under one path only if they have the same
  identifier and date, and are both kept apart for the same owner or neither kept apart.
\<close>

theorem record_path_determines:
  assumes "record_relative rec st = Ok p" "record_relative rec' st' = Ok p'"
  shows "p = p' \<longleftrightarrow> record_id rec = record_id rec'
    \<and> stamp_year st = stamp_year st' \<and> stamp_month st = stamp_month st' \<and> stamp_day st = stamp_day st'
    \<and> (if visibility rec = Owner then visibility rec' = Owner \<and> agent rec = agent rec'
       else visibility rec' \<noteq> Owner)"
proof -
  have ids: "record_id_str a = record_id_str b \<longleftrightarrow> a = b" for a b by (cases a; cases b) simp
  show ?thesis
    using assms by (elim record_relative_Ok) (auto simp: ids segment.encode_inject)
qed

definition sample_owned :: action_record where
  "sample_owned = sample_record\<lparr>visibility := Owner, agent := ''a/b''\<rparr>"

definition sample_stamp :: stamp where
  "sample_stamp = \<lparr>stamp_ms = 1767225600000, stamp_year = 2026, stamp_month = 1, stamp_day = 1\<rparr>"

lemma sample_relative:
  "is_ok (record_relative sample_owned sample_stamp)" "is_ok (record_relative sample_record sample_stamp)"
proof -
  have "is_ok (owner_segment ''a/b'')" by code_simp
  then show "is_ok (record_relative sample_owned sample_stamp)" "is_ok (record_relative sample_record sample_stamp)"
    by (auto simp: is_ok_iff record_relative_def sample_owned_def) (simp_all add: sample_record_def)
qed

lemma sample_record_id_valid: "valid_record_id (record_id sample_record)"
  by (simp add: sample_record_def valid_record_id_def is_crockford_digit_def)

theorem record_path_confined_witness:
  "\<exists>p. record_relative sample_owned sample_stamp = Ok p \<and> owner_relative sample_owned = Ok (Some (take 3 p))"
proof -
  obtain p where p: "record_relative sample_owned sample_stamp = Ok p" using sample_relative(1) by (auto simp: is_ok_iff)
  have "valid_record_id (record_id sample_owned)" using sample_record_id_valid by (simp add: sample_owned_def)
  from record_path_confined [OF p this] p show ?thesis by (simp add: sample_owned_def)
qed

theorem record_path_determines_witness:
  "\<exists>p q. record_relative sample_owned sample_stamp = Ok p \<and> record_relative sample_record sample_stamp = Ok q
     \<and> p \<noteq> q"
proof -
  obtain p q where "record_relative sample_owned sample_stamp = Ok p" "record_relative sample_record sample_stamp = Ok q"
    using sample_relative by (auto simp: is_ok_iff)
  with record_path_determines [OF this] show ?thesis by (simp add: sample_owned_def sample_record_def)
qed

end
