(* ===== verification/Subject_Writes.thy ===== *)
theory Subject_Writes
  imports Core_Error Spec_Yaml
begin

text \<open>
  \<open>yaam-core/src/subject_writes.rs\<close>: whether a store accepts subject-derived records at all. \<open>file\<close> is
  what \<open>read_to_string_opt\<close> answered for \<open>spec/subject-writes.yaml\<close>: None where there is none.
\<close>

type_synonym found_file = "(string option, io_failure) result"

definition DECLARATION_VERSION :: int where
  "DECLARATION_VERSION = 1"

datatype subject_writes = RefusedWrites | EnabledWrites

definition writes_default :: subject_writes where
  "writes_default = RefusedWrites"

definition WRITES_FILE :: string where
  "WRITES_FILE = ''subject-writes.yaml''"

definition WRITES_KEY :: string where
  "WRITES_KEY = ''writes''"

fun writes_str :: "subject_writes \<Rightarrow> string" where
  "writes_str RefusedWrites = ''refused''"
| "writes_str EnabledWrites = ''enabled''"

definition accepts :: "subject_writes \<Rightarrow> bool" where
  "accepts w \<longleftrightarrow> w = EnabledWrites"

abbreviation spec_error :: "spec_reason \<Rightarrow> core_error" where
  "spec_error reason \<equiv> CoreInvalid (Spec reason)"

definition writes_from_yaml :: "yaml_loader \<Rightarrow> string \<Rightarrow> (subject_writes, core_error) result" where
  "writes_from_yaml load yaml =
     (case load yaml of
        None \<Rightarrow> Err (spec_error (FileNotYaml WRITES_FILE))
      | Some docs \<Rightarrow>
          if length docs \<noteq> 1 then Err (spec_error (FileDocumentCount WRITES_FILE (length docs)))
          else
            let doc = hd docs; version = Option.bind (as_mapping_get doc ''version'') as_integer
            in if version \<noteq> Some DECLARATION_VERSION then Err (spec_error (FileVersion WRITES_FILE version))
               else
                 let found = Option.bind (as_mapping_get doc WRITES_KEY) as_str
                 in if found = Some (writes_str RefusedWrites) then Ok RefusedWrites
                    else if found = Some (writes_str EnabledWrites) then Ok EnabledWrites
                    else Err (spec_error (WritesValue found)))"

definition writes_load :: "yaml_loader \<Rightarrow> found_file \<Rightarrow> (subject_writes, core_error) result" where
  "writes_load load file =
     and_then (map_err CoreIo file) (\<lambda>found.
       case found of None \<Rightarrow> Ok RefusedWrites | Some text \<Rightarrow> writes_from_yaml load text)"

section \<open>Lemmas\<close>

lemma accepts_simps [simp]: "\<not> accepts RefusedWrites" "accepts EnabledWrites"
  by (simp_all add: accepts_def)

lemma writes_from_yaml_Ok:
  "writes_from_yaml load t = Ok w \<longleftrightarrow>
     (\<exists>doc. load t = Some [doc]
        \<and> Option.bind (as_mapping_get doc ''version'') as_integer = Some DECLARATION_VERSION
        \<and> Option.bind (as_mapping_get doc WRITES_KEY) as_str = Some (writes_str w))"
proof (cases "\<exists>doc. load t = Some [doc]")
  case True
  then obtain doc where "load t = Some [doc]" by blast
  then show ?thesis by (cases w) (simp_all add: writes_from_yaml_def Let_def)
next
  case False
  then have "length docs \<noteq> 1" if "load t = Some docs" for docs
    using that by (cases docs) auto
  then have "writes_from_yaml load t \<noteq> Ok w" by (cases "load t") (simp_all add: writes_from_yaml_def)
  with False show ?thesis by blast
qed

text \<open>Only a file that says so, in this version, opens the class; a store without one stays closed.\<close>

lemma accepts_only_declared:
  assumes "writes_load load file = Ok w"
  shows "accepts w \<longleftrightarrow> (\<exists>t. file = Ok (Some t) \<and> writes_from_yaml load t = Ok EnabledWrites)"
proof (cases "file")
  case (Ok found)
  with assms show ?thesis by (cases found; cases w) (simp_all add: writes_load_def)
qed (use assms in \<open>simp add: writes_load_def\<close>)

end
