(* ===== verification/Resolve.thy ===== *)
theory Resolve
  imports Subject_Writes Action_Record Extract Subject_Key Rust_Text
begin

text \<open>
  \<open>yaam-core/src/resolve.rs\<close>: which subjects a record is about. A \<open>SubjectResolver\<close> is a function from a
  record to a \<open>Resolution\<close>; the two the crate ships are \<open>declared_subjects\<close> and \<open>reference_subjects\<close>.
  HMAC, NFC and the case tables are the parameters \<open>derive\<close> has.
\<close>

datatype resolution =
    Resolved "subject_ref list"
  | Unavailable string
  | RefusedRecord invalid_reason

type_synonym subject_resolver = "action_record \<Rightarrow> resolution"

definition declared_subjects :: subject_resolver where
  "declared_subjects rec = Resolved (subjects rec)"

section \<open>The declared kinds\<close>

definition SUBJECTS_FILE :: string where
  "SUBJECTS_FILE = ''subjects.yaml''"

definition read_subject_kind :: "string list \<Rightarrow> yaml \<Rightarrow> (string list, core_error) result" where
  "read_subject_kind kinds entry =
     and_then (ok_or (spec_error NonStringKind) (as_str entry)) (\<lambda>name.
       if name \<in> set kinds then Err (spec_error (KindTwice name)) else Ok (kinds @ [name]))"

definition subject_kinds_from_yaml :: "yaml_loader \<Rightarrow> string \<Rightarrow> (string list, core_error) result" where
  "subject_kinds_from_yaml load yaml =
     (case load yaml of
        None \<Rightarrow> Err (spec_error (FileNotYaml SUBJECTS_FILE))
      | Some docs \<Rightarrow>
          if length docs \<noteq> 1 then Err (spec_error (FileDocumentCount SUBJECTS_FILE (length docs)))
          else
            let doc = hd docs; version = Option.bind (as_mapping_get doc ''version'') as_integer
            in if version \<noteq> Some 1 then Err (spec_error (FileVersion SUBJECTS_FILE version))
               else
                 and_then (ok_or (spec_error NoKindsSequence)
                   (Option.bind (as_mapping_get doc ''kinds'') as_vec)) (\<lambda>listed.
                 and_then (try_fold read_subject_kind [] listed) (\<lambda>kinds.
                   if kinds = [] then Err (spec_error NoKindsNamed) else Ok kinds)))"

definition subject_kinds_load ::
  "yaml_loader \<Rightarrow> regex_compiler \<Rightarrow> found_file \<Rightarrow> found_file \<Rightarrow> (string list option, core_error) result" where
  "subject_kinds_load load compile subjects_file entities_file =
     and_then (map_err CoreIo subjects_file) (\<lambda>found.
       case found of
         None \<Rightarrow> Ok None
       | Some text \<Rightarrow>
           and_then (subject_kinds_from_yaml load text) (\<lambda>declared.
           and_then (map_err CoreIo entities_file) (\<lambda>found_entities.
           and_then
             (case found_entities of
                Some ents \<Rightarrow> map_err CoreInvalid (registry_from_yaml load compile ents)
              | None \<Rightarrow> Ok default_registry) (\<lambda>registry.
           and_then
             (try_all (\<lambda>k. if k \<in> set (map kind_name (registry_kinds registry)) then Ok ()
                else Err (spec_error (UndeclaredSubjectKind k))) declared) (\<lambda>_.
             Ok (Some declared))))))"

section \<open>Reading the subject off a reference\<close>

datatype candidates = NoCandidate | OneCandidate string | SeveralCandidates nat

definition stated_ids :: "action_record \<Rightarrow> string \<Rightarrow> string list" where
  "stated_ids rec k = map ent_id (filter (\<lambda>e. ent_kind e = k \<and> f32_le FIELD_CONFIDENCE (ent_confidence e)) (entities rec))"

text \<open>The identifiers are collected in a \<open>BTreeSet\<close>: distinct and in order.\<close>

definition stated :: "action_record \<Rightarrow> string \<Rightarrow> candidates" where
  "stated rec k =
     (case sorted_list_of_set (set (stated_ids rec k)) of
        [] \<Rightarrow> NoCandidate
      | [i] \<Rightarrow> OneCandidate i
      | _ # others \<Rightarrow> SeveralCandidates (length others + 1))"

definition reference_text :: "string \<Rightarrow> string \<Rightarrow> string" where
  "reference_text k i = k @ '':'' @ i"

record keying =
  keying_hmac :: "string \<Rightarrow> string \<Rightarrow> string"
  keying_nfc :: "string \<Rightarrow> string"
  keying_case :: case_maps
  keying_key :: subject_key

definition subject_of_reference :: "keying \<Rightarrow> string \<Rightarrow> string \<Rightarrow> resolution" where
  "subject_of_reference key k i =
     (case derive (keying_hmac key) (keying_nfc key) (keying_case key) (keying_key key) CURRENT (reference_text k i) of
        Ok p \<Rightarrow> Resolved [\<lparr>subj_hash = ps_hash p, subj_role = Principal, subj_canon = ps_canon_ver p\<rparr>]
      | Err _ \<Rightarrow> RefusedRecord (NoPseudonym (reference_text k i)))"

fun resolve_kinds :: "keying \<Rightarrow> string list \<Rightarrow> action_record \<Rightarrow> string list \<Rightarrow> resolution" where
  "resolve_kinds key declared rec [] = RefusedRecord (NoKeyedReference declared)"
| "resolve_kinds key declared rec (k # ks) =
     (case stated rec k of
        NoCandidate \<Rightarrow> resolve_kinds key declared rec ks
      | OneCandidate i \<Rightarrow> subject_of_reference key k i
      | SeveralCandidates n \<Rightarrow> RefusedRecord (SeveralReferences n k))"

definition reference_subjects :: "keying \<Rightarrow> string list \<Rightarrow> subject_resolver" where
  "reference_subjects key declared rec =
     (if data_class rec = Internal then Resolved [] else resolve_kinds key declared rec declared)"

section \<open>Lemmas\<close>

lemma stated_cases:
  "stated rec k = NoCandidate \<longleftrightarrow> stated_ids rec k = []"
  "stated rec k = OneCandidate i \<longleftrightarrow> set (stated_ids rec k) = {i}"
proof -
  have set_eq: "set (sorted_list_of_set (set (stated_ids rec k))) = set (stated_ids rec k)" by simp
  show "stated rec k = NoCandidate \<longleftrightarrow> stated_ids rec k = []"
    using set_eq by (auto simp: stated_def split: list.splits)
  show "stated rec k = OneCandidate i \<longleftrightarrow> set (stated_ids rec k) = {i}"
    by (cases "sorted_list_of_set (set (stated_ids rec k))" rule: list.exhaust)
       (use set_eq in \<open>auto simp: stated_def dest: arg_cong [where f = card] split: list.splits\<close>)
qed

lemma stated_cong: "set (stated_ids r k) = set (stated_ids r' k) \<Longrightarrow> stated r k = stated r' k"
  by (simp add: stated_def)

lemma resolve_kinds_first:
  "resolve_kinds key declared rec ks =
     (case dropWhile (\<lambda>k. stated_ids rec k = []) ks of
        [] \<Rightarrow> RefusedRecord (NoKeyedReference declared)
      | k # _ \<Rightarrow>
          (case stated rec k of
             OneCandidate i \<Rightarrow> subject_of_reference key k i
           | SeveralCandidates n \<Rightarrow> RefusedRecord (SeveralReferences n k)
           | NoCandidate \<Rightarrow> RefusedRecord (NoKeyedReference declared)))"
proof (induction ks)
  case (Cons k ks)
  with stated_cases(1) [of rec k] show ?case by (cases "stated rec k") (simp_all del: stated_cases)
qed simp

lemma subject_of_reference_one: "subject_of_reference key k i = Resolved ss \<Longrightarrow> length ss = 1"
  by (auto simp: subject_of_reference_def split: result.splits)

lemma reference_subjects_count:
  assumes "reference_subjects key kinds rec = Resolved ss"
  shows "length ss = (if data_class rec = Internal then 0 else 1)"
proof (cases "data_class rec = Internal")
  case False
  with assms have "resolve_kinds key kinds rec kinds = Resolved ss" by (simp add: reference_subjects_def)
  with False show ?thesis
    unfolding resolve_kinds_first by (simp split: list.splits candidates.splits add: subject_of_reference_one)
qed (use assms in \<open>simp add: reference_subjects_def\<close>)

lemma reference_text_inject:
  "CHR '':'' \<notin> set k \<Longrightarrow> CHR '':'' \<notin> set k' \<Longrightarrow> reference_text k i = reference_text k' i' \<longleftrightarrow> k = k' \<and> i = i'"
  by (auto simp: reference_text_def append_eq_append_conv2 append_eq_Cons_conv Cons_eq_append_conv)

lemma resolve_kinds_cong:
  "(\<And>k. k \<in> set ks \<Longrightarrow> stated r k = stated r' k) \<Longrightarrow>
     resolve_kinds key declared r ks = resolve_kinds key declared r' ks"
  by (induction ks) (auto split: candidates.splits)

section \<open>Properties\<close>

text \<open>
  One rule decides a record's subject. A record of the internal class has none; any other is about
  the one reference it states outright of the first declared kind it states at all, and a kind it
  states several references of refuses it rather than letting a later kind decide.
\<close>

theorem first_stated_kind_decides:
  "reference_subjects key kinds rec = Resolved ss \<longleftrightarrow>
     (if data_class rec = Internal then ss = []
      else case dropWhile (\<lambda>k. stated_ids rec k = []) kinds of
             [] \<Rightarrow> False
           | k # _ \<Rightarrow> \<exists>i. set (stated_ids rec k) = {i} \<and> subject_of_reference key k i = Resolved ss)"
proof (cases "data_class rec = Internal")
  case False
  then have r: "reference_subjects key kinds rec = resolve_kinds key kinds rec kinds"
    by (simp add: reference_subjects_def)
  show ?thesis
  proof (cases "dropWhile (\<lambda>k. stated_ids rec k = []) kinds")
    case (Cons k ks)
    with False show ?thesis
      unfolding r resolve_kinds_first by (cases "stated rec k") (simp_all flip: stated_cases(2))
  next
    case Nil
    with False show ?thesis unfolding r resolve_kinds_first Nil by simp
  qed
qed (auto simp: reference_subjects_def)

text \<open>
  A guess never decides erasability. Two records of one class that state the same references at
  full confidence are answered alike, whatever order they list them in, how often they repeat them and
  whatever else was read out of their prose.
\<close>

theorem guesses_never_decide:
  assumes "data_class r = data_class r'"
    and "\<And>k. set (stated_ids r k) = set (stated_ids r' k)"
  shows "reference_subjects key kinds r = reference_subjects key kinds r'"
proof -
  have "resolve_kinds key kinds r kinds = resolve_kinds key kinds r' kinds"
    by (intro resolve_kinds_cong stated_cong assms(2))
  with assms(1) show ?thesis by (simp add: reference_subjects_def)
qed

definition sample_keying :: keying where
  "sample_keying = \<lparr>keying_hmac = sample_hmac, keying_nfc = \<lambda>s. s, keying_case = ascii_case,
     keying_key = sample_key\<rparr>"

definition sample_guess :: entity_ref where
  "sample_guess = \<lparr>ent_kind = ''ticket'', ent_id = ''OTHER-1'', ent_role = Related, ent_confidence = F32 (1/2)\<rparr>"

theorem guesses_never_decide_witness:
  "reference_subjects sample_keying [''ticket''] (sample_sealed\<lparr>entities := sample_guess # entities sample_sealed\<rparr>)
     = reference_subjects sample_keying [''ticket''] sample_sealed"
  by (rule guesses_never_decide)
     (simp_all add: stated_ids_def sample_guess_def FIELD_CONFIDENCE_def sample_sealed_def sample_record_def)

end
