(* ===== verification/Frontmatter.thy ===== *)
theory Frontmatter
  imports Core_Error Action_Record Rust_Text Spec_Yaml Subject_Key
begin

text \<open>
  \<open>yaam-md/src/frontmatter.rs\<close>: the structural half of a record file. The YAML parser is the parameter
  \<open>load\<close>, the typing of a JSON object as a record (\<open>serde\<close>'s derived reader) is \<open>typed\<close>, and \<open>debug_f32\<close> is
  the standard library's shortest text of a float.
\<close>

definition KEYS :: "string list" where
  "KEYS = [''record_id'', ''schema_ver'', ''at'', ''received_at'', ''backfilled'', ''agent'', ''agent_ver'',
     ''correlation_id'', ''action'', ''outcome'', ''attrs'', ''entities'', ''subjects'', ''visibility'', ''team'',
     ''data_class'', ''redaction_policy'', ''fields_masked'', ''tags'']"

definition RESERVED :: "string list" where
  "RESERVED = [''null'', ''~'', ''true'', ''false'', ''yes'', ''no'', ''on'', ''off'', ''y'', ''n'']"

datatype (plugins only: code) scalar =
    SNull
  | SBool bool
  | SInt int
  | SFloat f32
  | SStr string

datatype (plugins only: code) fm_value =
    Leaf scalar
  | Mapping_of "(string \<times> scalar) list"
  | List_of "scalar list"
  | Maps_of "(string \<times> scalar) list list"

section \<open>Projection\<close>

fun role_name :: "role \<Rightarrow> string" where
  "role_name Primary = ''primary''"
| "role_name Context = ''context''"
| "role_name Related = ''related''"

fun subject_role_name :: "subject_role \<Rightarrow> string" where
  "subject_role_name Principal = ''principal''"
| "subject_role_name Party = ''party''"

definition text_leaf :: "string \<Rightarrow> fm_value" where
  "text_leaf s = Leaf (SStr s)"

definition optional_text :: "string option \<Rightarrow> fm_value" where
  "optional_text v = (case v of Some s \<Rightarrow> text_leaf s | None \<Rightarrow> Leaf SNull)"

definition list_of_text :: "string list \<Rightarrow> fm_value" where
  "list_of_text ss = List_of (map SStr ss)"

definition entity_fields :: "entity_ref \<Rightarrow> (string \<times> scalar) list" where
  "entity_fields e =
     [(''kind'', SStr (ent_kind e)), (''id'', SStr (ent_id e)), (''role'', SStr (role_name (ent_role e))),
      (''confidence'', SFloat (ent_confidence e))]"

definition subject_fields :: "subject_ref \<Rightarrow> (string \<times> scalar) list" where
  "subject_fields s =
     [(''hash'', SStr (subject_hash_str (subj_hash s))), (''role'', SStr (subject_role_name (subj_role s))),
      (''canon_ver'', SInt (int (canon_number (subj_canon s))))]"

fun attr_scalar :: "attr_value \<Rightarrow> scalar" where
  "attr_scalar (AText v) = SStr v"
| "attr_scalar (AInt v) = SInt v"
| "attr_scalar (ABool v) = SBool v"

fun schema_number :: "schema_ver \<Rightarrow> nat" where
  "schema_number (SchemaVer n) = n"

definition project :: "action_record \<Rightarrow> (string \<times> fm_value) list" where
  "project rec =
     [(''record_id'', text_leaf (record_id_str (record_id rec))),
      (''schema_ver'', Leaf (SInt (int (schema_number (schema_ver rec))))),
      (''at'', text_leaf (at_time rec)),
      (''received_at'', text_leaf (received_at rec)),
      (''backfilled'', Leaf (SBool (backfilled rec))),
      (''agent'', text_leaf (agent rec)),
      (''agent_ver'', optional_text (agent_ver rec)),
      (''correlation_id'', optional_text (correlation_id rec)),
      (''action'', text_leaf (action rec)),
      (''outcome'', text_leaf (outcome_str (outcome rec))),
      (''attrs'', Mapping_of (map (\<lambda>(k, v). (k, attr_scalar v)) (attrs rec))),
      (''entities'', Maps_of (map entity_fields (entities rec))),
      (''subjects'', Maps_of (map subject_fields (subjects rec))),
      (''visibility'', text_leaf (visibility_str (visibility rec))),
      (''team'', optional_text (team rec)),
      (''data_class'', text_leaf (data_class_str (data_class rec))),
      (''redaction_policy'', text_leaf (redaction_policy rec)),
      (''fields_masked'', list_of_text (fields_masked rec)),
      (''tags'', list_of_text (tags rec))]"

section \<open>Scalars\<close>

text \<open>\<open>str::parse::<i64>\<close> and \<open>str::parse::<f64>\<close>, as far as their answer is asked: whether there is one.\<close>

definition strip_sign :: "string \<Rightarrow> bool \<times> string" where
  "strip_sign s = (case s of [] \<Rightarrow> (False, []) | c # cs \<Rightarrow>
     if c = CHR ''-'' then (True, cs) else if c = CHR ''+'' then (False, cs) else (False, s))"

definition parses_i64 :: "string \<Rightarrow> bool" where
  "parses_i64 s = (case strip_sign s of (neg, ds) \<Rightarrow>
     ds \<noteq> [] \<and> list_all is_ascii_digit ds
     \<and> nat_of_digits ds \<le> (if neg then 9223372036854775808 else 9223372036854775807))"

definition to_lower_ascii :: "char \<Rightarrow> char" where
  "to_lower_ascii c = (if is_ascii_upper c then char_of (byte_of c + 32) else c)"

definition parses_exponent :: "string \<Rightarrow> bool" where
  "parses_exponent s = (case strip_sign s of (_, ds) \<Rightarrow> ds \<noteq> [] \<and> list_all is_ascii_digit ds)"

definition parses_decimal :: "string \<Rightarrow> bool" where
  "parses_decimal s =
     (let whole = takeWhile is_ascii_digit s; after = drop (length whole) s;
          (frac, rest) =
            (case after of [] \<Rightarrow> ([], [])
             | c # cs \<Rightarrow> if c = CHR ''.'' then (takeWhile is_ascii_digit cs, dropWhile is_ascii_digit cs) else ([], after))
      in whole @ frac \<noteq> []
         \<and> (case rest of [] \<Rightarrow> True | c # cs \<Rightarrow> to_lower_ascii c = CHR ''e'' \<and> parses_exponent cs))"

definition parses_f64 :: "string \<Rightarrow> bool" where
  "parses_f64 s = (case strip_sign s of (_, t) \<Rightarrow>
     map to_lower_ascii t \<in> {''inf'', ''infinity'', ''nan''} \<or> parses_decimal t)"

definition plain_byte :: "char \<Rightarrow> bool" where
  "plain_byte b \<longleftrightarrow> is_ascii_alphanumeric b \<or> b \<in> {CHR ''_'', CHR ''-'', CHR ''.'', CHR ''/''}"

definition plain_safe :: "string \<Rightarrow> bool" where
  "plain_safe s =
     (case s of
        [] \<Rightarrow> False
      | first # _ \<Rightarrow>
          (is_ascii_alphanumeric first \<or> first = CHR ''_'') \<and> list_all plain_byte s
          \<and> \<not> starts_with ''0x'' s \<and> \<not> starts_with ''0o'' s
          \<and> \<not> parses_i64 s \<and> \<not> parses_f64 s
          \<and> \<not> list_ex (\<lambda>r. map to_lower_ascii s = r) RESERVED)"

definition hex_escape :: "nat \<Rightarrow> string" where
  "hex_escape n = [CHR 0x5C, CHR ''x''] @ hex_byte (char_of n)"

text \<open>
  The characters between the quotes. Text is UTF-8, so the control characters above ASCII are the
  byte \<open>C2\<close> and one of \<open>80\<close> to \<open>9F\<close>.
\<close>

fun quote_chars :: "string \<Rightarrow> string" where
  "quote_chars [] = []"
| "quote_chars (c # cs) =
     (if c = CHR 0x22 then [CHR 0x5C, CHR 0x22] @ quote_chars cs
      else if c = CHR 0x5C then [CHR 0x5C, CHR 0x5C] @ quote_chars cs
      else if c = CHR 0x0A then [CHR 0x5C, CHR ''n''] @ quote_chars cs
      else if c = CHR 0x0D then [CHR 0x5C, CHR ''r''] @ quote_chars cs
      else if c = CHR 0x09 then [CHR 0x5C, CHR ''t''] @ quote_chars cs
      else if byte_of c < 32 \<or> byte_of c = 127 then hex_escape (byte_of c) @ quote_chars cs
      else case cs of
        [] \<Rightarrow> [c]
      | d # ds \<Rightarrow>
          if c = CHR 0xC2 \<and> 128 \<le> byte_of d \<and> byte_of d < 160 then hex_escape (byte_of d) @ quote_chars ds
          else c # quote_chars cs)"

definition quote :: "string \<Rightarrow> string" where
  "quote s = [CHR 0x22] @ quote_chars s @ [CHR 0x22]"

definition yaml_string :: "string \<Rightarrow> string" where
  "yaml_string s = (if plain_safe s then s else quote s)"

definition show_i64 :: "int \<Rightarrow> string" where
  "show_i64 i = (if i < 0 then CHR ''-'' # show_nat (nat (- i)) else show_nat (nat i))"

fun yaml_scalar :: "(f32 \<Rightarrow> string) \<Rightarrow> scalar \<Rightarrow> string" where
  "yaml_scalar debug_f32 SNull = ''null''"
| "yaml_scalar debug_f32 (SBool b) = (if b then ''true'' else ''false'')"
| "yaml_scalar debug_f32 (SInt i) = show_i64 i"
| "yaml_scalar debug_f32 (SFloat f) = debug_f32 f"
| "yaml_scalar debug_f32 (SStr s) = yaml_string s"

section \<open>Emitting\<close>

abbreviation newline :: string where
  "newline \<equiv> [CHR 0x0A]"

definition emit_entry :: "(f32 \<Rightarrow> string) \<Rightarrow> string \<times> scalar \<Rightarrow> string" where
  "emit_entry debug_f32 = (\<lambda>(name, scalar). yaml_string name @ '': '' @ yaml_scalar debug_f32 scalar @ newline)"

definition emit_item :: "(f32 \<Rightarrow> string) \<Rightarrow> (string \<times> scalar) list \<Rightarrow> string" where
  "emit_item debug_f32 entries = ''  - '' @
     (case entries of
        [] \<Rightarrow> ''{}'' @ newline
      | e # es \<Rightarrow> emit_entry debug_f32 e @ concat (map (\<lambda>x. ''    '' @ emit_entry debug_f32 x) es))"

fun emit_value :: "(f32 \<Rightarrow> string) \<Rightarrow> fm_value \<Rightarrow> string" where
  "emit_value debug_f32 (Leaf s) = '' '' @ yaml_scalar debug_f32 s @ newline"
| "emit_value debug_f32 (Mapping_of es) =
     (if es = [] then '' {}'' @ newline
      else newline @ concat (map (\<lambda>e. ''  '' @ emit_entry debug_f32 e) es))"
| "emit_value debug_f32 (List_of items) =
     (if items = [] then '' []'' @ newline
      else newline @ concat (map (\<lambda>s. ''  - '' @ yaml_scalar debug_f32 s @ newline) items))"
| "emit_value debug_f32 (Maps_of items) =
     (if items = [] then '' []'' @ newline else newline @ concat (map (emit_item debug_f32) items))"

definition emit :: "(f32 \<Rightarrow> string) \<Rightarrow> (string \<times> fm_value) list \<Rightarrow> string" where
  "emit debug_f32 flds = concat (map (\<lambda>(k, v). yaml_string k @ '':'' @ emit_value debug_f32 v) flds)"

definition fm_render :: "(f32 \<Rightarrow> string) \<Rightarrow> action_record \<Rightarrow> string" where
  "fm_render debug_f32 rec = emit debug_f32 (project rec)"

section \<open>Reading\<close>

datatype (plugins only: code size) json =
    JNull
  | JBool bool
  | JInt int
  | JFloat f32
  | JStr string
  | JArray "json list"
  | JObject "(string \<times> json) list"

definition yaml_key :: "yaml \<Rightarrow> (string, md_error) result" where
  "yaml_key node = ok_or (MalformedFrontmatter ''mapping keys must be strings'') (as_str node)"

lemma try_map_cong [fundef_cong]:
  "xs = ys \<Longrightarrow> (\<And>x. x \<in> set ys \<Longrightarrow> f x = g x) \<Longrightarrow> try_map f xs = try_map g ys"
  by (induction xs arbitrary: ys) auto

lemma try_fold_cong [fundef_cong]:
  assumes "xs = ys" "s = t" "\<And>u x. x \<in> set ys \<Longrightarrow> f u x = g u x"
  shows "try_fold f s xs = try_fold g t ys"
  using assms(3) unfolding assms(1,2)
proof (induction ys arbitrary: t)
  case (Cons y ys)
  then show ?case by (cases "g t y") simp_all
qed simp

fun yaml_to_json :: "yaml \<Rightarrow> (json, md_error) result" where
  "yaml_to_json YNull = Ok JNull"
| "yaml_to_json (YBool b) = Ok (JBool b)"
| "yaml_to_json (YInt i) = Ok (JInt i)"
| "yaml_to_json (YFloat f) =
     (case f of F32 _ \<Rightarrow> Ok (JFloat f) | _ \<Rightarrow> Err (MalformedFrontmatter ''not a finite number''))"
| "yaml_to_json (YStr s) = Ok (JStr s)"
| "yaml_to_json (YSeq items) = and_then (try_map yaml_to_json items) (\<lambda>js. Ok (JArray js))"
| "yaml_to_json (YMap m) =
     and_then
       (try_fold (\<lambda>obj (k, v).
          and_then (yaml_key k) (\<lambda>name. and_then (yaml_to_json v) (\<lambda>j. Ok (bt_insert name j obj)))) [] m)
       (\<lambda>obj. Ok (JObject obj))"

definition read_field :: "(string \<times> json) list \<Rightarrow> yaml \<times> yaml \<Rightarrow> ((string \<times> json) list, md_error) result" where
  "read_field flds = (\<lambda>(k, v).
     and_then (yaml_key k) (\<lambda>key.
       if key \<notin> set KEYS then Err (MalformedFrontmatter (''unexpected frontmatter key '' @ key))
       else and_then (yaml_to_json v) (\<lambda>j. Ok (bt_insert key j flds))))"

definition fm_parse :: "yaml_loader \<Rightarrow> (json \<Rightarrow> action_record option) \<Rightarrow> string \<Rightarrow> (action_record, md_error) result" where
  "fm_parse load typed yaml =
     (case load yaml of
        None \<Rightarrow> Err (MalformedFrontmatter ''not valid YAML'')
      | Some docs \<Rightarrow>
          (case docs of
             YMap m # _ \<Rightarrow>
               and_then (try_fold read_field [] m) (\<lambda>flds.
               and_then (ok_or (MalformedFrontmatter ''not a record'')
                 (typed (JObject (bt_insert ''summary'' (JStr []) flds)))) (\<lambda>rec.
               and_then (map_err MdContract (validate rec)) (\<lambda>_. Ok rec)))
           | _ \<Rightarrow> Err (MalformedFrontmatter ''expected a mapping at the top level'')))"

text \<open>
  The canonical JSON of the index. \<open>reparse\<close> is \<open>str::parse::<f64>\<close> on the text of a float; what
  \<open>serde_json\<close> writes of the object is outside the model.
\<close>

fun json_scalar :: "(f32 \<Rightarrow> string) \<Rightarrow> (string \<Rightarrow> f32 option) \<Rightarrow> scalar \<Rightarrow> (json, md_error) result" where
  "json_scalar debug_f32 reparse SNull = Ok JNull"
| "json_scalar debug_f32 reparse (SBool b) = Ok (JBool b)"
| "json_scalar debug_f32 reparse (SInt i) = Ok (JInt i)"
| "json_scalar debug_f32 reparse (SFloat f) =
     (case reparse (debug_f32 f) of
        Some (F32 q) \<Rightarrow> Ok (JFloat (F32 q))
      | _ \<Rightarrow> Err (MdContract (Invalid (ConfidenceNotFinite (debug_f32 f)))))"
| "json_scalar debug_f32 reparse (SStr s) = Ok (JStr s)"

definition json_object ::
  "(f32 \<Rightarrow> string) \<Rightarrow> (string \<Rightarrow> f32 option) \<Rightarrow> (string \<times> scalar) list \<Rightarrow> ((string \<times> json) list, md_error) result" where
  "json_object debug_f32 reparse entries =
     try_fold (\<lambda>out (name, s). and_then (json_scalar debug_f32 reparse s) (\<lambda>j. Ok (bt_insert name j out))) [] entries"

fun json_value :: "(f32 \<Rightarrow> string) \<Rightarrow> (string \<Rightarrow> f32 option) \<Rightarrow> fm_value \<Rightarrow> (json, md_error) result" where
  "json_value debug_f32 reparse (Leaf s) = json_scalar debug_f32 reparse s"
| "json_value debug_f32 reparse (Mapping_of es) =
     and_then (json_object debug_f32 reparse es) (\<lambda>obj. Ok (JObject obj))"
| "json_value debug_f32 reparse (List_of items) =
     and_then (try_map (json_scalar debug_f32 reparse) items) (\<lambda>js. Ok (JArray js))"
| "json_value debug_f32 reparse (Maps_of items) =
     and_then (try_map (\<lambda>es. and_then (json_object debug_f32 reparse es) (\<lambda>obj. Ok (JObject obj))) items)
       (\<lambda>js. Ok (JArray js))"

definition canonical_json ::
  "(f32 \<Rightarrow> string) \<Rightarrow> (string \<Rightarrow> f32 option) \<Rightarrow> action_record \<Rightarrow> (json, md_error) result" where
  "canonical_json debug_f32 reparse rec =
     and_then
       (try_fold (\<lambda>out (key, v). and_then (json_value debug_f32 reparse v) (\<lambda>j. Ok (bt_insert key j out))) []
          (project rec))
       (\<lambda>obj. Ok (JObject obj))"

section \<open>A reader of what is written\<close>

text \<open>What YAML reads of the escapes \<open>quote\<close> writes, up to the closing quote.\<close>

definition unhex :: "char \<Rightarrow> nat option" where
  "unhex c = find_at HEX_DIGITS [c]"

definition unescape_code :: "nat \<Rightarrow> string" where
  "unescape_code n = (if n < 128 then [char_of n] else [CHR 0xC2, char_of n])"

fun unquote :: "string \<Rightarrow> string option" where
  "unquote [] = None"
| "unquote (c # cs) =
     (if c = CHR 0x22 then (if cs = [] then Some [] else None)
      else if c = CHR 0x5C then
        (case cs of
           [] \<Rightarrow> None
         | e # es \<Rightarrow>
             if e = CHR ''x'' then
               (case es of
                  h # l # r \<Rightarrow>
                    (case (unhex h, unhex l) of
                       (Some m, Some n) \<Rightarrow> map_option ((@) (unescape_code (16 * m + n))) (unquote r)
                     | _ \<Rightarrow> None)
                | _ \<Rightarrow> None)
             else if e = CHR 0x22 \<or> e = CHR 0x5C then map_option ((#) e) (unquote es)
             else if e = CHR ''n'' then map_option ((#) (CHR 0x0A)) (unquote es)
             else if e = CHR ''r'' then map_option ((#) (CHR 0x0D)) (unquote es)
             else if e = CHR ''t'' then map_option ((#) (CHR 0x09)) (unquote es)
             else None)
      else map_option ((#) c) (unquote cs))"

definition read_string :: "string \<Rightarrow> string option" where
  "read_string s = (case s of [] \<Rightarrow> None | c # cs \<Rightarrow> if c = CHR 0x22 then unquote cs else Some s)"

section \<open>Lemmas\<close>

lemma unhex_digit: "n < 16 \<Longrightarrow> unhex (HEX_DIGITS ! n) = Some n"
proof -
  have "\<forall>n \<in> set [0..<16]. unhex (HEX_DIGITS ! n) = Some n" by code_simp
  then show "n < 16 \<Longrightarrow> unhex (HEX_DIGITS ! n) = Some n" by simp
qed

lemma unquote_hex_escape:
  assumes "n < 256"
  shows "unquote (hex_escape n @ s) = map_option ((@) (unescape_code n)) (unquote s)"
proof -
  have "n div 16 < 16" using assms by simp
  then show ?thesis
    using assms by (simp add: hex_escape_def hex_byte_def unhex_digit)
qed

lemma char_of_byte_of [simp]: "char_of (byte_of c) = c"
  by (simp add: byte_of_def)

lemma unquote_quote_chars: "unquote (quote_chars s @ CHR 0x22 # []) = Some s"
proof (induction s rule: quote_chars.induct)
  case (2 c cs)
  show ?case
  proof (cases "c \<in> {CHR 0x22, CHR 0x5C, CHR 0x0A, CHR 0x0D, CHR 0x09}")
    case True
    with 2 show ?thesis by auto
  next
    case plain: False
    show ?thesis
    proof (cases "byte_of c < 32 \<or> byte_of c = 127")
      case True
      with plain 2(6) show ?thesis by (auto simp: unquote_hex_escape unescape_code_def)
    next
      case False
      show ?thesis
      proof (cases cs)
        case Nil
        with plain False show ?thesis by simp
      next
        case (Cons d ds)
        show ?thesis
        proof (cases "c = CHR 0xC2 \<and> 128 \<le> byte_of d \<and> byte_of d < 160")
          case True
          moreover have "unquote (quote_chars ds @ [CHR 0x22]) = Some ds" using 2(7) plain False Cons True by simp
          ultimately show ?thesis using plain False Cons by (simp add: unquote_hex_escape unescape_code_def)
        next
          case other: False
          then have "unquote (quote_chars cs @ [CHR 0x22]) = Some cs" using 2(8) plain False Cons by simp
          moreover have "quote_chars (c # cs) = c # quote_chars cs"
            using plain False other unfolding Cons by (subst quote_chars.simps) (auto simp del: quote_chars.simps)
          ultimately show ?thesis using plain by simp
        qed
      qed
    qed
  qed
qed simp

lemma quote_chars_no_newline: "CHR 0x0A \<notin> set (quote_chars s)"
proof (induction s rule: quote_chars.induct)
  case (2 c cs)
  have "CHR 0x0A \<notin> set (hex_escape n)" for n
  proof -
    have "list_all is_lower_hex (hex_byte (char_of n))" by (rule hex_byte_digits)
    moreover have "\<not> is_lower_hex (CHR 0x0A)" by (simp add: is_lower_hex_def)
    ultimately show ?thesis by (auto simp: hex_escape_def list_all_iff)
  qed
  with 2 show ?case by (auto split: list.splits)
qed simp

text \<open>Whatever is written as a YAML string is one line, starts with neither a dash nor a space, and reads back.\<close>

lemma yaml_string_facts:
  "read_string (yaml_string s) = Some s"
  "CHR 0x0A \<notin> set (yaml_string s)"
  "\<exists>c cs. yaml_string s = c # cs \<and> c \<notin> {CHR ''-'', CHR '' ''}"
proof -
  have safe: "\<exists>c cs. s = c # cs \<and> (is_ascii_alphanumeric c \<or> c = CHR ''_'') \<and> list_all plain_byte s"
    if "plain_safe s"
    using that by (auto simp: plain_safe_def split: list.splits)
  have bytes: "\<not> is_ascii_alphanumeric (CHR 0x22)" "\<not> is_ascii_alphanumeric (CHR 0x0A)"
    "\<not> is_ascii_alphanumeric (CHR ''-'')" "\<not> is_ascii_alphanumeric (CHR '' '')"
    by (simp_all add: is_ascii_alphanumeric_def is_ascii_digit_def is_ascii_upper_def is_ascii_lower_def byte_of_def)
  have "\<not> plain_byte (CHR 0x0A)" using bytes by (simp add: plain_byte_def)
  then have no_newline: "CHR 0x0A \<notin> set s" if "plain_safe s"
    using safe [OF that] unfolding list_all_iff by blast
  show "read_string (yaml_string s) = Some s"
    using safe bytes by (auto simp: yaml_string_def read_string_def quote_def unquote_quote_chars split: list.splits)
  show "CHR 0x0A \<notin> set (yaml_string s)"
    using no_newline quote_chars_no_newline by (simp add: yaml_string_def quote_def)
  show "\<exists>c cs. yaml_string s = c # cs \<and> c \<notin> {CHR ''-'', CHR '' ''}"
    using safe bytes by (cases "plain_safe s") (auto simp: yaml_string_def quote_def)
qed

interpretation yaml_text: codec yaml_string read_string
  by unfold_locales (rule yaml_string_facts(1))

section \<open>Lines\<close>

text \<open>
  A text made of whole lines none of which could be taken for the fence: each is nonempty, and starts
  with something other than a dash.
\<close>

inductive fence_free :: "string \<Rightarrow> bool" where
  no_line: "fence_free []"
| a_line: "c \<noteq> CHR ''-'' \<Longrightarrow> CHR 0x0A \<notin> set (c # l) \<Longrightarrow> fence_free t \<Longrightarrow> fence_free ((c # l) @ newline @ t)"

declare no_line [simp]

lemma fence_free_append [intro]: "fence_free s \<Longrightarrow> fence_free t \<Longrightarrow> fence_free (s @ t)"
  by (induction rule: fence_free.induct) (use a_line in auto)

lemma fence_free_concat: "(\<And>x. x \<in> set xs \<Longrightarrow> fence_free (f x)) \<Longrightarrow> fence_free (concat (map f xs))"
  by (induction xs) auto

lemma fence_free_line: "CHR 0x0A \<notin> set (c # l) \<Longrightarrow> c \<noteq> CHR ''-'' \<Longrightarrow> fence_free (c # l @ newline)"
  using a_line [of c l "[]"] by simp

text \<open>A float's text holds no line feed, whatever float it is; every other scalar's is written here.\<close>

lemma show_nat_no_newline: "CHR 0x0A \<notin> set (show_nat n)"
  using show_nat_digits [of n] by (auto simp: is_ascii_digit_def byte_of_def)

lemma yaml_scalar_no_newline:
  assumes "\<And>f. CHR 0x0A \<notin> set (debug_f32 f)"
  shows "CHR 0x0A \<notin> set (yaml_scalar debug_f32 s)"
  using assms show_nat_no_newline yaml_string_facts(2) by (cases s) (auto simp: show_i64_def)

lemma emit_fence_free:
  assumes floats: "\<And>f. CHR 0x0A \<notin> set (debug_f32 f)"
  shows "fence_free (emit debug_f32 flds)"
proof -
  note no_newline = yaml_scalar_no_newline [of debug_f32, OF floats] yaml_string_facts(2)
  have indented: "fence_free (CHR '' '' # l @ yaml_string n @ '': '' @ yaml_scalar debug_f32 s @ newline)"
    if "CHR 0x0A \<notin> set l" for l n s
    using that no_newline fence_free_line [of "CHR '' ''" "l @ yaml_string n @ '': '' @ yaml_scalar debug_f32 s"] by simp
  have entry: "fence_free (CHR '' '' # l @ emit_entry debug_f32 e)" if "CHR 0x0A \<notin> set l" for l e
    using indented [OF that] by (simp add: emit_entry_def split: prod.split)
  have item: "fence_free (emit_item debug_f32 es)" for es
  proof (cases es)
    case (Cons e rest)
    have "fence_free (concat (map (\<lambda>x. ''    '' @ emit_entry debug_f32 x) rest))"
      using entry [of "''   ''"] by (intro fence_free_concat) simp
    with Cons fence_free_append [OF entry [of "'' - ''" e]] show ?thesis by (simp add: emit_item_def)
  qed (use fence_free_line [of "CHR '' ''" "'' - {}''"] in \<open>simp add: emit_item_def\<close>)
  have field: "fence_free (yaml_string k @ '':'' @ emit_value debug_f32 v)" for k v
  proof -
    obtain c cs where k: "yaml_string k = c # cs" "c \<noteq> CHR ''-''" using yaml_string_facts(3) by blast
    have head: "fence_free (c # cs @ '':'' @ l @ newline)" if "CHR 0x0A \<notin> set l" for l
      using that k no_newline(2) [of k] fence_free_line [of c "cs @ '':'' @ l"] by simp
    have split: "fence_free (c # cs @ '':'' @ newline @ t)" if "fence_free t" for t
      using fence_free_append [OF head [of "[]"] that] by simp
    have dashed: "fence_free (CHR '' '' # '' - '' @ yaml_scalar debug_f32 s @ newline)" for s
      using no_newline(1) fence_free_line [of "CHR '' ''" "'' - '' @ yaml_scalar debug_f32 s"] by simp
    show ?thesis
    proof (cases v)
      case (Leaf s)
      with k head [of "'' '' @ yaml_scalar debug_f32 s"] no_newline(1) show ?thesis by simp
    next
      case (Mapping_of es)
      have "fence_free (concat (map (\<lambda>e. ''  '' @ emit_entry debug_f32 e) es))"
        using entry [of "'' ''"] by (intro fence_free_concat) simp
      with Mapping_of k head [of "'' {}''"] split show ?thesis by simp
    next
      case (List_of items)
      have "fence_free (concat (map (\<lambda>s. ''  - '' @ yaml_scalar debug_f32 s @ newline) items))"
        using dashed by (intro fence_free_concat) simp
      with List_of k head [of "'' []''"] split show ?thesis by simp
    next
      case (Maps_of items)
      have "fence_free (concat (map (emit_item debug_f32) items))" using item by (intro fence_free_concat)
      with Maps_of k head [of "'' []''"] split show ?thesis by simp
    qed
  qed
  then show ?thesis unfolding emit_def by (intro fence_free_concat) auto
qed

section \<open>Properties\<close>

lemma length_quote_chars: "length s \<le> length (quote_chars s)"
proof (induction s rule: quote_chars.induct)
  case (2 c cs)
  have esc: "2 \<le> length (hex_escape n)" for n by (simp add: hex_escape_def)
  show ?case
  proof (cases "c \<in> {CHR 0x22, CHR 0x5C, CHR 0x0A, CHR 0x0D, CHR 0x09} \<or> byte_of c < 32 \<or> byte_of c = 127")
    case True
    have "length cs \<le> length (quote_chars cs)" using True 2(1-6) by blast
    with True esc [of "byte_of c"] show ?thesis by (auto simp del: quote_chars.simps(2) simp: quote_chars.simps(2) [of c cs])
  next
    case False
    show ?thesis
    proof (cases cs)
      case (Cons d ds)
      show ?thesis
      proof (cases "c = CHR 0xC2 \<and> 128 \<le> byte_of d \<and> byte_of d < 160")
        case True
        then have "length ds \<le> length (quote_chars ds)" using 2(7) False Cons by blast
        moreover have "quote_chars (c # cs) = hex_escape (byte_of d) @ quote_chars ds"
          using True False Cons by (subst quote_chars.simps) (auto simp del: quote_chars.simps)
        ultimately show ?thesis using Cons esc [of "byte_of d"] by simp
      next
        case other: False
        then have "length cs \<le> length (quote_chars cs)" using 2(8) False Cons by blast
        moreover have "quote_chars (c # cs) = c # quote_chars cs"
          using other False Cons by (subst quote_chars.simps) (auto simp del: quote_chars.simps)
        ultimately show ?thesis by simp
      qed
    qed (use False in simp)
  qed
qed simp

lemma quote_not_self: "quote s \<noteq> s"
proof
  assume "quote s = s"
  then have "length (quote s) = length s" by simp
  with length_quote_chars [of s] show False by (simp add: quote_def)
qed

text \<open>
  A text stays a text in the frontmatter. However it is written, it reads back as itself, on one
  line; and where it is written without quotes it is nothing a YAML reader takes for a number, a truth
  value or a null.
\<close>

theorem text_stays_text:
  "read_string (yaml_string s) = Some s \<and> CHR 0x0A \<notin> set (yaml_string s)
   \<and> (if yaml_string s = s then \<not> parses_i64 s \<and> \<not> parses_f64 s \<and> map to_lower_ascii s \<notin> set RESERVED
      else yaml_string s = quote s)"
proof (cases "plain_safe s")
  case True
  then have "\<not> parses_i64 s \<and> \<not> parses_f64 s \<and> map to_lower_ascii s \<notin> set RESERVED"
    by (auto simp: plain_safe_def list_ex_iff split: list.splits)
  with True show ?thesis using yaml_string_facts(1,2) [of s] by (simp add: yaml_string_def)
next
  case False
  then show ?thesis using yaml_string_facts(1,2) [of s] quote_not_self [of s] by (simp add: yaml_string_def)
qed

end
