(* ===== verification/Document.thy ===== *)
theory Document
  imports Frontmatter Sealed_Block
begin

text \<open>
  \<open>yaam-md/src/document.rs\<close>: a whole record file, frontmatter between fences and then prose or a sealed
  block. The parameters are those of \<open>Frontmatter\<close> and the hex decoder of \<open>Sealed_Block\<close>.
\<close>

definition SEALED_FENCE :: string where
  "SEALED_FENCE = ''```sealed''"

datatype body = Plain string | Sealed sealed_body

record document =
  doc_record :: action_record
  doc_body :: body

definition doc_render :: "(f32 \<Rightarrow> string) \<Rightarrow> document \<Rightarrow> string" where
  "doc_render debug_f32 d =
     ''---'' @ newline @ fm_render debug_f32 (doc_record d) @ ''---'' @ newline @ newline
     @ (case doc_body d of Plain t \<Rightarrow> t | Sealed sb \<Rightarrow> block_render sb) @ newline"

definition is_sealed :: "string \<Rightarrow> bool" where
  "is_sealed b \<longleftrightarrow> starts_with SEALED_FENCE (trim_start b)"

definition strip_suffix :: "string \<Rightarrow> string \<Rightarrow> string option" where
  "strip_suffix p s = map_option rev (strip_prefix (rev p) (rev s))"

definition first_of :: "'a option \<Rightarrow> 'a option \<Rightarrow> 'a \<Rightarrow> 'a" where
  "first_of a b d = (case a of Some x \<Rightarrow> x | None \<Rightarrow> (case b of Some x \<Rightarrow> x | None \<Rightarrow> d))"

definition trim_separators :: "string \<Rightarrow> string" where
  "trim_separators b =
     (let b1 = first_of (strip_prefix (CHR 0x0D # newline) b) (strip_prefix newline b) b
      in first_of (strip_suffix (CHR 0x0D # newline) b1) (strip_suffix newline b1) b1)"

text \<open>The loop over the lines: \<open>before\<close> is the frontmatter so far, \<open>rest\<close> starts at a line.\<close>

function split_lines :: "string \<Rightarrow> string \<Rightarrow> (string \<times> string, md_error) result" where
  "split_lines before rest =
     (case find_at rest newline of
        None \<Rightarrow>
          if trim_end rest = ''---'' then Ok (before, trim_separators [])
          else Err (MalformedFrontmatter ''unterminated frontmatter fence'')
      | Some e \<Rightarrow>
          if trim_end (take e rest) = ''---'' then Ok (before, trim_separators (drop (e + 1) rest))
          else split_lines (before @ take (e + 1) rest) (drop (e + 1) rest))"
  by pat_completeness auto
termination
proof (relation "measure (\<lambda>(before, rest). length rest)")
  fix before rest :: string and e
  assume "find_at rest newline = Some e"
  then have "rest \<noteq> []" by auto
  then show "((before @ take (e + 1) rest, drop (e + 1) rest), before, rest)
    \<in> measure (\<lambda>(before, rest). length rest)" by simp
qed simp

declare split_lines.simps [simp del]

definition split_file :: "string \<Rightarrow> (string \<times> string, md_error) result" where
  "split_file text =
     (case strip_prefix (''---'' @ newline) text of
        Some rest \<Rightarrow> split_lines [] rest
      | None \<Rightarrow>
          (case strip_prefix (''---'' @ CHR 0x0D # newline) text of
             Some rest \<Rightarrow> split_lines [] rest
           | None \<Rightarrow> Err MissingFrontmatter))"

record md_reader =
  md_load :: yaml_loader
  md_typed :: "json \<Rightarrow> action_record option"
  md_hex_decode :: "string \<Rightarrow> string option"

definition doc_parse :: "md_reader \<Rightarrow> string \<Rightarrow> (document, md_error) result" where
  "doc_parse reader text =
     and_then (split_file text) (\<lambda>(yaml, b).
     and_then (fm_parse (md_load reader) (md_typed reader) yaml) (\<lambda>rec.
       if is_sealed b then
         and_then (map_err MdCrypto (block_parse (md_hex_decode reader) b)) (\<lambda>sb.
           Ok \<lparr>doc_record = rec, doc_body = Sealed sb\<rparr>)
       else Ok \<lparr>doc_record = rec\<lparr>summary := b\<rparr>, doc_body = Plain b\<rparr>))"

definition searchable_text :: "document \<Rightarrow> string" where
  "searchable_text d = (case doc_body d of Plain s \<Rightarrow> s | Sealed _ \<Rightarrow> [])"

section \<open>Splitting what is rendered\<close>

lemma strip_all_suffix: "\<exists>p. s = p @ strip_all ws s"
proof (induction ws s rule: strip_all.induct)
  case (1 ws s)
  show ?case
  proof (cases "[] \<in> set ws \<or> strip_one_of ws s = None")
    case True
    then show ?thesis by (subst strip_all.simps) auto
  next
    case False
    then obtain r where r: "strip_one_of ws s = Some r" by blast
    then obtain w where "s = w @ r"
      by (auto simp: strip_one_of_def strip_prefix_iff split: option.splits)
    moreover obtain p where "r = p @ strip_all ws r" using 1 False r by blast
    moreover have "strip_all ws s = strip_all ws r" using False r by (subst strip_all.simps) simp
    ultimately show ?thesis by (metis append.assoc)
  qed
qed

lemma trim_end_prefix: "\<exists>t. s = trim_end s @ t"
  using strip_all_suffix [of "rev s" "map rev white_space"] unfolding trim_end_def
  by (metis rev_append rev_rev_ident)

lemma trim_end_not_fence: "c \<noteq> CHR ''-'' \<Longrightarrow> trim_end (c # l) \<noteq> ''---''"
  using trim_end_prefix [of "c # l"] by (metis append_Cons list.inject)

lemma find_line: "CHR 0x0A \<notin> set l \<Longrightarrow> find_at (l @ CHR 0x0A # t) newline = Some (length l)"
  using find_at_first [of newline l t] by simp

lemma split_lines_skip:
  assumes "fence_free t" shows "split_lines before (t @ rest) = split_lines (before @ t) rest"
  using assms
proof (induction arbitrary: before)
  case (a_line c l t)
  let ?line = "(c # l) @ newline"
  have f: "find_at ((c # l) @ CHR 0x0A # t @ rest) newline = Some (length (c # l))"
    using a_line.hyps(2) by (rule find_line)
  have "split_lines before (?line @ t @ rest) = split_lines (before @ ?line) (t @ rest)"
    using a_line.hyps(1) f trim_end_not_fence [of c l] by (subst split_lines.simps) simp
  with a_line.IH [of "before @ ?line"] show ?case by simp
qed simp

lemma trim_end_fence: "trim_end ''---'' = ''---''"
  by (rule trim_end_graphic) (simp add: ascii_graphic_def byte_of_def)

lemma split_lines_fence: "split_lines before (''---'' @ newline @ b) = Ok (before, trim_separators b)"
proof -
  have "find_at (''---'' @ CHR 0x0A # b) newline = Some (length ''---'')" by (rule find_line) simp
  then show ?thesis by (subst split_lines.simps) (simp add: trim_end_fence)
qed

lemma trim_separators_written:
  "trim_separators (CHR 0x0A # t @ newline) = (if t \<noteq> [] \<and> List.last t = CHR 0x0D then butlast t else t)"
proof -
  have "trim_separators (CHR 0x0A # t @ newline) =
      first_of (strip_suffix (CHR 0x0D # newline) (t @ newline)) (strip_suffix newline (t @ newline)) (t @ newline)"
    by (simp add: trim_separators_def first_of_def [of None] Let_def)
  moreover have "strip_suffix newline (t @ newline) = Some t" by (simp add: strip_suffix_def)
  moreover have "strip_suffix (CHR 0x0D # newline) (t @ newline)
    = (if t \<noteq> [] \<and> List.last t = CHR 0x0D then Some (butlast t) else None)"
    by (cases t rule: rev_cases) (simp_all add: strip_suffix_def)
  ultimately show ?thesis by (simp only: first_of_def split: if_split) simp
qed

lemma split_file_rendered:
  assumes "\<And>f. CHR 0x0A \<notin> set (debug_f32 f)"
  shows "split_file (''---'' @ newline @ fm_render debug_f32 rec @ ''---'' @ newline @ b)
    = Ok (fm_render debug_f32 rec, trim_separators b)"
proof -
  have "fence_free (fm_render debug_f32 rec)"
    unfolding fm_render_def using assms by (rule emit_fence_free)
  from split_lines_skip [OF this, of "[]" "''---'' @ newline @ b"] split_lines_fence
  show ?thesis by (simp add: split_file_def)
qed

lemma doc_parse_rendered:
  assumes "\<And>f. CHR 0x0A \<notin> set (debug_f32 f)"
    and "fm_parse (md_load reader) (md_typed reader) (fm_render debug_f32 rec) = Ok rec'"
    and "b = trim_separators (newline @ (case body of Plain t \<Rightarrow> t | Sealed sb \<Rightarrow> block_render sb) @ newline)"
  shows "doc_parse reader (doc_render debug_f32 \<lparr>doc_record = rec, doc_body = body\<rparr>) =
    (if is_sealed b then
       and_then (map_err MdCrypto (block_parse (md_hex_decode reader) b)) (\<lambda>sb.
         Ok \<lparr>doc_record = rec', doc_body = Sealed sb\<rparr>)
     else Ok \<lparr>doc_record = rec'\<lparr>summary := b\<rparr>, doc_body = Plain b\<rparr>)"
  using split_file_rendered [of debug_f32 rec, OF assms(1)] assms(2,3)
  by (simp add: doc_parse_def doc_render_def)

lemma block_render_ends:
  "\<exists>r. block_render sb = SEALED_FENCE @ r" "\<exists>r. block_render sb = r @ ''`''"
  by (simp_all add: block_render_def block_lines_def Let_def FENCE_OPEN_def FENCE_CLOSE_def SEALED_FENCE_def)

lemma is_sealed_block: "is_sealed (block_render sb)"
proof -
  obtain r where r: "block_render sb = SEALED_FENCE @ r" using block_render_ends(1) by blast
  then have "trim_start (block_render sb) = block_render sb"
    by (intro trim_start_graphic) (simp add: SEALED_FENCE_def ascii_graphic_def byte_of_def)
  with r show ?thesis by (simp add: is_sealed_def starts_with_iff)
qed

section \<open>Properties\<close>


text \<open>
  A sealed record keeps its body and shows none of it. Its file reads back as the record without
  prose and the same sealed body, its shares in the order of their subjects, and the text that search
  indexes is empty.
\<close>

theorem sealed_document_reads_back:
  assumes "\<And>f. CHR 0x0A \<notin> set (debug_f32 f)" "\<forall>b. md_hex_decode reader (hex_encode b) = Some b"
    and "fm_parse (md_load reader) (md_typed reader) (fm_render debug_f32 rec) = Ok (rec\<lparr>summary := []\<rparr>)"
    and "length (nonce_bytes (sb_nonce sb)) = 12" "sb_shares sb \<noteq> []"
    and "\<forall>s \<in> set (sb_shares sb). valid_subject_hash (ws_subject s)"
    and "epoch_from_stored (epoch_str (sb_epoch sb)) = Ok (sb_epoch sb)" "printable (epoch_str (sb_epoch sb))"
  shows "\<exists>d. doc_parse reader (doc_render debug_f32 \<lparr>doc_record = rec, doc_body = Sealed sb\<rparr>) = Ok d
    \<and> doc_record d = rec\<lparr>summary := []\<rparr> \<and> searchable_text d = []
    \<and> doc_body d = Sealed (sb\<lparr>sb_shares := sort_key (\<lambda>s. subject_hash_str (ws_subject s)) (sb_shares sb)\<rparr>)"
proof -
  have "List.last (block_render sb) \<noteq> CHR 0x0D" using block_render_ends(2) [of sb] by auto
  then have "trim_separators (newline @ block_render sb @ newline) = block_render sb"
    by (simp add: trim_separators_written)
  with doc_parse_rendered [where body = "Sealed sb", OF assms(1,3) refl] is_sealed_block
    block_parse_render [OF assms(2,4-8)]
  show ?thesis by (simp add: searchable_text_def)
qed

definition sample_reader :: "action_record \<Rightarrow> md_reader" where
  "sample_reader rec = \<lparr>md_load = \<lambda>_. Some [YMap []], md_typed = \<lambda>_. Some (rec\<lparr>summary := []\<rparr>),
     md_hex_decode = sample_hex_decode\<rparr>"

lemma sample_reader_reads:
  "validate (rec\<lparr>summary := []\<rparr>) = Ok () \<Longrightarrow>
     fm_parse (md_load (sample_reader rec)) (md_typed (sample_reader rec)) yaml = Ok (rec\<lparr>summary := []\<rparr>)"
  by (simp add: sample_reader_def fm_parse_def)

definition sample_floats :: "f32 \<Rightarrow> string" where
  "sample_floats f = ''1.0''"


theorem sealed_document_reads_back_witness:
  "\<exists>d. doc_parse (sample_reader sample_sealed)
       (doc_render sample_floats \<lparr>doc_record = sample_sealed, doc_body = Sealed sample_body\<rparr>) = Ok d
     \<and> searchable_text d = [] \<and> doc_body d = Sealed sample_body"
proof -
  have "fm_parse (md_load (sample_reader sample_sealed)) (md_typed (sample_reader sample_sealed))
      (fm_render sample_floats sample_sealed) = Ok (sample_sealed\<lparr>summary := []\<rparr>)"
    by (rule sample_reader_reads) code_simp
  moreover have "epoch_from_stored ''2026-Q1'' = Ok (Epoch ''2026-Q1'')" by code_simp
  moreover have "printable ''2026-Q1''" by (simp add: printable_def ascii_graphic_def byte_of_def)
  ultimately have "\<exists>d. doc_parse (sample_reader sample_sealed)
       (doc_render sample_floats \<lparr>doc_record = sample_sealed, doc_body = Sealed sample_body\<rparr>) = Ok d
     \<and> doc_record d = sample_sealed\<lparr>summary := []\<rparr> \<and> searchable_text d = []
     \<and> doc_body d = Sealed (sample_body\<lparr>sb_shares :=
         sort_key (\<lambda>s. subject_hash_str (ws_subject s)) (sb_shares sample_body)\<rparr>)"
    using sample_hash_valid
    by (intro sealed_document_reads_back)
      (simp_all add: sample_floats_def sealed_for_def sample_epoch_def sample_hex_decode_encode
        sample_reader_def [of sample_sealed])
  moreover have "sample_body\<lparr>sb_shares := sort_key (\<lambda>s. subject_hash_str (ws_subject s)) (sb_shares sample_body)\<rparr>
      = sample_body" by (simp add: sealed_for_def)
  ultimately show ?thesis by auto
qed

end
