(* ===== verification/Wikilink.thy ===== *)
theory Wikilink
  imports Entity
begin

text \<open>\<open>yaam-md/src/wikilink.rs\<close>: the cross-references of a body.\<close>

definition wl_render :: "entity_ref \<Rightarrow> string" where
  "wl_render e = ''[['' @ ent_kind e @ '':'' @ ent_id e @ '']]''"

definition stray :: "char \<Rightarrow> bool" where
  "stray c \<longleftrightarrow> c \<in> {CHR ''['', CHR '']'', CHR 0x0A}"

function extract_links :: "string \<Rightarrow> (string \<times> string) list" where
  "extract_links rest =
     (case find_at rest ''[['' of
        None \<Rightarrow> []
      | Some start \<Rightarrow>
          let after = drop (start + 2) rest
          in (case find_at after '']]'' of
                None \<Rightarrow> []
              | Some stop \<Rightarrow>
                  let inner = take stop after
                  in if list_ex stray inner then extract_links (drop (start + 1) rest)
                     else (case split_once inner '':'' of
                             Some (k, i) \<Rightarrow> if k \<noteq> [] \<and> i \<noteq> [] then [(k, i)] else []
                           | None \<Rightarrow> [])
                          @ extract_links (drop (stop + 2) after)))"
  by pat_completeness auto
termination
proof (relation "measure length")
  fix rest :: string and start
  assume f: "find_at rest ''[['' = Some start"
  then have ne: "rest \<noteq> []" by auto
  show "(drop (start + 1) rest, rest) \<in> measure length" using ne by simp
  fix x stop and y :: string
  assume "x = drop (start + 2) rest"
  with ne show "(drop (stop + 2) x, rest) \<in> measure length" by simp
qed simp

declare extract_links.simps [simp del]

section \<open>Lemmas\<close>

definition clean :: "string \<Rightarrow> bool" where
  "clean s \<longleftrightarrow> s \<noteq> [] \<and> list_all (\<lambda>c. \<not> stray c) s"

lemma extract_prose: "CHR ''['' \<notin> set p \<Longrightarrow> extract_links p = []"
proof -
  assume "CHR ''['' \<notin> set p"
  then have "find_at p ''[['' = None" by (auto simp: find_at_None_iff)
  then show ?thesis by (subst extract_links.simps) simp
qed

lemma extract_link:
  assumes "CHR ''['' \<notin> set p" "clean k" "clean i" "CHR '':'' \<notin> set k"
  shows "extract_links (p @ ''[['' @ k @ '':'' @ i @ '']]'' @ s) = (k, i) # extract_links s"
proof -
  let ?inner = "k @ '':'' @ i" and ?rest = "p @ ''[['' @ k @ '':'' @ i @ '']]'' @ s"
  have inner: "\<not> list_ex stray ?inner"
    using assms(2,3) by (auto simp: clean_def list_all_iff list_ex_iff) (simp add: stray_def)
  have "find_at ?rest ''[['' = Some (length p)"
    using assms(1) find_at_first [of "''[[''" p "?inner @ '']]'' @ s"] by simp
  moreover have "find_at (?inner @ '']]'' @ s) '']]'' = Some (length ?inner)"
  proof (rule find_at_first)
    show "hd '']]'' \<notin> set ?inner" using inner by (auto simp: list_ex_iff stray_def)
  qed simp
  moreover have "split_once ?inner '':'' = Some (k, i)"
    using assms(4) split_once_first [of "'':''" k i] by simp
  moreover have "k \<noteq> []" "i \<noteq> []" using assms(2,3) by (simp_all add: clean_def)
  ultimately show ?thesis
    using inner by (subst extract_links.simps) (simp add: Let_def numeral_3_eq_3)
qed

section \<open>Properties\<close>

text \<open>
  The references written into a body are the ones read out of it. Links rendered into prose that
  holds no opening bracket of its own are all found, in order and as written, whatever the prose is
  between and after them.
\<close>

theorem rendered_links_extract:
  assumes "list_all (\<lambda>(p, e). CHR ''['' \<notin> set p \<and> clean (ent_kind e) \<and> clean (ent_id e)
      \<and> CHR '':'' \<notin> set (ent_kind e)) links"
    and "CHR ''['' \<notin> set end_text"
  shows "extract_links (concat (map (\<lambda>(p, e). p @ wl_render e) links) @ end_text)
    = map (\<lambda>(p, e). (ent_kind e, ent_id e)) links"
  using assms(1)
proof (induction links)
  case Nil
  with assms(2) show ?case by (simp add: extract_prose)
next
  case (Cons link links)
  then show ?case
    using extract_link [of "fst link" "ent_kind (snd link)" "ent_id (snd link)"]
    by (simp add: wl_render_def split: prod.splits)
qed

definition sample_link :: "string \<times> entity_ref" where
  "sample_link = (''see '', \<lparr>ent_kind = ''ticket'', ent_id = ''PROJ-42'', ent_role = Primary, ent_confidence = F32 1\<rparr>)"

theorem rendered_links_extract_witness:
  "extract_links ''see [[ticket:PROJ-42]]see [[ticket:PROJ-42]].'' = [(''ticket'', ''PROJ-42''), (''ticket'', ''PROJ-42'')]"
  using rendered_links_extract [of "[sample_link, sample_link]" "''.''"]
  by (simp add: sample_link_def clean_def stray_def wl_render_def)

end
