(* ===== verification/Intake.thy ===== *)
theory Intake
  imports Attrs Mask Resolve Layout Document Seal
begin

text \<open>
  \<open>yaam-core/src/pipeline.rs\<close>, before anything is written: the checks on a record (\<open>validated\<close>), the
  resolution of its subjects and the sealing of its body. \<open>pipeline\<close> is what \<open>Pipeline\<close> holds besides
  the index writer, with the crates it calls; \<open>meanwhile\<close> is what other processes do to the key files
  while a key is minted.
\<close>

record pipeline =
  pl_root :: string
  pl_keys :: fs_key_store
  pl_meanwhile :: "key_files \<Rightarrow> key_files"
  pl_resolver :: subject_resolver
  pl_writes :: subject_writes
  pl_registry :: registry
  pl_attrs :: schema
  pl_redaction :: redaction
  pl_case :: case_maps
  pl_alphabetic :: "string \<Rightarrow> bool"
  pl_crates :: seal_crates
  pl_floats :: "f32 \<Rightarrow> string"
  pl_epoch_ms :: "string \<Rightarrow> int option"

section \<open>Checks\<close>

definition subject_writes_refused :: "action_record \<Rightarrow> invalid_reason" where
  "subject_writes_refused rec = SubjectWritesRefused (record_id_str (record_id rec))"

definition canonical_entity :: "pipeline \<Rightarrow> entity_ref \<Rightarrow> (entity_ref, core_error) result" where
  "canonical_entity pl e =
     and_then (map_err CoreInvalid (canonicalise (pl_case pl) (pl_registry pl) (ent_kind e) (ent_id e)))
       (\<lambda>i. Ok (e\<lparr>ent_id := i\<rparr>))"

definition validated :: "pipeline \<Rightarrow> action_record \<Rightarrow> string \<Rightarrow> (action_record, core_error) result" where
  "validated pl rec body =
     and_then (map_err CoreInvalid (validate rec)) (\<lambda>_.
       if data_class rec = SubjectDerived \<and> \<not> accepts (pl_writes pl)
       then Err (invalid (subject_writes_refused rec))
       else
     and_then (ok_or (invalid (UnreadableAt (at_time rec))) (stamp_parse (at_time rec))) (\<lambda>_.
     and_then (map_err CoreInvalid (validate_frontmatter (pl_attrs pl) (action rec) (attrs rec))) (\<lambda>_.
       let name = outcome_str (outcome rec)
       in if (case outcomes_for (pl_attrs pl) (action rec) of
                None \<Rightarrow> False | Some names \<Rightarrow> name \<notin> set names)
          then Err (invalid (OutcomeNotPermitted (action rec) name))
          else
     and_then (try_map (canonical_entity pl) (entities rec)) (\<lambda>ents.
       if redaction_policy rec \<noteq> redaction_name (pl_redaction pl)
       then Err (invalid (RedactionPolicyMismatch (redaction_policy rec) (redaction_name (pl_redaction pl))))
       else
         (case redaction_first_match (pl_alphabetic pl) (pl_redaction pl) body of
            Some pattern \<Rightarrow> Err (invalid (BodyMatchesRedaction pattern))
          | None \<Rightarrow>
              Ok (rec\<lparr>entities := ents,
                summary := (case data_class rec of Internal \<Rightarrow> body | SubjectDerived \<Rightarrow> [])\<rparr>))))))"

definition check_subjects :: "action_record \<Rightarrow> subject_ref list \<Rightarrow> (unit, core_error) result" where
  "check_subjects rec resolved =
     (if length resolved > 1 then Err (invalid (ResolvedTooManySubjects (length resolved)))
      else
        (case data_class rec of
           SubjectDerived \<Rightarrow> if resolved = [] then Err (invalid ResolvedNoSubject) else Ok ()
         | Internal \<Rightarrow>
             if resolved \<noteq> [] then Err (invalid (ResolvedSubjectsForInternal (length resolved))) else Ok ()))"

section \<open>Sealing\<close>

fun tombstoned :: "pipeline \<Rightarrow> key_files \<Rightarrow> subject_hash list \<Rightarrow> (bool, core_error) result" where
  "tombstoned pl ks [] = Ok False"
| "tombstoned pl ks (s # subs) =
     and_then (map_err (\<lambda>_. SubjectUnresolved) (is_tombstoned (pl_keys pl) ks s)) (\<lambda>erased.
       if erased then Ok True else tombstoned pl ks subs)"

fun seal_error :: "crypto_error \<Rightarrow> core_error" where
  "seal_error (CryptoIo _) = SubjectUnresolved"
| "seal_error (Tombstoned _) = SubjectUnresolved"
| "seal_error (KeyAbsent _ _) = SubjectUnresolved"
| "seal_error other = CoreCrypto other"

definition seal_for ::
  "pipeline \<Rightarrow> record_id \<Rightarrow> subject_hash list \<Rightarrow> epoch \<Rightarrow> string \<Rightarrow> key_files \<Rightarrow> rng \<Rightarrow>
     (sealed_body, core_error) result \<times> key_files \<times> rng" where
  "seal_for pl rid subs ep body ks rng =
     (case seal (fs_mint (pl_keys pl) (pl_meanwhile pl)) (pl_crates pl) rid subs ep body ks rng of
        (r, ks', rng') \<Rightarrow> (map_err seal_error r, ks', rng'))"

definition seal_body ::
  "pipeline \<Rightarrow> action_record \<Rightarrow> subject_ref list \<Rightarrow> stamp \<Rightarrow> string \<Rightarrow> key_files \<Rightarrow> rng \<Rightarrow>
     (body, core_error) result \<times> key_files \<times> rng" where
  "seal_body pl rec resolved st text ks rng =
     (if data_class rec = Internal then (Ok (Plain text), ks, rng)
      else
        let subs = map subj_hash resolved
        in (case tombstoned pl ks subs of
              Err e \<Rightarrow> (Err e, ks, rng)
            | Ok True \<Rightarrow> (Ok (Plain []), ks, rng)
            | Ok False \<Rightarrow>
                (case seal_for pl (record_id rec) subs (epoch_containing (stamp_ms st)) text ks rng of
                   (Ok sealed, ks', rng') \<Rightarrow> (Ok (Sealed sealed), ks', rng')
                 | (Err e, ks', rng') \<Rightarrow>
                     if e = SubjectUnresolved
                     then (if tombstoned pl ks' subs = Ok True then (Ok (Plain []), ks', rng')
                           else (Err SubjectUnresolved, ks', rng'))
                     else (Err e, ks', rng'))))"

definition resolve_and_seal ::
  "pipeline \<Rightarrow> action_record \<Rightarrow> stamp \<Rightarrow> string \<Rightarrow> key_files \<Rightarrow> rng \<Rightarrow>
     (subject_ref list \<times> body, core_error) result \<times> key_files \<times> rng" where
  "resolve_and_seal pl rec st text ks rng =
     (case pl_resolver pl rec of
        Unavailable _ \<Rightarrow> (Err SubjectUnresolved, ks, rng)
      | RefusedRecord reason \<Rightarrow> (Err (invalid reason), ks, rng)
      | Resolved resolved \<Rightarrow>
          (case check_subjects rec resolved of
             Err e \<Rightarrow> (Err e, ks, rng)
           | Ok _ \<Rightarrow>
               (case seal_body pl rec resolved st text ks rng of
                  (Err e, ks', rng') \<Rightarrow> (Err e, ks', rng')
                | (Ok sealed, ks', rng') \<Rightarrow> (Ok (resolved, sealed), ks', rng'))))"

text \<open>The pseudo-subject whose key wraps a body held back on one date.\<close>

definition quarantine_subject :: "string \<Rightarrow> (subject_hash, core_error) result" where
  "quarantine_subject date =
     (let digits = take 64 (hex_encode (''quarantine/'' @ date));
          padded = digits @ replicate (64 - length digits) (CHR ''0'')
      in map_err CoreInvalid (subject_hash_try_from (''s_'' @ padded)))"

section \<open>Lemmas\<close>

lemma map_err_eq_Err [simp]: "map_err f r = Err e \<longleftrightarrow> (\<exists>x. r = Err x \<and> e = f x)"
  by (cases r) auto

lemma canonical_entity_Ok:
  "canonical_entity pl e = Ok e' \<longleftrightarrow>
     (\<exists>i. canonicalise (pl_case pl) (pl_registry pl) (ent_kind e) (ent_id e) = Ok i \<and> e' = e\<lparr>ent_id := i\<rparr>)"
  by (auto simp: canonical_entity_def)

lemma validated_Ok:
  assumes "validated pl rec text = Ok valid"
  obtains ents where "try_map (canonical_entity pl) (entities rec) = Ok ents"
    "valid = rec\<lparr>entities := ents, summary := (case data_class rec of Internal \<Rightarrow> text | SubjectDerived \<Rightarrow> [])\<rparr>"
    "validate rec = Ok ()" "data_class rec = SubjectDerived \<longrightarrow> accepts (pl_writes pl)"
    "redaction_policy rec = redaction_name (pl_redaction pl)"
    "redaction_first_match (pl_alphabetic pl) (pl_redaction pl) text = None"
    "validate_frontmatter (pl_attrs pl) (action rec) (attrs rec) = Ok ()"
    "\<forall>names. outcomes_for (pl_attrs pl) (action rec) = Some names \<longrightarrow> outcome_str (outcome rec) \<in> set names"
  using assms by (auto simp: validated_def Let_def split: if_splits option.splits)

lemma canonical_entity_Err: "canonical_entity pl e = Err x \<Longrightarrow> \<exists>y. x = CoreInvalid y"
  by (auto simp: canonical_entity_def and_then_eq_Err)

lemma try_map_Err: "try_map f xs = Err e \<Longrightarrow> \<exists>x \<in> set xs. f x = Err e"
  by (induction xs) (auto simp: and_then_eq_Err)

lemma validated_Err:
  assumes "validated pl rec text = Err e" shows "\<exists>y. e = CoreInvalid y"
proof -
  have "try_map (canonical_entity pl) (entities rec) = Err e \<Longrightarrow> \<exists>y. e = CoreInvalid y"
    using try_map_Err [of "canonical_entity pl" "entities rec" e] canonical_entity_Err by metis
  with assms show ?thesis
    unfolding validated_def Let_def
    by (auto simp: and_then_eq_Err invalid_def split: if_splits option.splits)
qed

lemma tombstoned_True: "tombstoned pl ks subs = Ok True \<Longrightarrow> \<exists>s \<in> set subs. is_tombstoned (pl_keys pl) ks s = Ok True"
  by (induction subs) (auto split: if_splits)

lemma tombstoned_single: "tombstoned pl ks [s] = Ok True \<longleftrightarrow> is_tombstoned (pl_keys pl) ks s = Ok True"
  by (cases "is_tombstoned (pl_keys pl) ks s") auto

lemma tombstoned_Err: "tombstoned pl ks subs = Err e \<Longrightarrow> e = SubjectUnresolved"
  by (induction subs) (auto simp: and_then_eq_Err split: if_splits)

lemma seal_error_not_invalid: "seal_error x \<noteq> CoreInvalid y"
  by (cases x) simp_all

lemma seal_for_Ok:
  "seal_for pl rid subs ep text ks rng = (Ok sb, ks', rng') \<longleftrightarrow>
     seal (fs_mint (pl_keys pl) (pl_meanwhile pl)) (pl_crates pl) rid subs ep text ks rng = (Ok sb, ks', rng')"
  by (auto simp: seal_for_def split: prod.splits)

lemma seal_for_Err: "seal_for pl rid subs ep text ks rng = (Err e, ks', rng') \<Longrightarrow> \<exists>x. e = seal_error x"
  by (auto simp: seal_for_def split: prod.splits)

lemma check_subjects_Ok:
  "check_subjects rec resolved = Ok () \<longleftrightarrow>
     (case data_class rec of Internal \<Rightarrow> resolved = [] | SubjectDerived \<Rightarrow> length resolved = 1)"
  by (cases resolved; cases "tl resolved"; cases "data_class rec") (simp_all add: check_subjects_def)

lemma seal_body_Ok:
  assumes "seal_body pl rec resolved st text ks rng = (Ok b, ks', rng')"
  obtains (plain) "data_class rec = Internal" "b = Plain text" "ks' = ks" "rng' = rng"
  | (erased) "data_class rec = SubjectDerived" "b = Plain []" "ks' = ks" "rng' = rng"
      "tombstoned pl ks (map subj_hash resolved) = Ok True"
  | (erased_meanwhile) "data_class rec = SubjectDerived" "b = Plain []"
      "tombstoned pl ks' (map subj_hash resolved) = Ok True"
  | (sealed) sb where "data_class rec = SubjectDerived" "b = Sealed sb"
      "seal (fs_mint (pl_keys pl) (pl_meanwhile pl)) (pl_crates pl) (record_id rec) (map subj_hash resolved)
         (epoch_containing (stamp_ms st)) text ks rng = (Ok sb, ks', rng')"
proof (cases "data_class rec")
  case Internal
  with assms show ?thesis by (intro plain) (simp_all add: seal_body_def)
next
  case SubjectDerived
  let ?subs = "map subj_hash resolved"
  obtain r ks1 rng1 where s: "seal_for pl (record_id rec) ?subs (epoch_containing (stamp_ms st)) text ks rng = (r, ks1, rng1)"
    by (metis prod_cases3)
  show ?thesis
  proof (cases "tombstoned pl ks ?subs")
    case (Ok gone)
    with assms SubjectDerived s show ?thesis
      by (cases gone; cases r)
        (auto simp: seal_body_def Let_def seal_for_Ok split: if_splits intro: erased erased_meanwhile sealed)
  qed (use assms SubjectDerived in \<open>simp add: seal_body_def Let_def\<close>)
qed

lemma seal_body_Err:
  assumes "seal_body pl rec resolved st text ks rng = (Err e, ks', rng')"
  shows "e = SubjectUnresolved \<or> (\<exists>x. e = seal_error x)"
proof -
  let ?subs = "map subj_hash resolved"
  obtain r ks1 rng1 where s: "seal_for pl (record_id rec) ?subs (epoch_containing (stamp_ms st)) text ks rng = (r, ks1, rng1)"
    by (metis prod_cases3)
  have derived: "data_class rec \<noteq> Internal" using assms by (auto simp: seal_body_def)
  show ?thesis
  proof (cases "tombstoned pl ks ?subs")
    case (Ok gone)
    with assms derived s have r: "gone = False" "r = Err e \<or> e = SubjectUnresolved"
      by (cases gone; cases r; auto simp: seal_body_def Let_def split: if_splits)+
    with s seal_for_Err show ?thesis by blast
  next
    case (Err x)
    with assms derived tombstoned_Err [OF Err] show ?thesis by (simp add: seal_body_def Let_def)
  qed
qed

definition quarantine_digits :: "string \<Rightarrow> string" where
  "quarantine_digits date =
     (let digits = take 64 (hex_encode (''quarantine/'' @ date)) in digits @ replicate (64 - length digits) (CHR ''0''))"

lemma quarantine_digits_hex: "list_all is_lower_hex (quarantine_digits date)" "length (quarantine_digits date) = 64"
proof -
  have "list_all is_lower_hex (hex_encode (''quarantine/'' @ date))" by (rule hex_encode_digits)
  moreover have "is_lower_hex (CHR ''0'')" by (simp add: is_lower_hex_def)
  ultimately show "list_all is_lower_hex (quarantine_digits date)"
    by (auto simp: quarantine_digits_def Let_def list_all_iff dest: in_set_takeD)
  show "length (quarantine_digits date) = 64" by (simp add: quarantine_digits_def Let_def)
qed

lemma quarantine_subject_Ok:
  "\<exists>h. quarantine_subject date = Ok h \<and> valid_subject_hash h \<and> subject_hash_str h = ''s_'' @ quarantine_digits date"
proof -
  let ?h = "SubjectHash (''s_'' @ quarantine_digits date)"
  have "valid_subject_hash ?h" using quarantine_digits_hex [of date] by (simp add: valid_subject_hash_def)
  then have "subject_hash_try_from (''s_'' @ quarantine_digits date) = Ok ?h"
    by (simp add: subject_hash_try_from_Ok_iff)
  then show ?thesis
    using \<open>valid_subject_hash ?h\<close> by (simp add: quarantine_subject_def quarantine_digits_def Let_def)
qed

lemma quarantine_digits_inject:
  assumes "length date = length date'" "length date \<le> 21"
  shows "quarantine_digits date = quarantine_digits date' \<longleftrightarrow> date = date'"
proof -
  have "quarantine_digits d = hex_encode (''quarantine/'' @ d) @ replicate (64 - (22 + 2 * length d)) (CHR ''0'')"
    if "length d \<le> 21" for d
    using that by (simp add: quarantine_digits_def Let_def hex_encode_digits(2))
  with assms show ?thesis by (simp add: hex_encode_inject)
qed

section \<open>Properties\<close>

text \<open>
  What the gate admits. A record passes only as itself, with its identity, owner, time and class
  untouched, every entity reference in the canonical form its kind gives it, every attribute declared
  as structural, its body free of what the redaction policy names; a subject-derived one only where
  the store is declared to accept the class, and never with its prose in the frontmatter.
\<close>

theorem admitted_record:
  assumes "validated pl rec text = Ok valid"
  shows "valid = rec\<lparr>entities := entities valid, summary := (if data_class rec = Internal then text else [])\<rparr>
    \<and> list_all2 (\<lambda>e e'. canonicalise (pl_case pl) (pl_registry pl) (ent_kind e) (ent_id e) = Ok (ent_id e')
        \<and> e' = e\<lparr>ent_id := ent_id e'\<rparr>) (entities rec) (entities valid)
    \<and> list_all (\<lambda>(key, _). class_of (pl_attrs pl) (action rec) key = Ok Structural) (attrs valid)
    \<and> redaction_first_match (pl_alphabetic pl) (pl_redaction pl) text = None
    \<and> (data_class valid = Internal \<or> accepts (pl_writes pl))
    \<and> validate rec = Ok ()"
proof -
  obtain ents where v: "try_map (canonical_entity pl) (entities rec) = Ok ents"
    "valid = rec\<lparr>entities := ents, summary := (case data_class rec of Internal \<Rightarrow> text | SubjectDerived \<Rightarrow> [])\<rparr>"
    "validate rec = Ok ()" "data_class rec = SubjectDerived \<longrightarrow> accepts (pl_writes pl)"
    "redaction_first_match (pl_alphabetic pl) (pl_redaction pl) text = None"
    "validate_frontmatter (pl_attrs pl) (action rec) (attrs rec) = Ok ()"
    using validated_Ok [OF assms] by metis
  have checked: "check_key (action rec) (bt_get (actions (pl_attrs pl)) (action rec)) key = Ok ()" if "(key, v) \<in> set (attrs rec)" for key v
    using v(6) that by (force simp: validate_frontmatter_def Let_def try_all_Ok_iff)
  have key: "class_of (pl_attrs pl) (action rec) key = Ok Structural" if "(key, v) \<in> set (attrs rec)" for key v
  proof -
    from checked [OF that]
    obtain c where "class_of (pl_attrs pl) (action rec) key = Ok c"
      "(case c of Structural \<Rightarrow> Ok () | Sensitive \<Rightarrow> Err (SensitiveAttrInFrontmatter key)) = Ok ()"
      unfolding check_key_class_of by auto
    then show ?thesis by (cases c) simp_all
  qed
  moreover have "list_all2 (\<lambda>e e'. canonicalise (pl_case pl) (pl_registry pl) (ent_kind e) (ent_id e) = Ok (ent_id e')
        \<and> e' = e\<lparr>ent_id := ent_id e'\<rparr>) (entities rec) ents"
    using v(1) by (auto simp: try_map_Ok_iff canonical_entity_Ok elim: list_all2_mono)
  ultimately show ?thesis
    using v(2-5) key by (cases "data_class rec") (auto simp: list_all_iff)
qed

section \<open>A sample pipeline\<close>

definition sample_pipeline :: pipeline where
  "sample_pipeline = \<lparr>pl_root = ''/m'', pl_keys = sample_store, pl_meanwhile = id,
     pl_resolver = declared_subjects, pl_writes = EnabledWrites, pl_registry = sample_registry,
     pl_attrs = \<lparr>actions = []\<rparr>, pl_redaction = \<lparr>red_policy = Some \<lparr>policy_name = ''v1'', patterns = []\<rparr>\<rparr>,
     pl_case = ascii_case, pl_alphabetic = (\<lambda>_. False), pl_crates = sample_seal_crates,
     pl_floats = sample_floats, pl_epoch_ms = (\<lambda>_. Some 0)\<rparr>"

lemma sample_canonical: "canonicalise ascii_case sample_registry ''ticket'' ''PROJ-42'' = Ok ''PROJ-42''"
  by code_simp

lemma sample_stamp_parse: "stamp_parse ''2026-01-01T00:00:00Z'' = Some sample_stamp"
proof -
  have "civil_from_ms 1767225600000 = (2026, 1, 1)" by code_simp
  then show ?thesis by (simp add: stamp_parse_def sample_timestamp sample_stamp_def)
qed

lemma sample_validated:
  "validated sample_pipeline sample_record ''body'' = Ok (sample_record\<lparr>summary := ''body''\<rparr>)"
  "validated sample_pipeline sample_sealed ''body'' = Ok (sample_sealed\<lparr>summary := []\<rparr>)"
proof -
  have f: "at_time r = ''2026-01-01T00:00:00Z''" "attrs r = []" "redaction_policy r = ''v1''"
    "entities r = [\<lparr>ent_kind = ''ticket'', ent_id = ''PROJ-42'', ent_role = Primary, ent_confidence = F32 1\<rparr>]"
    if "r = sample_record \<or> r = sample_sealed" for r
    using that by (auto simp: sample_sealed_def sample_record_def)
  have e: "try_map (canonical_entity sample_pipeline) (entities r) = Ok (entities r)"
    if "r = sample_record \<or> r = sample_sealed" for r
    using f [OF that] by (simp add: canonical_entity_def sample_pipeline_def sample_canonical)
  have v: "validate r = Ok ()" if "r = sample_record \<or> r = sample_sealed" for r
    using that sample_record_valid by auto
  have "validated sample_pipeline r ''body'' = Ok (r\<lparr>summary := (case data_class r of Internal \<Rightarrow> ''body'' | SubjectDerived \<Rightarrow> [])\<rparr>)"
    if "r = sample_record \<or> r = sample_sealed" for r
    using f [OF that] v [OF that] e [OF that]
    by (simp add: validated_def sample_stamp_parse Let_def)
      (simp add: sample_pipeline_def validate_frontmatter_def outcomes_for_def redaction_name_def
        redaction_first_match_def first_match_def)
  from this [of sample_record] this [of sample_sealed]
  show "validated sample_pipeline sample_record ''body'' = Ok (sample_record\<lparr>summary := ''body''\<rparr>)"
    "validated sample_pipeline sample_sealed ''body'' = Ok (sample_sealed\<lparr>summary := []\<rparr>)"
    by (simp_all add: sample_sealed_def sample_record_def)
qed

theorem admitted_record_witness:
  "\<exists>valid. validated sample_pipeline sample_sealed ''body'' = Ok valid
     \<and> valid = sample_sealed\<lparr>entities := entities valid, summary := []\<rparr>"
  using admitted_record [OF sample_validated(2)] sample_validated(2)
  by (simp add: sample_sealed_def sample_record_def)

end
