(* ===== verification/Pipeline.thy ===== *)
theory Pipeline
  imports Intake Index
begin

text \<open>
  \<open>yaam-core/src/pipeline.rs\<close>, the write path. \<open>store\<close> is what is on disk, the tree and the index and the
  key files, and the random bytes still to come; a file is its text and the mode it was created with.
  \<open>pl_refuses\<close> says which step of the file system fails, and how: a failure and a crash at a step leave
  the same store. A file the store writes is written whole, and a transaction of the index that fails, wherever
  it fails, leaves no row. \<open>clock\<close> is SQLite's clock.
\<close>

type_synonym text_file = "string \<times> nat option"

record store =
  st_records :: "(string list \<times> text_file) list"
  st_private :: "string list list"                \<comment> \<open>directories restricted to their owner\<close>
  st_staging :: "(string \<times> text_file) list"        \<comment> \<open>by record\<close>
  st_spool :: "(string \<times> text_file) list"          \<comment> \<open>the quarantine, by record\<close>
  st_index :: index
  st_key_files :: key_files
  st_rng :: rng

datatype tree_op =
    StageFile string
  | MakeDirs "string list"
  | RenameFile "string list"
  | SpoolFile string
  | UnspoolFile string
  | IndexRows string                              \<comment> \<open>the batch that publishes a record\<close>
  | SpoolRow string
  | UnspoolRow string

record write_path = pipeline +
  pl_refuses :: "tree_op \<Rightarrow> io_failure option"
  pl_clock :: int

datatype accepted = Stored record_id | Duplicate record_id | Quarantined record_id

definition attempt :: "write_path \<Rightarrow> tree_op \<Rightarrow> (unit, core_error) result" where
  "attempt pl op = (case pl_refuses pl op of None \<Rightarrow> Ok () | Some e \<Rightarrow> Err (CoreIo e))"

definition attempt_rows :: "write_path \<Rightarrow> tree_op \<Rightarrow> (unit, core_error) result" where
  "attempt_rows pl op = (if pl_refuses pl op = None then Ok () else Err (CoreStore SqliteFailed))"

section \<open>What the index is given\<close>

definition subject_keys :: "document \<Rightarrow> (subject_hash \<times> string \<times> string) list" where
  "subject_keys d =
     (case doc_body d of
        Plain _ \<Rightarrow> []
      | Sealed sb \<Rightarrow>
          map (\<lambda>s. (ws_subject s, epoch_str (sb_epoch sb), ws_bytes s))
            (filter (\<lambda>s. list_ex (\<lambda>x. subj_hash x = ws_subject s) (subjects (doc_record d))) (sb_shares sb)))"

definition publish_document ::
  "(string \<Rightarrow> int option) \<Rightarrow> index \<Rightarrow> document \<Rightarrow> (index, core_error) result" where
  "publish_document epoch_ms idx d =
     map_err CoreStore (publish epoch_ms idx
       \<lparr>pi_record = doc_record d, pi_searchable_body = searchable_text d, pi_subject_keys = subject_keys d\<rparr>)"

section \<open>Steps\<close>

definition published_path :: "action_record \<Rightarrow> stamp \<Rightarrow> (string list, core_error) result" where
  "published_path rec st = record_relative rec st"

definition stage :: "write_path \<Rightarrow> document \<Rightarrow> store \<Rightarrow> (unit, core_error) result \<times> store" where
  "stage pl d w =
     (case attempt pl (StageFile (doc_id (doc_record d))) of
        Err e \<Rightarrow> (Err e, w)
      | Ok _ \<Rightarrow>
          (Ok (), w\<lparr>st_staging := AList.update (doc_id (doc_record d))
             (doc_render (pl_floats pl) d, record_mode (doc_record d)) (st_staging w)\<rparr>))"

text \<open>\<open>create_record_dirs\<close>: the loop up from the file's directory to the owner's, and one level more.\<close>

function private_dirs :: "string list \<Rightarrow> string list \<Rightarrow> string list list" where
  "private_dirs owner_root dir =
     (if dir \<noteq> [] \<and> take (length owner_root) dir = owner_root then dir # private_dirs owner_root (butlast dir)
      else [dir])"
  by pat_completeness auto
termination by (relation "measure (\<lambda>(r, d). length d)") auto

declare private_dirs.simps [simp del]

definition create_record_dirs ::
  "write_path \<Rightarrow> action_record \<Rightarrow> string list \<Rightarrow> store \<Rightarrow> (unit, core_error) result \<times> store" where
  "create_record_dirs pl rec parent w =
     (case owner_relative rec of
        Err e \<Rightarrow> (Err e, w)
      | Ok None \<Rightarrow> (attempt pl (MakeDirs parent), w)
      | Ok (Some owner_root) \<Rightarrow>
          (case attempt pl (MakeDirs parent) of
             Err e \<Rightarrow> (Err e, w)
           | Ok _ \<Rightarrow> (Ok (), w\<lparr>st_private := private_dirs owner_root parent @ st_private w\<rparr>)))"

definition place :: "write_path \<Rightarrow> document \<Rightarrow> stamp \<Rightarrow> store \<Rightarrow> (unit, core_error) result \<times> store" where
  "place pl d st w =
     (case published_path (doc_record d) st of
        Err e \<Rightarrow> (Err e, w)
      | Ok destination \<Rightarrow>
          (case create_record_dirs pl (doc_record d) (butlast destination) w of
             (Err e, w1) \<Rightarrow> (Err e, w1)
           | (Ok _, w1) \<Rightarrow>
               (case attempt pl (RenameFile destination) of
                  Err e \<Rightarrow> (Err e, w1)
                | Ok _ \<Rightarrow>
                    (case map_of (st_staging w1) (doc_id (doc_record d)) of
                       Some staged \<Rightarrow>
                         (Ok (), w1\<lparr>st_staging := AList.delete (doc_id (doc_record d)) (st_staging w1),
                            st_records := AList.update destination staged (st_records w1)\<rparr>)
                     | None \<Rightarrow>
                         if map_of (st_records w1) destination \<noteq> None then (Ok (), w1)
                         else (Err (CoreIo (IoNotFound (doc_id (doc_record d)))), w1)))))"

definition commit :: "write_path \<Rightarrow> document \<Rightarrow> store \<Rightarrow> (unit, core_error) result \<times> store" where
  "commit pl d w =
     (case publish_document (pl_epoch_ms pl) (st_index w) d of
        Err e \<Rightarrow> (Err e, w)
      | Ok idx \<Rightarrow>
          (case attempt_rows pl (IndexRows (doc_id (doc_record d))) of
             Err e \<Rightarrow> (Err e, w)
           | Ok _ \<Rightarrow> (Ok (), w\<lparr>st_index := idx\<rparr>)))"

definition spool_path :: "write_path \<Rightarrow> record_id \<Rightarrow> string" where
  "spool_path pl rid = pl_root pl @ ''/.quarantine/'' @ record_id_str rid @ ''.'' @ RECORD_EXT"

definition quarantine ::
  "write_path \<Rightarrow> action_record \<Rightarrow> stamp \<Rightarrow> string \<Rightarrow> store \<Rightarrow> (unit, core_error) result \<times> store" where
  "quarantine pl rec st text w =
     (let date = stamp_date st
      in (case quarantine_subject date of
            Err e \<Rightarrow> (Err e, w)
          | Ok subject \<Rightarrow>
              (case seal_for (pipeline.truncate pl) (record_id rec) [subject] (epoch_containing (stamp_ms st)) text
                      (st_key_files w) (st_rng w) of
                 (Err e, ks, rng) \<Rightarrow> (Err e, w\<lparr>st_key_files := ks, st_rng := rng\<rparr>)
               | (Ok sealed, ks, rng) \<Rightarrow>
                   let w1 = w\<lparr>st_key_files := ks, st_rng := rng\<rparr>
                   in (case attempt pl (SpoolFile (doc_id rec)) of
                         Err e \<Rightarrow> (Err e, w1)
                       | Ok _ \<Rightarrow>
                           let w2 = w1\<lparr>st_spool := AList.update (doc_id rec)
                              (doc_render (pl_floats pl) \<lparr>doc_record = rec, doc_body = Sealed sealed\<rparr>, None)
                              (st_spool w1)\<rparr>
                           in (case attempt_rows pl (SpoolRow (doc_id rec)) of
                                 Err e \<Rightarrow> (Err e, w2)
                               | Ok _ \<Rightarrow>
                                   (Ok (), w2\<lparr>st_index := enqueue_quarantine (pl_clock pl) (doc_id rec) date
                                      (spool_path pl (record_id rec)) (st_index w2)\<rparr>))))))"

definition dequeue_settled :: "write_path \<Rightarrow> string \<Rightarrow> store \<Rightarrow> (unit, core_error) result \<times> store" where
  "dequeue_settled pl rid w =
     (case attempt_rows pl (UnspoolRow rid) of
        Err e \<Rightarrow> (Err e, w)
      | Ok _ \<Rightarrow> (Ok (), w\<lparr>st_index := dequeue_quarantine rid (st_index w)\<rparr>))"

definition settle_quarantine :: "write_path \<Rightarrow> record_id \<Rightarrow> store \<Rightarrow> (unit, core_error) result \<times> store" where
  "settle_quarantine pl rid w =
     (if map_of (st_spool w) (record_id_str rid) \<noteq> None
      then (case attempt pl (UnspoolFile (record_id_str rid)) of
              Err e \<Rightarrow> (Err e, w)
            | Ok _ \<Rightarrow> dequeue_settled pl (record_id_str rid) (w\<lparr>st_spool := AList.delete (record_id_str rid) (st_spool w)\<rparr>))
      else dequeue_settled pl (record_id_str rid) w)"

section \<open>Accepting a record\<close>

text \<open>Steps two and three, for a document whose body is settled.\<close>

definition store_document ::
  "write_path \<Rightarrow> document \<Rightarrow> stamp \<Rightarrow> store \<Rightarrow> (unit, core_error) result \<times> store" where
  "store_document pl d st w =
     (case stage pl d w of
        (Err e, w1) \<Rightarrow> (Err e, w1)
      | (Ok _, w1) \<Rightarrow>
          (case place pl d st w1 of
             (Err e, w2) \<Rightarrow> (Err e, w2)
           | (Ok _, w2) \<Rightarrow>
               (case commit pl d w2 of
                  (Err e, w3) \<Rightarrow> (Err e, w3)
                | (Ok _, w3) \<Rightarrow> settle_quarantine pl (record_id (doc_record d)) w3)))"

definition accept ::
  "write_path \<Rightarrow> action_record \<Rightarrow> string \<Rightarrow> store \<Rightarrow> (accepted, core_error) result \<times> store" where
  "accept pl rec text w =
     (case and_then (stamp_of rec) (\<lambda>st. and_then (published_path rec st) (\<lambda>path. Ok (st, path))) of
        Err e \<Rightarrow> (Err e, w)
      | Ok (st, path) \<Rightarrow>
          if map_of (st_records w) path \<noteq> None then (Ok (Duplicate (record_id rec)), w)
          else
            (case validated (pipeline.truncate pl) rec text of
               Err e \<Rightarrow> (Err e, w)
             | Ok valid \<Rightarrow>
                 (case resolve_and_seal (pipeline.truncate pl) valid st text (st_key_files w) (st_rng w) of
                    (Ok (subs, sealed), ks, rng) \<Rightarrow>
                      (case store_document pl \<lparr>doc_record = valid\<lparr>subjects := subs\<rparr>, doc_body = sealed\<rparr> st
                              (w\<lparr>st_key_files := ks, st_rng := rng\<rparr>) of
                         (Err e, w') \<Rightarrow> (Err e, w')
                       | (Ok _, w') \<Rightarrow> (Ok (Stored (record_id rec)), w'))
                  | (Err e, ks, rng) \<Rightarrow>
                      let w1 = w\<lparr>st_key_files := ks, st_rng := rng\<rparr>
                      in if e = SubjectUnresolved
                         then (case quarantine pl valid st text w1 of
                                 (Err e', w2) \<Rightarrow> (Err e', w2)
                               | (Ok _, w2) \<Rightarrow> (Ok (Quarantined (record_id rec)), w2))
                         else (Err e, w1))))"

section \<open>Lemmas\<close>

abbreviation in_tree :: "store \<Rightarrow> string list \<Rightarrow> bool" where
  "in_tree w path \<equiv> map_of (st_records w) path \<noteq> None"

lemma accept_elim [consumes 1, case_names unplaced duplicate invalid stored store_failed held hold_failed refused]:
  assumes "accept pl rec text w = (r, w')"
  obtains (unplaced) e where "r = Err e" "w' = w"
      "and_then (stamp_of rec) (\<lambda>st. and_then (record_relative rec st) (\<lambda>path. Ok (st, path))) = Err e"
  | (duplicate) st path where "stamp_of rec = Ok st" "record_relative rec st = Ok path" "in_tree w path"
      "r = Ok (Duplicate (record_id rec))" "w' = w"
  | (invalid) st path e where "stamp_of rec = Ok st" "record_relative rec st = Ok path" "\<not> in_tree w path"
      "validated (pipeline.truncate pl) rec text = Err e" "r = Err e" "w' = w"
  | (stored) st path valid subs b ks rng where "stamp_of rec = Ok st" "record_relative rec st = Ok path"
      "\<not> in_tree w path" "validated (pipeline.truncate pl) rec text = Ok valid"
      "resolve_and_seal (pipeline.truncate pl) valid st text (st_key_files w) (st_rng w) = (Ok (subs, b), ks, rng)"
      "store_document pl \<lparr>doc_record = valid\<lparr>subjects := subs\<rparr>, doc_body = b\<rparr> st
         (w\<lparr>st_key_files := ks, st_rng := rng\<rparr>) = (Ok (), w')"
      "r = Ok (Stored (record_id rec))"
  | (store_failed) st path valid subs b ks rng e where "stamp_of rec = Ok st" "record_relative rec st = Ok path"
      "\<not> in_tree w path" "validated (pipeline.truncate pl) rec text = Ok valid"
      "resolve_and_seal (pipeline.truncate pl) valid st text (st_key_files w) (st_rng w) = (Ok (subs, b), ks, rng)"
      "store_document pl \<lparr>doc_record = valid\<lparr>subjects := subs\<rparr>, doc_body = b\<rparr> st
         (w\<lparr>st_key_files := ks, st_rng := rng\<rparr>) = (Err e, w')"
      "r = Err e"
  | (held) st path valid ks rng where "stamp_of rec = Ok st" "record_relative rec st = Ok path"
      "\<not> in_tree w path" "validated (pipeline.truncate pl) rec text = Ok valid"
      "resolve_and_seal (pipeline.truncate pl) valid st text (st_key_files w) (st_rng w) = (Err SubjectUnresolved, ks, rng)"
      "quarantine pl valid st text (w\<lparr>st_key_files := ks, st_rng := rng\<rparr>) = (Ok (), w')"
      "r = Ok (Quarantined (record_id rec))"
  | (hold_failed) st path valid ks rng e where "stamp_of rec = Ok st" "record_relative rec st = Ok path"
      "\<not> in_tree w path" "validated (pipeline.truncate pl) rec text = Ok valid"
      "resolve_and_seal (pipeline.truncate pl) valid st text (st_key_files w) (st_rng w) = (Err SubjectUnresolved, ks, rng)"
      "quarantine pl valid st text (w\<lparr>st_key_files := ks, st_rng := rng\<rparr>) = (Err e, w')" "r = Err e"
  | (refused) st path valid e ks rng where "stamp_of rec = Ok st" "record_relative rec st = Ok path"
      "\<not> in_tree w path" "validated (pipeline.truncate pl) rec text = Ok valid"
      "resolve_and_seal (pipeline.truncate pl) valid st text (st_key_files w) (st_rng w) = (Err e, ks, rng)"
      "e \<noteq> SubjectUnresolved" "r = Err e" "w' = w\<lparr>st_key_files := ks, st_rng := rng\<rparr>"
proof (cases "and_then (stamp_of rec) (\<lambda>st. and_then (record_relative rec st) (\<lambda>path. Ok (st, path)))")
  case (Err e)
  with assms show ?thesis by (intro unplaced) (simp_all add: accept_def published_path_def)
next
  case (Ok sp)
  then obtain st path where sp: "stamp_of rec = Ok st" "record_relative rec st = Ok path" "sp = (st, path)" by auto
  show ?thesis
  proof (cases "in_tree w path")
    case True
    with assms sp show ?thesis by (intro duplicate) (auto simp: accept_def published_path_def)
  next
    case new: False
    show ?thesis
    proof (cases "validated (pipeline.truncate pl) rec text")
      case (Err e)
      with assms sp new show ?thesis by (intro invalid) (auto simp: accept_def published_path_def)
    next
      case (Ok valid)
      note start = sp(1,2) new Ok
      obtain rs ks rng where rs: "resolve_and_seal (pipeline.truncate pl) valid st text (st_key_files w) (st_rng w) = (rs, ks, rng)"
        by (metis prod_cases3)
      have a: "accept pl rec text w =
         (case rs of
            Ok (subs, sealed) \<Rightarrow>
              (case store_document pl \<lparr>doc_record = valid\<lparr>subjects := subs\<rparr>, doc_body = sealed\<rparr> st
                      (w\<lparr>st_key_files := ks, st_rng := rng\<rparr>) of
                 (Err e, w') \<Rightarrow> (Err e, w') | (Ok _, w') \<Rightarrow> (Ok (Stored (record_id rec)), w'))
          | Err e \<Rightarrow>
              if e = SubjectUnresolved
              then (case quarantine pl valid st text (w\<lparr>st_key_files := ks, st_rng := rng\<rparr>) of
                      (Err e', w2) \<Rightarrow> (Err e', w2) | (Ok _, w2) \<Rightarrow> (Ok (Quarantined (record_id rec)), w2))
              else (Err e, w\<lparr>st_key_files := ks, st_rng := rng\<rparr>))"
        using start rs by (simp add: accept_def published_path_def Let_def split: result.split)
      show ?thesis
      proof (cases rs)
        case (Ok sb)
        obtain subs b where sb: "sb = (subs, b)" by fastforce
        obtain o1 w1 where "store_document pl \<lparr>doc_record = valid\<lparr>subjects := subs\<rparr>, doc_body = b\<rparr> st
           (w\<lparr>st_key_files := ks, st_rng := rng\<rparr>) = (o1, w1)" by fastforce
        with a assms Ok sb start rs show ?thesis
          by (cases o1) (auto intro: stored store_failed)
      next
        case (Err e)
        obtain o1 w1 where "quarantine pl valid st text (w\<lparr>st_key_files := ks, st_rng := rng\<rparr>) = (o1, w1)" by fastforce
        with a assms Err start rs show ?thesis
          by (cases "e = SubjectUnresolved"; cases o1) (auto intro: held hold_failed refused)
      qed
    qed
  qed
qed

text \<open>What publishing puts in the index.\<close>

lemma publish_rows:
  assumes "publish epoch_ms idx input = Ok idx'"
  shows "fst ` set (record_rows idx') = insert (doc_id (pi_record input)) (fst ` set (record_rows idx))"
    and "quarantine_pending idx' = quarantine_pending idx"
proof -
  from publish_parts [OF assms] obtain idx1 row rows where
    p: "insert_record epoch_ms idx (pi_record input) (pi_searchable_body input) = Ok idx1"
    "map_of (record_rows idx1) (doc_id (pi_record input)) = Some row"
    "idx' = enqueue_fanout (pi_record input) (rec_received_ms row)
       ((insert_entities (rec_pk row) (rec_received_ms row) (pi_record input)
         (insert_attrs (rec_pk row) (pi_record input) idx1))\<lparr>record_subjects := rows\<rparr>)" by metis
  have rows: "record_rows idx' = record_rows idx1" "quarantine_pending idx' = quarantine_pending idx1"
    using p(3) by (simp_all add: enqueue_fanout_def Let_def)
  have "doc_id (pi_record input) \<in> fst ` set (record_rows idx1)"
    using map_of_SomeD [OF p(2)] by force
  then show "fst ` set (record_rows idx') = insert (doc_id (pi_record input)) (fst ` set (record_rows idx))"
    using p(1) unfolding rows insert_record_def Let_def by (auto split: if_splits option.splits)
  show "quarantine_pending idx' = quarantine_pending idx"
    using p(1) unfolding rows insert_record_def Let_def by (auto split: if_splits option.splits)
qed

lemma publish_document_Ok:
  "publish_document epoch_ms idx d = Ok idx' \<Longrightarrow> publish epoch_ms idx
     \<lparr>pi_record = doc_record d, pi_searchable_body = searchable_text d, pi_subject_keys = subject_keys d\<rparr> = Ok idx'"
  by (simp add: publish_document_def)

lemma create_record_dirs_frame:
  "create_record_dirs pl rec parent w = (r, w') \<Longrightarrow> \<exists>dirs. w' = w\<lparr>st_private := dirs @ st_private w\<rparr>"
  by (auto simp: create_record_dirs_def split: result.splits option.splits intro: exI [of _ "[]"])

text \<open>The file a document becomes.\<close>

definition file_of :: "write_path \<Rightarrow> document \<Rightarrow> text_file" where
  "file_of pl d = (doc_render (pl_floats pl) d, record_mode (doc_record d))"

text \<open>
  How far \<open>store_document\<close> got: nothing but the staged copy, the file in the tree as well, or the index
  row as well.
\<close>

datatype progress = NotPlaced | Placed | Indexed

definition reached :: "write_path \<Rightarrow> document \<Rightarrow> string list \<Rightarrow> store \<Rightarrow> store \<Rightarrow> progress \<Rightarrow> bool" where
  "reached pl d path w w' g \<longleftrightarrow>
     st_key_files w' = st_key_files w \<and> st_rng w' = st_rng w
     \<and> (\<forall>i f. map_of (st_staging w') i = Some f \<longrightarrow> map_of (st_staging w) i = Some f \<or> f = file_of pl d)
     \<and> (case g of
          NotPlaced \<Rightarrow> st_records w' = st_records w \<and> st_index w' = st_index w \<and> st_spool w' = st_spool w
        | Placed \<Rightarrow> st_records w' = AList.update path (file_of pl d) (st_records w)
            \<and> st_index w' = st_index w \<and> st_spool w' = st_spool w
        | Indexed \<Rightarrow> st_records w' = AList.update path (file_of pl d) (st_records w)
            \<and> map_of (st_staging w') (doc_id (doc_record d)) = None
            \<and> (\<exists>idx. publish_document (pl_epoch_ms pl) (st_index w) d = Ok idx
                 \<and> (st_index w' = idx \<or> st_index w' = dequeue_quarantine (doc_id (doc_record d)) idx)
                 \<and> (st_spool w' = st_spool w
                    \<or> map_of (st_spool w') = (map_of (st_spool w)) (doc_id (doc_record d) := None))))"

lemma store_document_reaches:
  assumes "store_document pl d st w = (r, w')" "record_relative (doc_record d) st = Ok path"
  shows "\<exists>g. reached pl d path w w' g
    \<and> (r = Ok () \<longrightarrow> g = Indexed \<and> map_of (st_spool w') (doc_id (doc_record d)) = None
        \<and> doc_id (doc_record d) \<notin> fst ` set (quarantine_pending (st_index w')))"
proof -
  let ?id = "doc_id (doc_record d)"
  obtain r1 w1 where s1: "stage pl d w = (r1, w1)" by fastforce
  show ?thesis
  proof (cases r1)
    case (Err e)
    with s1 have "w1 = w" by (auto simp: stage_def split: result.splits)
    with assms s1 Err have "w' = w" "r = Err e" by (simp_all add: store_document_def)
    then show ?thesis by (intro exI [of _ NotPlaced]) (simp add: reached_def)
  next
    case (Ok u)
    with s1 have w1: "w1 = w\<lparr>st_staging := AList.update ?id (file_of pl d) (st_staging w)\<rparr>"
      by (auto simp: stage_def file_of_def split: result.splits)
    obtain r2 w2 where s2: "place pl d st w1 = (r2, w2)" by fastforce
    obtain rd wd where dirs: "create_record_dirs pl (doc_record d) (butlast path) w1 = (rd, wd)" by fastforce
    then obtain ds where wd: "wd = w1\<lparr>st_private := ds @ st_private w1\<rparr>" using create_record_dirs_frame by blast
    have staged: "map_of (st_staging wd) ?id = Some (file_of pl d)" by (simp add: wd w1 update_conv')
    show ?thesis
    proof (cases r2)
      case (Err e)
      with s2 assms(2) dirs staged have "w2 = wd"
        by (auto simp: place_def published_path_def split: result.splits)
      with assms(1) s1 s2 Ok Err have "w' = wd" "r = Err e" by (simp_all add: store_document_def)
      then show ?thesis by (intro exI [of _ NotPlaced]) (simp add: reached_def wd w1 update_conv')
    next
      case placed: (Ok u2)
      with s2 assms(2) dirs staged have
        w2: "w2 = wd\<lparr>st_staging := AList.delete ?id (st_staging wd),
            st_records := AList.update path (file_of pl d) (st_records wd)\<rparr>"
        by (auto simp: place_def published_path_def split: result.splits)
      then have gone: "map_of (st_staging w2) ?id = None" by (simp add: delete_conv')
      obtain r3 w3 where s3: "commit pl d w2 = (r3, w3)" by fastforce
      show ?thesis
      proof (cases r3)
        case (Err e)
        with s3 have "w3 = w2" by (auto simp: commit_def split: result.splits)
        with assms(1) s1 s2 s3 Ok placed Err have "w' = w2" "r = Err e" by (simp_all add: store_document_def)
        then show ?thesis by (intro exI [of _ Placed]) (simp add: reached_def w2 wd w1 delete_conv' update_conv')
      next
        case committed: (Ok u3)
        with s3 obtain idx where idx: "publish_document (pl_epoch_ms pl) (st_index w) d = Ok idx"
          and w3: "w3 = w2\<lparr>st_index := idx\<rparr>"
          by (auto simp: commit_def w2 wd w1 split: result.splits)
        from assms(1) s1 s2 s3 Ok placed committed have settle: "settle_quarantine pl (record_id (doc_record d)) w3 = (r, w')"
          by (simp add: store_document_def)
        then have w': "st_index w' = (if r = Ok () then dequeue_quarantine ?id idx else idx)"
          "st_records w' = st_records w3" "st_staging w' = st_staging w3" "st_key_files w' = st_key_files w3"
          "st_rng w' = st_rng w3" "r \<noteq> Ok () \<Longrightarrow> st_spool w' = st_spool w \<or> map_of (st_spool w') = (map_of (st_spool w)) (?id := None)"
          "r = Ok () \<Longrightarrow> map_of (st_spool w') = (map_of (st_spool w)) (?id := None)"
          by (cases "map_of (st_spool w) ?id"; cases r;
              auto simp: settle_quarantine_def dequeue_settled_def delete_conv' w3 w2 wd w1 fun_upd_idem split: if_splits result.splits)+
        with idx gone show ?thesis
          by (intro exI [of _ Indexed]) (auto simp: reached_def w3 w2 wd w1 delete_conv' update_conv' dequeue_quarantine_def)
      qed
    qed
  qed
qed

lemma validated_same_place:
  assumes "validated p rec text = Ok valid"
  shows "record_relative (valid\<lparr>subjects := subs\<rparr>) st = record_relative rec st"
    and "record_id valid = record_id rec" "data_class valid = data_class rec"
    and "summary valid = (if data_class rec = Internal then text else [])"
proof -
  obtain ents where v: "valid = rec\<lparr>entities := ents, summary := (case data_class rec of Internal \<Rightarrow> text | SubjectDerived \<Rightarrow> [])\<rparr>"
    using validated_Ok [OF assms] by metis
  show "record_relative (valid\<lparr>subjects := subs\<rparr>) st = record_relative rec st"
    "record_id valid = record_id rec" "data_class valid = data_class rec"
    "summary valid = (if data_class rec = Internal then text else [])"
    by (cases "data_class rec"; simp add: v record_relative_def)+
qed

lemma attempt_Err: "attempt pl op = Err e \<Longrightarrow> \<exists>x. e = CoreIo x"
  by (auto simp: attempt_def split: option.splits)

lemma attempt_rows_Err: "attempt_rows pl op = Err e \<Longrightarrow> e = CoreStore SqliteFailed"
  by (auto simp: attempt_rows_def split: if_splits)

lemma store_document_Err:
  assumes "store_document pl d st w = (Err e, w')" "record_relative (doc_record d) st = Ok path"
  shows "(\<exists>x. e = CoreIo x) \<or> (\<exists>x. e = CoreStore x)"
proof -
  have stage: "\<exists>x. e = CoreIo x" if "stage pl d w = (Err e, w1)" for w w1 e
    using that attempt_Err by (fastforce simp: stage_def split: result.splits)
  have owner: "owner_relative (doc_record d) \<noteq> Err x" for x
    using assms(2) by (cases "owner_segment (agent (doc_record d))") (auto simp: record_relative_def owner_relative_def)
  have dirs: "\<exists>x. e = CoreIo x" if "create_record_dirs pl (doc_record d) parent w = (Err e, w1)" for parent w w1 e
    using that attempt_Err owner by (fastforce simp: create_record_dirs_def split: result.splits option.splits)
  have place: "\<exists>x. e = CoreIo x" if "place pl d st w = (Err e, w1)" for w w1 e
  proof -
    obtain rd wd where d: "create_record_dirs pl (doc_record d) (butlast path) w = (rd, wd)" by fastforce
    show ?thesis
    proof (cases rd)
      case (Err x)
      with that assms(2) d have "e = x" by (simp add: place_def published_path_def)
      with d Err dirs show ?thesis by blast
    next
      case (Ok u)
      show ?thesis
      proof (cases "attempt pl (RenameFile path)")
        case (Err x)
        with that assms(2) d Ok have "e = x" by (simp add: place_def published_path_def)
        with Err attempt_Err show ?thesis by blast
      next
        case attempted: (Ok u')
        with that assms(2) d Ok show ?thesis
          by (auto simp: place_def published_path_def split: option.splits if_splits)
      qed
    qed
  qed
  have commit: "\<exists>x. e = CoreStore x" if "commit pl d w = (Err e, w1)" for w w1 e
    using that attempt_rows_Err by (fastforce simp: commit_def publish_document_def split: result.splits)
  have settle: "(\<exists>x. e = CoreIo x) \<or> (\<exists>x. e = CoreStore x)" if "settle_quarantine pl i w = (Err e, w1)" for i w w1 e
    using that attempt_Err attempt_rows_Err
    by (fastforce simp: settle_quarantine_def dequeue_settled_def split: result.splits if_splits)
  from assms(1) show ?thesis
    unfolding store_document_def
    by (auto split: prod.splits result.splits dest: stage place commit settle)
qed

lemma resolve_and_seal_Ok:
  assumes "resolve_and_seal pl rec st text ks rng = (Ok (subs, b), ks', rng')"
  shows "pl_resolver pl rec = Resolved subs" "check_subjects rec subs = Ok ()"
    "seal_body pl rec subs st text ks rng = (Ok b, ks', rng')"
  using assms by (auto simp: resolve_and_seal_def split: resolution.splits result.splits prod.splits)

lemma resolve_and_seal_Err:
  assumes "resolve_and_seal pl rec st text ks rng = (Err e, ks', rng')"
  shows "ks' = ks \<and> rng' = rng \<or> e = SubjectUnresolved \<or> (\<exists>x. e = CoreCrypto x)"
proof -
  have kinds: "seal_error x = SubjectUnresolved \<or> (\<exists>y. seal_error x = CoreCrypto y)" for x by (cases x) simp_all
  have body: "ks' = ks \<and> rng' = rng \<or> e = SubjectUnresolved \<or> (\<exists>x. e = CoreCrypto x)"
    if "seal_body pl rec subs st text ks rng = (Err e, ks', rng')" for subs
    using seal_body_Err [OF that] kinds by metis
  from assms show ?thesis
    by (auto simp: resolve_and_seal_def split: resolution.splits result.splits prod.splits dest: body)
qed

lemma quarantine_elim [consumes 1, case_names unsealed unwritten unregistered spooled]:
  assumes "quarantine pl rec st text w = (r, w')"
  obtains (unsealed) h ks rng e where "quarantine_subject (stamp_date st) = Ok h"
      "seal_for (pipeline.truncate pl) (record_id rec) [h] (epoch_containing (stamp_ms st)) text
         (st_key_files w) (st_rng w) = (Err e, ks, rng)"
      "r = Err e" "w' = w\<lparr>st_key_files := ks, st_rng := rng\<rparr>"
  | (unwritten) h sb ks rng e where "quarantine_subject (stamp_date st) = Ok h"
      "seal_for (pipeline.truncate pl) (record_id rec) [h] (epoch_containing (stamp_ms st)) text
         (st_key_files w) (st_rng w) = (Ok sb, ks, rng)"
      "r = Err (CoreIo e)" "w' = w\<lparr>st_key_files := ks, st_rng := rng\<rparr>"
  | (unregistered) h sb ks rng where "quarantine_subject (stamp_date st) = Ok h"
      "seal_for (pipeline.truncate pl) (record_id rec) [h] (epoch_containing (stamp_ms st)) text
         (st_key_files w) (st_rng w) = (Ok sb, ks, rng)"
      "r = Err (CoreStore SqliteFailed)" "w' = w\<lparr>st_key_files := ks, st_rng := rng,
         st_spool := AList.update (doc_id rec)
           (doc_render (pl_floats pl) \<lparr>doc_record = rec, doc_body = Sealed sb\<rparr>, None) (st_spool w)\<rparr>"
  | (spooled) h sb ks rng where "quarantine_subject (stamp_date st) = Ok h"
      "seal_for (pipeline.truncate pl) (record_id rec) [h] (epoch_containing (stamp_ms st)) text
         (st_key_files w) (st_rng w) = (Ok sb, ks, rng)"
      "r = Ok ()" "w' = w\<lparr>st_key_files := ks, st_rng := rng,
         st_spool := AList.update (doc_id rec)
           (doc_render (pl_floats pl) \<lparr>doc_record = rec, doc_body = Sealed sb\<rparr>, None) (st_spool w),
         st_index := enqueue_quarantine (pl_clock pl) (doc_id rec) (stamp_date st)
           (spool_path pl (record_id rec)) (st_index w)\<rparr>"
proof -
  obtain h where h: "quarantine_subject (stamp_date st) = Ok h" using quarantine_subject_Ok by blast
  obtain rs ks rng where s: "seal_for (pipeline.truncate pl) (record_id rec) [h] (epoch_containing (stamp_ms st)) text
      (st_key_files w) (st_rng w) = (rs, ks, rng)" by (metis prod_cases3)
  show ?thesis
  proof (cases rs)
    case (Err e)
    with assms h s show ?thesis by (intro unsealed [of h e ks rng]) (simp_all add: quarantine_def Let_def)
  next
    case (Ok sb)
    show ?thesis
    proof (cases "attempt pl (SpoolFile (doc_id rec))")
      case (Err e)
      with attempt_Err obtain x where "e = CoreIo x" by blast
      with assms h s Ok Err show ?thesis
        by (intro unwritten [of h sb ks rng x]) (simp_all add: quarantine_def Let_def)
    next
      case spool: (Ok u)
      show ?thesis
      proof (cases "attempt_rows pl (SpoolRow (doc_id rec))")
        case (Err e)
        with assms h s Ok spool attempt_rows_Err [OF Err] show ?thesis
          by (intro unregistered [of h sb ks rng]) (simp_all add: quarantine_def Let_def)
      next
        case rows: (Ok u')
        with assms h s Ok spool show ?thesis
          by (intro spooled [of h sb ks rng]) (simp_all add: quarantine_def Let_def)
      qed
    qed
  qed
qed

section \<open>Properties\<close>

text \<open>
  C12: a rejected record leaves no trace. Where the answer is that the record breaks the contract, nothing
  on disk has changed: no file, no directory, no index row, no key and no random byte.
\<close>

theorem rejection_changes_nothing:
  assumes "accept pl rec text w = (Err (CoreInvalid e), w')"
  shows "w' = w"
  using assms
proof (cases rule: accept_elim)
  case (store_failed st path valid subs b ks rng x)
  then have "record_relative (valid\<lparr>subjects := subs\<rparr>) st = Ok path" by (simp add: validated_same_place)
  with store_document_Err [OF store_failed(6)] store_failed(7) show ?thesis by auto
next
  case (hold_failed st path valid ks rng x)
  from hold_failed(6) show ?thesis
  proof (cases rule: quarantine_elim)
    case (unsealed h ks' rng' y)
    then obtain z where "CoreInvalid e = seal_error z" using seal_for_Err [OF unsealed(2)] hold_failed(7) by auto
    with seal_error_not_invalid show ?thesis by metis
  qed (use hold_failed(7) in simp_all)
next
  case (refused st path valid x ks rng)
  from resolve_and_seal_Err [OF refused(5)] refused(6-8) show ?thesis by auto
qed auto

lemma accept_keeps_tree:
  assumes "accept pl rec text w = (r, w')" "in_tree w path" shows "in_tree w' path"
  using assms(1)
proof (cases rule: accept_elim)
  case (stored st p valid subs b ks rng)
  then have "record_relative (valid\<lparr>subjects := subs\<rparr>) st = Ok p" by (simp add: validated_same_place)
  with store_document_reaches [OF stored(6)] assms(2) show ?thesis
    by (auto simp: reached_def update_conv' split: progress.splits)
next
  case (store_failed st p valid subs b ks rng e)
  then have "record_relative (valid\<lparr>subjects := subs\<rparr>) st = Ok p" by (simp add: validated_same_place)
  with store_document_reaches [OF store_failed(6)] assms(2) show ?thesis
    by (auto simp: reached_def update_conv' split: progress.splits)
next
  case (held st p valid ks rng)
  from held(6) show ?thesis by (cases rule: quarantine_elim) (use assms(2) in simp_all)
next
  case (hold_failed st p valid ks rng e)
  from hold_failed(6) show ?thesis by (cases rule: quarantine_elim) (use assms(2) in simp_all)
qed (use assms(2) in simp_all)

text \<open>Calls of \<open>accept\<close>, of any record, under any configuration and clock, cut short by any failure.\<close>

inductive accept_step :: "store \<Rightarrow> store \<Rightarrow> bool" where
  "accept pl rec text w = (r, w') \<Longrightarrow> accept_step w w'"

lemma accepts_keep_tree: "accept_step\<^sup>*\<^sup>* w w' \<Longrightarrow> in_tree w path \<Longrightarrow> in_tree w' path"
  by (induction rule: rtranclp_induct) (auto elim!: accept_step.cases dest: accept_keeps_tree)

text \<open>
  C22: a replay is harmless. Once a record is stored it has a file in the tree; as long as that file is there it
  is answered as a duplicate, whatever prose it is sent with and under whatever configuration, and the answer
  changes nothing. No call of \<open>accept\<close>, of any record, takes the file away, so it stays a duplicate through any
  number of them (what archives a file out of the tree ends that); and no copy of it waits to be published or to
  be resolved.
\<close>

theorem replay_is_duplicate:
  assumes "accept pl rec text w = (Ok (Stored rid), w')"
  shows "rid = record_id rec
    \<and> (\<exists>path. in_tree w' path \<and> (\<forall>pl' text' w''. in_tree w'' path \<or> accept_step\<^sup>*\<^sup>* w' w'' \<longrightarrow>
         accept pl' rec text' w'' = (Ok (Duplicate rid), w'')))
    \<and> map_of (st_staging w') (doc_id rec) = None \<and> map_of (st_spool w') (doc_id rec) = None
    \<and> doc_id rec \<notin> fst ` set (quarantine_pending (st_index w'))"
  using assms
proof (cases rule: accept_elim)
  case (stored st path valid subs b ks rng)
  let ?d = "\<lparr>doc_record = valid\<lparr>subjects := subs\<rparr>, doc_body = b\<rparr>"
  note same = validated_same_place [OF stored(4)]
  have "record_relative (doc_record ?d) st = Ok path" using stored(2) by (simp add: same)
  from store_document_reaches [OF stored(6) this] have
    r: "reached pl ?d path (w\<lparr>st_key_files := ks, st_rng := rng\<rparr>) w' Indexed"
    "map_of (st_spool w') (doc_id rec) = None" "doc_id rec \<notin> fst ` set (quarantine_pending (st_index w'))"
    by (auto simp: same(2))
  then have there: "in_tree w' path" "map_of (st_staging w') (doc_id rec) = None"
    by (simp_all add: reached_def update_conv' same(2))
  have again: "accept pl' rec text' w'' = (Ok (Duplicate (record_id rec)), w'')" if "in_tree w'' path" for pl' text' w''
    using that stored(1,2) by (auto simp: accept_def published_path_def)
  have "in_tree w'' path" if "in_tree w'' path \<or> accept_step\<^sup>*\<^sup>* w' w''" for w''
    using that accepts_keep_tree there(1) by blast
  with again have "\<forall>pl' text' w''. in_tree w'' path \<or> accept_step\<^sup>*\<^sup>* w' w'' \<longrightarrow>
      accept pl' rec text' w'' = (Ok (Duplicate (record_id rec)), w'')" by blast
  with there(1) have "\<exists>path. in_tree w' path \<and> (\<forall>pl' text' w''. in_tree w'' path \<or> accept_step\<^sup>*\<^sup>* w' w'' \<longrightarrow>
      accept pl' rec text' w'' = (Ok (Duplicate (record_id rec)), w''))" by (intro exI conjI)
  with r(2,3) there(2) stored(7) show ?thesis by simp
qed auto

text \<open>
  C13: the tree stays ahead of the index. Where every indexed record has a file, one still has after any
  call of \<open>accept\<close>, wherever a failure or a crash cut it short.
\<close>

definition tree_ahead :: "store \<Rightarrow> bool" where
  "tree_ahead w \<longleftrightarrow> (\<forall>rid \<in> fst ` set (record_rows (st_index w)).
     \<exists>path \<in> fst ` set (st_records w). path \<noteq> [] \<and> List.last path = rid @ ''.'' @ RECORD_EXT)"

lemma tree_ahead_mono:
  assumes "tree_ahead w" "fst ` set (st_records w) \<subseteq> fst ` set (st_records w')"
    and "record_rows (st_index w') = record_rows (st_index w)"
  shows "tree_ahead w'"
  using assms(1,2) unfolding tree_ahead_def assms(3) by (meson subsetD)

lemma enqueue_quarantine_frame [simp]:
  "record_rows (enqueue_quarantine now rid date path idx) = record_rows idx"
  by (simp add: enqueue_quarantine_def)

lemma quarantine_frame:
  assumes "quarantine pl rec st text w = (r, w')"
  shows "st_records w' = st_records w \<and> st_staging w' = st_staging w
    \<and> record_rows (st_index w') = record_rows (st_index w)"
  using assms by (cases rule: quarantine_elim) simp_all

lemma record_relative_last:
  "record_relative rec st = Ok path \<Longrightarrow> path \<noteq> [] \<and> List.last path = doc_id rec @ ''.'' @ RECORD_EXT"
  by (erule record_relative_Ok) simp_all

lemma reached_tree_ahead:
  assumes "reached pl d path w w' g" "tree_ahead w" "record_relative (doc_record d) st = Ok path"
  shows "tree_ahead w'"
proof (cases g)
  case NotPlaced
  with assms(1,2) show ?thesis by (simp add: reached_def tree_ahead_def)
next
  case Placed
  with assms(1) have "st_index w' = st_index w" "st_records w' = AList.update path (file_of pl d) (st_records w)"
    by (simp_all add: reached_def)
  with assms(2) show ?thesis by (intro tree_ahead_mono [of w w']) (auto simp: dom_update)
next
  case Indexed
  with assms(1) obtain idx where recs: "st_records w' = AList.update path (file_of pl d) (st_records w)"
    and idx: "publish_document (pl_epoch_ms pl) (st_index w) d = Ok idx"
    and rows: "record_rows (st_index w') = record_rows idx"
    by (auto simp: reached_def dequeue_quarantine_def)
  have "fst ` set (record_rows idx) = insert (doc_id (doc_record d)) (fst ` set (record_rows (st_index w)))"
    using publish_rows(1) [OF publish_document_Ok [OF idx]] by simp
  with assms(2) recs rows record_relative_last [OF assms(3)] show ?thesis
    unfolding tree_ahead_def by (auto simp: dom_update)
qed

theorem tree_ahead_of_index:
  assumes "tree_ahead w" "accept pl rec text w = (r, w')"
  shows "tree_ahead w'"
  using assms(2)
proof (cases rule: accept_elim)
  case (stored st path valid subs b ks rng)
  then have p: "record_relative (valid\<lparr>subjects := subs\<rparr>) st = Ok path" by (simp add: validated_same_place)
  with store_document_reaches [OF stored(6)] obtain g where
    "reached pl \<lparr>doc_record = valid\<lparr>subjects := subs\<rparr>, doc_body = b\<rparr> path (w\<lparr>st_key_files := ks, st_rng := rng\<rparr>) w' g"
    by auto
  then show ?thesis using p assms(1) by (elim reached_tree_ahead [where st = st]) (simp_all add: tree_ahead_def)
next
  case (store_failed st path valid subs b ks rng e)
  then have p: "record_relative (valid\<lparr>subjects := subs\<rparr>) st = Ok path" by (simp add: validated_same_place)
  with store_document_reaches [OF store_failed(6)] obtain g where
    "reached pl \<lparr>doc_record = valid\<lparr>subjects := subs\<rparr>, doc_body = b\<rparr> path (w\<lparr>st_key_files := ks, st_rng := rng\<rparr>) w' g"
    by auto
  then show ?thesis using p assms(1) by (elim reached_tree_ahead [where st = st]) (simp_all add: tree_ahead_def)
next
  case (held st path valid ks rng)
  with quarantine_frame [OF held(6)] assms(1) show ?thesis by (simp add: tree_ahead_def)
next
  case (hold_failed st path valid ks rng e)
  with quarantine_frame [OF hold_failed(6)] assms(1) show ?thesis by (simp add: tree_ahead_def)
qed (use assms(1) in \<open>auto simp: tree_ahead_def\<close>)

text \<open>
  C21: what is stored is what was sent. Where the cipher, the key derivation and the passphrase wrapping keep the
  laws their crates document (\<open>seal_crates_ok\<close>, \<open>key_wrapping\<close>) and no other process touches the key files while
  the call runs, the file of a stored record holds, for an internal record, the prose as sent, and for a
  subject-derived one a sealed body that unseals to the prose sent with the key files the call left, or, where
  its subject is erased by then, no body at all.
\<close>

theorem stored_body_is_what_was_sent:
  assumes "key_wrapping (ks_wrapper (pl_keys pl))" "seal_crates_ok (pl_crates pl)" "pl_meanwhile pl = id"
    and "accept pl rec text w = (Ok (Stored rid), w')"
  shows "\<exists>path d. map_of (st_records w') path = Some (file_of pl d) \<and> record_id (doc_record d) = rid
    \<and> (case doc_body d of
         Plain t \<Rightarrow>
           if data_class rec = Internal then t = text \<and> summary (doc_record d) = text
           else t = [] \<and> (\<exists>s \<in> subj_hash ` set (subjects (doc_record d)).
             is_tombstoned (pl_keys pl) (st_key_files w') s = Ok True)
       | Sealed sb \<Rightarrow> data_class rec = SubjectDerived \<and> summary (doc_record d) = []
           \<and> unseal (fs_get (pl_keys pl) (st_key_files w')) (pl_crates pl) rid sb = Ok text)"
  using assms(4)
proof (cases rule: accept_elim)
  case (stored st path valid subs b ks rng)
  let ?d = "\<lparr>doc_record = valid\<lparr>subjects := subs\<rparr>, doc_body = b\<rparr>"
  note same = validated_same_place [OF stored(4)]
  have "record_relative (doc_record ?d) st = Ok path" using stored(2) by (simp add: same)
  from store_document_reaches [OF stored(6) this] have
    "reached pl ?d path (w\<lparr>st_key_files := ks, st_rng := rng\<rparr>) w' Indexed" by auto
  then have copy: "map_of (st_records w') path = Some (file_of pl ?d)" and keys: "st_key_files w' = ks"
    by (simp_all add: reached_def update_conv')
  have summary: "summary valid = (if data_class rec = Internal then text else [])"
    by (rule same(4))
  have rid: "rid = record_id rec" using stored(7) by simp
  note sealing = resolve_and_seal_Ok(3) [OF stored(5)]
  have "case b of
         Plain t \<Rightarrow>
           if data_class rec = Internal then t = text \<and> summary valid = text
           else t = [] \<and> (\<exists>s \<in> subj_hash ` set subs. is_tombstoned (pl_keys pl) ks s = Ok True)
       | Sealed sb \<Rightarrow> data_class rec = SubjectDerived \<and> summary valid = []
           \<and> unseal (fs_get (pl_keys pl) ks) (pl_crates pl) rid sb = Ok text"
    using sealing
  proof (cases rule: seal_body_Ok)
    case plain
    with summary show ?thesis by (simp add: same)
  next
    case erased
    with tombstoned_True [OF erased(5)] show ?thesis by (simp add: same pipeline.truncate_def)
  next
    case erased_meanwhile
    with tombstoned_True [OF erased_meanwhile(3)] show ?thesis by (simp add: same pipeline.truncate_def)
  next
    case (sealed sb)
    have "unseal (fs_get (pl_keys pl) ks) (pl_crates pl) (record_id valid) sb = Ok text"
      using sealed(3) assms(3)
      by (intro key_store.unseal_seal [OF fs_key_store [OF assms(1)] assms(2)])
        (simp_all add: pipeline.truncate_def)
    with sealed(1,2) summary show ?thesis by (simp add: same rid)
  qed
  with copy keys same(2) rid show ?thesis
    by (intro exI [of _ path] exI [of _ ?d]) (simp split: body.splits if_splits)
qed auto

text \<open>
  C11: no prose of a subject-derived record reaches the tree in the clear. Whatever becomes of it, stored,
  held back, refused or cut short by a failure, every file its acceptance adds, in the tree, in staging
  or in the quarantine, is of a document with no summary whose body is sealed or empty.
\<close>

definition unreadable :: "document \<Rightarrow> bool" where
  "unreadable d \<longleftrightarrow> summary (doc_record d) = [] \<and> (case doc_body d of Plain t \<Rightarrow> t = [] | Sealed _ \<Rightarrow> True)"

definition only_unreadable :: "write_path \<Rightarrow> ('k \<times> text_file) list \<Rightarrow> ('k \<times> text_file) list \<Rightarrow> bool" where
  "only_unreadable pl files files' \<longleftrightarrow>
     (\<forall>k f. map_of files' k = Some f \<longrightarrow> map_of files k = Some f
        \<or> (\<exists>d. unreadable d \<and> fst f = doc_render (pl_floats pl) d))"

lemma only_unreadable_simps:
  "only_unreadable pl files files"
  "unreadable d \<Longrightarrow> fst f = doc_render (pl_floats pl) d \<Longrightarrow> only_unreadable pl files (AList.update k f files)"
  by (auto simp: only_unreadable_def update_conv')

lemma reached_only_unreadable:
  assumes "reached pl d path w w' g" "unreadable d"
  shows "only_unreadable pl (st_records w) (st_records w') \<and> only_unreadable pl (st_staging w) (st_staging w')
    \<and> only_unreadable pl (st_spool w) (st_spool w')"
proof -
  have f: "fst (file_of pl d) = doc_render (pl_floats pl) d" by (simp add: file_of_def)
  have "only_unreadable pl (st_staging w) (st_staging w')"
    using assms(1) unfolding reached_def only_unreadable_def by (metis assms(2) f)
  moreover have "only_unreadable pl (st_records w) (st_records w')"
    using assms(1) only_unreadable_simps(1) only_unreadable_simps(2) [OF assms(2) f]
    by (auto simp: reached_def split: progress.splits)
  moreover have "only_unreadable pl (st_spool w) (st_spool w')"
    using assms(1) by (auto simp: reached_def only_unreadable_def split: progress.splits if_splits)
  ultimately show ?thesis by simp
qed

theorem subject_prose_never_in_clear:
  assumes "data_class rec = SubjectDerived" "accept pl rec text w = (r, w')"
  shows "only_unreadable pl (st_records w) (st_records w') \<and> only_unreadable pl (st_staging w) (st_staging w')
    \<and> only_unreadable pl (st_spool w) (st_spool w')"
proof -
  have summary: "summary valid = []" if "validated p rec text = Ok valid" for valid p
    using validated_same_place(4) [OF that] assms(1) by simp
  have clear: "unreadable \<lparr>doc_record = valid\<lparr>subjects := subs\<rparr>, doc_body = b\<rparr>"
    if "validated p rec text = Ok valid" "resolve_and_seal p valid st text k0 r0 = (Ok (subs, b), ks, rng)"
    for valid p st k0 r0 subs b ks rng
  proof -
    have s: "summary valid = []" "data_class valid \<noteq> Internal"
      using summary [OF that(1)] validated_same_place(3) [OF that(1)] assms(1) by simp_all
    have "b = Plain [] \<or> (\<exists>sb. b = Sealed sb)"
      using resolve_and_seal_Ok(3) [OF that(2)] by (cases rule: seal_body_Ok) (use s(2) in simp_all)
    with s(1) show ?thesis by (auto simp: unreadable_def)
  qed
  have placed: ?thesis
    if "validated (pipeline.truncate pl) rec text = Ok valid" "record_relative rec st = Ok path"
      "resolve_and_seal (pipeline.truncate pl) valid st text (st_key_files w) (st_rng w) = (Ok (subs, b), ks, rng)"
      "store_document pl \<lparr>doc_record = valid\<lparr>subjects := subs\<rparr>, doc_body = b\<rparr> st
         (w\<lparr>st_key_files := ks, st_rng := rng\<rparr>) = (x, w')" for valid st path subs b ks rng x
  proof -
    have "record_relative (valid\<lparr>subjects := subs\<rparr>) st = Ok path"
      using that(2) by (simp add: validated_same_place [OF that(1)])
    with store_document_reaches [OF that(4)] obtain g where
      "reached pl \<lparr>doc_record = valid\<lparr>subjects := subs\<rparr>, doc_body = b\<rparr> path (w\<lparr>st_key_files := ks, st_rng := rng\<rparr>) w' g"
      by auto
    from reached_only_unreadable [OF this clear [OF that(1,3)]] show ?thesis by simp
  qed
  have spooled: ?thesis
    if "validated (pipeline.truncate pl) rec text = Ok valid"
      "quarantine pl valid st text (w\<lparr>st_key_files := ks, st_rng := rng\<rparr>) = (x, w')" for valid st ks rng x
    using that(2)
  proof (cases rule: quarantine_elim)
    case (spooled h sb ks' rng')
    have "unreadable \<lparr>doc_record = valid, doc_body = Sealed sb\<rparr>" using summary [OF that(1)] by (simp add: unreadable_def)
    with spooled(4) show ?thesis by (simp add: only_unreadable_simps)
  next
    case (unregistered h sb ks' rng')
    have "unreadable \<lparr>doc_record = valid, doc_body = Sealed sb\<rparr>" using summary [OF that(1)] by (simp add: unreadable_def)
    with unregistered(4) show ?thesis by (simp add: only_unreadable_simps)
  qed (simp_all add: only_unreadable_simps)
  from assms(2) show ?thesis
  proof (cases rule: accept_elim)
    case (stored st path valid subs b ks rng)
    from placed [OF stored(4,2,5,6)] show ?thesis .
  next
    case (store_failed st path valid subs b ks rng e)
    from placed [OF store_failed(4,2,5,6)] show ?thesis .
  next
    case (held st path valid ks rng)
    from spooled [OF held(4,6)] show ?thesis .
  next
    case (hold_failed st path valid ks rng e)
    from spooled [OF hold_failed(4,6)] show ?thesis .
  qed (simp_all add: only_unreadable_simps)
qed

text \<open>
  A record that arrives after its subject is erased is published without a body. No key is minted or
  changed for it, it is not held back, and where it is stored the file in the tree has an empty body.
\<close>

theorem late_record_has_no_body:
  assumes "is_tombstoned (pl_keys pl) (st_key_files w) s = Ok True" "data_class rec = SubjectDerived"
    and "\<And>valid. pl_resolver pl valid = Resolved [\<lparr>subj_hash = s, subj_role = role, subj_canon = ver\<rparr>]"
    and "accept pl rec text w = (r, w')"
  shows "st_key_files w' = st_key_files w \<and> st_rng w' = st_rng w \<and> (\<forall>rid. r \<noteq> Ok (Quarantined rid))
    \<and> (\<forall>rid. r = Ok (Stored rid) \<longrightarrow> (\<exists>path d. map_of (st_records w') path = Some (file_of pl d)
          \<and> record_id (doc_record d) = rid \<and> doc_body d = Plain []))"
proof -
  let ?x = "\<lparr>subj_hash = s, subj_role = role, subj_canon = ver\<rparr>"
  have sealed: "resolve_and_seal (pipeline.truncate pl) valid st text (st_key_files w) (st_rng w)
      = (Ok ([?x], Plain []), st_key_files w, st_rng w)"
    if "validated (pipeline.truncate pl) rec text = Ok valid" for valid st
  proof -
    have "data_class valid = SubjectDerived" using validated_same_place(3) [OF that] assms(2) by simp
    moreover have "pl_resolver (pipeline.truncate pl) valid = Resolved [?x]"
      using assms(3) by (simp add: pipeline.truncate_def)
    moreover have "is_tombstoned (pl_keys (pipeline.truncate pl)) (st_key_files w) s = Ok True"
      using assms(1) by (simp add: pipeline.truncate_def)
    ultimately show ?thesis by (simp add: resolve_and_seal_def check_subjects_def seal_body_def Let_def)
  qed
  have placed: "st_key_files w' = st_key_files w \<and> st_rng w' = st_rng w
      \<and> (x = Ok () \<longrightarrow> map_of (st_records w') path
           = Some (file_of pl \<lparr>doc_record = valid\<lparr>subjects := [?x]\<rparr>, doc_body = Plain []\<rparr>))"
    if "validated (pipeline.truncate pl) rec text = Ok valid" "record_relative rec st = Ok path"
      "store_document pl \<lparr>doc_record = valid\<lparr>subjects := [?x]\<rparr>, doc_body = Plain []\<rparr> st w = (x, w')"
    for valid st path x
  proof -
    have "record_relative (valid\<lparr>subjects := [?x]\<rparr>) st = Ok path"
      using that(2) by (simp add: validated_same_place [OF that(1)])
    with store_document_reaches [OF that(3)] obtain g where
      "reached pl \<lparr>doc_record = valid\<lparr>subjects := [?x]\<rparr>, doc_body = Plain []\<rparr> path w w' g"
      "x = Ok () \<longrightarrow> g = Indexed" by auto
    then show ?thesis by (auto simp: reached_def update_conv')
  qed
  from assms(4) show ?thesis
  proof (cases rule: accept_elim)
    case (stored st path valid subs b ks rng)
    with sealed [OF stored(4)] have "subs = [?x]" "b = Plain []" "ks = st_key_files w" "rng = st_rng w" by simp_all
    with placed [OF stored(4,2), of "Ok ()"] stored(6,7) validated_same_place(2) [OF stored(4)] show ?thesis
      by (auto intro!: exI [of _ path] exI [of _ "\<lparr>doc_record = valid\<lparr>subjects := [?x]\<rparr>, doc_body = Plain []\<rparr>"])
  next
    case (store_failed st path valid subs b ks rng e)
    with sealed [OF store_failed(4)] have "subs = [?x]" "b = Plain []" "ks = st_key_files w" "rng = st_rng w" by simp_all
    with placed [OF store_failed(4,2), of "Err e"] store_failed(6,7) show ?thesis by simp
  qed (use sealed in \<open>auto dest: sealed\<close>)
qed

text \<open>
  C32: a record that cannot be resolved is kept, unreadably, and only in the quarantine. Nothing is
  published or indexed of it, its copy is sealed under the key of its own date, and it is registered as waiting.
  Where the cipher, the key derivation and the passphrase wrapping keep the laws their crates document
  (\<open>seal_crates_ok\<close>, \<open>key_wrapping\<close>) and no other process touches the key files while the call runs, that key is
  then on disk and opens the copy again.
\<close>

theorem held_record_is_kept:
  assumes "key_wrapping (ks_wrapper (pl_keys pl))" "seal_crates_ok (pl_crates pl)" "pl_meanwhile pl = id"
    and "accept pl rec text w = (Ok (Quarantined rid), w')"
  shows "st_records w' = st_records w \<and> st_staging w' = st_staging w
    \<and> record_rows (st_index w') = record_rows (st_index w)
    \<and> record_id_str rid \<in> fst ` set (quarantine_pending (st_index w'))
    \<and> (\<exists>st h valid sb. stamp_of rec = Ok st \<and> quarantine_subject (stamp_date st) = Ok h
         \<and> map_of (st_spool w') (record_id_str rid)
             = Some (doc_render (pl_floats pl) \<lparr>doc_record = valid, doc_body = Sealed sb\<rparr>, None)
         \<and> record_id valid = rid \<and> ws_subject ` set (sb_shares sb) = {h}
         \<and> unseal (fs_get (pl_keys pl) (st_key_files w')) (pl_crates pl) rid sb = Ok text)"
  using assms(4)
proof (cases rule: accept_elim)
  case (held st path valid ks rng)
  from held(6) show ?thesis
  proof (cases rule: quarantine_elim)
    case (spooled h sb ks' rng')
    have sealed: "seal (fs_mint (pl_keys pl) id) (pl_crates pl) (record_id valid) [h]
        (epoch_containing (stamp_ms st)) text ks rng = (Ok sb, ks', rng')"
      using spooled(2) assms(3) by (simp add: seal_for_Ok pipeline.truncate_def)
    have "unseal (fs_get (pl_keys pl) ks') (pl_crates pl) (record_id valid) sb = Ok text"
      by (rule key_store.unseal_seal [OF fs_key_store [OF assms(1)] assms(2) sealed])
    moreover have "ws_subject ` set (sb_shares sb) = {h}"
    proof (rule key_store.seal_parts [OF fs_key_store [OF assms(1)] sealed])
      fix ordered bare k
      assume o: "canonical_subjects [h] = Ok ordered" "map bs_subject bare = ordered"
        and ws: "list_all2 (share_of (fs_get (pl_keys pl) ks') (pl_crates pl) (epoch_containing (stamp_ms st))) bare (sb_shares sb)"
      from ws have "map ws_subject (sb_shares sb) = map bs_subject bare"
        by (induction rule: list_all2_induct) (simp_all add: share_of_def)
      with o have "map ws_subject (sb_shares sb) = [h]" by (simp add: canonical_subjects_Ok_iff)
      then show ?thesis by (metis list.set(1) list.set(2) list.set_map)
    qed
    moreover have "record_id_str rid \<in> fst ` set (quarantine_pending (enqueue_quarantine (pl_clock pl) (doc_id valid)
        (stamp_date st) (spool_path pl (record_id valid)) (st_index w)))"
      using held(7) validated_same_place(2) [OF held(4)]
      by (force simp: enqueue_quarantine_def dest: map_of_SomeD)
    ultimately show ?thesis
      using held(1,7) spooled(1,4) validated_same_place(2) [OF held(4)]
      by (auto simp: update_conv' intro!: exI [of _ h])
  qed (use held in simp_all)
qed auto

section \<open>Samples\<close>

definition sample_path :: write_path where
  "sample_path = pipeline.extend sample_pipeline (write_path.fields (\<lambda>_. None) 0)"

definition fresh_store :: store where
  "fresh_store = \<lparr>st_records = [], st_private = [], st_staging = [], st_spool = [], st_index = empty_index,
     st_key_files = no_keys, st_rng = sconst (CHR ''k'')\<rparr>"

lemma sample_path_simps [simp]:
  "pipeline.truncate sample_path = sample_pipeline" "pl_refuses sample_path = (\<lambda>_. None)"
  "pl_keys sample_path = sample_store" "pl_crates sample_path = sample_seal_crates"
  "pl_meanwhile sample_path = id" "pl_floats sample_path = sample_floats"
  "pl_epoch_ms sample_path = (\<lambda>_. Some 0)" "attempt sample_path op = Ok ()"
  "attempt_rows sample_path op = Ok ()"
  by (simp_all add: sample_path_def sample_pipeline_def pipeline.defs write_path.defs attempt_def attempt_rows_def)

lemma sample_pipeline_simps [simp]:
  "pl_keys sample_pipeline = sample_store" "pl_crates sample_pipeline = sample_seal_crates"
  "pl_meanwhile sample_pipeline = id" "pl_resolver sample_pipeline rec = Resolved (subjects rec)"
  by (simp_all add: sample_pipeline_def declared_subjects_def)

lemma fresh_store_simps [simp]:
  "st_records fresh_store = []" "st_staging fresh_store = []" "st_spool fresh_store = []"
  "st_index fresh_store = empty_index" "st_key_files fresh_store = no_keys"
  "st_rng fresh_store = sconst (CHR ''k'')"
  by (simp_all add: fresh_store_def)

lemma sample_stamp_of: "received_at rec = ''2026-01-01T00:00:00Z'' \<Longrightarrow> stamp_of rec = Ok sample_stamp"
  by (simp add: stamp_of_def sample_stamp_parse)

lemma unowned_path:
  assumes "visibility rec = Org" obtains path where "record_relative rec st = Ok path" "owner_relative rec = Ok None"
  using assms by (simp add: record_relative_def owner_relative_def)

lemma sample_stores:
  assumes "visibility (doc_record d) = Org" "publish_document (\<lambda>_. Some 0) (st_index w) d = Ok idx"
  shows "\<exists>w'. store_document sample_path d st w = (Ok (), w')"
proof -
  obtain path where p: "record_relative (doc_record d) st = Ok path" "owner_relative (doc_record d) = Ok None"
    using unowned_path [OF assms(1)] by blast
  show ?thesis
    using p assms(2)
    by (simp add: store_document_def stage_def place_def published_path_def create_record_dirs_def
        update_conv' commit_def settle_quarantine_def dequeue_settled_def)
qed

definition plain_document :: document where
  "plain_document = \<lparr>doc_record = sample_record\<lparr>summary := ''body''\<rparr>, doc_body = Plain ''body''\<rparr>"

definition sealed_document :: document where
  "sealed_document = \<lparr>doc_record = sample_sealed\<lparr>summary := []\<rparr>, doc_body = Sealed sample_body\<rparr>"

lemma sample_documents_publish:
  "is_ok (publish_document (\<lambda>_. Some 0) empty_index plain_document)"
  "is_ok (publish_document (\<lambda>_. Some 0) empty_index sealed_document)"
  by code_simp+

lemma sample_accepted:
  "\<exists>w'. accept sample_path sample_record ''body'' fresh_store = (Ok (Stored sample_id), w')"
  "\<exists>w'. accept sample_path sample_sealed ''body'' fresh_store = (Ok (Stored sample_id), w')"
proof -
  have f: "received_at r = ''2026-01-01T00:00:00Z''" "visibility r = Org" "record_id r = sample_id"
    if "r = sample_record \<or> r = sample_sealed" for r
    using that by (auto simp: sample_sealed_def sample_record_def)
  have epoch: "epoch_containing (stamp_ms sample_stamp) = sample_epoch"
  proof -
    have "epoch_containing 1767225600000 = Epoch ''2026-Q1''" by code_simp
    then show ?thesis by (simp add: sample_stamp_def sample_epoch_def)
  qed
  have plain: "resolve_and_seal sample_pipeline (sample_record\<lparr>summary := ''body''\<rparr>) sample_stamp ''body'' no_keys
      (sconst (CHR ''k'')) = (Ok ([], Plain ''body''), no_keys, sconst (CHR ''k''))"
    by (simp add: resolve_and_seal_def check_subjects_def seal_body_def sample_record_def)
  have "seal_for sample_pipeline sample_id [sample_hash] sample_epoch ''body'' no_keys (sconst (CHR ''k''))
      = (Ok sample_body, one_key, sconst (CHR ''k''))"
    using sample_seal [OF sample_hash_valid] by (simp add: seal_for_Ok)
  then have sealed: "resolve_and_seal sample_pipeline (sample_sealed\<lparr>summary := []\<rparr>) sample_stamp ''body'' no_keys
      (sconst (CHR ''k'')) = (Ok (subjects sample_sealed, Sealed sample_body), one_key, sconst (CHR ''k''))"
    by (simp add: resolve_and_seal_def check_subjects_def seal_body_def sample_sealed_def Let_def epoch)
  obtain i1 i2 where idx: "publish_document (\<lambda>_. Some 0) empty_index plain_document = Ok i1"
    "publish_document (\<lambda>_. Some 0) empty_index sealed_document = Ok i2"
    using sample_documents_publish by (auto simp: is_ok_iff)
  have "record_relative sample_sealed sample_stamp = record_relative sample_record sample_stamp"
    by (simp add: record_relative_def sample_sealed_def)
  moreover obtain p where "record_relative sample_record sample_stamp = Ok p"
    using sample_relative(2) unfolding is_ok_iff by blast
  ultimately have path: "record_relative r sample_stamp = Ok p" if "r = sample_record \<or> r = sample_sealed" for r
    using that by auto
  have same: "sample_record\<lparr>summary := ''body'', subjects := []\<rparr> = sample_record\<lparr>summary := ''body''\<rparr>"
    "sample_sealed\<lparr>summary := [], subjects := subjects sample_sealed\<rparr> = sample_sealed\<lparr>summary := []\<rparr>"
    by (simp_all add: sample_record_def sample_sealed_def)
  obtain w1 where "store_document sample_path plain_document sample_stamp fresh_store = (Ok (), w1)"
    using sample_stores [of plain_document fresh_store i1] idx(1) by (auto simp: plain_document_def sample_record_def)
  with f [of sample_record] path [of sample_record]
  show "\<exists>w'. accept sample_path sample_record ''body'' fresh_store = (Ok (Stored sample_id), w')"
    by (simp add: accept_def published_path_def sample_stamp_of sample_validated plain same plain_document_def)
       (simp add: fresh_store_def)
  obtain w2 where "store_document sample_path sealed_document sample_stamp (fresh_store\<lparr>st_key_files := one_key\<rparr>) = (Ok (), w2)"
    using sample_stores [of sealed_document "fresh_store\<lparr>st_key_files := one_key\<rparr>" i2] idx(2)
    by (auto simp: sealed_document_def sample_sealed_def sample_record_def)
  with f [of sample_sealed] path [of sample_sealed]
  show "\<exists>w'. accept sample_path sample_sealed ''body'' fresh_store = (Ok (Stored sample_id), w')"
    by (simp add: accept_def published_path_def sample_stamp_of sample_validated sealed same sealed_document_def)
       (simp add: fresh_store_def)
qed

definition sample_waiting :: write_path where
  "sample_waiting = sample_path\<lparr>pl_resolver := \<lambda>_. Unavailable ''down''\<rparr>"

lemma validated_resolver [simp]: "validated (pl\<lparr>pl_resolver := f\<rparr>) = validated pl"
proof -
  have canon: "canonical_entity (pl\<lparr>pl_resolver := f\<rparr>) = canonical_entity pl" by (rule ext) (simp add: canonical_entity_def)
  have sel: "pl_writes (pl\<lparr>pl_resolver := f\<rparr>) = pl_writes pl" "pl_attrs (pl\<lparr>pl_resolver := f\<rparr>) = pl_attrs pl"
    "pl_redaction (pl\<lparr>pl_resolver := f\<rparr>) = pl_redaction pl" "pl_alphabetic (pl\<lparr>pl_resolver := f\<rparr>) = pl_alphabetic pl"
    by simp_all
  show ?thesis by (rule ext, rule ext) (unfold validated_def canon sel, rule refl)
qed

lemma seal_for_resolver [simp]: "seal_for (pl\<lparr>pl_resolver := f\<rparr>) = seal_for pl"
  by (simp add: fun_eq_iff seal_for_def)

lemma sample_waiting_simps [simp]:
  "pipeline.truncate sample_waiting = sample_pipeline\<lparr>pl_resolver := \<lambda>_. Unavailable ''down''\<rparr>"
  "pl_keys sample_waiting = sample_store" "pl_crates sample_waiting = sample_seal_crates"
  "pl_meanwhile sample_waiting = id" "attempt sample_waiting op = Ok ()"
  "attempt_rows sample_waiting op = Ok ()"
proof -
  have "pipeline.truncate (pl\<lparr>pl_resolver := f\<rparr>) = (pipeline.truncate pl)\<lparr>pl_resolver := f\<rparr>" for pl :: write_path and f
    by (simp add: pipeline.truncate_def)
  then show "pipeline.truncate sample_waiting = sample_pipeline\<lparr>pl_resolver := \<lambda>_. Unavailable ''down''\<rparr>"
    by (simp add: sample_waiting_def)
qed (simp_all add: sample_waiting_def attempt_def attempt_rows_def)

lemma fresh_store_unchanged [simp]: "fresh_store\<lparr>st_key_files := no_keys, st_rng := sconst (CHR ''k'')\<rparr> = fresh_store"
  by (simp add: fresh_store_def)

lemma sample_held:
  "\<exists>w'. accept sample_waiting sample_sealed ''body'' fresh_store = (Ok (Quarantined sample_id), w')"
proof -
  obtain h where h: "quarantine_subject (stamp_date sample_stamp) = Ok h" "valid_subject_hash h"
    using quarantine_subject_Ok by blast
  have epoch: "epoch_containing (stamp_ms sample_stamp) = sample_epoch"
  proof -
    have "epoch_containing 1767225600000 = Epoch ''2026-Q1''" by code_simp
    then show ?thesis by (simp add: sample_stamp_def sample_epoch_def)
  qed
  have seal: "seal_for sample_pipeline sample_id [h] sample_epoch ''body'' no_keys (sconst (CHR ''k''))
      = (Ok (sealed_for h), key_of h, sconst (CHR ''k''))"
    using sample_seal [OF h(2)] by (simp add: seal_for_Ok)
  have ids: "record_id (sample_sealed\<lparr>summary := []\<rparr>) = sample_id" "record_id sample_sealed = sample_id"
    "received_at sample_sealed = ''2026-01-01T00:00:00Z''"
    by (simp_all add: sample_sealed_def) (simp add: sample_record_def)
  have "\<exists>w'. quarantine sample_waiting (sample_sealed\<lparr>summary := []\<rparr>) sample_stamp ''body'' fresh_store = (Ok (), w')"
    using h seal by (simp add: quarantine_def epoch ids Let_def)
  then obtain w' where q: "quarantine sample_waiting (sample_sealed\<lparr>summary := []\<rparr>) sample_stamp ''body'' fresh_store = (Ok (), w')"
    by blast
  have "record_relative sample_sealed sample_stamp = record_relative sample_record sample_stamp"
    by (simp add: record_relative_def sample_sealed_def)
  moreover obtain p where "record_relative sample_record sample_stamp = Ok p"
    using sample_relative(2) unfolding is_ok_iff by blast
  ultimately show ?thesis
    using q by (simp add: accept_def published_path_def sample_stamp_of sample_validated ids resolve_and_seal_def)
qed

theorem rejection_changes_nothing_witness:
  "snd (accept sample_path (sample_record\<lparr>action := []\<rparr>) ''body'' fresh_store) = fresh_store"
proof -
  let ?r = "sample_record\<lparr>action := []\<rparr>"
  have "validated sample_pipeline ?r ''body'' = Err (CoreInvalid (Invalid ActionEmpty))"
    by (simp add: validated_def validate_def)
  moreover have "record_relative ?r sample_stamp = record_relative sample_record sample_stamp"
    by (simp add: record_relative_def)
  moreover obtain p where "record_relative sample_record sample_stamp = Ok p"
    using sample_relative(2) unfolding is_ok_iff by blast
  moreover have "stamp_of ?r = Ok sample_stamp" by (rule sample_stamp_of) (simp add: sample_record_def)
  ultimately have "accept sample_path ?r ''body'' fresh_store = (Err (CoreInvalid (Invalid ActionEmpty)), fresh_store)"
    by (simp add: accept_def published_path_def)
  from this rejection_changes_nothing [OF this] show ?thesis by simp
qed

theorem replay_is_duplicate_witness:
  "\<exists>w'. accept sample_path sample_record ''other'' w' = (Ok (Duplicate sample_id), w')"
proof -
  obtain w' where "accept sample_path sample_record ''body'' fresh_store = (Ok (Stored sample_id), w')"
    using sample_accepted(1) by blast
  from replay_is_duplicate [OF this] show ?thesis by blast
qed

theorem tree_ahead_of_index_witness:
  "tree_ahead (snd (accept sample_path sample_record ''body'' fresh_store))"
proof (rule tree_ahead_of_index)
  show "tree_ahead fresh_store" by (simp add: tree_ahead_def empty_index_def)
  show "accept sample_path sample_record ''body'' fresh_store = (fst (accept sample_path sample_record ''body'' fresh_store),
      snd (accept sample_path sample_record ''body'' fresh_store))" by simp
qed

theorem stored_body_is_what_was_sent_witness:
  "\<exists>w' path d. accept sample_path sample_sealed ''body'' fresh_store = (Ok (Stored sample_id), w')
     \<and> map_of (st_records w') path = Some (file_of sample_path d) \<and> record_id (doc_record d) = sample_id"
proof -
  obtain w' where w': "accept sample_path sample_sealed ''body'' fresh_store = (Ok (Stored sample_id), w')"
    using sample_accepted(2) by blast
  have "key_wrapping (ks_wrapper (pl_keys sample_path))" "seal_crates_ok (pl_crates sample_path)"
    "pl_meanwhile sample_path = id"
    using sample_store_wrapping sample_seal_crates_ok by simp_all
  from stored_body_is_what_was_sent [OF this w'] w' show ?thesis by blast
qed

theorem subject_prose_never_in_clear_witness:
  "only_unreadable sample_path [] (st_records (snd (accept sample_path sample_sealed ''body'' fresh_store)))"
  using subject_prose_never_in_clear [of sample_sealed sample_path "''body''" fresh_store
      "fst (accept sample_path sample_sealed ''body'' fresh_store)"
      "snd (accept sample_path sample_sealed ''body'' fresh_store)"]
  by (simp add: sample_sealed_def)

theorem late_record_has_no_body_witness:
  "st_key_files (snd (accept (sample_path\<lparr>pl_resolver := \<lambda>_. Resolved [\<lparr>subj_hash = sample_hash,
      subj_role = Principal, subj_canon = CanonVer 1\<rparr>]\<rparr>) sample_sealed ''body''
      (fresh_store\<lparr>st_key_files := erased_keys\<rparr>))) = erased_keys"
proof -
  let ?pl = "sample_path\<lparr>pl_resolver := \<lambda>_. Resolved [\<lparr>subj_hash = sample_hash,
      subj_role = Principal, subj_canon = CanonVer 1\<rparr>]\<rparr>" and ?w = "fresh_store\<lparr>st_key_files := erased_keys\<rparr>"
  have "is_tombstoned (pl_keys ?pl) (st_key_files ?w) sample_hash = Ok True"
    by (simp add: is_tombstoned_def erased_keys_def)
  moreover have "data_class sample_sealed = SubjectDerived" by (simp add: sample_sealed_def)
  moreover have "accept ?pl sample_sealed ''body'' ?w
      = (fst (accept ?pl sample_sealed ''body'' ?w), snd (accept ?pl sample_sealed ''body'' ?w))" by simp
  moreover have "pl_resolver ?pl valid = Resolved [\<lparr>subj_hash = sample_hash, subj_role = Principal,
      subj_canon = CanonVer 1\<rparr>]" for valid by simp
  ultimately have "st_key_files (snd (accept ?pl sample_sealed ''body'' ?w)) = st_key_files ?w"
    using late_record_has_no_body [of ?pl ?w sample_hash sample_sealed Principal "CanonVer 1" "''body''"] by blast
  then show ?thesis by simp
qed

theorem held_record_is_kept_witness:
  "\<exists>w'. accept sample_waiting sample_sealed ''body'' fresh_store = (Ok (Quarantined sample_id), w')
     \<and> st_records w' = [] \<and> record_id_str sample_id \<in> fst ` set (quarantine_pending (st_index w'))"
proof -
  obtain w' where w': "accept sample_waiting sample_sealed ''body'' fresh_store = (Ok (Quarantined sample_id), w')"
    using sample_held by blast
  have "key_wrapping (ks_wrapper (pl_keys sample_waiting))" "seal_crates_ok (pl_crates sample_waiting)"
    "pl_meanwhile sample_waiting = id"
    using sample_store_wrapping sample_seal_crates_ok by simp_all
  from held_record_is_kept [OF this w'] w' show ?thesis by auto
qed

end
