(* ===== verification/Vault.thy ===== *)
theory Vault
  imports Pipeline
begin

text \<open>
  What the maintenance passes of \<open>yaam-core\<close> work on, and \<open>fsutil.rs\<close>. \<open>vault\<close> is everything under the
  memory root: the write path's \<open>store\<close>, the cold manifests, the derived timelines and audit files, the
  dead letters and the two logs. \<open>keeper\<close> is a \<open>Pipeline\<close> with the clocks, the parsers and the failures
  of the file system it works over: \<open>kp_refuses\<close> says which act on which path fails, and how. A path is
  its components below the root. An operation is a function from the vault to a result and a vault. An act that
  fails changes nothing, but for an append: \<open>kp_written\<close> says how much of its line is in the file all the same,
  when it was opened at all.
\<close>

section \<open>Operations\<close>

type_synonym ('a, 's) operation = "'s \<Rightarrow> ('a, core_error) result \<times> 's"

definition give :: "'a \<Rightarrow> ('a, 's) operation" where
  "give a s = (Ok a, s)"

definition lift_result :: "('a, core_error) result \<Rightarrow> ('a, 's) operation" where
  "lift_result r s = (r, s)"

definition next_op :: "('a, 's) operation \<Rightarrow> ('a \<Rightarrow> ('b, 's) operation) \<Rightarrow> ('b, 's) operation" where
  "next_op m f s = (case m s of (Ok a, t) \<Rightarrow> f a t | (Err e, t) \<Rightarrow> (Err e, t))"

text \<open>A \<open>for\<close> loop over a list fixed before it starts, which an error ends.\<close>

fun fold_op :: "('a \<Rightarrow> 'x \<Rightarrow> ('a, 's) operation) \<Rightarrow> 'a \<Rightarrow> 'x list \<Rightarrow> ('a, 's) operation" where
  "fold_op f a [] = give a"
| "fold_op f a (x # xs) = next_op (f a x) (\<lambda>b. fold_op f b xs)"

lemma give_iff [simp]: "give a s = (r, t) \<longleftrightarrow> r = Ok a \<and> t = s"
  by (auto simp: give_def)

lemma lift_result_iff [simp]: "lift_result q s = (r, t) \<longleftrightarrow> q = r \<and> t = s"
  by (auto simp: lift_result_def)

lemma next_op_Ok: "next_op m f s = (Ok b, u) \<longleftrightarrow> (\<exists>a t. m s = (Ok a, t) \<and> f a t = (Ok b, u))"
  by (auto simp: next_op_def split: prod.splits result.splits)

lemma next_op_Err:
  "next_op m f s = (Err e, u) \<longleftrightarrow> m s = (Err e, u) \<or> (\<exists>a t. m s = (Ok a, t) \<and> f a t = (Err e, u))"
  by (auto simp: next_op_def split: prod.splits result.splits)

lemma next_op_cases [consumes 1, case_names stopped went_on]:
  assumes "next_op m f s = (r, u)"
  obtains e where "m s = (Err e, u)" "r = Err e" | a t where "m s = (Ok a, t)" "f a t = (r, u)"
  using assms by (auto simp: next_op_def split: prod.splits result.splits)

lemma next_op_invariant:
  assumes "next_op m f s = (r, u)" "P s" "\<And>r t. m s = (r, t) \<Longrightarrow> P t"
    and "\<And>a t r u. m s = (Ok a, t) \<Longrightarrow> P t \<Longrightarrow> f a t = (r, u) \<Longrightarrow> P u"
  shows "P u"
  using assms(1) by (cases rule: next_op_cases) (metis assms(3,4))+

lemma fold_op_invariant:
  assumes "fold_op f a xs s = (r, t)" "P s" "\<And>b x s r t. x \<in> set xs \<Longrightarrow> P s \<Longrightarrow> f b x s = (r, t) \<Longrightarrow> P t"
  shows "P t"
  using assms
proof (induction xs arbitrary: a s)
  case (Cons x xs)
  from Cons.prems(1) have "next_op (f a x) (\<lambda>b. fold_op f b xs) s = (r, t)" by simp
  then show ?case
  proof (cases rule: next_op_cases)
    case (stopped e)
    with Cons.prems(2,3) show ?thesis by (metis list.set_intros(1))
  next
    case (went_on b u)
    have "P u" using Cons.prems(2,3) went_on(1) by (metis list.set_intros(1))
    with Cons.IH [OF went_on(2)] Cons.prems(3) show ?thesis by (metis list.set_intros(2))
  qed
qed simp

lemma fold_op_append_Ok:
  "fold_op f a (xs @ ys) s = (Ok b, u) \<longleftrightarrow> (\<exists>c t. fold_op f a xs s = (Ok c, t) \<and> fold_op f c ys t = (Ok b, u))"
  by (induction xs arbitrary: a s) (auto simp: next_op_Ok)

text \<open>An operation that leaves the state alone, whatever it answers.\<close>

definition reads_only :: "('a, 's) operation \<Rightarrow> bool" where
  "reads_only m \<longleftrightarrow> (\<forall>s. snd (m s) = s)"

lemma reads_onlyD: "reads_only m \<Longrightarrow> m s = (r, t) \<Longrightarrow> t = s"
  by (metis reads_only_def snd_conv)

lemma reads_only_give [intro, simp]: "reads_only (give a)"
  by (simp add: reads_only_def give_def)

lemma reads_only_lift [intro, simp]: "reads_only (lift_result r)"
  by (simp add: reads_only_def lift_result_def)

lemma reads_only_next [intro]:
  assumes "reads_only m" "\<And>a. reads_only (f a)" shows "reads_only (next_op m f)"
  unfolding reads_only_def
proof
  fix s
  obtain r t where m: "m s = (r, t)" by fastforce
  then have "t = s" using assms(1) by (rule reads_onlyD [rotated])
  with m assms(2) show "snd (next_op m f s) = s"
    by (cases r) (simp_all add: next_op_def reads_only_def)
qed

lemma reads_only_fold [intro]: "(\<And>a x. reads_only (f a x)) \<Longrightarrow> reads_only (fold_op f a xs)"
  by (induction xs arbitrary: a) auto

lemma next_op_simps [simp]:
  "next_op (give a) f = f a" "next_op (lift_result (Ok a)) f = f a"
  "next_op (lift_result (Err e)) f = lift_result (Err e)"
  by (simp_all add: fun_eq_iff next_op_def give_def lift_result_def)

lemma next_op_read [consumes 2, case_names stopped went_on]:
  assumes "next_op m f s = (r, u)" "reads_only m"
  obtains e where "m s = (Err e, s)" "r = Err e" "u = s" | a where "m s = (Ok a, s)" "f a s = (r, u)"
  using assms(1) by (cases rule: next_op_cases) (use that reads_onlyD [OF assms(2)] in blast)+

text \<open>An operation that keeps an invariant, whatever it answers.\<close>

definition preserves :: "('s \<Rightarrow> bool) \<Rightarrow> ('a, 's) operation \<Rightarrow> bool" where
  "preserves P m \<longleftrightarrow> (\<forall>s r t. m s = (r, t) \<longrightarrow> P s \<longrightarrow> P t)"

named_theorems preserving \<open>introduction rules for preserves\<close>

lemma preservesD: "preserves P m \<Longrightarrow> m s = (r, t) \<Longrightarrow> P s \<Longrightarrow> P t"
  by (simp add: preserves_def)

lemma preserves_reads_only: "reads_only m \<Longrightarrow> preserves P m"
  unfolding preserves_def by (metis reads_onlyD)

lemma preserves_give [preserving]: "preserves P (give a)"
  by (simp add: preserves_def)

lemma preserves_lift [preserving]: "preserves P (lift_result r)"
  by (simp add: preserves_def)

lemma preserves_next [preserving]:
  "preserves P m \<Longrightarrow> (\<And>a. preserves P (f a)) \<Longrightarrow> preserves P (next_op m f)"
  unfolding preserves_def by (metis next_op_cases)

lemma preserves_fold [preserving]: "(\<And>a x. preserves P (f a x)) \<Longrightarrow> preserves P (fold_op f a xs)"
  by (induction xs arbitrary: a) (auto intro: preserves_next preserves_give)

lemma preserves_at: "(\<And>s. preserves P (f s)) \<Longrightarrow> preserves P (\<lambda>s. f s s)"
  by (simp add: preserves_def)

section \<open>The state\<close>

record vault =
  va_store :: store
  va_cold :: "(string list \<times> string) list"           \<comment> \<open>manifests\<close>
  va_entities :: "(string list \<times> string) list"       \<comment> \<open>files under \<open>entities/\<close>\<close>
  va_audit :: "(string list \<times> string) list"
  va_dead :: "(string \<times> string) list"
  va_tombstones :: "string option"
  va_holds :: "string option"
  va_key_copies :: "(string list \<times> string) list"     \<comment> \<open>other files under the key root\<close>
  va_ulids :: "record_id stream"                       \<comment> \<open>what \<open>Ulid::new\<close> gives next\<close>

datatype file_act = ReadFile | WriteFile | AppendFile | MakeDir | Rename | Remove | Stat

record keeper = write_path +
  kp_refuses :: "file_act \<Rightarrow> string list \<Rightarrow> io_failure option"
  kp_now :: int
  kp_mtime :: "string list \<Rightarrow> int"
  kp_reader :: md_reader
  kp_written :: "string list \<Rightarrow> nat option"       \<comment> \<open>of an append that fails\<close>

definition can :: "('a keeper_scheme) \<Rightarrow> file_act \<Rightarrow> string list \<Rightarrow> (unit, vault) operation" where
  "can kp act path = lift_result (case kp_refuses kp act path of None \<Rightarrow> Ok () | Some e \<Rightarrow> Err (CoreIo e))"

lemma reads_only_can [intro, simp]: "reads_only (can kp act path)"
  by (auto simp: can_def)

lemma preserves_can [preserving]: "preserves P (can kp act path)"
  by (rule preserves_reads_only) simp

lemma can_Ok [simp]: "can kp act path v = (Ok u, v') \<longleftrightarrow> v' = v \<and> kp_refuses kp act path = None"
  by (auto simp: can_def split: option.splits)

definition generate :: "(record_id, vault) operation" where
  "generate v = (Ok (shd (va_ulids v)), v\<lparr>va_ulids := stl (va_ulids v)\<rparr>)"

text \<open>An operation of the write path, and one on the key files.\<close>

definition on_store :: "(store \<Rightarrow> ('a, core_error) result \<times> store) \<Rightarrow> ('a, vault) operation" where
  "on_store f v = (case f (va_store v) of (r, w) \<Rightarrow> (r, v\<lparr>va_store := w\<rparr>))"

definition on_keys :: "(key_files \<Rightarrow> ('a, crypto_error) result \<times> key_files) \<Rightarrow> ('a, vault) operation" where
  "on_keys f v = (case f (st_key_files (va_store v)) of
     (r, ks) \<Rightarrow> (map_err CoreCrypto r, v\<lparr>va_store := (va_store v)\<lparr>st_key_files := ks\<rparr>\<rparr>))"

section \<open>Files\<close>

definition HOLD_LOG :: string where "HOLD_LOG = ''holds.jsonl''"

definition TOMBSTONE_LOG :: string where "TOMBSTONE_LOG = ''tombstones.jsonl''"

definition STAGING_DIR :: string where "STAGING_DIR = ''.staging''"

definition QUARANTINE_DIR :: string where "QUARANTINE_DIR = ''.quarantine''"

definition DEAD_LETTER_DIR :: string where "DEAD_LETTER_DIR = ''.dead-letter''"

definition ENTITIES_DIR :: string where "ENTITIES_DIR = ''entities''"

definition AUDIT_DIR :: string where "AUDIT_DIR = ''audit''"

definition COLD_DIR :: string where "COLD_DIR = ''cold''"

definition INDEX_FILE :: string where "INDEX_FILE = ''index.sqlite''"

text \<open>A statement or commit on the index that SQLite may fail, which leaves the rows as they were.\<close>

definition rows_written :: "('a keeper_scheme) \<Rightarrow> string list \<Rightarrow> (unit, vault) operation" where
  "rows_written kp what =
     lift_result (if kp_refuses kp WriteFile (INDEX_FILE # what) = None then Ok () else Err (CoreStore SqliteFailed))"

lemma reads_only_rows_written [intro, simp]: "reads_only (rows_written kp what)"
  by (auto simp: rows_written_def)

lemma rows_written_Ok [simp]:
  "rows_written kp what v = (Ok u, v') \<longleftrightarrow> v' = v \<and> kp_refuses kp WriteFile (INDEX_FILE # what) = None"
  by (auto simp: rows_written_def)

text \<open>\<open>Path::extension\<close> and \<open>Path::file_stem\<close> of a file name.\<close>

definition extension :: "string \<Rightarrow> string option" where
  "extension name = (case rsplit_once name ''.'' of
     None \<Rightarrow> None | Some (stem, ext) \<Rightarrow> if stem = [] \<or> name = ''..'' then None else Some ext)"

definition file_stem :: "string \<Rightarrow> string" where
  "file_stem name = (case rsplit_once name ''.'' of
     None \<Rightarrow> name | Some (stem, ext) \<Rightarrow> if stem = [] \<or> name = ''..'' then name else stem)"

definition record_file :: "string \<Rightarrow> string" where
  "record_file rid = rid @ ''.'' @ RECORD_EXT"

text \<open>\<open>walk_files\<close>: the files of a directory with an extension, in the order of their paths.\<close>

definition walk_files :: "string \<Rightarrow> (string list \<times> 'a) list \<Rightarrow> string list list" where
  "walk_files ext dir =
     sort (filter (\<lambda>path. path \<noteq> [] \<and> extension (last path) = Some ext) (remdups (map fst dir)))"

definition blank :: "string \<Rightarrow> bool" where
  "blank line \<longleftrightarrow> trim line = []"

text \<open>
  \<open>append_line_sync\<close>: the line goes wherever the file ends. One that fails, in the write, in the write of the
  line break or in the sync, may leave any part of it.
\<close>

definition text_of :: "string option \<Rightarrow> string" where
  "text_of file = (case file of None \<Rightarrow> [] | Some text \<Rightarrow> text)"

definition append_line :: "string \<Rightarrow> string option \<Rightarrow> string option" where
  "append_line line file = Some (text_of file @ line @ newline)"

definition append_part :: "nat option \<Rightarrow> string \<Rightarrow> string option \<Rightarrow> string option" where
  "append_part written line file =
     (case written of None \<Rightarrow> file | Some n \<Rightarrow> Some (text_of file @ take n (line @ newline)))"

definition append_line_sync ::
  "('a keeper_scheme) \<Rightarrow> string list \<Rightarrow> string \<Rightarrow> string option \<Rightarrow> (unit, core_error) result \<times> string option" where
  "append_line_sync kp path line file =
     (case kp_refuses kp AppendFile path of
        None \<Rightarrow> (Ok (), append_line line file)
      | Some e \<Rightarrow> (Err (CoreIo e), append_part (kp_written kp path) line file))"

section \<open>Documents\<close>

definition parse_doc :: "('a keeper_scheme) \<Rightarrow> string \<Rightarrow> (document, core_error) result" where
  "parse_doc kp text = map_err Markdown (doc_parse (kp_reader kp) text)"

text \<open>A file of the tree as it reads at this moment.\<close>

definition read_record :: "('a keeper_scheme) \<Rightarrow> string list \<Rightarrow> (string, vault) operation" where
  "read_record kp path = next_op (can kp ReadFile path) (\<lambda>_ v.
     (case map_of (st_records (va_store v)) path of
        None \<Rightarrow> (Err (CoreIo (IoNotFound (concat path))), v) | Some (text, _) \<Rightarrow> (Ok text, v)))"

lemma reads_only_read_record [intro, simp]: "reads_only (read_record kp path)"
  unfolding read_record_def
  by (intro reads_only_next reads_only_can) (simp add: reads_only_def split: option.split)

lemma preserves_read_record [preserving]: "preserves P (read_record kp path)"
  by (rule preserves_reads_only) simp

lemma read_record_Ok:
  "read_record kp path v = (Ok text, v') \<longleftrightarrow> v' = v \<and> kp_refuses kp ReadFile path = None
     \<and> (\<exists>mode. map_of (st_records (va_store v)) path = Some (text, mode))"
  by (auto simp: read_record_def next_op_Ok split: option.splits)

definition record_paths :: "vault \<Rightarrow> string list list" where
  "record_paths v = walk_files RECORD_EXT (st_records (va_store v))"

text \<open>\<open>locate_records\<close>: every record file of the tree, by identifier.\<close>

definition locate_records :: "vault \<Rightarrow> (string, string list) btree" where
  "locate_records v = fold (\<lambda>path m. bt_insert (file_stem (last path)) path m) (record_paths v) []"

section \<open>Lemmas\<close>

lemma set_walk_files:
  "path \<in> set (walk_files ext dir) \<longleftrightarrow> path \<in> fst ` set dir \<and> path \<noteq> [] \<and> extension (last path) = Some ext"
  by (auto simp: walk_files_def)

lemma sorted_walk_files: "sorted (walk_files ext dir)" "distinct (walk_files ext dir)"
  by (simp_all add: walk_files_def)

lemma lines_Nil [simp]: "str_lines [] = []"
  by (simp add: str_lines_def)

lemma lines_no_newline: "s \<noteq> [] \<Longrightarrow> CHR 0x0A \<notin> set s \<Longrightarrow> str_lines s = [s]"
  by (simp add: str_lines_def)

lemma lines_first: "CHR 0x0A \<notin> set l \<Longrightarrow> str_lines (l @ CHR 0x0A # t) = strip_cr l # str_lines t"
  by (simp add: str_lines_def Let_def split_on_append)

lemma last_newline_split:
  assumes "CHR 0x0A \<in> set s" obtains l t where "s = l @ CHR 0x0A # t" "CHR 0x0A \<notin> set l"
  using assms by (metis split_list_first)

lemma lines_closed_append:
  "s = [] \<or> last s = CHR 0x0A \<Longrightarrow> str_lines (s @ t) = str_lines s @ str_lines t"
proof (induction "length s" arbitrary: s rule: less_induct)
  case less
  show ?case
  proof (cases "s = []")
    case False
    with less.prems have "CHR 0x0A \<in> set s" by (metis last_in_set)
    then obtain l r where s: "s = l @ CHR 0x0A # r" "CHR 0x0A \<notin> set l" by (rule last_newline_split)
    have "r = [] \<or> last r = CHR 0x0A" using less.prems s(1) by (auto split: if_splits)
    with less.hyps [of r] s show ?thesis by (simp add: lines_first)
  qed simp
qed

text \<open>What an append that a crash cut short left at the end of a file.\<close>

definition torn_tail :: "string \<Rightarrow> string" where
  "torn_tail s = rev (takeWhile (\<lambda>c. c \<noteq> CHR 0x0A) (rev s))"

lemma lines_unclosed_append:
  assumes "s \<noteq> []" "last s \<noteq> CHR 0x0A" "CHR 0x0A \<notin> set t"
  obtains before where "str_lines (s @ t @ newline) = str_lines before @ [strip_cr (torn_tail s @ t)]"
    "str_lines s = str_lines before @ [torn_tail s]" "torn_tail s \<noteq> []"
proof -
  define before where "before = rev (dropWhile (\<lambda>c. c \<noteq> CHR 0x0A) (rev s))"
  have s: "s = before @ torn_tail s"
    by (metis before_def torn_tail_def rev_append rev_rev_ident takeWhile_dropWhile_id)
  have torn: "torn_tail s \<noteq> []" "CHR 0x0A \<notin> set (torn_tail s)"
    using assms(1,2) by (auto simp: torn_tail_def takeWhile_eq_Nil_iff hd_rev dest: set_takeWhileD)
  have before: "before = [] \<or> last before = CHR 0x0A"
  proof (cases "dropWhile (\<lambda>c. c \<noteq> CHR 0x0A) (rev s)")
    case (Cons c cs)
    then have "c = CHR 0x0A" using hd_dropWhile [of "\<lambda>c. c \<noteq> CHR 0x0A" "rev s"] by simp
    with Cons show ?thesis by (simp add: before_def)
  qed (simp add: before_def)
  have "str_lines (torn_tail s @ t @ newline) = [strip_cr (torn_tail s @ t)]"
    using lines_first [of "torn_tail s @ t" "[]"] torn(2) assms(3) by simp
  then have "str_lines (s @ t @ newline) = str_lines before @ [strip_cr (torn_tail s @ t)]"
    using lines_closed_append [OF before, of "torn_tail s @ t @ newline"] s by (metis append.assoc)
  moreover have "str_lines s = str_lines before @ [torn_tail s]"
    using lines_closed_append [OF before, of "torn_tail s"] s lines_no_newline [OF torn] by metis
  ultimately show ?thesis using that torn(1) by blast
qed

text \<open>A file that is empty or ends its last line, as every finished append leaves it.\<close>

definition closed :: "string option \<Rightarrow> bool" where
  "closed f \<longleftrightarrow> (case f of None \<Rightarrow> True | Some text \<Rightarrow> text = [] \<or> last text = CHR 0x0A)"

definition file_lines :: "string option \<Rightarrow> string list" where
  "file_lines f = (case f of None \<Rightarrow> [] | Some text \<Rightarrow> str_lines text)"

lemma closed_append_line [simp]: "closed (append_line line f)"
  by (simp add: closed_def append_line_def)

lemma text_of_simps [simp]: "text_of None = []" "text_of (Some t) = t"
  by (simp_all add: text_of_def)

lemma file_lines_text: "file_lines f = str_lines (text_of f)"
  by (cases f) (simp_all add: file_lines_def)

lemma closed_text: "closed f \<longleftrightarrow> closed (Some (text_of f))"
  by (cases f) (simp_all add: closed_def)

text \<open>What an append can have come to: the line, or some of it.\<close>

lemma append_line_sync_cases [consumes 1, case_names appended untouched cut]:
  assumes "append_line_sync kp path line f = (r, g)"
  obtains (appended) "text_of g = text_of f @ line @ newline"
  | (untouched) e where "r = Err e" "g = f"
  | (cut) e p q where "r = Err e" "line = p @ q" "text_of g = text_of f @ p"
proof (cases "kp_refuses kp AppendFile path")
  case None
  with assms appended show ?thesis by (auto simp: append_line_sync_def append_line_def)
next
  case (Some e)
  show ?thesis
  proof (cases "kp_written kp path")
    case None
    with assms Some untouched show ?thesis by (auto simp: append_line_sync_def append_part_def)
  next
    case written: (Some n)
    with assms Some have g: "r = Err (CoreIo e)" "text_of g = text_of f @ take n (line @ newline)"
      by (auto simp: append_line_sync_def append_part_def)
    show ?thesis
    proof (cases "n \<le> length line")
      case True
      with g(2) have "text_of g = text_of f @ take n line" by simp
      then show ?thesis using cut [OF g(1), of "take n line" "drop n line"] by simp
    next
      case False
      then have "take n (line @ newline) = line @ newline" by simp
      with g(2) appended show ?thesis by simp
    qed
  qed
qed

lemma append_line_sync_Ok:
  "append_line_sync kp path line f = (Ok u, g) \<longleftrightarrow> kp_refuses kp AppendFile path = None \<and> g = append_line line f"
  by (auto simp: append_line_sync_def split: option.splits)

lemma file_lines_append_line:
  assumes "closed f" "CHR 0x0A \<notin> set line"
  shows "file_lines (append_line line f) = file_lines f @ [strip_cr line]"
proof -
  have "str_lines (line @ newline) = [strip_cr line]" using lines_first [of line "[]"] assms(2) by simp
  with assms(1) show ?thesis
    by (cases f) (simp_all add: file_lines_def append_line_def closed_def lines_closed_append)
qed

end
