(* ===== verification/Hold.thy ===== *)
theory Hold
  imports Vault
begin

text \<open>
  \<open>yaam-core/src/hold.rs\<close>: legal holds, an append-only log under the memory root. A line is its fields;
  \<open>serde_json\<close> is \<open>kp_hold_json\<close> and \<open>kp_read_hold\<close>, and \<open>hold_json_ok\<close> is what is relied on of it: what it
  writes is one line, and reads back.
\<close>

definition HOLD_PREFIX :: string where "HOLD_PREFIX = ''hold-''"

datatype hold_event = HoldPlaced | HoldReleased

record hold_line =
  hl_id :: string
  hl_event :: hold_event
  hl_subject :: string
  hl_at_ms :: int
  hl_reason :: string
  hl_operator :: string
  hl_records :: "string list"

record hold =
  ho_id :: string
  ho_subject :: subject_hash
  ho_at_ms :: int
  ho_reason :: string
  ho_operator :: string
  ho_records :: "string list"

record hold_keeper = keeper +
  kp_hold_json :: "hold_line \<Rightarrow> string option"
  kp_read_hold :: "string \<Rightarrow> hold_line option"

section \<open>The log\<close>

definition stated_text :: "string \<Rightarrow> string \<Rightarrow> (string, core_error) result" where
  "stated_text text missing = (if trim text = [] then Err (invalid (Unstated missing)) else Ok (trim text))"

definition placement :: "hold \<Rightarrow> hold_line" where
  "placement h = \<lparr>hl_id = ho_id h, hl_event = HoldPlaced, hl_subject = subject_hash_str (ho_subject h),
     hl_at_ms = ho_at_ms h, hl_reason = ho_reason h, hl_operator = ho_operator h, hl_records = ho_records h\<rparr>"

definition hold_append :: "('a hold_keeper_scheme) \<Rightarrow> hold_line \<Rightarrow> (unit, vault) operation" where
  "hold_append kp entry =
     next_op (lift_result (ok_or (invalid (NotSerialised (hl_id entry))) (kp_hold_json kp entry))) (\<lambda>text v.
       (case append_line_sync kp [HOLD_LOG] text (va_holds v) of (r, new) \<Rightarrow> (r, v\<lparr>va_holds := new\<rparr>)))"

type_synonym hold_maps = "(string, hold) btree \<times> (string, int) btree"

definition read_hold_line :: "hold_maps \<Rightarrow> hold_line \<Rightarrow> (hold_maps, core_error) result" where
  "read_hold_line = (\<lambda>(placed, released) l.
     (case hl_event l of
        HoldPlaced \<Rightarrow>
          and_then (map_err CoreInvalid (subject_hash_try_from (hl_subject l))) (\<lambda>subject.
            Ok (bt_insert (hl_id l)
              \<lparr>ho_id = hl_id l, ho_subject = subject, ho_at_ms = hl_at_ms l, ho_reason = hl_reason l,
                ho_operator = hl_operator l, ho_records = hl_records l\<rparr> placed, released))
      | HoldReleased \<Rightarrow> Ok (placed, bt_insert (hl_id l) (hl_at_ms l) released)))"

definition hold_read :: "('a hold_keeper_scheme) \<Rightarrow> (hold_maps, vault) operation" where
  "hold_read kp =
     next_op (can kp ReadFile [HOLD_LOG]) (\<lambda>_ v.
       (try_fold (\<lambda>m text. case kp_read_hold kp text of None \<Rightarrow> Ok m | Some l \<Rightarrow> read_hold_line m l) ([], [])
          (filter (\<lambda>text. \<not> blank text) (file_lines (va_holds v))), v))"

section \<open>Placing and lifting\<close>

definition place_hold ::
  "('a hold_keeper_scheme) \<Rightarrow> subject_hash \<Rightarrow> string \<Rightarrow> string \<Rightarrow> record_id list \<Rightarrow> (hold, vault) operation" where
  "place_hold kp subject reason operator records =
     next_op (lift_result (stated_text reason ''a hold has to say why'')) (\<lambda>reason.
     next_op (lift_result (stated_text operator ''a hold has to name who placed it'')) (\<lambda>operator.
     next_op generate (\<lambda>rid.
       let h = \<lparr>ho_id = HOLD_PREFIX @ record_id_str rid, ho_subject = subject, ho_at_ms = kp_now kp,
         ho_reason = reason, ho_operator = operator, ho_records = map record_id_str records\<rparr>
       in next_op (hold_append kp (placement h)) (\<lambda>_. give h))))"

definition place_over_record ::
  "('a hold_keeper_scheme) \<Rightarrow> record_id \<Rightarrow> string \<Rightarrow> string \<Rightarrow> (hold list, vault) operation" where
  "place_over_record kp rid reason operator =
     next_op (can kp ReadFile [RECORDS_DIR]) (\<lambda>_ v.
       (case map_of (locate_records v) (record_id_str rid) of
          None \<Rightarrow> (Err (invalid (NoRecordToHold (record_id_str rid))), v)
        | Some path \<Rightarrow>
            next_op (read_record kp path) (\<lambda>text.
            next_op (lift_result (parse_doc kp text)) (\<lambda>d.
              let named = remdups_adj (sort_key subject_hash_str (map subj_hash (subjects (doc_record d))))
              in if named = [] then lift_result (Err (invalid (RecordNamesNoSubject (record_id_str rid))))
                 else fold_op (\<lambda>hs s. next_op (place_hold kp s reason operator [rid]) (\<lambda>h. give (hs @ [h])))
                        [] named)) v))"

definition release ::
  "('a hold_keeper_scheme) \<Rightarrow> string \<Rightarrow> string \<Rightarrow> string \<Rightarrow> (hold, vault) operation" where
  "release kp hid reason operator =
     next_op (lift_result (stated_text reason ''a release has to say why'')) (\<lambda>reason.
     next_op (lift_result (stated_text operator ''a release has to name who lifted it'')) (\<lambda>operator.
     next_op (hold_read kp) (\<lambda>(placed, released).
       (case map_of placed hid of
          None \<Rightarrow> lift_result (Err (invalid (NoSuchHold hid)))
        | Some h \<Rightarrow>
            if map_of released hid \<noteq> None then lift_result (Err (invalid (HoldAlreadyReleased hid)))
            else next_op (hold_append kp
                   \<lparr>hl_id = ho_id h, hl_event = HoldReleased, hl_subject = subject_hash_str (ho_subject h),
                     hl_at_ms = kp_now kp, hl_reason = reason, hl_operator = operator, hl_records = []\<rparr>)
                   (\<lambda>_. give h)))))"

section \<open>What is held\<close>

definition standing :: "('a hold_keeper_scheme) \<Rightarrow> (hold list, vault) operation" where
  "standing kp =
     next_op (hold_read kp) (\<lambda>(placed, released).
       give (sort_key (\<lambda>h. (ho_at_ms h, ho_id h))
         (filter (\<lambda>h. map_of released (ho_id h) = None) (map snd placed))))"

definition standing_for :: "('a hold_keeper_scheme) \<Rightarrow> subject_hash \<Rightarrow> (hold list, vault) operation" where
  "standing_for kp subject =
     next_op (standing kp) (\<lambda>hs. give (filter (\<lambda>h. ho_subject h = subject) hs))"

definition hold_sentence :: "hold \<Rightarrow> string" where
  "hold_sentence h = newline @ ''  '' @ ho_id h @ '' placed '' @ format_ms (ho_at_ms h) @ '' by `'' @ ho_operator h
     @ ''`: '' @ ho_reason h
     @ (if ho_records h = [] then [] else '' (over '' @ join_with '', '' (ho_records h) @ '')'')"

definition held_message :: "subject_hash \<Rightarrow> hold list \<Rightarrow> string" where
  "held_message subject hs =
     ''held: '' @ show_nat (length hs) @ '' hold(s) stand over subject '' @ subject_hash_str subject
     @ '', and destroying its keys would make bodies unreadable that this store has been ordered to preserve.''
     @ '' Nothing was destroyed.'' @ concat (map hold_sentence hs) @ newline
     @ ''Release it first if the obligation has ended: `yaam hold release --hold <id> --reason ''
     @ [CHR 0xE2, CHR 0x80, CHR 0xA6] @ '' --operator '' @ [CHR 0xE2, CHR 0x80, CHR 0xA6]
     @ ''`. Two obligations point in opposite directions here, and only a person can say which one now applies.''"

definition refuse_if_held :: "('a hold_keeper_scheme) \<Rightarrow> subject_hash \<Rightarrow> (unit, vault) operation" where
  "refuse_if_held kp subject =
     next_op (standing_for kp subject) (\<lambda>hs.
       lift_result (if hs = [] then Ok () else Err (Held (held_message subject hs))))"

section \<open>The log as its entries\<close>

definition hold_json_ok :: "('a hold_keeper_scheme) \<Rightarrow> bool" where
  "hold_json_ok kp \<longleftrightarrow> (\<forall>l text. kp_hold_json kp l = Some text \<longrightarrow>
     CHR 0x0A \<notin> set text \<and> strip_cr text = text \<and> \<not> blank text \<and> kp_read_hold kp text = Some l)"

definition hold_entries :: "('a hold_keeper_scheme) \<Rightarrow> vault \<Rightarrow> hold_line list" where
  "hold_entries kp v =
     List.map_filter (kp_read_hold kp) (filter (\<lambda>text. \<not> blank text) (file_lines (va_holds v)))"

lemma try_fold_skipping:
  "try_fold (\<lambda>m x. case f x of None \<Rightarrow> Ok m | Some l \<Rightarrow> g m l) m xs = try_fold g m (List.map_filter f xs)"
  by (induction xs arbitrary: m) (auto simp: map_filter_simps split: option.split)

lemma try_fold_append: "try_fold f s (xs @ ys) = and_then (try_fold f s xs) (\<lambda>t. try_fold f t ys)"
proof (induction xs arbitrary: s)
  case (Cons x xs)
  then show ?case by (cases "f s x") simp_all
qed simp

lemma hold_read_entries:
  "hold_read kp = next_op (can kp ReadFile [HOLD_LOG]) (\<lambda>_ v. (try_fold read_hold_line ([], []) (hold_entries kp v), v))"
  by (simp add: hold_read_def try_fold_skipping hold_entries_def)

lemma hold_read_Ok:
  "hold_read kp v = (Ok m, v') \<longleftrightarrow> v' = v \<and> kp_refuses kp ReadFile [HOLD_LOG] = None
     \<and> try_fold read_hold_line ([], []) (hold_entries kp v) = Ok m"
  by (auto simp: hold_read_entries next_op_Ok)

lemma reads_only_hold_read [intro, simp]: "reads_only (hold_read kp)"
  unfolding hold_read_entries
  by (intro reads_only_next reads_only_can) (simp add: reads_only_def)

lemma reads_only_standing [intro, simp]: "reads_only (standing kp)"
  unfolding standing_def by (intro reads_only_next) (auto split: prod.split)

lemma reads_only_standing_for [intro, simp]: "reads_only (standing_for kp s)"
  unfolding standing_for_def by auto

lemma reads_only_refuse [intro, simp]: "reads_only (refuse_if_held kp s)"
  unfolding refuse_if_held_def by auto

lemma hold_append_Ok:
  "hold_append kp l v = (Ok u, v') \<longleftrightarrow> (\<exists>text. kp_hold_json kp l = Some text
     \<and> kp_refuses kp AppendFile [HOLD_LOG] = None \<and> v' = v\<lparr>va_holds := append_line text (va_holds v)\<rparr>)"
  by (cases "kp_hold_json kp l"; cases "kp_refuses kp AppendFile [HOLD_LOG]") (auto simp: hold_append_def append_line_sync_def)

lemma hold_append_cases [consumes 1, case_names unwritten written]:
  assumes "hold_append kp l v = (r, v')"
  obtains (unwritten) e where "r = Err e" "v' = v"
  | (written) line new where "kp_hold_json kp l = Some line" "append_line_sync kp [HOLD_LOG] line (va_holds v) = (r, new)"
      "v' = v\<lparr>va_holds := new\<rparr>"
proof (cases "kp_hold_json kp l")
  case None
  with assms unwritten show ?thesis by (auto simp: hold_append_def lift_result_def)
next
  case (Some line)
  obtain q new where "append_line_sync kp [HOLD_LOG] line (va_holds v) = (q, new)" by fastforce
  with Some assms written show ?thesis by (auto simp: hold_append_def)
qed

lemma hold_append_entries:
  assumes "hold_json_ok kp" "closed (va_holds v)" "hold_append kp l v = (Ok u, v')"
  shows "hold_entries kp v' = hold_entries kp v @ [l]" "closed (va_holds v')" "va_ulids v' = va_ulids v"
proof -
  from assms(3) obtain "text" where t: "kp_hold_json kp l = Some text"
    "v' = v\<lparr>va_holds := append_line text (va_holds v)\<rparr>" unfolding hold_append_Ok by blast
  from assms(1) t(1) have "CHR 0x0A \<notin> set text" "strip_cr text = text" "\<not> blank text" "kp_read_hold kp text = Some l"
    unfolding hold_json_ok_def by blast+
  with assms(2) show "hold_entries kp v' = hold_entries kp v @ [l]"
    by (simp add: hold_entries_def t(2) file_lines_append_line map_filter_def)
  show "closed (va_holds v')" "va_ulids v' = va_ulids v" by (simp_all add: t(2))
qed

lemma standing_log:
  assumes "va_holds v = va_holds v'" shows "fst (standing kp v) = fst (standing kp v')"
proof -
  have "fst (hold_read kp v) = fst (hold_read kp v')" "snd (hold_read kp v) = v" "snd (hold_read kp v') = v'"
    using reads_only_hold_read [of kp] assms
    by (simp_all add: reads_only_def hold_read_entries next_op_def can_def lift_result_def hold_entries_def split: result.split)
  then show ?thesis
    by (cases "hold_read kp v"; cases "hold_read kp v'")
      (auto simp: standing_def next_op_def give_def split: result.split prod.split)
qed

section \<open>What the entries say\<close>

definition hold_of :: "hold_line \<Rightarrow> hold" where
  "hold_of l = \<lparr>ho_id = hl_id l, ho_subject = SubjectHash (hl_subject l), ho_at_ms = hl_at_ms l,
     ho_reason = hl_reason l, ho_operator = hl_operator l, ho_records = hl_records l\<rparr>"

lemma read_hold_line_Ok:
  assumes "read_hold_line (p, q) l = Ok (p', q')"
  shows "map_of p' = (if hl_event l = HoldPlaced then (map_of p)(hl_id l \<mapsto> hold_of l) else map_of p)"
    and "map_of q' = (if hl_event l = HoldReleased then (map_of q)(hl_id l \<mapsto> hl_at_ms l) else map_of q)"
    and "bt_ordered p \<Longrightarrow> bt_ordered p'"
proof -
  have "s = SubjectHash t" if "subject_hash_try_from t = Ok s" for s t
    using that by (cases s) (auto simp: subject_hash_try_from_def split: if_splits)
  with assms show "map_of p' = (if hl_event l = HoldPlaced then (map_of p)(hl_id l \<mapsto> hold_of l) else map_of p)"
    "map_of q' = (if hl_event l = HoldReleased then (map_of q)(hl_id l \<mapsto> hl_at_ms l) else map_of q)"
    "bt_ordered p \<Longrightarrow> bt_ordered p'"
    by (auto simp: read_hold_line_def hold_of_def split: hold_event.splits)
qed

text \<open>What the log holds of one identifier: its last placement, unless a release of it follows or precedes.\<close>

lemma untouched_entries:
  assumes "try_fold read_hold_line (p, q) ls = Ok (p', q')" "hid \<notin> hl_id ` set ls"
  shows "map_of p' hid = map_of p hid \<and> map_of q' hid = map_of q hid"
  using assms
proof (induction ls arbitrary: p q)
  case (Cons l ls)
  obtain p1 q1 where 1: "read_hold_line (p, q) l = Ok (p1, q1)" "try_fold read_hold_line (p1, q1) ls = Ok (p', q')"
    using Cons.prems(1) by auto
  show ?case using Cons.IH [OF 1(2)] Cons.prems(2) read_hold_line_Ok(1,2) [OF 1(1)] by simp
qed simp

lemma unreleased_entries:
  assumes "try_fold read_hold_line (p, q) ls = Ok (p', q')" "map_of q hid = None"
    "\<forall>l \<in> set ls. hl_event l = HoldReleased \<longrightarrow> hl_id l \<noteq> hid"
  shows "map_of q' hid = None"
  using assms
proof (induction ls arbitrary: p q)
  case (Cons l ls)
  obtain p1 q1 where 1: "read_hold_line (p, q) l = Ok (p1, q1)" "try_fold read_hold_line (p1, q1) ls = Ok (p', q')"
    using Cons.prems(1) by auto
  have "map_of q1 hid = None" using Cons.prems(2,3) by (auto simp: read_hold_line_Ok(2) [OF 1(1)])
  with Cons.IH [OF 1(2)] Cons.prems(3) show ?case by simp
qed simp

lemma ordered_entries:
  assumes "try_fold read_hold_line (p, q) ls = Ok (p', q')" "bt_ordered p" "\<forall>i h. map_of p i = Some h \<longrightarrow> ho_id h = i"
  shows "bt_ordered p' \<and> (\<forall>i h. map_of p' i = Some h \<longrightarrow> ho_id h = i)"
  using assms
proof (induction ls arbitrary: p q)
  case (Cons l ls)
  obtain p1 q1 where 1: "read_hold_line (p, q) l = Ok (p1, q1)" "try_fold read_hold_line (p1, q1) ls = Ok (p', q')"
    using Cons.prems(1) by auto
  have "ho_id h = i" if "map_of p1 i = Some h" for i h
    using that Cons.prems(3) by (auto simp: read_hold_line_Ok(1) [OF 1(1)] hold_of_def split: if_splits)
  then show ?case using Cons.IH [OF 1(2) read_hold_line_Ok(3) [OF 1(1) Cons.prems(2)]] by blast
qed simp

text \<open>The hold \<open>l\<close> places stands, as far as the log goes.\<close>

definition stands :: "('a hold_keeper_scheme) \<Rightarrow> hold_line \<Rightarrow> vault \<Rightarrow> bool" where
  "stands kp l v \<longleftrightarrow> (\<exists>before after. hold_entries kp v = before @ [l] @ after \<and> hl_event l = HoldPlaced
     \<and> hl_id l \<notin> hl_id ` set before \<and> hl_id l \<notin> hl_id ` set after)"

lemma stands_read:
  assumes "stands kp l v" "hold_read kp v = (Ok (placed, released), v')"
  shows "map_of placed (hl_id l) = Some (hold_of l)" "map_of released (hl_id l) = None"
proof -
  from assms(1) obtain before after where e: "hold_entries kp v = before @ [l] @ after" "hl_event l = HoldPlaced"
    "hl_id l \<notin> hl_id ` set before" "hl_id l \<notin> hl_id ` set after" unfolding stands_def by blast
  from assms(2) have "try_fold read_hold_line ([], []) (before @ [l] @ after) = Ok (placed, released)"
    by (simp add: hold_read_Ok e(1))
  then obtain p1 q1 p2 q2 where f: "try_fold read_hold_line ([], []) before = Ok (p1, q1)"
    "read_hold_line (p1, q1) l = Ok (p2, q2)" "try_fold read_hold_line (p2, q2) after = Ok (placed, released)"
    by (auto simp: try_fold_append)
  note u = untouched_entries [OF f(1) e(3)] untouched_entries [OF f(3) e(4)] read_hold_line_Ok(1,2) [OF f(2)]
  show "map_of placed (hl_id l) = Some (hold_of l)" "map_of released (hl_id l) = None" using u e(2) by simp_all
qed

lemma stands_standing:
  assumes "stands kp l v" "standing kp v = (Ok hs, v')" shows "hold_of l \<in> set hs"
proof -
  from assms(2) obtain placed released where r: "hold_read kp v = (Ok (placed, released), v)"
    "hs = sort_key (\<lambda>h. (ho_at_ms h, ho_id h)) (filter (\<lambda>h. map_of released (ho_id h) = None) (map snd placed))"
    by (auto simp: standing_def next_op_Ok hold_read_Ok)
  from stands_read [OF assms(1) r(1)] have "(hl_id l, hold_of l) \<in> set placed" "map_of released (ho_id (hold_of l)) = None"
    by (auto simp: hold_of_def dest: map_of_SomeD)
  then show ?thesis unfolding r(2) by force
qed

lemma stands_refused:
  assumes "stands kp l v" "hl_subject l = subject_hash_str s" shows "\<exists>e. refuse_if_held kp s v = (Err e, v)"
proof -
  obtain r v' where v: "refuse_if_held kp s v = (r, v')" by fastforce
  have "v' = v" using reads_only_refuse v by (rule reads_onlyD)
  moreover have False if ok: "r = Ok u" for u
  proof -
    from v ok obtain hs where hs: "standing kp v = (Ok hs, v)" "filter (\<lambda>h. ho_subject h = s) hs = []"
      using reads_onlyD [OF reads_only_standing]
      by (fastforce simp: refuse_if_held_def standing_for_def next_op_Ok split: if_splits)
    from stands_standing [OF assms(1) hs(1)] hs(2) have "ho_subject (hold_of l) \<noteq> s"
      by (auto simp: filter_empty_conv)
    with assms(2) show False by (cases s) (simp add: hold_of_def)
  qed
  ultimately show ?thesis using v by (cases r) auto
qed

section \<open>Standing until released\<close>

lemma place_hold_elim [consumes 1, case_names failed placed]:
  assumes "place_hold kp s reason operator recs v = (r, v')"
  obtains e where "r = Err e" "v' = v"
  | h q where "r = and_then q (\<lambda>_. Ok h)" "ho_id h = HOLD_PREFIX @ record_id_str (shd (va_ulids v))" "ho_subject h = s"
      "hold_append kp (placement h) (v\<lparr>va_ulids := stl (va_ulids v)\<rparr>) = (q, v')"
proof (cases "stated_text reason ''a hold has to say why''")
  case (Err e)
  with assms show ?thesis by (intro that(1) [of e]) (auto simp: place_hold_def)
next
  case r: (Ok reason')
  let ?v = "v\<lparr>va_ulids := stl (va_ulids v)\<rparr>"
  show ?thesis
  proof (cases "stated_text operator ''a hold has to name who placed it''")
    case (Err e)
    with r assms show ?thesis by (intro that(1) [of e]) (auto simp: place_hold_def)
  next
    case (Ok operator')
    define h where "h = \<lparr>ho_id = HOLD_PREFIX @ record_id_str (shd (va_ulids v)), ho_subject = s,
      ho_at_ms = kp_now kp, ho_reason = reason', ho_operator = operator', ho_records = map record_id_str recs\<rparr>"
    obtain q u where q: "hold_append kp (placement h) ?v = (q, u)" by fastforce
    then have "r = and_then q (\<lambda>_. Ok h) \<and> v' = u"
      using assms r Ok
      by (cases q) (simp_all add: place_hold_def next_op_def lift_result_def generate_def give_def Let_def h_def)
    with q show ?thesis by (intro that(2) [of q h]) (simp_all add: h_def)
  qed
qed

definition same_json :: "('a hold_keeper_scheme) \<Rightarrow> ('a hold_keeper_scheme) \<Rightarrow> bool" where
  "same_json kp kp' \<longleftrightarrow> kp_hold_json kp' = kp_hold_json kp \<and> kp_read_hold kp' = kp_read_hold kp"

definition not_drawn :: "string \<Rightarrow> vault \<Rightarrow> bool" where
  "not_drawn hid v \<longleftrightarrow> hid \<notin> (\<lambda>rid. HOLD_PREFIX @ record_id_str rid) ` sset (va_ulids v)"

text \<open>
  Whatever happens to a store, under any clock and with any failures, short of releasing the hold \<open>hid\<close> and
  of drawing its identifier again.
\<close>

inductive hold_step :: "('a hold_keeper_scheme) \<Rightarrow> string \<Rightarrow> vault \<Rightarrow> vault \<Rightarrow> bool" for kp hid where
  placing: "same_json kp kp' \<Longrightarrow> place_hold kp' s reason operator recs v = (r, v') \<Longrightarrow> hold_step kp hid v v'"
| placing_over: "same_json kp kp' \<Longrightarrow> place_over_record kp' rid reason operator v = (q, v') \<Longrightarrow> hold_step kp hid v v'"
| releasing: "same_json kp kp' \<Longrightarrow> release kp' i reason operator v = (r, v') \<Longrightarrow> i \<noteq> hid \<Longrightarrow> hold_step kp hid v v'"
| elsewhere: "va_holds v' = va_holds v \<Longrightarrow> sset (va_ulids v') \<subseteq> sset (va_ulids v) \<Longrightarrow> hold_step kp hid v v'"

text \<open>
  A part of a written line, and what is relied on of \<open>serde_json\<close> about parts: only a whole line reads, a line is
  never the beginning of another, and control characters are escaped. A part with more after it is not JSON.
\<close>

definition cut_line :: "('a hold_keeper_scheme) \<Rightarrow> string \<Rightarrow> bool" where
  "cut_line kp p \<longleftrightarrow> p \<noteq> [] \<and> (\<exists>x rest. kp_hold_json kp x = Some (p @ rest))"

definition whole_lines_read :: "('a hold_keeper_scheme) \<Rightarrow> bool" where
  "whole_lines_read kp \<longleftrightarrow>
     (\<forall>ps x. (\<forall>p \<in> set ps. cut_line kp p) \<and> kp_read_hold kp (concat ps) = Some x \<longrightarrow>
        length ps = 1 \<and> kp_hold_json kp x = Some (concat ps))
     \<and> (\<forall>x y s rest. kp_hold_json kp x = Some s \<and> kp_hold_json kp y = Some (s @ rest) \<longrightarrow> rest = [])
     \<and> (\<forall>x t. kp_hold_json kp x = Some t \<longrightarrow> CHR 0x0D \<notin> set t)"

text \<open>What failed appends left after the last finished line: parts of lines about other holds.\<close>

definition torn_parts :: "('a hold_keeper_scheme) \<Rightarrow> string \<Rightarrow> string list \<Rightarrow> bool" where
  "torn_parts kp hid ps \<longleftrightarrow> (\<forall>p \<in> set ps. p \<noteq> [] \<and> (\<exists>x rest. kp_hold_json kp x = Some (p @ rest) \<and> hl_id x \<noteq> hid))"

definition text_entries :: "('a hold_keeper_scheme) \<Rightarrow> string \<Rightarrow> hold_line list" where
  "text_entries kp t = List.map_filter (kp_read_hold kp) (filter (\<lambda>line. \<not> blank line) (str_lines t))"

definition placed_in :: "hold_line \<Rightarrow> hold_line list \<Rightarrow> bool" where
  "placed_in l es \<longleftrightarrow> (\<exists>before after. es = before @ [l] @ after \<and> hl_event l = HoldPlaced
     \<and> hl_id l \<notin> hl_id ` set before \<and> hl_id l \<notin> hl_id ` set after)"

definition keeps_hold :: "('a hold_keeper_scheme) \<Rightarrow> hold_line \<Rightarrow> vault \<Rightarrow> bool" where
  "keeps_hold kp l v \<longleftrightarrow> not_drawn (hl_id l) v \<and> (\<exists>body ps. text_of (va_holds v) = body @ concat ps
     \<and> closed (Some body) \<and> torn_parts kp (hl_id l) ps \<and> placed_in l (text_entries kp body))"

lemma hold_entries_text: "hold_entries kp v = text_entries kp (text_of (va_holds v))"
  by (simp add: hold_entries_def text_entries_def file_lines_text)

lemma stands_placed_in: "stands kp l v \<longleftrightarrow> placed_in l (hold_entries kp v)"
  by (simp add: stands_def placed_in_def)

lemma placed_in_more:
  assumes "placed_in l es" "hl_id l \<notin> hl_id ` set later" shows "placed_in l (es @ later)"
proof -
  from assms(1) obtain before after where "es = before @ [l] @ after" "hl_event l = HoldPlaced"
    "hl_id l \<notin> hl_id ` set before" "hl_id l \<notin> hl_id ` set after" unfolding placed_in_def by (elim exE conjE) (rule that)
  with assms(2) show ?thesis unfolding placed_in_def
    by (intro exI [of _ before] exI [of _ "after @ later"]) auto
qed

lemma torn_parts_chars:
  assumes "hold_json_ok kp" "whole_lines_read kp" "torn_parts kp hid ps"
  shows "CHR 0x0A \<notin> set (concat ps)" "CHR 0x0D \<notin> set (concat ps)" "\<forall>p \<in> set ps. cut_line kp p"
proof -
  have "CHR 0x0A \<notin> set p \<and> CHR 0x0D \<notin> set p \<and> cut_line kp p" if "p \<in> set ps" for p
  proof -
    from that assms(3) obtain x rest where t: "p \<noteq> []" "kp_hold_json kp x = Some (p @ rest)" unfolding torn_parts_def by blast
    from t(2) assms(1) have "CHR 0x0A \<notin> set (p @ rest)" unfolding hold_json_ok_def by blast
    moreover from t(2) assms(2) have "CHR 0x0D \<notin> set (p @ rest)" unfolding whole_lines_read_def by blast
    ultimately show ?thesis using t unfolding cut_line_def by auto
  qed
  then show "CHR 0x0A \<notin> set (concat ps)" "CHR 0x0D \<notin> set (concat ps)" "\<forall>p \<in> set ps. cut_line kp p" by auto
qed

lemma strip_cr_free: "CHR 0x0D \<notin> set t \<Longrightarrow> strip_cr t = t"
  unfolding strip_cr_def by (cases t rule: rev_cases) auto

text \<open>A last line made of parts is read as a line about another hold, or not at all.\<close>

lemma parts_read:
  assumes "hold_json_ok kp" "whole_lines_read kp" "torn_parts kp hid ps" "kp_read_hold kp (concat ps) = Some x"
  shows "hl_id x \<noteq> hid" "length ps = 1"
proof -
  note chars = torn_parts_chars [OF assms(1-3)]
  have whole: "length ps = 1" "kp_hold_json kp x = Some (concat ps)"
    using assms(2,4) chars(3) unfolding whole_lines_read_def by blast+
  then obtain p where p: "ps = [p]" by (auto simp: length_Suc_conv)
  with assms(3) obtain y rest where t: "kp_hold_json kp y = Some (p @ rest)" "hl_id y \<noteq> hid"
    unfolding torn_parts_def by auto
  from whole(2) p have "kp_hold_json kp x = Some p" by simp
  with t(1) assms(2) have "rest = []" unfolding whole_lines_read_def by blast
  with t(1) assms(1) have "kp_read_hold kp p = Some y" unfolding hold_json_ok_def by auto
  with assms(4) p t(2) show "hl_id x \<noteq> hid" by simp
  show "length ps = 1" by (rule whole(1))
qed

lemma text_entries_open:
  assumes "closed (Some body)" "CHR 0x0A \<notin> set t"
  shows "text_entries kp (body @ t) = text_entries kp body @ (if blank t then [] else
    (case kp_read_hold kp t of None \<Rightarrow> [] | Some x \<Rightarrow> [x]))"
proof (cases "t = []")
  case True
  then show ?thesis by (simp add: blank_def trim_Nil)
next
  case False
  then have "str_lines (body @ t) = str_lines body @ [t]"
    using lines_closed_append [of body t] lines_no_newline [OF False assms(2)] assms(1) by (simp add: closed_def)
  then show ?thesis by (simp add: text_entries_def map_filter_def split: option.split)
qed

lemma text_entries_closed:
  assumes "closed (Some body)" "CHR 0x0A \<notin> set t" "CHR 0x0D \<notin> set t"
  shows "text_entries kp (body @ t @ newline) = text_entries kp body @ (if blank t then [] else
    (case kp_read_hold kp t of None \<Rightarrow> [] | Some x \<Rightarrow> [x]))"
proof -
  have "str_lines (body @ t @ newline) = str_lines body @ [t]"
    using lines_closed_append [of body "t @ newline"] lines_first [OF assms(2), of "[]"] strip_cr_free [OF assms(3)] assms(1)
    by (simp add: closed_def)
  then show ?thesis by (simp add: text_entries_def map_filter_def split: option.split)
qed

lemma keeps_hold_stands:
  assumes "hold_json_ok kp" "whole_lines_read kp" "keeps_hold kp l v" shows "stands kp l v"
proof -
  from assms(3) obtain body ps where b: "text_of (va_holds v) = body @ concat ps" "closed (Some body)"
    "torn_parts kp (hl_id l) ps" "placed_in l (text_entries kp body)" unfolding keeps_hold_def by blast
  have "hold_entries kp v = text_entries kp body @ (if blank (concat ps) then [] else
      (case kp_read_hold kp (concat ps) of None \<Rightarrow> [] | Some x \<Rightarrow> [x]))"
    unfolding hold_entries_text b(1) by (rule text_entries_open [OF b(2) torn_parts_chars(1) [OF assms(1,2) b(3)]])
  moreover have "hl_id l \<notin> hl_id ` set (if blank (concat ps) then [] else
      (case kp_read_hold kp (concat ps) of None \<Rightarrow> [] | Some x \<Rightarrow> [x]))"
    using parts_read(1) [OF assms(1,2) b(3)] by (cases "kp_read_hold kp (concat ps)") auto
  ultimately show ?thesis unfolding stands_placed_in using placed_in_more [OF b(4)] by simp
qed

lemma keeps_append:
  assumes "hold_json_ok kp" "whole_lines_read kp" "hl_id x \<noteq> hl_id l"
  shows "preserves (keeps_hold kp l) (hold_append kp x)"
  unfolding preserves_def
proof (intro allI impI)
  fix v r v' assume "hold_append kp x v = (r, v')" and k: "keeps_hold kp l v"
  then show "keeps_hold kp l v'"
  proof (cases rule: hold_append_cases)
    case (unwritten e)
    with k show ?thesis by simp
  next
    case (written line new)
    from k obtain body ps where b: "text_of (va_holds v) = body @ concat ps" "closed (Some body)"
      "torn_parts kp (hl_id l) ps" "placed_in l (text_entries kp body)" and fresh: "not_drawn (hl_id l) v"
      unfolding keeps_hold_def by blast
    have fresh': "not_drawn (hl_id l) v'" using fresh by (simp add: written(3) not_drawn_def)
    note json = assms(1) [unfolded hold_json_ok_def, rule_format, OF written(1)]
    have part: "torn_parts kp (hl_id l) (ps @ [p])" if "p \<noteq> []" "line = p @ q" for p q
      using b(3) that written(1) assms(3) unfolding torn_parts_def by auto
    have whole: "line \<noteq> []" using json by (auto simp: blank_def trim_Nil)
    from written(2) show ?thesis
    proof (cases rule: append_line_sync_cases)
      case appended
      have parts: "torn_parts kp (hl_id l) (ps @ [line])" using part [OF whole, of "[]"] by simp
      note chars = torn_parts_chars [OF assms(1,2) parts]
      have more: "text_of (va_holds v') = (body @ concat (ps @ [line]) @ newline) @ concat []"
        by (simp add: written(3) appended b(1))
      have "placed_in l (text_entries kp (body @ concat (ps @ [line]) @ newline))"
        unfolding text_entries_closed [OF b(2) chars(1,2)]
        by (rule placed_in_more [OF b(4)])
          (cases "kp_read_hold kp (concat (ps @ [line]))", use parts_read(1) [OF assms(1,2) parts] in auto)
      with more fresh' show ?thesis unfolding keeps_hold_def
        by (intro conjI exI [of _ "body @ concat (ps @ [line]) @ newline"] exI [of _ "[]"])
          (simp_all add: closed_def torn_parts_def)
    next
      case (untouched e)
      with k show ?thesis by (simp add: written(3))
    next
      case (cut e p q)
      show ?thesis
      proof (cases "p = []")
        case True
        with cut b fresh' show ?thesis unfolding keeps_hold_def by (intro conjI exI [of _ body] exI [of _ ps]) (simp_all add: written(3))
      next
        case False
        with cut b fresh' part [of p q] show ?thesis unfolding keeps_hold_def
          by (intro conjI exI [of _ body] exI [of _ "ps @ [p]"]) (simp_all add: written(3))
      qed
    qed
  qed
qed

lemma keeps_place:
  assumes "hold_json_ok kp" "whole_lines_read kp" shows "preserves (keeps_hold kp l) (place_hold kp s reason operator recs)"
  unfolding preserves_def
proof (intro allI impI)
  fix v r v' assume "place_hold kp s reason operator recs v = (r, v')" and k: "keeps_hold kp l v"
  then show "keeps_hold kp l v'"
  proof (cases rule: place_hold_elim)
    case (failed e)
    with k show ?thesis by simp
  next
    case (placed h q)
    let ?v = "v\<lparr>va_ulids := stl (va_ulids v)\<rparr>"
    have "keeps_hold kp l ?v" using k stl_sset [of _ "va_ulids v"]
      by (auto simp: keeps_hold_def not_drawn_def)
    moreover have "ho_id h \<in> (\<lambda>rid. HOLD_PREFIX @ record_id_str rid) ` sset (va_ulids v)"
      unfolding placed(2) by (rule imageI) (rule shd_sset)
    then have "hl_id (placement h) \<noteq> hl_id l" using k
      by (auto simp: keeps_hold_def not_drawn_def placement_def)
    ultimately show ?thesis using preservesD [OF keeps_append [OF assms] placed(4)] by blast
  qed
qed

lemma keeps_place_over:
  assumes "hold_json_ok kp" "whole_lines_read kp" shows "preserves (keeps_hold kp l) (place_over_record kp rid reason operator)"
proof -
  have "preserves (keeps_hold kp l) (\<lambda>v. case map_of (locate_records v) (record_id_str rid) of
          None \<Rightarrow> (Err (invalid (NoRecordToHold (record_id_str rid))), v)
        | Some path \<Rightarrow>
            next_op (read_record kp path) (\<lambda>text.
            next_op (lift_result (parse_doc kp text)) (\<lambda>d.
              let named = remdups_adj (sort_key subject_hash_str (map subj_hash (subjects (doc_record d))))
              in if named = [] then lift_result (Err (invalid (RecordNamesNoSubject (record_id_str rid))))
                 else fold_op (\<lambda>hs s. next_op (place_hold kp s reason operator [rid]) (\<lambda>h. give (hs @ [h])))
                        [] named)) v)"
    unfolding preserves_def
  proof (intro allI impI)
    let ?rest = "\<lambda>path. next_op (read_record kp path) (\<lambda>text.
            next_op (lift_result (parse_doc kp text)) (\<lambda>d.
              let named = remdups_adj (sort_key subject_hash_str (map subj_hash (subjects (doc_record d))))
              in if named = [] then lift_result (Err (invalid (RecordNamesNoSubject (record_id_str rid))))
                 else fold_op (\<lambda>hs s. next_op (place_hold kp s reason operator [rid]) (\<lambda>h. give (hs @ [h])))
                        [] named))"
    have rest: "preserves (keeps_hold kp l) (?rest path)" for path
      by (auto simp: Let_def intro!: preserving keeps_place [OF assms])
    fix v r v' assume "(case map_of (locate_records v) (record_id_str rid) of
        None \<Rightarrow> (Err (invalid (NoRecordToHold (record_id_str rid))), v) | Some path \<Rightarrow> ?rest path v) = (r, v')"
      "keeps_hold kp l v"
    then show "keeps_hold kp l v'" using preservesD [OF rest] by (auto split: option.splits)
  qed
  then show ?thesis unfolding place_over_record_def by (intro preserving)
qed

lemma release_elim [consumes 1, case_names refused lifted]:
  assumes "release kp hid reason operator v = (r, v')"
  obtains e where "r = Err e" "v' = v"
  | h l placed released q where "r = and_then q (\<lambda>_. Ok h)" "hold_read kp v = (Ok (placed, released), v)" "map_of placed hid = Some h"
      "map_of released hid = None" "hl_event l = HoldReleased" "hl_id l = ho_id h" "hold_append kp l v = (q, v')"
proof (cases "stated_text reason ''a release has to say why''")
  case (Err e)
  with assms show ?thesis by (intro that(1) [of e]) (auto simp: release_def)
next
  case r: (Ok reason')
  show ?thesis
  proof (cases "stated_text operator ''a release has to name who lifted it''")
    case (Err e)
    with r assms show ?thesis by (intro that(1) [of e]) (auto simp: release_def)
  next
    case o: (Ok operator')
    from assms r o have "next_op (hold_read kp) (\<lambda>(placed, released).
       (case map_of placed hid of
          None \<Rightarrow> lift_result (Err (invalid (NoSuchHold hid)))
        | Some h \<Rightarrow>
            if map_of released hid \<noteq> None then lift_result (Err (invalid (HoldAlreadyReleased hid)))
            else next_op (hold_append kp
                   \<lparr>hl_id = ho_id h, hl_event = HoldReleased, hl_subject = subject_hash_str (ho_subject h),
                     hl_at_ms = kp_now kp, hl_reason = reason', hl_operator = operator', hl_records = []\<rparr>)
                   (\<lambda>_. give h))) v = (r, v')" by (simp add: release_def)
    then show ?thesis using reads_only_hold_read
    proof (cases rule: next_op_read)
      case (stopped e)
      then show ?thesis using that(1) by blast
    next
      case (went_on m)
      obtain placed released where m: "m = (placed, released)" by fastforce
      show ?thesis
      proof (cases "map_of placed hid")
        case None
        with went_on(2) m show ?thesis by (intro that(1) [of "invalid (NoSuchHold hid)"]) auto
      next
        case (Some h)
        show ?thesis
        proof (cases "map_of released hid")
          case None
          let ?l = "\<lparr>hl_id = ho_id h, hl_event = HoldReleased, hl_subject = subject_hash_str (ho_subject h),
                     hl_at_ms = kp_now kp, hl_reason = reason', hl_operator = operator', hl_records = []\<rparr>"
          from went_on(2) m Some None have "next_op (hold_append kp ?l) (\<lambda>_. give h) v = (r, v')" by simp
          then obtain q where "hold_append kp ?l v = (q, v')" "r = and_then q (\<lambda>_. Ok h)"
            by (auto simp: next_op_def split: prod.splits result.splits)
          then show ?thesis
            using that(2) [of q h placed released ?l] \<open>hold_read kp v = (Ok m, v)\<close> m Some None by simp
        next
          case t: (Some t)
          with went_on(2) m Some show ?thesis by (intro that(1) [of "invalid (HoldAlreadyReleased hid)"]) auto
        qed
      qed
    qed
  qed
qed

lemma hold_read_ordered:
  assumes "hold_read kp v = (Ok (placed, released), v')"
  shows "bt_ordered placed" "map_of placed i = Some h \<Longrightarrow> ho_id h = i"
  using assms ordered_entries [of "[]" "[]" "hold_entries kp v" placed released] by (auto simp: hold_read_Ok)

lemma keeps_release:
  assumes "hold_json_ok kp" "whole_lines_read kp" "i \<noteq> hl_id l" shows "preserves (keeps_hold kp l) (release kp i reason operator)"
  unfolding preserves_def
proof (intro allI impI)
  fix v r v' assume "release kp i reason operator v = (r, v')" and k: "keeps_hold kp l v"
  then show "keeps_hold kp l v'"
  proof (cases rule: release_elim)
    case (lifted h x placed released q)
    have "hl_id x \<noteq> hl_id l" using hold_read_ordered(2) [OF lifted(2,3)] lifted(6) assms(3) by simp
    from preservesD [OF keeps_append [OF assms(1,2) this] lifted(7) k] show ?thesis .
  qed (use k in simp)
qed

lemma keeps_same_json:
  assumes "same_json kp kp'"
  shows "keeps_hold kp' l v \<longleftrightarrow> keeps_hold kp l v" "hold_json_ok kp' \<longleftrightarrow> hold_json_ok kp"
    "whole_lines_read kp' \<longleftrightarrow> whole_lines_read kp"
  using assms
  by (simp_all add: same_json_def keeps_hold_def torn_parts_def text_entries_def hold_json_ok_def whole_lines_read_def cut_line_def)

lemma keeps_step:
  assumes "hold_json_ok kp" "whole_lines_read kp" "hold_step kp (hl_id l) v v'" "keeps_hold kp l v" shows "keeps_hold kp l v'"
  using assms(3)
proof (cases rule: hold_step.cases)
  case (placing kp' s reason operator r recs)
  note same = keeps_same_json [OF placing(1)]
  show ?thesis using preservesD [OF keeps_place placing(2), of l] assms by (simp add: same)
next
  case (placing_over kp' rid reason operator q)
  note same = keeps_same_json [OF placing_over(1)]
  show ?thesis using preservesD [OF keeps_place_over placing_over(2), of l] assms by (simp add: same)
next
  case (releasing kp' i reason operator r)
  note same = keeps_same_json [OF releasing(1)]
  show ?thesis using preservesD [OF keeps_release [OF _ _ releasing(3)] releasing(2)] assms by (simp add: same)
next
  case elsewhere
  from elsewhere(2) assms(4) have "not_drawn (hl_id l) v'" by (auto simp: keeps_hold_def not_drawn_def)
  with assms(4) show ?thesis by (simp add: keeps_hold_def elsewhere(1))
qed

lemma place_hold_keeps:
  assumes "hold_json_ok kp" "closed (va_holds v)" "place_hold kp s reason operator recs v = (Ok h, v')"
    "\<forall>l \<in> set (hold_entries kp v). hl_id l \<noteq> ho_id h" "not_drawn (ho_id h) v'"
  shows "keeps_hold kp (placement h) v' \<and> ho_subject h = s"
  using assms(3)
proof (cases rule: place_hold_elim)
  case (placed h' q)
  then have h: "h' = h" and q: "q = Ok ()" by (cases q; simp)+
  let ?v = "v\<lparr>va_ulids := stl (va_ulids v)\<rparr>"
  have e: "hold_entries kp ?v = hold_entries kp v" by (simp add: hold_entries_def)
  note a = hold_append_entries [OF assms(1) _ placed(4) [unfolded q], simplified e h]
  have "hold_entries kp v' = hold_entries kp v @ [placement h] @ []" using a(1) assms(2) by simp
  then have "placed_in (placement h) (text_entries kp (text_of (va_holds v')))" unfolding placed_in_def hold_entries_text [symmetric]
    using assms(4) by (intro exI [of _ "hold_entries kp v"] exI [of _ "[]"]) (auto simp: placement_def)
  moreover have "closed (Some (text_of (va_holds v')))" using a(2) assms(2) closed_text [of "va_holds v'"] by simp
  ultimately have "keeps_hold kp (placement h) v'" using assms(5) unfolding keeps_hold_def
    by (intro conjI exI [of _ "text_of (va_holds v')"] exI [of _ "[]"]) (simp_all add: placement_def torn_parts_def)
  then show ?thesis using placed(3) h by simp
qed simp_all

section \<open>Properties\<close>


text \<open>
  Lifting one hold lifts that one alone. A release that succeeds names a standing hold; afterwards the
  holds that stand are the ones that stood before, in their order, less that one, and releasing it again is
  refused.
\<close>

theorem release_lifts_one:
  assumes "hold_json_ok kp" "closed (va_holds v)" "release kp hid reason operator v = (Ok h, v')"
    and "standing kp v = (Ok hs, v)"
  shows "h \<in> set hs \<and> ho_id h = hid \<and> standing kp v' = (Ok (filter (\<lambda>x. ho_id x \<noteq> hid) hs), v')
    \<and> (\<exists>e. release kp hid reason operator v' = (Err e, v'))"
  using assms(3)
proof (cases rule: release_elim)
  case (lifted h' l placed released q)
  then have h': "h' = h" and q: "q = Ok ()" by (cases q; simp)+
  let ?key = "\<lambda>h. (ho_at_ms h, ho_id h)"
  have hid: "ho_id h = hid" using hold_read_ordered(2) [OF lifted(2,3)] h' by simp
  have e: "hold_entries kp v' = hold_entries kp v @ [l]" by (rule hold_append_entries [OF assms(1,2) lifted(7) [unfolded q]])
  have r: "kp_refuses kp ReadFile [HOLD_LOG] = None"
    "try_fold read_hold_line ([], []) (hold_entries kp v) = Ok (placed, released)"
    using lifted(2) by (simp_all add: hold_read_Ok)
  let ?rel = "bt_insert (hl_id l) (hl_at_ms l) released"
  have "try_fold read_hold_line ([], []) (hold_entries kp v') = Ok (placed, ?rel)"
    unfolding e try_fold_append r(2) by (simp add: read_hold_line_def lifted(5))
  then have r': "hold_read kp v' = (Ok (placed, ?rel), v')" using r(1) by (simp add: hold_read_Ok)
  have hs: "hs = sort_key ?key (filter (\<lambda>h. map_of released (ho_id h) = None) (map snd placed))"
    using assms(4) lifted(2) by (simp add: standing_def next_op_def)
  have lid: "hl_id l = hid" using lifted(6) h' hid by simp
  have "filter (\<lambda>h. map_of ?rel (ho_id h) = None) (map snd placed)
      = filter (\<lambda>x. ho_id x \<noteq> hid) (filter (\<lambda>h. map_of released (ho_id h) = None) (map snd placed))"
    unfolding filter_filter by (rule filter_cong) (simp_all add: lid)
  then have "sort_key ?key (filter (\<lambda>h. map_of ?rel (ho_id h) = None) (map snd placed))
      = filter (\<lambda>x. ho_id x \<noteq> hid) hs"
    unfolding hs by (simp add: filter_sort)
  then have "standing kp v' = (Ok (filter (\<lambda>x. ho_id x \<noteq> hid) hs), v')"
    by (simp add: standing_def next_op_def r')
  moreover have "h \<in> set hs"
    using map_of_SomeD [OF lifted(3)] lifted(4) h' hid unfolding hs by force
  moreover have "\<exists>e. release kp hid reason operator v' = (Err e, v')"
  proof -
    obtain q u where again: "release kp hid reason operator v' = (q, u)" by fastforce
    then show ?thesis
    proof (cases rule: release_elim)
      case (lifted h l' placed' released' q')
      then have "map_of ?rel hid = None" using r' by simp
      then show ?thesis by (simp add: lid)
    qed (use again in auto)
  qed
  ultimately show ?thesis using hid by blast
qed simp

text \<open>A torn line cannot be read, and neither can it with an entry written after it.\<close>

definition torn_unreadable :: "('a hold_keeper_scheme) \<Rightarrow> string \<Rightarrow> bool" where
  "torn_unreadable kp torn \<longleftrightarrow> kp_read_hold kp torn = None
     \<and> (\<forall>l text. kp_hold_json kp l = Some text \<longrightarrow> kp_read_hold kp (torn @ text) = None)"

text \<open>
  C33: a hold placed after a torn line is lost. Where a crash cut the log's last append short, the next hold
  is appended to the same line: it is answered as placed, and what stands afterwards is what stood before.
\<close>

theorem torn_line_loses_hold:
  assumes "hold_json_ok kp" "va_holds v = Some log_text" "log_text \<noteq> []" "last log_text \<noteq> CHR 0x0A"
    and "torn_unreadable kp (torn_tail log_text)"
    and "place_hold kp s reason operator recs v = (Ok h, v')"
  shows "fst (standing kp v') = fst (standing kp v) \<and> fst (refuse_if_held kp s v') = fst (refuse_if_held kp s v)"
  using assms(6)
proof (cases rule: place_hold_elim)
  case (placed h' q)
  then have "q = Ok ()" by (cases q) simp_all
  with placed(4) obtain t where t: "kp_hold_json kp (placement h') = Some t"
    "va_holds v' = append_line t (Some log_text)"
    using assms(2) by (auto simp: hold_append_Ok)
  from assms(1) t(1) have j: "CHR 0x0A \<notin> set t" "strip_cr t = t" "\<not> blank t"
    unfolding hold_json_ok_def by blast+
  from assms(3,4) j(1) obtain before where b: "str_lines (log_text @ t @ newline) = str_lines before @ [strip_cr (torn_tail log_text @ t)]"
    "str_lines log_text = str_lines before @ [torn_tail log_text]" by (rule lines_unclosed_append)
  have "t \<noteq> []" using j(3) by (auto simp: blank_def trim_def trim_start_def trim_end_def strip_all.simps strip_one_of_def
      starts_with_def white_space_def)
  then have "strip_cr (torn_tail log_text @ t) = torn_tail log_text @ t"
    using j(2) by (auto simp: strip_cr_def butlast_append split: if_splits)
  then have "hold_entries kp v' = hold_entries kp v"
    using b assms(2,5) t by (simp add: hold_entries_def file_lines_def append_line_def map_filter_def torn_unreadable_def)
  then have "fst (hold_read kp v') = fst (hold_read kp v)"
    by (simp add: hold_read_entries next_op_def can_def lift_result_def split: result.split)
  moreover have "snd (hold_read kp v') = v'" "snd (hold_read kp v) = v"
    using reads_only_hold_read [of kp] by (simp_all add: reads_only_def)
  ultimately have "fst (standing kp v') = fst (standing kp v)"
    by (cases "hold_read kp v'"; cases "hold_read kp v")
      (auto simp: standing_def next_op_def give_def split: result.split prod.split)
  moreover have "snd (standing kp v') = v'" "snd (standing kp v) = v"
    using reads_only_standing [of kp] by (simp_all add: reads_only_def)
  ultimately show ?thesis
    by (cases "standing kp v'"; cases "standing kp v")
      (auto simp: refuse_if_held_def standing_for_def next_op_def give_def lift_result_def split: result.split)
qed simp

section \<open>The properties at work\<close>

definition other_id :: record_id where
  "other_id = RecordId ''01ARZ3NDEKTSV4RRFFQ69G5FAW''"

definition sample_hold :: hold where
  "sample_hold = \<lparr>ho_id = HOLD_PREFIX @ record_id_str sample_id, ho_subject = sample_hash, ho_at_ms = 5,
     ho_reason = ''order'', ho_operator = ''ann'', ho_records = []\<rparr>"

definition sample_lift :: hold_line where
  "sample_lift = \<lparr>hl_id = ho_id sample_hold, hl_event = HoldReleased, hl_subject = subject_hash_str sample_hash,
     hl_at_ms = 5, hl_reason = ''done'', hl_operator = ''ann'', hl_records = []\<rparr>"

definition sample_hold_json :: "hold_line \<Rightarrow> string option" where
  "sample_hold_json l = (if l = placement sample_hold then Some ''{p}'' else if l = sample_lift then Some ''{r}'' else None)"

definition sample_read_hold :: "string \<Rightarrow> hold_line option" where
  "sample_read_hold t = (if t = ''{p}'' then Some (placement sample_hold) else if t = ''{r}'' then Some sample_lift else None)"

definition quiet_keeper :: keeper where
  "quiet_keeper = write_path.extend sample_path (keeper.fields (\<lambda>_ _. None) 5 (\<lambda>_. 0) (sample_reader sample_record) (\<lambda>_. None))"

definition sample_keeper :: hold_keeper where
  "sample_keeper = keeper.extend quiet_keeper (hold_keeper.fields sample_hold_json sample_read_hold)"

definition sample_vault :: vault where
  "sample_vault = \<lparr>va_store = fresh_store, va_cold = [], va_entities = [], va_audit = [], va_dead = [],
     va_tombstones = None, va_holds = None, va_key_copies = [], va_ulids = sample_id ## sconst other_id\<rparr>"

lemma sample_keeper_simps [simp]:
  "kp_refuses sample_keeper act path = None" "kp_now sample_keeper = 5"
  "kp_hold_json sample_keeper = sample_hold_json" "kp_read_hold sample_keeper = sample_read_hold"
  by (simp_all add: sample_keeper_def quiet_keeper_def keeper.defs hold_keeper.defs write_path.defs)

lemma sample_lift_differs [simp]: "sample_lift \<noteq> placement sample_hold" "placement sample_hold \<noteq> sample_lift"
  by (simp_all add: sample_lift_def placement_def)

lemma sample_hold_json_ok: "hold_json_ok sample_keeper"
proof -
  have "\<not> blank ''{p}''" "\<not> blank ''{r}''" by code_simp+
  then show ?thesis by (auto simp: hold_json_ok_def sample_hold_json_def sample_read_hold_def strip_cr_def)
qed

lemma sample_whole_lines: "whole_lines_read sample_keeper"
proof -
  have starts: "p = CHR ''{'' # t \<Longrightarrow> CHR ''{'' \<notin> set t \<Longrightarrow> length (filter ((=) (CHR ''{'')) p) = 1" for p t :: string
    by (auto simp: filter_empty_conv)
  have cut: "length (filter ((=) (CHR ''{'')) p) = 1" if "cut_line sample_keeper p" for p
  proof -
    from that obtain x rest where c: "p \<noteq> []" "sample_hold_json x = Some (p @ rest)" unfolding cut_line_def by auto
    then have "p @ rest = ''{p}'' \<or> p @ rest = ''{r}''" by (simp add: sample_hold_json_def split: if_splits)
    with c(1) obtain t u where p: "p = CHR ''{'' # t" and "t @ u = ''p}'' \<or> t @ u = ''r}''"
      by (cases p) auto
    then have "CHR ''{'' \<notin> set (t @ u)" by (elim disjE) simp_all
    then show ?thesis using starts [OF p] by simp
  qed
  have count: "\<forall>p \<in> set ps. cut_line sample_keeper p \<Longrightarrow> length (filter ((=) (CHR ''{'')) (concat ps)) = length ps" for ps
    by (induction ps) (simp_all add: cut)
  show ?thesis unfolding whole_lines_read_def
  proof (intro conjI allI impI)
    fix ps x assume p: "(\<forall>p \<in> set ps. cut_line sample_keeper p) \<and> kp_read_hold sample_keeper (concat ps) = Some x"
    then have "concat ps = ''{p}'' \<and> x = placement sample_hold \<or> concat ps = ''{r}'' \<and> x = sample_lift"
      by (auto simp: sample_read_hold_def split: if_splits)
    with count [of ps] p show "length ps = 1" "kp_hold_json sample_keeper x = Some (concat ps)"
      by (auto simp: sample_hold_json_def)
  next
    fix x y s rest
    assume "kp_hold_json sample_keeper x = Some s \<and> kp_hold_json sample_keeper y = Some (s @ rest)"
    then show "rest = []" by (auto simp: sample_hold_json_def split: if_splits)
  next
    fix x t assume "kp_hold_json sample_keeper x = Some t"
    then show "CHR 0x0D \<notin> set t" by (auto simp: sample_hold_json_def split: if_splits)
  qed
qed

lemma sample_places:
  assumes "va_ulids v = sample_id ## rest"
  shows "place_hold sample_keeper sample_hash ''order'' ''ann'' [] v
    = (Ok sample_hold, v\<lparr>va_holds := append_line ''{p}'' (va_holds v), va_ulids := rest\<rparr>)"
proof -
  have "trim ''order'' = ''order''" "trim ''ann'' = ''ann''" by code_simp+
  then have "stated_text ''order'' m = Ok ''order''" "stated_text ''ann'' m = Ok ''ann''" for m by (simp_all add: stated_text_def)
  moreover have "sample_hold_json (placement sample_hold) = Some ''{p}''" by (simp add: sample_hold_json_def)
  ultimately show ?thesis using assms
    by (simp add: place_hold_def generate_def next_op_def Let_def hold_append_def append_line_sync_def give_def can_def lift_result_def
        flip: sample_hold_def)
qed


lemma sample_standing:
  assumes "va_holds v = Some (''{p}'' @ newline)"
  shows "hold_read sample_keeper v = (Ok ([(ho_id sample_hold, sample_hold)], []), v)"
    "standing sample_keeper v = (Ok [sample_hold], v)"
proof -
  have "file_lines (Some (''{p}'' @ newline)) = [''{p}'']" "\<not> blank ''{p}''" by code_simp+
  then have e: "hold_entries sample_keeper v = [placement sample_hold]"
    by (simp add: hold_entries_def assms map_filter_simps sample_read_hold_def)
  show r: "hold_read sample_keeper v = (Ok ([(ho_id sample_hold, sample_hold)], []), v)"
    unfolding hold_read_Ok e using sample_hash_valid subject_hash_try_from_Ok_iff [of "subject_hash_str sample_hash" sample_hash]
    by (simp add: read_hold_line_def placement_def sample_hold_def)
  show "standing sample_keeper v = (Ok [sample_hold], v)"
    by (simp add: standing_def next_op_def r give_def)
qed

theorem release_lifts_one_witness:
  "\<exists>v v'. standing sample_keeper v = (Ok [sample_hold], v) \<and> standing sample_keeper v' = (Ok [], v')"
proof -
  define v where "v = sample_vault\<lparr>va_holds := Some (''{p}'' @ newline)\<rparr>"
  have s: "hold_read sample_keeper v = (Ok ([(ho_id sample_hold, sample_hold)], []), v)"
    "standing sample_keeper v = (Ok [sample_hold], v)" using sample_standing [of v] by (simp_all add: v_def)
  have "trim ''done'' = ''done''" "trim ''ann'' = ''ann''" by code_simp+
  then have "stated_text ''done'' m = Ok ''done''" "stated_text ''ann'' m = Ok ''ann''" for m by (simp_all add: stated_text_def)
  moreover have "sample_hold_json sample_lift = Some ''{r}''" by (simp add: sample_hold_json_def)
  moreover have "ho_subject sample_hold = sample_hash" by (simp add: sample_hold_def)
  ultimately have "\<exists>v'. release sample_keeper (ho_id sample_hold) ''done'' ''ann'' v = (Ok sample_hold, v')"
    by (simp add: release_def next_op_def s(1) hold_append_def append_line_sync_def can_def lift_result_def give_def flip: sample_lift_def)
  then obtain v' where r: "release sample_keeper (ho_id sample_hold) ''done'' ''ann'' v = (Ok sample_hold, v')" ..
  have "closed (va_holds v)" by (simp add: closed_def v_def)
  from release_lifts_one [OF sample_hold_json_ok this r s(2)] s(2) show ?thesis by auto
qed

theorem torn_line_loses_hold_witness:
  "\<exists>v v'. place_hold sample_keeper sample_hash ''order'' ''ann'' [] v = (Ok sample_hold, v')
     \<and> fst (standing sample_keeper v') = Ok []"
proof -
  let ?v = "sample_vault\<lparr>va_holds := Some ''{''\<rparr>"
  have p: "place_hold sample_keeper sample_hash ''order'' ''ann'' [] ?v
      = (Ok sample_hold, ?v\<lparr>va_holds := append_line ''{p}'' (Some ''{''), va_ulids := sconst other_id\<rparr>)"
    using sample_places [of ?v] by (simp add: sample_vault_def)
  have t: "torn_tail ''{'' = ''{''" by (simp add: torn_tail_def)
  have u: "torn_unreadable sample_keeper ''{''"
    by (auto simp: torn_unreadable_def sample_read_hold_def sample_hold_json_def)
  have "file_lines (Some ''{'') = [''{'']" by code_simp
  then have "hold_entries sample_keeper ?v = []"
    by (simp add: hold_entries_def map_filter_def sample_read_hold_def)
  then have "fst (standing sample_keeper ?v) = Ok []"
    by (simp add: standing_def next_op_def hold_read_entries can_def lift_result_def give_def)
  with torn_line_loses_hold [OF sample_hold_json_ok _ _ _ _ p, of "''{''"] t u p show ?thesis by auto
qed

end
