(* ===== verification/Retain.thy ===== *)
theory Retain
  imports Hold
begin

text \<open>
  \<open>yaam-core/src/retain.rs\<close>: retention by key destruction. A pass looks at every key once, decides about
  each, and destroys the ones past the cutoff that nothing holds.
\<close>

datatype verdict = Keep | Destroy | HeldBy "string list" | UnreadableLabel

record expiry_candidate =
  ca_subject :: subject_hash
  ca_epoch :: epoch
  ca_verdict :: verdict

record retain_report =
  rr_oldest_kept :: string
  rr_keys_walked :: nat
  rr_keys_kept :: nat
  rr_keys_destroyed :: nat
  rr_keys_held :: nat
  rr_keys_unreadable :: nat
  rr_destroyed_by_epoch :: "(string, nat) btree"
  rr_holds :: "string list"
  rr_subjects_held :: nat

definition blocked :: "retain_report \<Rightarrow> bool" where
  "blocked report \<longleftrightarrow> 0 < rr_keys_held report"

definition window_months :: "nat \<Rightarrow> nat \<times> nat" where
  "window_months keep_quarters = (keep_quarters * 3, keep_quarters * 3 + 3)"

section \<open>The survey\<close>

text \<open>\<open>held.entry(subject).or_default().push(id)\<close>, over the standing holds.\<close>

definition held_ids :: "hold list \<Rightarrow> (string, string list) btree" where
  "held_ids hs = fold (\<lambda>h m.
     bt_insert (subject_hash_str (ho_subject h))
       ((case map_of m (subject_hash_str (ho_subject h)) of None \<Rightarrow> [] | Some ids \<Rightarrow> ids) @ [ho_id h]) m) hs []"

definition decide :: "(string, string list) btree \<Rightarrow> epoch \<Rightarrow> subject_hash \<times> epoch \<Rightarrow> expiry_candidate" where
  "decide held oldest_kept = (\<lambda>(subject, ep).
     \<lparr>ca_subject = subject, ca_epoch = ep,
      ca_verdict =
        (case precedes ep oldest_kept of
           None \<Rightarrow> UnreadableLabel
         | Some False \<Rightarrow> Keep
         | Some True \<Rightarrow>
             (case map_of held (subject_hash_str subject) of Some ids \<Rightarrow> HeldBy ids | None \<Rightarrow> Destroy))\<rparr>)"

definition survey ::
  "('a hold_keeper_scheme) \<Rightarrow> nat \<Rightarrow> int \<Rightarrow> (epoch \<times> expiry_candidate list, vault) operation" where
  "survey kp keep_quarters as_of_ms =
     (let now = epoch_containing as_of_ms
      in next_op (lift_result (ok_or (invalid (CutoffOffCalendar keep_quarters (epoch_str now)))
           (quarters_before now keep_quarters))) (\<lambda>oldest_kept.
         next_op (standing kp) (\<lambda>hs v.
           (and_then (map_err CoreCrypto (key_epochs (st_key_files (va_store v)))) (\<lambda>found.
              Ok (oldest_kept, map (decide (held_ids hs) oldest_kept) found)), v))))"

definition add_candidate :: "expiry_candidate \<Rightarrow> retain_report \<times> string list \<times> string list \<Rightarrow> retain_report \<times> string list \<times> string list" where
  "add_candidate c = (\<lambda>(report, ids, held).
     (case ca_verdict c of
        Keep \<Rightarrow> (report\<lparr>rr_keys_kept := Suc (rr_keys_kept report)\<rparr>, ids, held)
      | UnreadableLabel \<Rightarrow> (report\<lparr>rr_keys_unreadable := Suc (rr_keys_unreadable report)\<rparr>, ids, held)
      | Destroy \<Rightarrow>
          (report\<lparr>rr_keys_destroyed := Suc (rr_keys_destroyed report),
             rr_destroyed_by_epoch := bt_insert (epoch_str (ca_epoch c))
               (Suc (case map_of (rr_destroyed_by_epoch report) (epoch_str (ca_epoch c)) of None \<Rightarrow> 0 | Some n \<Rightarrow> n))
               (rr_destroyed_by_epoch report)\<rparr>, ids, held)
      | HeldBy by \<Rightarrow>
          (report\<lparr>rr_keys_held := Suc (rr_keys_held report)\<rparr>, by @ ids, subject_hash_str (ca_subject c) # held)))"

definition tally :: "epoch \<Rightarrow> expiry_candidate list \<Rightarrow> retain_report" where
  "tally oldest_kept candidates =
     (case fold add_candidate candidates
        (\<lparr>rr_oldest_kept = epoch_str oldest_kept, rr_keys_walked = length candidates, rr_keys_kept = 0,
          rr_keys_destroyed = 0, rr_keys_held = 0, rr_keys_unreadable = 0, rr_destroyed_by_epoch = [],
          rr_holds = [], rr_subjects_held = 0\<rparr>, [], []) of
        (report, ids, held) \<Rightarrow>
          report\<lparr>rr_holds := sort (remdups ids), rr_subjects_held := card (set held)\<rparr>)"

section \<open>The passes\<close>

definition retain_preview ::
  "('a hold_keeper_scheme) \<Rightarrow> nat \<Rightarrow> int \<Rightarrow> (retain_report, vault) operation" where
  "retain_preview kp keep_quarters as_of_ms =
     next_op (survey kp keep_quarters as_of_ms) (\<lambda>(oldest_kept, candidates). give (tally oldest_kept candidates))"

definition destroy_candidate :: "('a hold_keeper_scheme) \<Rightarrow> unit \<Rightarrow> expiry_candidate \<Rightarrow> (unit, vault) operation" where
  "destroy_candidate kp = (\<lambda>_ c.
     if ca_verdict c = Destroy then on_keys (destroy_epoch (pl_keys kp) (ca_subject c) (ca_epoch c)) else give ())"

definition destroy_expired ::
  "('a hold_keeper_scheme) \<Rightarrow> nat \<Rightarrow> int \<Rightarrow> (retain_report, vault) operation" where
  "destroy_expired kp keep_quarters as_of_ms =
     next_op (survey kp keep_quarters as_of_ms) (\<lambda>(oldest_kept, candidates).
       next_op (fold_op (destroy_candidate kp) () candidates) (\<lambda>_. give (tally oldest_kept candidates)))"

section \<open>Lemmas\<close>

lemma map_of_held_ids:
  "map_of (held_ids hs) k = None \<longleftrightarrow> k \<notin> (\<lambda>h. subject_hash_str (ho_subject h)) ` set hs"
proof -
  let ?add = "\<lambda>h m. bt_insert (subject_hash_str (ho_subject h))
     ((case map_of m (subject_hash_str (ho_subject h)) of None \<Rightarrow> [] | Some ids \<Rightarrow> ids) @ [ho_id h]) m"
  have "map_of (fold ?add hs m) k = None \<longleftrightarrow> map_of m k = None \<and> k \<notin> (\<lambda>h. subject_hash_str (ho_subject h)) ` set hs" for m
    by (induction hs arbitrary: m) auto
  then show ?thesis by (simp add: held_ids_def)
qed

definition expired :: "hold list \<Rightarrow> epoch \<Rightarrow> subject_hash \<Rightarrow> epoch \<Rightarrow> bool" where
  "expired hs oldest_kept subject ep \<longleftrightarrow> precedes ep oldest_kept = Some True \<and> subject \<notin> ho_subject ` set hs"

lemma decide_Destroy:
  "ca_verdict (decide (held_ids hs) oldest (s, e)) = Destroy \<longleftrightarrow> expired hs oldest s e"
proof -
  have "map_of (held_ids hs) (subject_hash_str s) = None \<longleftrightarrow> s \<notin> ho_subject ` set hs"
    by (auto simp: map_of_held_ids image_iff)
  then show ?thesis
  proof (cases "precedes e oldest")
    case (Some b)
    then show ?thesis using \<open>_ \<longleftrightarrow> s \<notin> ho_subject ` set hs\<close>
      by (cases b; cases "map_of (held_ids hs) (subject_hash_str s)") (simp_all add: decide_def expired_def)
  qed (simp add: decide_def expired_def)
qed

lemma decide_fields [simp]:
  "ca_subject (decide held oldest p) = fst p" "ca_epoch (decide held oldest p) = snd p"
  by (simp_all add: decide_def split: prod.split)

lemma reads_only_survey [intro, simp]: "reads_only (survey kp n as_of)"
proof -
  have "reads_only (\<lambda>v. (and_then (map_err CoreCrypto (key_epochs (st_key_files (va_store v)))) (\<lambda>found.
              Ok (oldest_kept, map (decide (held_ids hs) oldest_kept) found)), v))" for hs oldest_kept
    by (simp add: reads_only_def)
  then show ?thesis unfolding survey_def Let_def
    by (intro reads_only_next reads_only_lift reads_only_standing)
qed

lemma survey_Ok:
  "survey kp n as_of v = (Ok (oldest, cs), v') \<longleftrightarrow> v' = v \<and> quarters_before (epoch_containing as_of) n = Some oldest
     \<and> (\<exists>hs found. standing kp v = (Ok hs, v) \<and> key_epochs (st_key_files (va_store v)) = Ok found
          \<and> cs = map (decide (held_ids hs) oldest) found)"
proof -
  have "t = v" if "standing kp v = (Ok hs, t)" for hs t using that reads_onlyD [OF reads_only_standing] by metis
  then show ?thesis
    by (cases "quarters_before (epoch_containing as_of) n") (auto simp: survey_def Let_def next_op_Ok)
qed

definition on_disk :: "key_files \<Rightarrow> subject_hash \<Rightarrow> epoch \<Rightarrow> bool" where
  "on_disk ks s e \<longleftrightarrow> list_ex (\<lambda>(n, dir). n = subject_hash_str s \<and> list_ex (\<lambda>(l, _). l = epoch_str e) dir) (ks_keys ks)"

lemma on_disk_read: "\<not> on_disk ks s e \<Longrightarrow> read_key ks s e = None"
proof (rule ccontr)
  assume n: "\<not> on_disk ks s e" and "read_key ks s e \<noteq> None"
  then obtain dir b where "map_of (ks_keys ks) (subject_hash_str s) = Some dir" "map_of dir (epoch_str e) = Some b"
    by (auto simp: read_key_def bind_eq_Some_conv)
  then have "(subject_hash_str s, dir) \<in> set (ks_keys ks)" "(epoch_str e, b) \<in> set dir" by (auto dest: map_of_SomeD)
  then have "on_disk ks s e" unfolding on_disk_def list_ex_iff by force
  with n show False by blast
qed

lemma subject_of_name: "subject_hash_try_from name = Ok h \<Longrightarrow> name = subject_hash_str h"
  by (cases h) (auto simp: subject_hash_try_from_def split: if_splits)

lemma epoch_of_label: "epoch_from_stored label = Ok e \<Longrightarrow> label = epoch_str e"
  by (cases e) (auto simp: epoch_from_stored_def split: if_splits)

lemma labels_read:
  assumes "try_map (\<lambda>(label, _). and_then (map_err (g label) (epoch_from_stored label)) (\<lambda>ep. Ok (h, ep))) dir = Ok part"
  shows "(s, e) \<in> set part \<longleftrightarrow> s = h \<and> list_ex (\<lambda>(l, _). l = epoch_str e) dir"
  using assms
proof (induction dir arbitrary: part)
  case (Cons x dir)
  obtain l b where x: "x = (l, b)" by fastforce
  from Cons.prems x obtain f part' where p: "epoch_from_stored l = Ok f" "part = (h, f) # part'"
    "try_map (\<lambda>(label, _). and_then (map_err (g label) (epoch_from_stored label)) (\<lambda>ep. Ok (h, ep))) dir = Ok part'" by auto
  have "l = epoch_str e \<longleftrightarrow> e = f" using epoch_of_label [OF p(1)] by auto
  with Cons.IH [OF p(3)] p(2) x show ?case by auto
qed simp

lemma subjects_read:
  assumes "try_map (\<lambda>(name, dir). and_then (map_err (g name) (subject_hash_try_from name)) (\<lambda>hash.
      try_map (\<lambda>(label, _). and_then (map_err (g' label) (epoch_from_stored label)) (\<lambda>ep. Ok (hash, ep))) dir)) names = Ok parts"
  shows "(s, e) \<in> set (concat parts) \<longleftrightarrow> list_ex (\<lambda>(n, dir). n = subject_hash_str s \<and> list_ex (\<lambda>(l, _). l = epoch_str e) dir) names"
  using assms
proof (induction names arbitrary: parts)
  case (Cons x names)
  obtain n dir where x: "x = (n, dir)" by fastforce
  from Cons.prems x obtain h part parts' where p: "subject_hash_try_from n = Ok h" "parts = part # parts'"
    "try_map (\<lambda>(label, _). and_then (map_err (g' label) (epoch_from_stored label)) (\<lambda>ep. Ok (h, ep))) dir = Ok part"
    "try_map (\<lambda>(name, dir). and_then (map_err (g name) (subject_hash_try_from name)) (\<lambda>hash.
      try_map (\<lambda>(label, _). and_then (map_err (g' label) (epoch_from_stored label)) (\<lambda>ep. Ok (hash, ep))) dir)) names = Ok parts'"
    by auto
  have "n = subject_hash_str s \<longleftrightarrow> s = h" using subject_of_name [OF p(1)] by auto
  then show ?case using Cons.IH [OF p(4)] labels_read [OF p(3), of s e] unfolding p(2) x by auto
qed simp

text \<open>The survey walks exactly the keys on disk.\<close>

lemma key_epochs_iff:
  assumes "key_epochs ks = Ok found" shows "(s, e) \<in> set found \<longleftrightarrow> on_disk ks s e"
proof -
  from assms obtain parts where p: "found = sort_key (\<lambda>(h, e). (subject_hash_str h, epoch_str e)) (concat parts)"
    "try_map (\<lambda>(name, dir).
          and_then (map_err (\<lambda>_. CryptoIo (EntryNotPseudonym name)) (subject_hash_try_from name)) (\<lambda>hash.
            try_map (\<lambda>(label, _). and_then (map_err (\<lambda>_. CryptoIo (EntryNotEpoch label)) (epoch_from_stored label)) (\<lambda>ep.
                Ok (hash, ep))) dir)) (ks_keys ks) = Ok parts"
    unfolding key_epochs_def by auto
  show ?thesis using subjects_read [of _ _ "ks_keys ks" parts s e] p by (simp add: on_disk_def)
qed

lemma on_disk_destroy_epoch:
  "on_disk (ks\<lparr>ks_keys := map (\<lambda>(n, dir). (n, if n = subject_hash_str t then filter (\<lambda>(l, _). l \<noteq> epoch_str f) dir else dir))
      (ks_keys ks)\<rparr>) s e \<longleftrightarrow> on_disk ks s e \<and> (s, e) \<noteq> (t, f)"
proof -
  let ?at = "\<lambda>dir. list_ex (\<lambda>(l, _). l = epoch_str e) dir"
  have f: "list_ex (\<lambda>(l, _). l = a) (filter (\<lambda>(l, _). l \<noteq> b) dir) \<longleftrightarrow> list_ex (\<lambda>(l, _). l = a) dir \<and> a \<noteq> b"
    for a b and dir :: "(string \<times> string) list"
    by (induction dir) auto
  have "list_ex (\<lambda>(n, dir). n = subject_hash_str s \<and> ?at dir) (map (\<lambda>(n, dir). (n, if n = subject_hash_str t
        then filter (\<lambda>(l, _). l \<noteq> epoch_str f) dir else dir)) names)
    \<longleftrightarrow> list_ex (\<lambda>(n, dir). n = subject_hash_str s \<and> ?at dir) names \<and> (s, e) \<noteq> (t, f)"
    for names :: "(string \<times> (string \<times> string) list) list"
    by (induction names) (auto simp: f split: if_splits)
  then show ?thesis by (simp add: on_disk_def)
qed

abbreviation keys_of :: "vault \<Rightarrow> key_files" where
  "keys_of v \<equiv> st_key_files (va_store v)"

lemma destroy_candidate_step:
  assumes "destroy_candidate kp u c v = (r, v')"
  shows "read_key (keys_of v') s e = read_key (keys_of v) s e
      \<or> ca_verdict c = Destroy \<and> s = ca_subject c \<and> e = ca_epoch c"
    and "on_disk (keys_of v') s e \<Longrightarrow> on_disk (keys_of v) s e"
    and "r = Ok w \<Longrightarrow> ca_verdict c = Destroy \<Longrightarrow> \<not> on_disk (keys_of v') (ca_subject c) (ca_epoch c)"
    and "va_holds v' = va_holds v"
proof -
  show "read_key (keys_of v') s e = read_key (keys_of v) s e
      \<or> ca_verdict c = Destroy \<and> s = ca_subject c \<and> e = ca_epoch c"
    "on_disk (keys_of v') s e \<Longrightarrow> on_disk (keys_of v) s e"
    "r = Ok w \<Longrightarrow> ca_verdict c = Destroy \<Longrightarrow> \<not> on_disk (keys_of v') (ca_subject c) (ca_epoch c)"
    "va_holds v' = va_holds v"
    using assms
    by (auto simp: destroy_candidate_def on_keys_def destroy_epoch_def read_key_destroy_epoch on_disk_destroy_epoch split: if_splits result.splits)
qed

lemma destroy_candidates_spare:
  assumes "fold_op (destroy_candidate kp) () cs v = (r, v')"
    "\<forall>c \<in> set cs. ca_verdict c = Destroy \<longrightarrow> (ca_subject c, ca_epoch c) \<noteq> (s, e)"
  shows "read_key (keys_of v') s e = read_key (keys_of v) s e"
  using assms(1)
proof (rule fold_op_invariant [where P = "\<lambda>u. read_key (keys_of u) s e = read_key (keys_of v) s e"])
  fix b x t q u
  assume "x \<in> set cs" "read_key (keys_of t) s e = read_key (keys_of v) s e" "destroy_candidate kp b x t = (q, u)"
  then show "read_key (keys_of u) s e = read_key (keys_of v) s e"
    using destroy_candidate_step(1) [of kp b x t q u s e] assms(2) by auto
qed simp

lemma destroy_candidates_mono:
  assumes "fold_op (destroy_candidate kp) u cs v = (r, v')" "\<not> on_disk (keys_of v) s e"
  shows "\<not> on_disk (keys_of v') s e"
  using assms by (rule fold_op_invariant [where P = "\<lambda>u. \<not> on_disk (keys_of u) s e"]) (use destroy_candidate_step(2) in blast)

lemma destroy_candidates_destroy:
  assumes "fold_op (destroy_candidate kp) u cs v = (Ok w, v')" "c \<in> set cs" "ca_verdict c = Destroy"
  shows "\<not> on_disk (keys_of v') (ca_subject c) (ca_epoch c)"
  using assms
proof (induction cs arbitrary: u v)
  case (Cons x cs)
  from Cons.prems(1) obtain u' t where t: "destroy_candidate kp u x v = (Ok u', t)"
    "fold_op (destroy_candidate kp) u' cs t = (Ok w, v')" by (auto simp: next_op_Ok)
  show ?case
  proof (cases "c \<in> set cs")
    case True
    with Cons.IH [OF t(2)] Cons.prems(3) show ?thesis by blast
  next
    case False
    with Cons.prems(2) have "c = x" by simp
    with destroy_candidate_step(3) [OF t(1)] Cons.prems(3) have "\<not> on_disk (keys_of t) (ca_subject c) (ca_epoch c)" by blast
    with destroy_candidates_mono [OF t(2)] show ?thesis by blast
  qed
qed simp

lemma destroy_candidates_log:
  assumes "fold_op (destroy_candidate kp) u cs v = (r, v')" shows "va_holds v' = va_holds v"
  using assms by (rule fold_op_invariant [where P = "\<lambda>u. va_holds u = va_holds v"]) (simp_all add: destroy_candidate_step(4))

lemma add_candidates:
  assumes "fold add_candidate cs (report, ids, held) = (report', ids', held')"
  shows "rr_keys_destroyed report' = rr_keys_destroyed report + length (filter (\<lambda>c. ca_verdict c = Destroy) cs)
    \<and> rr_keys_kept report' + rr_keys_destroyed report' + rr_keys_held report' + rr_keys_unreadable report'
      = rr_keys_kept report + rr_keys_destroyed report + rr_keys_held report + rr_keys_unreadable report + length cs
    \<and> rr_keys_walked report' = rr_keys_walked report"
  using assms
proof (induction cs arbitrary: report ids held)
  case (Cons c cs)
  obtain r1 i1 h1 where a: "add_candidate c (report, ids, held) = (r1, i1, h1)" by (metis prod_cases3)
  from Cons.prems a have "fold add_candidate cs (r1, i1, h1) = (report', ids', held')" by simp
  from Cons.IH [OF this] a show ?case by (auto simp: add_candidate_def split: verdict.splits)
qed simp

lemma tally_counts:
  "rr_keys_destroyed (tally oldest cs) = length (filter (\<lambda>c. ca_verdict c = Destroy) cs)"
  "rr_keys_walked (tally oldest cs) = length cs"
  "rr_keys_kept (tally oldest cs) + rr_keys_destroyed (tally oldest cs) + rr_keys_held (tally oldest cs)
     + rr_keys_unreadable (tally oldest cs) = length cs"
proof -
  let ?r = "\<lparr>rr_oldest_kept = epoch_str oldest, rr_keys_walked = length cs, rr_keys_kept = 0,
          rr_keys_destroyed = 0, rr_keys_held = 0, rr_keys_unreadable = 0, rr_destroyed_by_epoch = [],
          rr_holds = [], rr_subjects_held = 0\<rparr>"
  obtain r i h where f: "fold add_candidate cs (?r, [], []) = (r, i, h)" by (metis prod_cases3)
  from add_candidates [OF f] f
  show "rr_keys_destroyed (tally oldest cs) = length (filter (\<lambda>c. ca_verdict c = Destroy) cs)"
    "rr_keys_walked (tally oldest cs) = length cs"
    "rr_keys_kept (tally oldest cs) + rr_keys_destroyed (tally oldest cs) + rr_keys_held (tally oldest cs)
     + rr_keys_unreadable (tally oldest cs) = length cs"
    by (simp_all add: tally_def)
qed

lemma destroy_expired_elim [consumes 1, case_names unsurveyed surveyed]:
  assumes "destroy_expired kp n as_of v = (r, v')"
  obtains e where "survey kp n as_of v = (Err e, v)" "r = Err e" "v' = v"
  | oldest hs found q where "quarters_before (epoch_containing as_of) n = Some oldest" "standing kp v = (Ok hs, v)"
      "key_epochs (keys_of v) = Ok found"
      "fold_op (destroy_candidate kp) () (map (decide (held_ids hs) oldest) found) v = (q, v')"
      "r = and_then q (\<lambda>_. Ok (tally oldest (map (decide (held_ids hs) oldest) found)))"
  using assms [unfolded destroy_expired_def] reads_only_survey
proof (cases rule: next_op_read)
  case (stopped e)
  then show ?thesis using that(1) by blast
next
  case (went_on p)
  obtain oldest cs where p: "p = (oldest, cs)" by fastforce
  from went_on(1) p obtain hs found where s: "quarters_before (epoch_containing as_of) n = Some oldest"
    "standing kp v = (Ok hs, v)" "key_epochs (keys_of v) = Ok found" "cs = map (decide (held_ids hs) oldest) found"
    by (auto simp: survey_Ok)
  from went_on(2) p have "next_op (fold_op (destroy_candidate kp) () cs) (\<lambda>_. give (tally oldest cs)) v = (r, v')" by simp
  then show ?thesis
    by (cases rule: next_op_cases) (use that(2) [OF s(1-3)] s(4) in auto)
qed

lemma retention_spares:
  assumes "destroy_expired kp n as_of v = (r, v')" "standing kp v = (Ok hs, v)"
    and "quarters_before (epoch_containing as_of) n = Some oldest"
  shows "(\<forall>s e. \<not> expired hs oldest s e \<longrightarrow> read_key (keys_of v') s e = read_key (keys_of v) s e)
    \<and> (\<forall>report s e. r = Ok report \<longrightarrow> expired hs oldest s e \<longrightarrow> \<not> on_disk (keys_of v') s e)"
  using assms(1)
proof (cases rule: destroy_expired_elim)
  case (surveyed oldest' hs' found q)
  with assms(2,3) have eq: "oldest' = oldest" "hs' = hs" by simp_all
  let ?cs = "map (decide (held_ids hs) oldest) found"
  note f = surveyed(4) [unfolded eq]
  have "read_key (keys_of v') s e = read_key (keys_of v) s e" if "\<not> expired hs oldest s e" for s e
    by (rule destroy_candidates_spare [OF f]) (use that decide_Destroy in auto)
  moreover have "\<not> on_disk (keys_of v') s e" if ok: "r = Ok report" and x: "expired hs oldest s e" for report s e
  proof (cases "on_disk (keys_of v) s e")
    case True
    then have "(s, e) \<in> set found" using key_epochs_iff [OF surveyed(3)] by blast
    then have "decide (held_ids hs) oldest (s, e) \<in> set ?cs" by simp
    moreover have "ca_verdict (decide (held_ids hs) oldest (s, e)) = Destroy" using x decide_Destroy by blast
    moreover from ok surveyed(5) f obtain w where "fold_op (destroy_candidate kp) () ?cs v = (Ok w, v')"
      by (cases q) auto
    ultimately show ?thesis using destroy_candidates_destroy by fastforce
  next
    case False
    with destroy_candidates_mono [OF f] show ?thesis by blast
  qed
  ultimately show ?thesis by blast
qed simp

section \<open>Properties\<close>

text \<open>
  C20: retention spares what is held. However far a pass gets, it takes away no key of a held subject, no key
  whose label it cannot read, and no key of the quarter it keeps from or of a later one; and a pass that finishes
  leaves on disk no key of an earlier quarter whose subject is not held. Quarters are those of the calendar, and
  both hold of labels below the year 2^61: from there on a label's quarter number leaves an \<open>i64\<close>, and the pass
  goes by the number that wraps around.
\<close>

definition key_unchanged :: "subject_hash \<Rightarrow> epoch \<Rightarrow> vault \<Rightarrow> vault \<Rightarrow> bool" where
  "key_unchanged s e v v' \<longleftrightarrow> read_key (keys_of v') s e = read_key (keys_of v) s e"

theorem retention_spares_held_keys:
  assumes "destroy_expired kp n as_of v = (r, v')" "standing kp v = (Ok hs, v)"
    and "quarters_before (epoch_containing as_of) n = Some oldest"
  shows "\<exists>first. epoch_quarter oldest = Some first
    \<and> (\<forall>s e. s \<in> ho_subject ` set hs \<or> epoch_quarter e = None \<longrightarrow> key_unchanged s e v v')
    \<and> (\<forall>s e y q. epoch_quarter e = Some (y, q) \<and> y < 2 ^ 61 \<longrightarrow>
         (if quarter_number first \<le> quarter_number (y, q) then key_unchanged s e v v'
          else is_ok r \<and> s \<notin> ho_subject ` set hs \<longrightarrow> \<not> on_disk (keys_of v') s e))"
proof -
  from quarters_before_quarter [OF assms(3)] obtain y0 q0 where
    o: "epoch_quarter oldest = Some (y0, q0)" "y0 \<le> 9999" by metis
  then have "y0 < 2 ^ 61" by simp
  note oi = epoch_index_calendar [OF o(1) this]
  have before: "precedes e oldest = Some (quarter_number (y, q) < quarter_number (y0, q0))"
    if "epoch_quarter e = Some (y, q)" "y < 2 ^ 61" for e y q
    using epoch_index_calendar [OF that] oi by (simp add: precedes_def)
  note spares = retention_spares [OF assms]
  have 1: "key_unchanged s e v v'" if "s \<in> ho_subject ` set hs \<or> epoch_quarter e = None" for s e
    using spares that by (auto simp: key_unchanged_def expired_def precedes_def epoch_index_def)
  have 2: "if quarter_number (y0, q0) \<le> quarter_number (y, q) then key_unchanged s e v v'
      else is_ok r \<and> s \<notin> ho_subject ` set hs \<longrightarrow> \<not> on_disk (keys_of v') s e"
    if "epoch_quarter e = Some (y, q)" "y < 2 ^ 61" for s e y q
    using spares before [OF that] by (simp add: key_unchanged_def expired_def is_ok_iff)
  from o(1) 1 2 show ?thesis by (intro exI [of _ "(y0, q0)"]) blast
qed

text \<open>
  A pass reports what it did, and doing it again does nothing. The keys it walked are the keys it kept,
  destroyed, left to a hold or could not read; a second pass over the store it left destroys none.
\<close>

theorem retention_pass_once:
  assumes "destroy_expired kp n as_of v = (Ok report, v')" "destroy_expired kp n as_of v' = (Ok report', v'')"
  shows "rr_keys_walked report = rr_keys_kept report + rr_keys_destroyed report + rr_keys_held report
      + rr_keys_unreadable report \<and> rr_keys_destroyed report' = 0"
proof
  from assms(1) obtain oldest cs where "report = tally oldest cs"
  proof (cases rule: destroy_expired_elim)
    case (surveyed oldest hs found q)
    with that show ?thesis by (cases q) auto
  qed simp
  then show "rr_keys_walked report = rr_keys_kept report + rr_keys_destroyed report + rr_keys_held report
      + rr_keys_unreadable report" using tally_counts by simp
  from assms(1) show "rr_keys_destroyed report' = 0"
  proof (cases rule: destroy_expired_elim)
    case (surveyed oldest hs found q)
    note spared = retention_spares [OF assms(1) surveyed(2,1)]
    from assms(2) show ?thesis
    proof (cases rule: destroy_expired_elim)
      case 2: (surveyed oldest2 hs2 found2 q2)
      have "oldest2 = oldest" using 2(1) surveyed(1) by simp
      have "va_holds v' = va_holds v" using destroy_candidates_log [OF surveyed(4)] .
      then have "hs2 = hs" using 2(2) surveyed(2) standing_log [of v' v kp] by simp
      have "ca_verdict c \<noteq> Destroy" if "c \<in> set (map (decide (held_ids hs) oldest) found2)" for c
      proof -
        from that obtain s e where se: "(s, e) \<in> set found2" "c = decide (held_ids hs) oldest (s, e)" by auto
        then have "on_disk (keys_of v') s e" using key_epochs_iff [OF 2(3)] by blast
        with spared have "\<not> expired hs oldest s e" by blast
        with se(2) decide_Destroy show ?thesis by blast
      qed
      then have "filter (\<lambda>c. ca_verdict c = Destroy) (map (decide (held_ids hs) oldest) found2) = []"
        by (simp add: filter_empty_conv)
      moreover have "report' = tally oldest (map (decide (held_ids hs) oldest) found2)"
        using 2(5) \<open>oldest2 = oldest\<close> \<open>hs2 = hs\<close> by (cases q2) simp_all
      ultimately show ?thesis using tally_counts(1) by simp
    qed simp
  qed simp
qed

section \<open>The properties at work\<close>

definition aged_vault :: vault where
  "aged_vault = sample_vault\<lparr>va_store := fresh_store\<lparr>st_key_files := one_key\<rparr>\<rparr>"

definition cleared_vault :: vault where
  "cleared_vault = sample_vault\<lparr>va_store := fresh_store\<lparr>st_key_files := \<lparr>ks_keys = [(subject_hash_str sample_hash, [])],
     ks_tombstones = []\<rparr>\<rparr>\<rparr>"

definition late_ms :: int where "late_ms = 1893456000000"

definition late_cutoff :: epoch where "late_cutoff = quarter_label 2029 4"

lemma late_cutoff: "quarters_before (epoch_containing late_ms) 1 = Some late_cutoff"
  "precedes sample_epoch late_cutoff = Some True"
proof -
  have e: "epoch_containing late_ms = quarter_label 2030 1" "sample_epoch = quarter_label 2026 1"
    unfolding late_ms_def sample_epoch_def by code_simp+
  then have "epoch_index sample_epoch = Some 8104" by (simp only: e epoch_index_label) simp
  with e(1) show "quarters_before (epoch_containing late_ms) 1 = Some late_cutoff"
    "precedes sample_epoch late_cutoff = Some True"
    by (simp_all add: quarters_before_def precedes_def epoch_index_label late_cutoff_def wrap_i64_id)
qed

lemma sample_nothing_held:
  assumes "va_holds v = None" shows "standing sample_keeper v = (Ok [], v)"
  by (simp add: standing_def next_op_def hold_read_entries can_def lift_result_def give_def hold_entries_def
      file_lines_def assms map_filter_simps)

lemma aged_vault_simps [simp]: "va_holds aged_vault = None" "st_key_files (va_store aged_vault) = one_key"
  by (simp_all add: aged_vault_def sample_vault_def)

lemma aged_keys: "key_epochs one_key = Ok [(sample_hash, sample_epoch)]"
proof -
  have "epoch_from_stored ''2026-Q1'' = Ok sample_epoch" unfolding sample_epoch_def by code_simp
  moreover have "subject_hash_try_from (subject_hash_str sample_hash) = Ok sample_hash"
    using subject_hash_try_from_Ok_iff sample_hash_valid by blast
  ultimately show ?thesis by (simp add: key_epochs_def key_of_def)
qed

lemma aged_destroyed:
  "destroy_expired sample_keeper 1 late_ms aged_vault
     = (Ok (tally late_cutoff [decide [] late_cutoff (sample_hash, sample_epoch)]), cleared_vault)"
proof -
  have "survey sample_keeper 1 late_ms aged_vault
      = (Ok (late_cutoff, [decide [] late_cutoff (sample_hash, sample_epoch)]), aged_vault)"
    unfolding survey_Ok using late_cutoff(1) aged_keys sample_nothing_held [of aged_vault] by (simp add: held_ids_def)
  moreover have "ca_verdict (decide [] late_cutoff (sample_hash, sample_epoch)) = Destroy"
    by (simp add: decide_def late_cutoff(2))
  moreover have "pl_keys sample_keeper = sample_store"
    by (simp add: sample_keeper_def quiet_keeper_def keeper.defs write_path.defs)
  moreover have "destroy_epoch sample_store sample_hash sample_epoch one_key
      = (Ok (), \<lparr>ks_keys = [(subject_hash_str sample_hash, [])], ks_tombstones = []\<rparr>)"
    by (simp add: destroy_epoch_def sample_paths) (simp add: key_of_def sample_epoch_def)
  ultimately show ?thesis
    by (simp add: destroy_expired_def next_op_def destroy_candidate_def on_keys_def give_def)
      (simp add: cleared_vault_def aged_vault_def)
qed

theorem retention_spares_held_keys_witness:
  "\<not> on_disk (keys_of (snd (destroy_expired sample_keeper 1 late_ms aged_vault))) sample_hash sample_epoch"
proof -
  have "sample_epoch = quarter_label 2026 1" unfolding sample_epoch_def by code_simp
  moreover have "epoch_quarter (quarter_label 2026 1) = Some (2026, 1)" by (simp add: epoch_quarter_label)
  ultimately have quarters: "epoch_quarter sample_epoch = Some (2026, 1)" "epoch_quarter late_cutoff = Some (2029, 4)"
    by (simp_all add: epoch_quarter_label late_cutoff_def)
  have "va_holds aged_vault = None" by simp
  from retention_spares_held_keys [OF aged_destroyed sample_nothing_held [OF this] late_cutoff(1)]
  have "\<not> on_disk (keys_of cleared_vault) sample_hash sample_epoch"
  proof (elim exE conjE)
    fix first
    assume "epoch_quarter late_cutoff = Some first"
      and all: "\<forall>s e y q. epoch_quarter e = Some (y, q) \<and> y < 2 ^ 61 \<longrightarrow>
         (if quarter_number first \<le> quarter_number (y, q) then key_unchanged s e aged_vault cleared_vault
          else is_ok (Ok (tally late_cutoff [decide [] late_cutoff (sample_hash, sample_epoch)]) :: (retain_report, core_error) result)
            \<and> s \<notin> ho_subject ` set [] \<longrightarrow> \<not> on_disk (keys_of cleared_vault) s e)"
    with all [THEN spec, THEN spec, THEN spec, THEN spec, of sample_epoch 2026 1 sample_hash] quarters
    show ?thesis by (auto simp: quarter_number_def is_ok_iff)
  qed
  then show ?thesis unfolding aged_destroyed snd_conv .
qed

theorem retention_pass_once_witness:
  "rr_keys_destroyed (tally late_cutoff []) = 0 \<and> snd (destroy_expired sample_keeper 1 late_ms cleared_vault) = cleared_vault"
proof -
  have "subject_hash_try_from (subject_hash_str sample_hash) = Ok sample_hash"
    using subject_hash_try_from_Ok_iff sample_hash_valid by blast
  then have "key_epochs (st_key_files (va_store cleared_vault)) = Ok []"
    by (simp add: key_epochs_def cleared_vault_def)
  moreover have "standing sample_keeper cleared_vault = (Ok [], cleared_vault)"
    by (rule sample_nothing_held) (simp add: cleared_vault_def sample_vault_def)
  ultimately have "survey sample_keeper 1 late_ms cleared_vault = (Ok (late_cutoff, []), cleared_vault)"
    unfolding survey_Ok using late_cutoff(1) by simp
  then have again: "destroy_expired sample_keeper 1 late_ms cleared_vault = (Ok (tally late_cutoff []), cleared_vault)"
    by (simp add: destroy_expired_def next_op_def give_def)
  from retention_pass_once [OF aged_destroyed again] again show ?thesis by simp
qed

end
