(* ===== verification/Erase.thy ===== *)
theory Erase
  imports Hold
begin

text \<open>
  \<open>yaam-core/src/erase.rs\<close>, what an erasure does to the tree, the quarantine and the key files, and the
  tombstone log it is replayed from. The rebuild in between is \<open>Reindex\<close>, the request itself \<open>Erasure\<close>.
  A line of the log is its fields; \<open>serde_json\<close> is \<open>kp_tomb_json\<close> and \<open>kp_read_tomb\<close>.
\<close>

definition KEY_BACKUP_WINDOW_MS :: int where "KEY_BACKUP_WINDOW_MS = 7 * 24 * 60 * 60 * 1000"

record erased_record =
  er_record :: string
  er_roles :: "subject_role list"

record tomb_line =
  tl_id :: string
  tl_subject :: string
  tl_at_ms :: int
  tl_complete :: bool
  tl_records :: "erased_record list"

record erase_keeper = hold_keeper +
  kp_tomb_json :: "tomb_line \<Rightarrow> string option"
  kp_read_tomb :: "string \<Rightarrow> tomb_line option"

section \<open>The log\<close>

definition tomb_append :: "('a erase_keeper_scheme) \<Rightarrow> tomb_line \<Rightarrow> (unit, vault) operation" where
  "tomb_append kp entry =
     next_op (lift_result (ok_or (invalid (NotSerialised (tl_id entry))) (kp_tomb_json kp entry))) (\<lambda>text v.
       (case append_line_sync kp [TOMBSTONE_LOG] text (va_tombstones v) of (r, new) \<Rightarrow> (r, v\<lparr>va_tombstones := new\<rparr>)))"

definition tomb_entries :: "('a erase_keeper_scheme) \<Rightarrow> vault \<Rightarrow> tomb_line list" where
  "tomb_entries kp v =
     List.map_filter (kp_read_tomb kp) (filter (\<lambda>text. \<not> blank text) (file_lines (va_tombstones v)))"

definition read_log :: "('a erase_keeper_scheme) \<Rightarrow> (tomb_line list, vault) operation" where
  "read_log kp = next_op (can kp ReadFile [TOMBSTONE_LOG]) (\<lambda>_ v. (Ok (tomb_entries kp v), v))"

section \<open>The tree\<close>

definition names :: "document \<Rightarrow> subject_hash \<Rightarrow> bool" where
  "names d subject \<longleftrightarrow> list_ex (\<lambda>s. subj_hash s = subject) (subjects (doc_record d))"

definition roles_of :: "document \<Rightarrow> subject_hash \<Rightarrow> subject_role list" where
  "roles_of d subject = map subj_role (filter (\<lambda>s. subj_hash s = subject) (subjects (doc_record d)))"

fun is_plain :: "body \<Rightarrow> bool" where
  "is_plain (Plain _) = True"
| "is_plain (Sealed _) = False"

text \<open>\<open>replace_atomically\<close> on a record file: the replacement keeps the mode.\<close>

definition replace_record :: "('a keeper_scheme) \<Rightarrow> string list \<Rightarrow> string \<Rightarrow> (unit, vault) operation" where
  "replace_record kp path text =
     next_op (can kp WriteFile path) (\<lambda>_ v.
       let mode = (case map_of (st_records (va_store v)) path of None \<Rightarrow> None | Some (_, m) \<Rightarrow> m)
       in (Ok (), v\<lparr>va_store := (va_store v)\<lparr>st_records :=
            AList.update path (text, mode) (st_records (va_store v))\<rparr>\<rparr>))"

definition erased_copy :: "document \<Rightarrow> document" where
  "erased_copy d = \<lparr>doc_record = doc_record d, doc_body = Plain []\<rparr>"

definition drop_body :: "('a keeper_scheme) \<Rightarrow> subject_hash \<Rightarrow> nat \<Rightarrow> string list \<Rightarrow> (nat, vault) operation" where
  "drop_body kp subject dropped path =
     next_op (read_record kp path) (\<lambda>text.
       (case doc_parse (kp_reader kp) text of
          Err _ \<Rightarrow> give dropped
        | Ok d \<Rightarrow>
            if \<not> names d subject \<or> is_plain (doc_body d) then give dropped
            else next_op (replace_record kp path (doc_render (pl_floats kp) (erased_copy d)))
                   (\<lambda>_. give (Suc dropped))))"

definition walk_records :: "('a keeper_scheme) \<Rightarrow> (string list list, vault) operation" where
  "walk_records kp = next_op (can kp ReadFile [RECORDS_DIR]) (\<lambda>_ v. (Ok (record_paths v), v))"

definition drop_bodies :: "('a keeper_scheme) \<Rightarrow> subject_hash \<Rightarrow> (nat, vault) operation" where
  "drop_bodies kp subject = next_op (walk_records kp) (\<lambda>paths. fold_op (drop_body kp subject) 0 paths)"

section \<open>The quarantine\<close>

text \<open>The spool's files, in the order of their names.\<close>

definition spool_ids :: "vault \<Rightarrow> string list" where
  "spool_ids v = sort_key record_file (remdups (map fst (st_spool (va_store v))))"

definition walk_spool :: "('a keeper_scheme) \<Rightarrow> (string list, vault) operation" where
  "walk_spool kp = next_op (can kp ReadFile [QUARANTINE_DIR]) (\<lambda>_ v. (Ok (spool_ids v), v))"

definition read_spool :: "('a keeper_scheme) \<Rightarrow> string \<Rightarrow> (string, vault) operation" where
  "read_spool kp rid = next_op (can kp ReadFile [QUARANTINE_DIR, record_file rid]) (\<lambda>_ v.
     (case map_of (st_spool (va_store v)) rid of
        None \<Rightarrow> (Err (CoreIo (IoNotFound rid)), v) | Some (text, _) \<Rightarrow> (Ok text, v)))"

definition remove_spool :: "('a keeper_scheme) \<Rightarrow> string \<Rightarrow> (unit, vault) operation" where
  "remove_spool kp rid = next_op (can kp Remove [QUARANTINE_DIR, record_file rid]) (\<lambda>_ v.
     (Ok (), v\<lparr>va_store := (va_store v)\<lparr>st_spool := AList.delete rid (st_spool (va_store v))\<rparr>\<rparr>))"

definition publish_structure_only :: "('a keeper_scheme) \<Rightarrow> document \<Rightarrow> (unit, vault) operation" where
  "publish_structure_only kp held =
     next_op (lift_result (stamp_of (doc_record held))) (\<lambda>st.
     next_op (lift_result (published_path (doc_record held) st)) (\<lambda>path v.
       if in_tree (va_store v) path then (Ok (), v)
       else next_op (on_store (stage (write_path.truncate kp) (erased_copy held))) (\<lambda>_.
              on_store (place (write_path.truncate kp) (erased_copy held) st)) v))"

definition settle_held :: "('a keeper_scheme) \<Rightarrow> subject_hash \<Rightarrow> nat \<Rightarrow> string \<Rightarrow> (nat, vault) operation" where
  "settle_held kp subject settled rid =
     next_op (read_spool kp rid) (\<lambda>text.
       (case doc_parse (kp_reader kp) text of
          Err _ \<Rightarrow> give settled
        | Ok d \<Rightarrow>
            if \<not> names d subject then give settled
            else next_op (publish_structure_only kp d) (\<lambda>_.
                 next_op (remove_spool kp rid) (\<lambda>_. give (Suc settled)))))"

definition sweep_quarantine :: "('a keeper_scheme) \<Rightarrow> subject_hash \<Rightarrow> (nat, vault) operation" where
  "sweep_quarantine kp subject = next_op (walk_spool kp) (\<lambda>ids. fold_op (settle_held kp subject) 0 ids)"

section \<open>Replaying\<close>

definition erase_again ::
  "('a keeper_scheme) \<Rightarrow> subject_hash \<Rightarrow> (unit, vault) operation" where
  "erase_again kp subject =
     next_op (on_keys (tombstone (pl_keys kp) subject)) (\<lambda>_.
     next_op (on_keys (destroy_subject (pl_keys kp) subject)) (\<lambda>_.
     next_op (drop_bodies kp subject) (\<lambda>_.
     next_op (sweep_quarantine kp subject) (\<lambda>_. give ()))))"

definition replay_entry ::
  "('a keeper_scheme) \<Rightarrow> string list \<times> nat \<Rightarrow> tomb_line \<Rightarrow> (string list \<times> nat, vault) operation" where
  "replay_entry kp = (\<lambda>(seen, replayed) entry.
     if tl_id entry \<in> set seen then give (seen, replayed)
     else next_op (lift_result (map_err CoreInvalid (subject_hash_try_from (tl_subject entry)))) (\<lambda>subject.
          next_op (erase_again kp subject) (\<lambda>_. give (tl_id entry # seen, Suc replayed))))"

definition replay_tombstones :: "('a erase_keeper_scheme) \<Rightarrow> (nat, vault) operation" where
  "replay_tombstones kp =
     next_op (read_log kp) (\<lambda>log_entries.
     next_op (fold_op (replay_entry kp) ([], 0) log_entries) (\<lambda>(_, replayed). give replayed))"

section \<open>Accounting\<close>

definition add_roles ::
  "subject_hash \<Rightarrow> document \<Rightarrow> (string, subject_role list) btree \<Rightarrow> (string, subject_role list) btree" where
  "add_roles subject d found =
     (let roles = roles_of d subject; old = map_of found (doc_id (doc_record d))
      in if roles = [] then found
         else bt_insert (doc_id (doc_record d))
                (fold (\<lambda>role entry. if role \<in> set entry then entry else entry @ [role]) roles
                  (case old of None \<Rightarrow> [] | Some entry \<Rightarrow> entry)) found)"

definition add_affected ::
  "('a keeper_scheme) \<Rightarrow> subject_hash \<Rightarrow> (string, subject_role list) btree \<Rightarrow> (string, vault) operation \<Rightarrow>
     ((string, subject_role list) btree, vault) operation" where
  "add_affected kp subject found read_text =
     next_op read_text (\<lambda>text.
       (case doc_parse (kp_reader kp) text of
          Err _ \<Rightarrow> give found | Ok d \<Rightarrow> give (add_roles subject d found)))"

definition affected :: "('a keeper_scheme) \<Rightarrow> subject_hash \<Rightarrow> (erased_record list, vault) operation" where
  "affected kp subject =
     next_op (walk_records kp) (\<lambda>paths.
     next_op (fold_op (\<lambda>found path. add_affected kp subject found (read_record kp path)) [] paths) (\<lambda>found.
     next_op (walk_spool kp) (\<lambda>ids.
     next_op (fold_op (\<lambda>found rid. add_affected kp subject found (read_spool kp rid)) found ids) (\<lambda>found'.
       give (map (\<lambda>(rid, roles). \<lparr>er_record = rid, er_roles = roles\<rparr>) found')))))"

text \<open>\<open>count_key_files\<close>: every file under the key root whose directory has the subject's name.\<close>

definition count_key_files :: "('a keeper_scheme) \<Rightarrow> subject_hash \<Rightarrow> (nat, vault) operation" where
  "count_key_files kp subject =
     next_op (can kp ReadFile [''keystore'']) (\<lambda>_ v.
       (Ok (length (concat (map snd (filter (\<lambda>(n, _). n = subject_hash_str subject) (ks_keys (st_key_files (va_store v))))))
          + length (filter (\<lambda>(path, _). 2 \<le> length path \<and> path ! (length path - 2) = subject_hash_str subject)
              (va_key_copies v))), v))"

text \<open>What a process can see must be gone.\<close>

definition verify_body :: "('a keeper_scheme) \<Rightarrow> subject_hash \<Rightarrow> unit \<Rightarrow> string list \<Rightarrow> (unit, vault) operation" where
  "verify_body kp subject = (\<lambda>_ path.
     next_op (read_record kp path) (\<lambda>text.
       (case doc_parse (kp_reader kp) text of
          Err _ \<Rightarrow> give ()
        | Ok d \<Rightarrow> if names d subject \<and> \<not> is_plain (doc_body d)
            then lift_result (Err (CoreIo (IoOther (''still carries a sealed body'')))) else give ())))"

definition verify_live :: "('a keeper_scheme) \<Rightarrow> subject_hash \<Rightarrow> (unit, vault) operation" where
  "verify_live kp subject =
     next_op (on_keys (\<lambda>ks. (is_tombstoned (pl_keys kp) ks subject, ks))) (\<lambda>erased.
       if \<not> erased then lift_result (Err (CoreIo (IoOther ''the subject is not tombstoned'')))
       else
     next_op (count_key_files kp subject) (\<lambda>remaining.
       if 0 < remaining then lift_result (Err (CoreIo (IoOther ''key files remain under the key root'')))
       else
     next_op (walk_records kp) (\<lambda>paths. fold_op (verify_body kp subject) () paths)))"

section \<open>Lemmas\<close>

lemma reads_only_read_log [intro, simp]: "reads_only (read_log kp)"
  unfolding read_log_def by (intro reads_only_next reads_only_can) (simp add: reads_only_def)

lemma read_log_Ok: "read_log kp v = (Ok es, v') \<longleftrightarrow> v' = v \<and> kp_refuses kp ReadFile [TOMBSTONE_LOG] = None \<and> es = tomb_entries kp v"
  by (auto simp: read_log_def next_op_Ok)

lemma reads_only_walk_records [intro, simp]: "reads_only (walk_records kp)"
  unfolding walk_records_def by (intro reads_only_next reads_only_can) (simp add: reads_only_def)

lemma walk_records_Ok: "walk_records kp v = (Ok ps, v') \<longleftrightarrow> v' = v \<and> kp_refuses kp ReadFile [RECORDS_DIR] = None \<and> ps = record_paths v"
  by (auto simp: walk_records_def next_op_Ok)

lemma reads_only_walk_spool [intro, simp]: "reads_only (walk_spool kp)"
  unfolding walk_spool_def by (intro reads_only_next reads_only_can) (simp add: reads_only_def)

lemma walk_spool_Ok: "walk_spool kp v = (Ok ids, v') \<longleftrightarrow> v' = v \<and> kp_refuses kp ReadFile [QUARANTINE_DIR] = None \<and> ids = spool_ids v"
  by (auto simp: walk_spool_def next_op_Ok)

lemma reads_only_read_spool [intro, simp]: "reads_only (read_spool kp rid)"
  unfolding read_spool_def by (intro reads_only_next reads_only_can) (simp add: reads_only_def split: option.split)

lemma read_spool_Ok:
  "read_spool kp rid v = (Ok text, v') \<Longrightarrow> v' = v \<and> (\<exists>m. map_of (st_spool (va_store v)) rid = Some (text, m))"
  by (auto simp: read_spool_def next_op_Ok split: option.splits)

lemma reads_only_affected [intro, simp]: "reads_only (affected kp s)"
proof -
  have "reads_only m \<Longrightarrow> reads_only (add_affected kp s found m)" for m found
    unfolding add_affected_def by (intro reads_only_next) (auto split: result.split)
  then show ?thesis unfolding affected_def
    by (intro reads_only_next reads_only_fold reads_only_give reads_only_walk_records reads_only_walk_spool) simp_all
qed

lemma reads_only_count [intro, simp]: "reads_only (count_key_files kp s)"
  unfolding count_key_files_def by (intro reads_only_next reads_only_can) (simp add: reads_only_def)

lemma reads_only_verify [intro, simp]: "reads_only (verify_live kp s)"
proof -
  have body: "reads_only (verify_body kp s u path)" for u path
    unfolding verify_body_def by (intro reads_only_next) (auto split: result.split)
  have "reads_only (on_keys (\<lambda>ks. (is_tombstoned (pl_keys kp) ks s, ks)))"
    by (simp add: reads_only_def on_keys_def)
  with body show ?thesis unfolding verify_live_def
    by (intro reads_only_next) (auto intro!: reads_only_next reads_only_fold)
qed

text \<open>What an erasure leaves of a subject: its marker, no key, no sealed body in the tree, no copy held back.\<close>

definition sealed_off :: "('a keeper_scheme) \<Rightarrow> subject_hash \<Rightarrow> vault \<Rightarrow> bool" where
  "sealed_off kp s v \<longleftrightarrow> (\<forall>path \<in> set (record_paths v). \<forall>text m d.
     map_of (st_records (va_store v)) path = Some (text, m) \<longrightarrow> doc_parse (kp_reader kp) text = Ok d \<longrightarrow> names d s
       \<longrightarrow> is_plain (doc_body d))"

definition unspooled :: "('a keeper_scheme) \<Rightarrow> subject_hash \<Rightarrow> vault \<Rightarrow> bool" where
  "unspooled kp s v \<longleftrightarrow> (\<forall>rid text m d. map_of (st_spool (va_store v)) rid = Some (text, m)
     \<longrightarrow> doc_parse (kp_reader kp) text = Ok d \<longrightarrow> \<not> names d s)"

definition keyless :: "subject_hash \<Rightarrow> vault \<Rightarrow> bool" where
  "keyless s v \<longleftrightarrow> subject_hash_str s \<in> set (ks_tombstones (st_key_files (va_store v)))
     \<and> subject_hash_str s \<notin> fst ` set (ks_keys (st_key_files (va_store v)))"

text \<open>The text of an emptied record is never read as a sealed one.\<close>

lemma erased_copy_parsed:
  assumes "\<And>f. CHR 0x0A \<notin> set (floats f)" "doc_parse reader (doc_render floats (erased_copy d)) = Ok d'"
  shows "is_plain (doc_body d')"
proof -
  have t: "trim_separators (newline @ newline) = []" by code_simp
  have "split_file (doc_render floats (erased_copy d)) = Ok (fm_render floats (doc_record d), [])"
    using split_file_rendered [of floats "doc_record d" "newline @ newline", OF assms(1)]
    unfolding t doc_render_def erased_copy_def by simp
  moreover have "\<not> is_sealed []" by code_simp
  ultimately show ?thesis using assms(2) by (auto simp: doc_parse_def)
qed

lemma in_record_paths:
  "path \<in> set (record_paths v) \<longleftrightarrow> map_of (st_records (va_store v)) path \<noteq> None \<and> path \<noteq> []
     \<and> extension (List.last path) = Some RECORD_EXT"
  by (auto simp: record_paths_def set_walk_files map_of_eq_None_iff)

text \<open>A file that only ever goes from a document to its emptied copy.\<close>

definition only_empties :: "('a keeper_scheme) \<Rightarrow> vault \<Rightarrow> vault \<Rightarrow> bool" where
  "only_empties kp v v' \<longleftrightarrow> (\<forall>path. map_of (st_records (va_store v')) path = map_of (st_records (va_store v)) path
     \<or> (\<exists>d m. map_of (st_records (va_store v')) path = Some (doc_render (pl_floats kp) (erased_copy d), m)))"

lemma only_empties_refl [simp]: "only_empties kp v v"
  by (simp add: only_empties_def)

lemma only_empties_same [simp]: "st_records (va_store v') = st_records (va_store v) \<Longrightarrow> only_empties kp v v'"
  by (simp add: only_empties_def)

lemma only_empties_update:
  assumes "st_records (va_store v') = AList.update p (doc_render (pl_floats kp) (erased_copy d), m) (st_records (va_store v))"
  shows "only_empties kp v v'"
  unfolding only_empties_def
proof
  fix path
  show "map_of (st_records (va_store v')) path = map_of (st_records (va_store v)) path
     \<or> (\<exists>d m. map_of (st_records (va_store v')) path = Some (doc_render (pl_floats kp) (erased_copy d), m))"
    by (cases "path = p") (auto simp: assms update_conv')
qed

lemma only_empties_trans: "only_empties kp u v \<Longrightarrow> only_empties kp v w \<Longrightarrow> only_empties kp u w"
  unfolding only_empties_def by metis

lemma only_empties_sealed_off:
  assumes "\<And>f. CHR 0x0A \<notin> set (pl_floats kp f)" "only_empties kp v v'" "sealed_off kp s v"
  shows "sealed_off kp s v'"
  unfolding sealed_off_def
proof (intro ballI allI impI)
  fix path content m d
  assume p: "path \<in> set (record_paths v')" and c: "map_of (st_records (va_store v')) path = Some (content, m)"
    "doc_parse (kp_reader kp) content = Ok d" "names d s"
  from assms(2) consider "map_of (st_records (va_store v')) path = map_of (st_records (va_store v)) path"
    | d' m' where "map_of (st_records (va_store v')) path = Some (doc_render (pl_floats kp) (erased_copy d'), m')"
    unfolding only_empties_def by metis
  then show "is_plain (doc_body d)"
  proof cases
    case 1
    then have "path \<in> set (record_paths v)" using p by (simp add: in_record_paths)
    with 1 c assms(3) show ?thesis unfolding sealed_off_def by metis
  next
    case 2
    then show ?thesis using erased_copy_parsed [where floats = "pl_floats kp" and reader = "kp_reader kp" and d = d' and d' = d, OF assms(1)] c by simp
  qed
qed

text \<open>Each step, as a change of the vault.\<close>

definition erasing :: "('a keeper_scheme) \<Rightarrow> vault \<Rightarrow> vault \<Rightarrow> bool" where
  "erasing kp v v' \<longleftrightarrow> only_empties kp v v'
     \<and> (\<forall>rid f. map_of (st_spool (va_store v')) rid = Some f \<longrightarrow> map_of (st_spool (va_store v)) rid = Some f)
     \<and> set (ks_tombstones (st_key_files (va_store v))) \<subseteq> set (ks_tombstones (st_key_files (va_store v')))
     \<and> set (ks_keys (st_key_files (va_store v'))) \<subseteq> set (ks_keys (st_key_files (va_store v)))
     \<and> va_tombstones v' = va_tombstones v \<and> va_holds v' = va_holds v \<and> va_key_copies v' = va_key_copies v
     \<and> st_index (va_store v') = st_index (va_store v)"

lemma erasing_refl [simp]: "erasing kp v v"
  by (simp add: erasing_def)

lemma erasing_trans:
  assumes "erasing kp u v" "erasing kp v w" shows "erasing kp u w"
proof -
  have "only_empties kp u w" using only_empties_trans [of kp u v w] assms by (simp add: erasing_def)
  moreover have "map_of (st_spool (va_store u)) rid = Some f" if "map_of (st_spool (va_store w)) rid = Some f" for rid f
    using assms that unfolding erasing_def by presburger
  ultimately show ?thesis using assms unfolding erasing_def by (intro conjI) (blast | presburger)+
qed

definition erases :: "('a keeper_scheme) \<Rightarrow> ('b, vault) operation \<Rightarrow> bool" where
  "erases kp m \<longleftrightarrow> (\<forall>v r v'. m v = (r, v') \<longrightarrow> erasing kp v v')"

lemma erasesD: "erases kp m \<Longrightarrow> m v = (r, v') \<Longrightarrow> erasing kp v v'"
  by (simp add: erases_def)

named_theorems erase_intros \<open>introduction rules for erases\<close>

lemma erases_reads_only: "reads_only m \<Longrightarrow> erases kp m"
  unfolding erases_def using reads_onlyD erasing_refl by metis

lemma erases_give [erase_intros]: "erases kp (give a)" "erases kp (lift_result r)"
  by (simp_all add: erases_reads_only)

lemma erases_next [erase_intros]:
  assumes "erases kp m" "\<And>a. erases kp (f a)" shows "erases kp (next_op m f)"
  unfolding erases_def
proof (intro allI impI)
  fix v r v' assume "next_op m f v = (r, v')"
  then show "erasing kp v v'"
    by (cases rule: next_op_cases) (use assms erasesD erasing_trans in metis)+
qed

lemma erases_fold [erase_intros]: "(\<And>a x. erases kp (f a x)) \<Longrightarrow> erases kp (fold_op f a xs)"
  by (induction xs arbitrary: a) (auto intro: erase_intros)

lemma erases_replace: "erases kp (replace_record kp path (doc_render (pl_floats kp) (erased_copy d)))"
  unfolding replace_record_def
proof (rule erases_next)
  show "erases kp (can kp WriteFile path)" by (rule erases_reads_only) simp
  fix u :: unit
  show "erases kp (\<lambda>v. let mode = (case map_of (st_records (va_store v)) path of None \<Rightarrow> None | Some (_, m) \<Rightarrow> m)
       in (Ok (), v\<lparr>va_store := (va_store v)\<lparr>st_records :=
            AList.update path (doc_render (pl_floats kp) (erased_copy d), mode) (st_records (va_store v))\<rparr>\<rparr>))"
    by (auto simp: erases_def erasing_def only_empties_def Let_def update_conv')
qed

lemma erases_drop_bodies: "erases kp (drop_bodies kp s)"
proof -
  have "erases kp (drop_body kp s n path)" for n path
    unfolding drop_body_def
    by (intro erases_next erases_reads_only [OF reads_only_read_record])
      (auto intro!: erase_intros erases_replace split: result.split)
  then show ?thesis unfolding drop_bodies_def
    by (intro erase_intros erases_reads_only [OF reads_only_walk_records])
qed

lemma stage_then_place:
  assumes "stage pl d w = (Ok u, w1)" "place pl d st w1 = (r, w2)"
  shows "(st_records w2 = st_records w \<or> (\<exists>path. st_records w2
      = AList.update path (doc_render (pl_floats pl) d, record_mode (doc_record d)) (st_records w)))
    \<and> st_spool w2 = st_spool w \<and> st_index w2 = st_index w \<and> st_key_files w2 = st_key_files w"
proof -
  let ?id = "doc_id (doc_record d)"
  have w1: "w1 = w\<lparr>st_staging := AList.update ?id (doc_render (pl_floats pl) d, record_mode (doc_record d)) (st_staging w)\<rparr>"
    using assms(1) by (auto simp: stage_def split: result.splits)
  show ?thesis
  proof (cases "published_path (doc_record d) st")
    case (Err e)
    with assms(2) w1 show ?thesis by (auto simp: place_def)
  next
    case (Ok dest)
    obtain q w3 where c: "create_record_dirs pl (doc_record d) (butlast dest) w1 = (q, w3)" by fastforce
    then obtain dirs where "w3 = w1\<lparr>st_private := dirs @ st_private w1\<rparr>" using create_record_dirs_frame by blast
    with assms(2) Ok c w1 show ?thesis
      by (cases q; cases "attempt pl (RenameFile dest)") (auto simp: place_def update_conv')
  qed
qed

lemma erases_publish_structure: "erases kp (publish_structure_only kp d)"
proof -
  let ?pl = "write_path.truncate kp"
  have floats: "pl_floats ?pl = pl_floats kp" by (simp add: write_path.truncate_def)
  have both: "erases kp (next_op (on_store (stage ?pl (erased_copy d))) (\<lambda>_. on_store (place ?pl (erased_copy d) st)))" for st
    unfolding erases_def
  proof (intro allI impI)
    fix v r v'
    assume "next_op (on_store (stage ?pl (erased_copy d))) (\<lambda>_. on_store (place ?pl (erased_copy d) st)) v = (r, v')"
    then show "erasing kp v v'"
    proof (cases rule: next_op_cases)
      case (stopped e)
      then have "v' = v" by (auto simp: on_store_def stage_def split: result.splits prod.splits)
      then show ?thesis by simp
    next
      case (went_on u t)
      obtain w1 where w1: "stage ?pl (erased_copy d) (va_store v) = (Ok u, w1)" "t = v\<lparr>va_store := w1\<rparr>"
        using went_on(1) by (auto simp: on_store_def split: prod.splits)
      obtain q w2 where w2: "place ?pl (erased_copy d) st w1 = (q, w2)" "v' = v\<lparr>va_store := w2\<rparr>"
        using went_on(2) w1(2) by (auto simp: on_store_def split: prod.splits)
      from stage_then_place [OF w1(1) w2(1)] w2(2) show ?thesis
        by (auto simp: erasing_def floats intro: only_empties_update)
    qed
  qed
  have "erases kp (\<lambda>v. if in_tree (va_store v) path then (Ok (), v)
       else next_op (on_store (stage ?pl (erased_copy d))) (\<lambda>_. on_store (place ?pl (erased_copy d) st)) v)" for path st
    using both [of st] by (auto simp: erases_def)
  then show ?thesis unfolding publish_structure_only_def by (intro erase_intros)
qed

lemma erases_remove_spool: "erases kp (remove_spool kp rid)"
  unfolding remove_spool_def
proof (rule erases_next)
  show "erases kp (can kp Remove [QUARANTINE_DIR, record_file rid])" by (rule erases_reads_only) simp
  fix u :: unit
  show "erases kp (\<lambda>v. (Ok (), v\<lparr>va_store := (va_store v)\<lparr>st_spool := AList.delete rid (st_spool (va_store v))\<rparr>\<rparr>))"
    by (auto simp: erases_def erasing_def delete_conv' split: if_splits)
qed

lemma erases_sweep: "erases kp (sweep_quarantine kp s)"
proof -
  have "erases kp (settle_held kp s n rid)" for n rid
    unfolding settle_held_def
    by (intro erases_next erases_reads_only [OF reads_only_read_spool])
      (auto intro!: erase_intros erases_publish_structure erases_remove_spool split: result.split)
  then show ?thesis unfolding sweep_quarantine_def
    by (intro erase_intros erases_reads_only [OF reads_only_walk_spool])
qed

lemma erases_keys: "erases kp (on_keys (tombstone st s))" "erases kp (on_keys (destroy_subject st s))"
  by (auto simp: erases_def erasing_def on_keys_def tombstone_def destroy_subject_def split: result.splits prod.splits if_splits)

lemma erases_again: "erases kp (erase_again kp s)"
  unfolding erase_again_def
  by (intro erase_intros erases_keys erases_drop_bodies erases_sweep)

text \<open>What each step achieves.\<close>

lemma erasing_keeps:
  assumes "\<And>f. CHR 0x0A \<notin> set (pl_floats kp f)" "erasing kp v v'"
  shows "sealed_off kp s v \<Longrightarrow> sealed_off kp s v'" "unspooled kp s v \<Longrightarrow> unspooled kp s v'" "keyless s v \<Longrightarrow> keyless s v'"
proof -
  show "sealed_off kp s v \<Longrightarrow> sealed_off kp s v'"
    using assms(2) by (intro only_empties_sealed_off [OF assms(1), of v v' s]) (simp_all add: erasing_def)
  show "unspooled kp s v \<Longrightarrow> unspooled kp s v'"
    using assms(2) unfolding erasing_def unspooled_def by metis
  show "keyless s v \<Longrightarrow> keyless s v'"
    using assms(2) unfolding erasing_def keyless_def by blast
qed

definition emptied :: "('a keeper_scheme) \<Rightarrow> subject_hash \<Rightarrow> string list \<Rightarrow> vault \<Rightarrow> bool" where
  "emptied kp s path v \<longleftrightarrow> (\<forall>text m d. map_of (st_records (va_store v)) path = Some (text, m)
     \<longrightarrow> doc_parse (kp_reader kp) text = Ok d \<longrightarrow> names d s \<longrightarrow> is_plain (doc_body d))"

lemma emptied_kept:
  assumes "\<And>f. CHR 0x0A \<notin> set (pl_floats kp f)" "only_empties kp v v'" "emptied kp s path v"
  shows "emptied kp s path v'"
  using assms(2,3) erased_copy_parsed [where floats = "pl_floats kp", OF assms(1)]
  unfolding emptied_def only_empties_def by (metis option.inject prod.inject)

lemma drop_body_empties:
  assumes "\<And>f. CHR 0x0A \<notin> set (pl_floats kp f)" "drop_body kp s n path v = (Ok k, v')"
  shows "emptied kp s path v'"
proof -
  from assms(2) obtain content m where c: "map_of (st_records (va_store v)) path = Some (content, m)"
    "(case doc_parse (kp_reader kp) content of Err _ \<Rightarrow> give n
      | Ok d \<Rightarrow> if \<not> names d s \<or> is_plain (doc_body d) then give n
           else next_op (replace_record kp path (doc_render (pl_floats kp) (erased_copy d))) (\<lambda>_. give (Suc n))) v = (Ok k, v')"
    by (auto simp: drop_body_def next_op_Ok read_record_Ok)
  show ?thesis
  proof (cases "doc_parse (kp_reader kp) content")
    case (Err e)
    with c show ?thesis by (auto simp: emptied_def)
  next
    case (Ok d)
    show ?thesis
    proof (cases "\<not> names d s \<or> is_plain (doc_body d)")
      case True
      with c Ok show ?thesis by (auto simp: emptied_def)
    next
      case False
      with c Ok have "map_of (st_records (va_store v')) path = Some (doc_render (pl_floats kp) (erased_copy d), m)"
        by (auto simp: next_op_Ok replace_record_def Let_def update_conv')
      with erased_copy_parsed [where floats = "pl_floats kp", OF assms(1)] show ?thesis
        by (auto simp: emptied_def)
    qed
  qed
qed

lemma erases_drop_body: "erases kp (drop_body kp s n path)"
  unfolding drop_body_def
  by (intro erases_next erases_reads_only [OF reads_only_read_record])
    (auto intro!: erase_intros erases_replace split: result.split)

lemma drop_all_empty:
  assumes "\<And>f. CHR 0x0A \<notin> set (pl_floats kp f)" "fold_op (drop_body kp s) n ps v = (Ok k, v')" "path \<in> set ps"
  shows "emptied kp s path v'"
  using assms(2,3)
proof (induction ps arbitrary: n v)
  case (Cons p ps)
  from Cons.prems(1) obtain j t where t: "drop_body kp s n p v = (Ok j, t)" "fold_op (drop_body kp s) j ps t = (Ok k, v')"
    by (auto simp: next_op_Ok)
  have "erasing kp t v'" using erasesD [OF erases_fold t(2)] erases_drop_body by blast
  then have "only_empties kp t v'" by (simp add: erasing_def)
  with Cons.IH [OF t(2)] Cons.prems(2) drop_body_empties [OF assms(1) t(1)] emptied_kept [OF assms(1)] show ?case by auto
qed simp

lemma drop_bodies_seal_off:
  assumes "\<And>f. CHR 0x0A \<notin> set (pl_floats kp f)" "drop_bodies kp s v = (Ok n, v')"
  shows "sealed_off kp s v'"
proof -
  from assms(2) have f: "fold_op (drop_body kp s) 0 (record_paths v) v = (Ok n, v')"
    by (auto simp: drop_bodies_def next_op_Ok walk_records_Ok)
  have "erasing kp v v'" using erasesD [OF erases_fold f] erases_drop_body by blast
  then have oe: "only_empties kp v v'" by (simp add: erasing_def)
  show ?thesis unfolding sealed_off_def
  proof (intro ballI allI impI)
    fix path content m d
    assume p: "path \<in> set (record_paths v')" and c: "map_of (st_records (va_store v')) path = Some (content, m)"
      "doc_parse (kp_reader kp) content = Ok d" "names d s"
    show "is_plain (doc_body d)"
    proof (cases "path \<in> set (record_paths v)")
      case True
      with drop_all_empty [OF assms(1) f True] c show ?thesis unfolding emptied_def by blast
    next
      case False
      then have "map_of (st_records (va_store v)) path = None"
        using p by (cases "map_of (st_records (va_store v)) path") (auto simp: in_record_paths)
      then have "emptied kp s path v" by (simp add: emptied_def)
      from emptied_kept [OF assms(1) oe this] c show ?thesis unfolding emptied_def by blast
    qed
  qed
qed

lemma settle_held_unspools:
  assumes "settle_held kp s n rid v = (Ok k, v')" "map_of (st_spool (va_store v')) rid = Some (content, m)"
    "doc_parse (kp_reader kp) content = Ok d"
  shows "\<not> names d s"
proof -
  from assms(1) obtain old m' where c: "map_of (st_spool (va_store v)) rid = Some (old, m')"
    "(case doc_parse (kp_reader kp) old of Err _ \<Rightarrow> give n
      | Ok d \<Rightarrow> if \<not> names d s then give n
           else next_op (publish_structure_only kp d) (\<lambda>_. next_op (remove_spool kp rid) (\<lambda>_. give (Suc n)))) v = (Ok k, v')"
    unfolding settle_held_def next_op_Ok using read_spool_Ok by blast
  have "erases kp (settle_held kp s n rid)" unfolding settle_held_def
    by (intro erases_next erases_reads_only [OF reads_only_read_spool])
      (auto intro!: erase_intros erases_publish_structure erases_remove_spool split: result.split)
  from erasesD [OF this assms(1)] assms(2) c(1) have same: "old = content" by (fastforce simp: erasing_def)
  show ?thesis
  proof
    assume n: "names d s"
    with c(2) assms(3) same have "next_op (publish_structure_only kp d) (\<lambda>_. next_op (remove_spool kp rid) (\<lambda>_. give (Suc n))) v = (Ok k, v')"
      by simp
    then obtain t where "remove_spool kp rid t = (Ok (), v')" by (auto simp: next_op_Ok)
    then have "map_of (st_spool (va_store v')) rid = None"
      by (auto simp: remove_spool_def next_op_Ok delete_conv')
    with assms(2) show False by simp
  qed
qed

lemma erases_settle_held: "erases kp (settle_held kp s n rid)"
  unfolding settle_held_def
  by (intro erases_next erases_reads_only [OF reads_only_read_spool])
    (auto intro!: erase_intros erases_publish_structure erases_remove_spool split: result.split)

definition unnamed_copy :: "('a keeper_scheme) \<Rightarrow> subject_hash \<Rightarrow> string \<Rightarrow> vault \<Rightarrow> bool" where
  "unnamed_copy kp s rid v \<longleftrightarrow> (\<forall>text m d. map_of (st_spool (va_store v)) rid = Some (text, m)
     \<longrightarrow> doc_parse (kp_reader kp) text = Ok d \<longrightarrow> \<not> names d s)"

lemma unnamed_copy_kept: "erasing kp v v' \<Longrightarrow> unnamed_copy kp s rid v \<Longrightarrow> unnamed_copy kp s rid v'"
  unfolding erasing_def unnamed_copy_def by blast

lemma settle_all_unspool:
  assumes "fold_op (settle_held kp s) n ids v = (Ok k, v')" "rid \<in> set ids"
  shows "unnamed_copy kp s rid v'"
  using assms
proof (induction ids arbitrary: n v)
  case (Cons i ids)
  from Cons.prems(1) obtain j t where t: "settle_held kp s n i v = (Ok j, t)" "fold_op (settle_held kp s) j ids t = (Ok k, v')"
    by (auto simp: next_op_Ok)
  have e: "erasing kp t v'" using erasesD [OF erases_fold t(2)] erases_settle_held by blast
  show ?case
  proof (cases "rid \<in> set ids")
    case True
    with Cons.IH [OF t(2)] show ?thesis by blast
  next
    case False
    with Cons.prems(2) have "rid = i" by simp
    then have "unnamed_copy kp s rid t" using settle_held_unspools [OF t(1)] unfolding unnamed_copy_def by blast
    with unnamed_copy_kept [OF e] show ?thesis by blast
  qed
qed simp

lemma sweep_unspools:
  assumes "sweep_quarantine kp s v = (Ok n, v')" shows "unspooled kp s v'"
proof -
  from assms have f: "fold_op (settle_held kp s) 0 (spool_ids v) v = (Ok n, v')"
    by (auto simp: sweep_quarantine_def next_op_Ok walk_spool_Ok)
  have e: "erasing kp v v'" using erasesD [OF erases_sweep assms] .
  have "unnamed_copy kp s rid v'" for rid
  proof (cases "rid \<in> set (spool_ids v)")
    case True
    with settle_all_unspool [OF f] show ?thesis by blast
  next
    case False
    then have "map_of (st_spool (va_store v)) rid = None" by (simp add: spool_ids_def map_of_eq_None_iff)
    then have "unnamed_copy kp s rid v" by (simp add: unnamed_copy_def)
    with unnamed_copy_kept [OF e] show ?thesis by blast
  qed
  then show ?thesis unfolding unspooled_def unnamed_copy_def by blast
qed

definition erased :: "('a keeper_scheme) \<Rightarrow> subject_hash \<Rightarrow> vault \<Rightarrow> bool" where
  "erased kp s v \<longleftrightarrow> keyless s v \<and> sealed_off kp s v \<and> unspooled kp s v"

lemma erased_kept:
  "(\<And>f. CHR 0x0A \<notin> set (pl_floats kp f)) \<Longrightarrow> erasing kp v v' \<Longrightarrow> erased kp s v \<Longrightarrow> erased kp s v'"
  unfolding erased_def using erasing_keeps by blast

lemma keys_destroyed:
  assumes "on_keys (tombstone st s) v = (Ok u, v1)" "on_keys (destroy_subject st s) v1 = (Ok w, v2)"
  shows "keyless s v2"
proof -
  obtain ks1 where 1: "tombstone st s (st_key_files (va_store v)) = (Ok (), ks1)" "st_key_files (va_store v1) = ks1"
    using assms(1) by (auto simp: on_keys_def split: prod.splits)
  obtain ks2 where 2: "destroy_subject st s ks1 = (Ok (), ks2)" "st_key_files (va_store v2) = ks2"
    using assms(2) 1(2) by (auto simp: on_keys_def split: prod.splits)
  have "subject_hash_str s \<in> set (ks_tombstones ks1)" using tombstone_Ok(1) [OF 1(1)] by simp
  moreover have "ks2 = ks1\<lparr>ks_keys := filter (\<lambda>(n, _). n \<noteq> subject_hash_str s) (ks_keys ks1)\<rparr>"
    using 2(1) by (auto simp: destroy_subject_def split: result.splits)
  ultimately show ?thesis unfolding keyless_def 2(2) by auto
qed

lemma erase_again_erased:
  assumes "\<And>f. CHR 0x0A \<notin> set (pl_floats kp f)" "erase_again kp s v = (Ok u, v')"
  shows "erased kp s v'"
proof -
  from assms(2) obtain v1 v2 v3 x y z where s: "on_keys (tombstone (pl_keys kp) s) v = (Ok x, v1)"
    "on_keys (destroy_subject (pl_keys kp) s) v1 = (Ok y, v2)" "drop_bodies kp s v2 = (Ok z, v3)"
    "\<exists>n. sweep_quarantine kp s v3 = (Ok n, v')"
    by (auto simp: erase_again_def next_op_Ok)
  then obtain n where n: "sweep_quarantine kp s v3 = (Ok n, v')" by blast
  note e3 = erasesD [OF erases_drop_bodies s(3)] and e4 = erasesD [OF erases_sweep n]
  have "keyless s v'" using keys_destroyed [OF s(1,2)] erasing_keeps(3) [OF assms(1)] e3 e4 by metis
  moreover have "sealed_off kp s v'"
    using drop_bodies_seal_off [OF assms(1) s(3)] erasing_keeps(1) [OF assms(1) e4] by blast
  ultimately show ?thesis using sweep_unspools [OF n] by (simp add: erased_def)
qed

lemma erases_replay_entry: "erases kp (replay_entry kp p e)"
  unfolding replay_entry_def by (auto intro!: erase_intros erases_again split: prod.split)

lemma erases_replay: "erases kp (replay_tombstones kp)"
  unfolding replay_tombstones_def
  by (intro erases_next erases_fold erases_replay_entry erases_reads_only [OF reads_only_read_log])
    (auto intro!: erase_intros split: prod.split)

text \<open>The lines of one identifier, which an erasure and its completion write, name one subject.\<close>

definition one_subject :: "tomb_line list \<Rightarrow> bool" where
  "one_subject es \<longleftrightarrow> (\<forall>e \<in> set es. \<forall>e' \<in> set es. tl_id e = tl_id e' \<longrightarrow> tl_subject e = tl_subject e')"

lemma one_subject_Cons: "one_subject (e # es) \<Longrightarrow> one_subject es"
  unfolding one_subject_def by (meson list.set_intros(2))

lemma one_subjectD: "one_subject es \<Longrightarrow> e \<in> set es \<Longrightarrow> e' \<in> set es \<Longrightarrow> tl_id e = tl_id e' \<Longrightarrow> tl_subject e = tl_subject e'"
  unfolding one_subject_def by blast

text \<open>After a replay, the first subject each identifier of the log names is erased.\<close>

lemma replay_entries_erased:
  assumes "\<And>f. CHR 0x0A \<notin> set (pl_floats kp f)" "fold_op (replay_entry kp) (seen, n) es v = (Ok p, v')"
    and "one_subject es"
    and "e \<in> set es" "tl_id e \<notin> set seen"
  shows "\<exists>s. subject_hash_try_from (tl_subject e) = Ok s \<and> erased kp s v'"
  using assms(2-5)
proof (induction es arbitrary: seen n v)
  case (Cons x es)
  from Cons.prems(1) obtain seen' n' t where t: "replay_entry kp (seen, n) x v = (Ok (seen', n'), t)"
    "fold_op (replay_entry kp) (seen', n') es t = (Ok p, v')" by (auto simp: next_op_Ok)
  have e: "erasing kp t v'" using erasesD [OF erases_fold t(2)] erases_replay_entry by blast
  show ?case
  proof (cases "tl_id e = tl_id x")
    case True
    with Cons.prems(4) t(1) obtain s where s: "subject_hash_try_from (tl_subject x) = Ok s" "erase_again kp s v = (Ok (), t)"
      by (auto simp: replay_entry_def next_op_Ok)
    have "tl_subject e = tl_subject x" using one_subjectD [OF Cons.prems(2,3) _ True] by simp
    with s erased_kept [OF assms(1) e erase_again_erased [OF assms(1) s(2)]] show ?thesis by auto
  next
    case False
    have unseen: "tl_id e \<notin> set seen'" using False Cons.prems(4) t(1)
      by (auto simp: replay_entry_def next_op_Ok split: if_splits)
    have "e \<in> set es" using False Cons.prems(3) by auto
    with Cons.IH [OF t(2) one_subject_Cons [OF Cons.prems(2)]] unseen show ?thesis by simp
  qed
qed simp

lemma replay_erased:
  assumes "\<And>f. CHR 0x0A \<notin> set (pl_floats kp f)" "replay_tombstones kp v = (Ok n, v')"
    and "one_subject (tomb_entries kp v)"
    and "e \<in> set (tomb_entries kp v)"
  shows "\<exists>s. subject_hash_try_from (tl_subject e) = Ok s \<and> erased kp s v'"
proof -
  from assms(2) obtain p where "fold_op (replay_entry kp) ([], 0) (tomb_entries kp v) v = (Ok p, v')"
    by (auto simp: replay_tombstones_def next_op_Ok read_log_Ok)
  from replay_entries_erased [OF assms(1) this assms(3,4)] show ?thesis by simp
qed

end
