(* ===== verification/Reindex.thy ===== *)
theory Reindex
  imports Erase
begin

text \<open>
  \<open>yaam-core/src/reindex.rs\<close>: the index rebuilt from the tree, the cold manifests and the quarantine, after
  the tombstone log is replayed. The transaction is the index it builds: only the commit puts it in the
  vault. \<open>kp_json\<close> is \<open>serde_json\<close>'s reading of a manifest line. A directory that is not there is an empty
  one.
\<close>

record cold_keeper = erase_keeper +
  kp_json :: "string \<Rightarrow> json option"

record reindex_report =
  rx_from_tree :: nat
  rx_from_manifests :: nat
  rx_skipped :: nat
  rx_tombstones_replayed :: nat
  rx_timelines_dropped :: nat

record sources =
  so_tree :: "string list list"
  so_manifests :: "string list list"
  so_quarantine :: "string list"

section \<open>What there is to read\<close>

text \<open>\<open>Path::components\<close>.\<close>

definition components :: "string \<Rightarrow> string list" where
  "components s =
     (let parts = split_on (CHR ''/'') s
      in (if s \<noteq> [] \<and> hd s = CHR ''/'' then [''/''] else if hd parts = ''.'' then [''.''] else [])
         @ filter (\<lambda>p. p \<noteq> [] \<and> p \<noteq> ''.'') parts)"

definition arrival_key :: "('a keeper_scheme) \<Rightarrow> string list \<Rightarrow> string list" where
  "arrival_key kp path = (let parts = components (pl_root kp) @ path in drop (length parts - 4) parts)"

definition walk_manifests :: "('a keeper_scheme) \<Rightarrow> (string list list, vault) operation" where
  "walk_manifests kp = next_op (can kp ReadFile [COLD_DIR]) (\<lambda>_ v. (Ok (walk_files ''jsonl'' (va_cold v)), v))"

definition read_cold :: "('a keeper_scheme) \<Rightarrow> string list \<Rightarrow> (string, vault) operation" where
  "read_cold kp path = next_op (can kp ReadFile path) (\<lambda>_ v.
     (case map_of (va_cold v) path of
        None \<Rightarrow> (Err (CoreIo (IoNotFound (concat path))), v) | Some text \<Rightarrow> (Ok text, v)))"

definition list_sources :: "('a keeper_scheme) \<Rightarrow> (sources, vault) operation" where
  "list_sources kp =
     next_op (walk_records kp) (\<lambda>tree.
     next_op (walk_manifests kp) (\<lambda>manifests.
     next_op (walk_spool kp) (\<lambda>held.
       give \<lparr>so_tree = sort_key (arrival_key kp) tree, so_manifests = manifests, so_quarantine = held\<rparr>)))"

section \<open>A manifest line\<close>

fun with_summary :: "json \<Rightarrow> json" where
  "with_summary (JObject obj) =
     JObject (if map_of obj ''summary'' = None then bt_insert ''summary'' (JStr []) obj else obj)"
| "with_summary j = j"

definition manifest_record :: "('a cold_keeper_scheme) \<Rightarrow> string \<Rightarrow> (action_record, core_error) result" where
  "manifest_record kp line =
     and_then (ok_or (invalid (ManifestNotARecord line)) (kp_json kp line)) (\<lambda>j.
     and_then (ok_or (invalid (ManifestNotARecord line)) (md_typed (kp_reader kp) (with_summary j))) (\<lambda>rec.
     and_then (map_err CoreInvalid (validate rec)) (\<lambda>_. Ok rec)))"

section \<open>Indexing\<close>

definition index_file ::
  "('a keeper_scheme) \<Rightarrow> index \<times> nat \<times> nat \<Rightarrow> string list \<Rightarrow> (index \<times> nat \<times> nat, vault) operation" where
  "index_file kp = (\<lambda>(idx, indexed, skipped) path.
     next_op (read_record kp path) (\<lambda>text.
       (case doc_parse (kp_reader kp) text of
          Err _ \<Rightarrow> give (idx, indexed, Suc skipped)
        | Ok d \<Rightarrow> next_op (lift_result (publish_document (pl_epoch_ms kp) idx d)) (\<lambda>idx'.
                    give (idx', Suc indexed, skipped)))))"

definition index_tree ::
  "('a keeper_scheme) \<Rightarrow> index \<Rightarrow> string list list \<Rightarrow> (index \<times> nat \<times> nat, vault) operation" where
  "index_tree kp idx paths = fold_op (index_file kp) (idx, 0, 0) paths"

definition index_line ::
  "('a cold_keeper_scheme) \<Rightarrow> index \<times> nat \<times> nat \<Rightarrow> string \<Rightarrow> (index \<times> nat \<times> nat, vault) operation" where
  "index_line kp = (\<lambda>(idx, indexed, skipped) line.
     if blank line then give (idx, indexed, skipped)
     else (case manifest_record kp line of
             Err _ \<Rightarrow> give (idx, indexed, Suc skipped)
           | Ok rec \<Rightarrow>
               next_op (lift_result (map_err CoreStore (publish (pl_epoch_ms kp) idx
                 \<lparr>pi_record = rec, pi_searchable_body = [], pi_subject_keys = []\<rparr>))) (\<lambda>idx'.
               give (idx', Suc indexed, skipped))))"

definition index_manifests ::
  "('a cold_keeper_scheme) \<Rightarrow> index \<Rightarrow> string list list \<Rightarrow> (index \<times> nat \<times> nat, vault) operation" where
  "index_manifests kp idx paths =
     fold_op (\<lambda>st path. next_op (read_cold kp path) (\<lambda>text. fold_op (index_line kp) st (str_lines text))) (idx, 0, 0) paths"

definition reregister :: "('a keeper_scheme) \<Rightarrow> index \<Rightarrow> string \<Rightarrow> (index, vault) operation" where
  "reregister kp idx rid =
     next_op (read_spool kp rid) (\<lambda>text.
       (case doc_parse (kp_reader kp) text of
          Err _ \<Rightarrow> give idx
        | Ok d \<Rightarrow> next_op (lift_result (stamp_of (doc_record d))) (\<lambda>st.
            give (enqueue_quarantine (pl_clock kp) (doc_id (doc_record d)) (stamp_date st)
              (pl_root kp @ ''/.quarantine/'' @ record_file rid) idx))))"

definition reregister_quarantine :: "('a keeper_scheme) \<Rightarrow> index \<Rightarrow> string list \<Rightarrow> (index, vault) operation" where
  "reregister_quarantine kp idx ids = fold_op (reregister kp) idx ids"

section \<open>The rebuild\<close>

definition drop_timelines :: "('a keeper_scheme) \<Rightarrow> (nat, vault) operation" where
  "drop_timelines kp =
     next_op (can kp ReadFile [ENTITIES_DIR]) (\<lambda>_ v.
       (let dropped = length (walk_files ''md'' (va_entities v))
        in next_op (can kp Remove [ENTITIES_DIR]) (\<lambda>_.
           next_op (\<lambda>v. (Ok (), v\<lparr>va_entities := []\<rparr>)) (\<lambda>_.
           next_op (can kp MakeDir [ENTITIES_DIR]) (\<lambda>_. give dropped)))) v)"

definition commit_index :: "('a keeper_scheme) \<Rightarrow> string list \<Rightarrow> index \<Rightarrow> (unit, vault) operation" where
  "commit_index kp what idx =
     next_op (rows_written kp what) (\<lambda>_ v. (Ok (), v\<lparr>va_store := (va_store v)\<lparr>st_index := idx\<rparr>\<rparr>))"

definition build_index :: "('a cold_keeper_scheme) \<Rightarrow> sources \<Rightarrow> index \<Rightarrow> (index \<times> nat \<times> nat \<times> nat, vault) operation" where
  "build_index kp so idx =
     next_op (index_tree kp idx (so_tree so)) (\<lambda>(idx1, from_tree, tree_skipped).
     next_op (index_manifests kp idx1 (so_manifests so)) (\<lambda>(idx2, from_manifests, manifest_skipped).
     next_op (reregister_quarantine kp idx2 (so_quarantine so)) (\<lambda>idx3.
       give (idx3, from_tree, from_manifests, tree_skipped + manifest_skipped))))"

definition reindex_all :: "('a cold_keeper_scheme) \<Rightarrow> (reindex_report, vault) operation" where
  "reindex_all kp =
     next_op (replay_tombstones kp) (\<lambda>replayed.
     next_op (list_sources kp) (\<lambda>so v.
     next_op (drop_timelines kp) (\<lambda>dropped.
     next_op (build_index kp so (truncate_derived (st_index (va_store v)))) (\<lambda>(idx, from_tree, from_manifests, skipped).
     next_op (commit_index kp [''rebuild''] idx) (\<lambda>_.
       give \<lparr>rx_from_tree = from_tree, rx_from_manifests = from_manifests, rx_skipped = skipped,
         rx_tombstones_replayed = replayed, rx_timelines_dropped = dropped\<rparr>))) v))"

section \<open>Reading the archive for a few records\<close>

text \<open>\<open>scan_lines\<close> says whether everything wanted is in hand, which ends the scan.\<close>

fun scan_lines ::
  "('a cold_keeper_scheme) \<Rightarrow> string list \<Rightarrow> (string, action_record) btree \<Rightarrow> string list \<Rightarrow>
     bool \<times> (string, action_record) btree" where
  "scan_lines kp wanted found [] = (False, found)"
| "scan_lines kp wanted found (line # rest) =
     (if blank line then scan_lines kp wanted found rest
      else (case manifest_record kp line of
              Err _ \<Rightarrow> scan_lines kp wanted found rest
            | Ok rec \<Rightarrow>
                if doc_id rec \<in> set wanted then
                  let found' = bt_insert (doc_id rec) rec found
                  in if length found' = card (set wanted) then (True, found') else scan_lines kp wanted found' rest
                else scan_lines kp wanted found rest))"

fun scan_manifests ::
  "('a cold_keeper_scheme) \<Rightarrow> string list \<Rightarrow> (string, action_record) btree \<Rightarrow> string list list \<Rightarrow>
     ((string, action_record) btree, vault) operation" where
  "scan_manifests kp wanted found [] = give found"
| "scan_manifests kp wanted found (path # rest) =
     next_op (read_cold kp path) (\<lambda>text.
       (case scan_lines kp wanted found (str_lines text) of
          (True, found') \<Rightarrow> give found'
        | (False, found') \<Rightarrow> scan_manifests kp wanted found' rest))"

definition cold_records ::
  "('a cold_keeper_scheme) \<Rightarrow> string list \<Rightarrow> ((string, action_record) btree, vault) operation" where
  "cold_records kp wanted = next_op (walk_manifests kp) (\<lambda>paths. scan_manifests kp wanted [] paths)"

section \<open>No key in the index\<close>

lemma fold_op_acc:
  assumes "fold_op f a xs v = (Ok b, v')" "P a v"
    and "\<And>a x v b v'. x \<in> set xs \<Longrightarrow> P a v \<Longrightarrow> f a x v = (Ok b, v') \<Longrightarrow> P b v'"
  shows "P b v'"
  using assms
proof (induction xs arbitrary: a v)
  case (Cons x xs)
  from Cons.prems(1) obtain c t where t: "f a x v = (Ok c, t)" "fold_op f c xs t = (Ok b, v')"
    by (auto simp: next_op_Ok)
  have "P c t" using Cons.prems(2,3) t(1) by (metis list.set_intros(1))
  with Cons.IH [OF t(2)] Cons.prems(3) show ?case by (metis list.set_intros(2))
qed simp

definition shareless :: "string \<Rightarrow> ((nat \<times> string) \<times> subject_row) list \<Rightarrow> bool" where
  "shareless h rows \<longleftrightarrow> (\<forall>((_, k), row) \<in> set rows. k = h \<longrightarrow> sub_wrapped row = None)"

definition no_share :: "subject_hash \<Rightarrow> index \<Rightarrow> bool" where
  "no_share s idx \<longleftrightarrow> shareless (subject_hash_str s) (record_subjects idx)"

lemma update_members: "x \<in> set (AList.update k v al) \<Longrightarrow> x = (k, v) \<or> x \<in> set al"
  by (induction al) (auto split: if_splits)

lemma shareless_update:
  assumes "shareless h rows" "snd k = h \<Longrightarrow> sub_wrapped row = None"
  shows "shareless h (AList.update k row rows)"
  using assms update_members [of _ k row rows] unfolding shareless_def by fastforce

lemma insert_subject_shareless:
  assumes "shareless h rows" "h \<notin> fst ` set keys" "insert_subject pk s (rows, keys) = (rows', keys')"
  shows "shareless h rows' \<and> h \<notin> fst ` set keys'"
proof -
  let ?h = "subject_hash_str (subj_hash s)"
  obtain row where rows': "rows' = AList.update (pk, ?h) (merge_subject row (map_of rows (pk, ?h))) rows"
    "sub_wrapped row = map_option snd (bt_get keys ?h)" "keys' = filter (\<lambda>(h, _). h \<noteq> ?h) keys"
    using assms(3) by (auto simp: insert_subject_def Let_def)
  have "sub_wrapped (merge_subject row (map_of rows (pk, ?h))) = None" if "?h = h"
  proof -
    have "bt_get keys h = None" using assms(2) by (simp add: map_of_eq_None_iff)
    with rows'(2) that have "sub_wrapped row = None" by simp
    moreover have "sub_wrapped old = None" if "map_of rows (pk, ?h) = Some old" for old
      using map_of_SomeD [OF that] assms(1) \<open>?h = h\<close> by (auto simp: shareless_def)
    ultimately show ?thesis by (auto simp: merge_subject_def split: option.splits)
  qed
  then have "shareless h rows'" unfolding rows'(1) by (intro shareless_update [OF assms(1)]) simp
  with assms(2) rows'(3) show ?thesis by auto
qed

lemma insert_subjects_shareless:
  "shareless h rows \<Longrightarrow> h \<notin> fst ` set keys \<Longrightarrow> fold (insert_subject pk) ss (rows, keys) = (rows', left)
     \<Longrightarrow> shareless h rows'"
proof (induction ss arbitrary: rows keys)
  case (Cons s ss)
  obtain r k where rk: "insert_subject pk s (rows, keys) = (r, k)" by fastforce
  from insert_subject_shareless [OF Cons.prems(1,2) rk] Cons.IH [of r k] Cons.prems(3) rk show ?case by simp
qed simp

lemma collect_keys:
  "try_fold (collect_key rid) m ks = Ok m' \<Longrightarrow> fst ` set m' = fst ` set m \<union> (\<lambda>k. subject_hash_str (fst k)) ` set ks"
proof (induction ks arbitrary: m)
  case (Cons k ks)
  obtain h ep w where k: "k = (h, ep, w)" by (cases k)
  have "collect_key rid m k = Ok (bt_insert (subject_hash_str h) (ep, w) m)"
    using Cons.prems by (cases "bt_get m (subject_hash_str h)") (simp_all add: collect_key_def k)
  with Cons.prems have "try_fold (collect_key rid) (bt_insert (subject_hash_str h) (ep, w) m) ks = Ok m'" by simp
  from Cons.IH [OF this] k show ?case by auto
qed simp

lemma publish_no_share:
  assumes "publish epoch_ms idx input = Ok idx'" "no_share s idx" "s \<notin> fst ` set (pi_subject_keys input)"
  shows "no_share s idx'"
proof -
  obtain idx1 row rows where
    p: "insert_record epoch_ms idx (pi_record input) (pi_searchable_body input) = Ok idx1"
    "map_of (record_rows idx1) (doc_id (pi_record input)) = Some row"
    "insert_subjects (rec_pk row) input (insert_entities (rec_pk row) (rec_received_ms row) (pi_record input)
       (insert_attrs (rec_pk row) (pi_record input) idx1))
     = Ok ((insert_entities (rec_pk row) (rec_received_ms row) (pi_record input)
       (insert_attrs (rec_pk row) (pi_record input) idx1))\<lparr>record_subjects := rows\<rparr>)"
    "idx' = enqueue_fanout (pi_record input) (rec_received_ms row)
       ((insert_entities (rec_pk row) (rec_received_ms row) (pi_record input)
         (insert_attrs (rec_pk row) (pi_record input) idx1))\<lparr>record_subjects := rows\<rparr>)"
    by (rule publish_parts [OF assms(1)]) (rule that)
  define mid where "mid = insert_entities (rec_pk row) (rec_received_ms row) (pi_record input)
    (insert_attrs (rec_pk row) (pi_record input) idx1)"
  have same: "record_subjects mid = record_subjects idx"
    using p(1) by (auto simp: mid_def insert_record_def Let_def split: option.splits if_splits)
  have rows: "record_subjects idx' = rows" using p(4) by (simp add: enqueue_fanout_def Let_def)
  obtain keys where k: "try_fold (collect_key (doc_id (pi_record input))) [] (pi_subject_keys input) = Ok keys"
    using p(3) by (auto simp: insert_subjects_def Let_def)
  obtain rows' left where f: "fold (insert_subject (rec_pk row)) (subjects (pi_record input)) (record_subjects idx, keys) = (rows', left)"
    by fastforce
  with p(3) k same have "mid\<lparr>record_subjects := rows'\<rparr> = mid\<lparr>record_subjects := rows\<rparr>"
    unfolding mid_def [symmetric] by (cases left) (simp_all add: insert_subjects_def Let_def split: prod.splits)
  from arg_cong [OF this, of record_subjects] have k2: "rows' = rows" by simp
  have "subject_hash_str s \<notin> fst ` set keys" using collect_keys [OF k] assms(3) by (auto simp: image_iff)
  from insert_subjects_shareless [OF _ this f] assms(2) rows k2 show ?thesis by (simp add: no_share_def)
qed

lemma subject_keys_named: "k \<in> set (subject_keys d) \<Longrightarrow> names d (fst k) \<and> \<not> is_plain (doc_body d)"
  by (cases "doc_body d") (auto simp: subject_keys_def names_def list_ex_iff)

lemma publish_document_no_share:
  assumes "publish_document epoch_ms idx d = Ok idx'" "no_share s idx" "names d s \<Longrightarrow> is_plain (doc_body d)"
  shows "no_share s idx'"
  using publish_no_share [OF publish_document_Ok [OF assms(1)] assms(2)] assms(3) subject_keys_named [of _ d]
  by fastforce

lemma no_share_truncated [simp]: "no_share s (truncate_derived idx)"
  by (simp add: no_share_def shareless_def truncate_derived_def empty_index_def)

section \<open>What a rebuild reads and writes\<close>

lemma reads_only_list_sources [intro, simp]: "reads_only (list_sources kp)"
  unfolding list_sources_def walk_manifests_def
  by (intro reads_only_next reads_only_can reads_only_give reads_only_walk_records reads_only_walk_spool)
    (simp add: reads_only_def)

lemma list_sources_Ok:
  "list_sources kp v = (Ok so, v') \<Longrightarrow> v' = v \<and> so = \<lparr>so_tree = sort_key (arrival_key kp) (record_paths v),
     so_manifests = walk_files ''jsonl'' (va_cold v), so_quarantine = spool_ids v\<rparr>"
  by (auto simp: list_sources_def walk_manifests_def next_op_Ok walk_records_Ok walk_spool_Ok)

lemma reads_only_read_cold [intro, simp]: "reads_only (read_cold kp path)"
  unfolding read_cold_def by (intro reads_only_next reads_only_can) (simp add: reads_only_def split: option.split)

lemma reads_only_build [intro, simp]: "reads_only (build_index kp so idx)"
proof -
  have "reads_only (index_file kp st path)" for st path
    unfolding index_file_def by (auto intro!: reads_only_next split: prod.split result.split)
  moreover have "reads_only (index_line kp st line)" for st line
    unfolding index_line_def by (auto intro!: reads_only_next split: prod.split result.split)
  moreover have "reads_only (reregister kp st rid)" for st rid
    unfolding reregister_def by (auto intro!: reads_only_next split: result.split)
  ultimately show ?thesis unfolding build_index_def index_tree_def index_manifests_def reregister_quarantine_def
    by (auto intro!: reads_only_next reads_only_fold split: prod.split)
qed

lemma drop_timelines_frame:
  assumes "drop_timelines kp v = (r, v')" shows "v' = v \<or> v' = v\<lparr>va_entities := []\<rparr>"
    and "r = Ok n \<Longrightarrow> v' = v\<lparr>va_entities := []\<rparr>"
  using assms by (auto simp: drop_timelines_def next_op_def can_def lift_result_def give_def Let_def
      split: result.splits option.splits prod.splits)

text \<open>A rebuild that answers is the replay, and then the index built from what the replay left.\<close>

lemma reindex_all_Ok:
  assumes "reindex_all kp v = (Ok rep, v')"
  obtains v1 so idx from_tree from_manifests skipped where
    "replay_tombstones kp v = (Ok (rx_tombstones_replayed rep), v1)" "list_sources kp v1 = (Ok so, v1)"
    "drop_timelines kp v1 = (Ok (rx_timelines_dropped rep), v1\<lparr>va_entities := []\<rparr>)"
    "build_index kp so (truncate_derived (st_index (va_store v1))) (v1\<lparr>va_entities := []\<rparr>)
       = (Ok (idx, from_tree, from_manifests, skipped), v1\<lparr>va_entities := []\<rparr>)"
    "v' = v1\<lparr>va_entities := [], va_store := (va_store v1)\<lparr>st_index := idx\<rparr>\<rparr>"
    "rep = \<lparr>rx_from_tree = from_tree, rx_from_manifests = from_manifests, rx_skipped = skipped,
       rx_tombstones_replayed = rx_tombstones_replayed rep, rx_timelines_dropped = rx_timelines_dropped rep\<rparr>"
proof -
  from assms obtain replayed v1 so t2 dropped v3 idx ft fm sk v4 where
    r: "replay_tombstones kp v = (Ok replayed, v1)" and so: "list_sources kp v1 = (Ok so, t2)"
    and d: "drop_timelines kp t2 = (Ok dropped, v3)"
    and b: "build_index kp so (truncate_derived (st_index (va_store t2))) v3 = (Ok (idx, ft, fm, sk), v4)"
    and c: "v' = v4\<lparr>va_store := (va_store v4)\<lparr>st_index := idx\<rparr>\<rparr>"
      "rep = \<lparr>rx_from_tree = ft, rx_from_manifests = fm, rx_skipped = sk, rx_tombstones_replayed = replayed,
         rx_timelines_dropped = dropped\<rparr>"
    by (auto simp: reindex_all_def next_op_Ok commit_index_def)
  have t2: "t2 = v1" using list_sources_Ok [OF so] by simp
  have v3: "v3 = v1\<lparr>va_entities := []\<rparr>" using drop_timelines_frame(2) [OF d] t2 by simp
  have v4: "v4 = v3" using reads_onlyD [OF reads_only_build b] .
  show ?thesis
    by (rule that [of v1 so idx ft fm sk]) (use r so d b c t2 v3 v4 in simp_all)
qed

lemma build_no_share:
  assumes "build_index kp so idx v = (Ok (idx', n), v')" "no_share s idx" "sealed_off kp s v"
    and "set (so_tree so) \<subseteq> set (record_paths v)"
  shows "no_share s idx'"
proof -
  from assms(1) obtain idx1 a1 b1 v1 idx2 a2 b2 v2 v3 where
    i: "fold_op (index_file kp) (idx, 0, 0) (so_tree so) v = (Ok (idx1, a1, b1), v1)"
    "fold_op (\<lambda>st path. next_op (read_cold kp path) (\<lambda>text. fold_op (index_line kp) st (str_lines text))) (idx1, 0, 0)
       (so_manifests so) v1 = (Ok (idx2, a2, b2), v2)"
    "fold_op (reregister kp) idx2 (so_quarantine so) v2 = (Ok idx', v3)"
    by (auto simp: build_index_def index_tree_def index_manifests_def reregister_quarantine_def next_op_Ok)
  have one_file: "no_share s (fst b) \<and> t' = t" if "path \<in> set (so_tree so)" "no_share s (fst a) \<and> t = v"
    "index_file kp a path t = (Ok b, t')" for a path t b t'
  proof -
    obtain j p q where a: "a = (j, p, q)" by (cases a)
    from that(3) a obtain content m where c: "map_of (st_records (va_store t)) path = Some (content, m)"
      "(case doc_parse (kp_reader kp) content of Err _ \<Rightarrow> give (j, p, Suc q)
        | Ok d \<Rightarrow> next_op (lift_result (publish_document (pl_epoch_ms kp) j d)) (\<lambda>idx'. give (idx', Suc p, q))) t = (Ok b, t')"
      by (auto simp: index_file_def next_op_Ok read_record_Ok)
    show ?thesis
    proof (cases "doc_parse (kp_reader kp) content")
      case (Err e)
      with c that(2) a show ?thesis by auto
    next
      case (Ok d)
      with c obtain j' where pub: "publish_document (pl_epoch_ms kp) j d = Ok j'" "b = (j', Suc p, q)" "t' = t"
        by (auto simp: next_op_Ok)
      have "names d s \<Longrightarrow> is_plain (doc_body d)"
        using assms(3,4) that(1,2) c(1) Ok unfolding sealed_off_def by blast
      with publish_document_no_share [OF pub(1), of s] that(2) a pub show ?thesis by simp
    qed
  qed
  have "no_share s (fst (idx1, a1, b1)) \<and> v1 = v"
  proof (rule fold_op_acc [OF i(1), where P = "\<lambda>st t. no_share s (fst st) \<and> t = v"])
    show "no_share s (fst (idx, 0, 0)) \<and> v = v" using assms(2) by simp
    fix a path t b t'
    assume "path \<in> set (so_tree so)" "no_share s (fst a) \<and> t = v" "index_file kp a path t = (Ok b, t')"
    from one_file [OF this] this(2) show "no_share s (fst b) \<and> t' = v" by simp
  qed
  then have s1: "no_share s idx1" by simp
  have line: "no_share s (fst b)" if "no_share s (fst a)" "index_line kp a line t = (Ok b, t')" for a line t b t'
  proof -
    obtain j p q where a: "a = (j, p, q)" by (cases a)
    show ?thesis
    proof (cases "blank line \<or> (\<exists>e. manifest_record kp line = Err e)")
      case True
      with that a show ?thesis by (auto simp: index_line_def split: if_splits)
    next
      case False
      then obtain r where r: "manifest_record kp line = Ok r" by (cases "manifest_record kp line") auto
      with False that(2) a obtain j' where "publish (pl_epoch_ms kp) j
          \<lparr>pi_record = r, pi_searchable_body = [], pi_subject_keys = []\<rparr> = Ok j'" "b = (j', Suc p, q)"
        by (auto simp: index_line_def next_op_Ok)
      with publish_no_share [of "pl_epoch_ms kp" j _ j' s] that(1) a show ?thesis by simp
    qed
  qed
  have "no_share s (fst (idx2, a2, b2))"
  proof (rule fold_op_acc [OF i(2), where P = "\<lambda>st t. no_share s (fst st)"])
    show "no_share s (fst (idx1, 0, 0))" using s1 by simp
    fix a path t b t'
    assume "no_share s (fst a)" and f: "next_op (read_cold kp path) (\<lambda>text. fold_op (index_line kp) a (str_lines text)) t = (Ok b, t')"
    then obtain content u where "fold_op (index_line kp) a (str_lines content) u = (Ok b, t')" by (auto simp: next_op_Ok)
    then show "no_share s (fst b)"
      by (rule fold_op_acc [where P = "\<lambda>st t. no_share s (fst st)"]) (use \<open>no_share s (fst a)\<close> line in blast)+
  qed
  then have s2: "no_share s idx2" by simp
  have held: "record_subjects b = record_subjects a" if "reregister kp a rid t = (Ok b, t')" for a rid t b t'
  proof -
    from that obtain content u where c: "(case doc_parse (kp_reader kp) content of Err _ \<Rightarrow> give a
        | Ok d \<Rightarrow> next_op (lift_result (stamp_of (doc_record d))) (\<lambda>st.
            give (enqueue_quarantine (pl_clock kp) (doc_id (doc_record d)) (stamp_date st)
              (pl_root kp @ ''/.quarantine/'' @ record_file rid) a))) u = (Ok b, t')"
      unfolding reregister_def next_op_Ok by blast
    then show ?thesis
      by (cases "doc_parse (kp_reader kp) content") (auto simp: next_op_Ok enqueue_quarantine_def)
  qed
  show ?thesis
  proof (rule fold_op_acc [OF i(3), where P = "\<lambda>st t. no_share s st"])
    show "no_share s idx2" by (rule s2)
    fix a rid t b t' assume "no_share s a" "reregister kp a rid t = (Ok b, t')"
    with held show "no_share s b" by (simp add: no_share_def)
  qed
qed

text \<open>The frames of the two halves.\<close>

lemma reindex_all_index:
  assumes "reindex_all kp v = (r, v')"
  shows "is_ok r \<or> st_index (va_store v') = st_index (va_store v)"
  using assms unfolding reindex_all_def
proof (cases rule: next_op_cases)
  case (stopped e)
  then have "erasing kp v v'" using erasesD [OF erases_replay] by blast
  then show ?thesis by (simp add: erasing_def)
next
  case (went_on replayed v1)
  have "erasing kp v v1" using erasesD [OF erases_replay went_on(1)] .
  then have i: "st_index (va_store v1) = st_index (va_store v)" by (simp add: erasing_def)
  from went_on(2) reads_only_list_sources show ?thesis
  proof (cases rule: next_op_read)
    case (went_on so)
    from went_on(2) show ?thesis
    proof (cases rule: next_op_cases)
      case (stopped e)
      with i show ?thesis using drop_timelines_frame(1) [of kp v1] by fastforce
    next
      case (went_on dropped v2)
      then have v2: "st_index (va_store v2) = st_index (va_store v1)" using drop_timelines_frame(1) [of kp v1] by fastforce
      from went_on(2) reads_only_build show ?thesis
      proof (cases rule: next_op_read)
        case stopped
        with i v2 show ?thesis by simp
      next
        case (went_on built)
        then show ?thesis using i v2
          by (auto simp: next_op_def commit_index_def rows_written_def give_def split: prod.splits result.splits if_splits)
      qed
    qed
  qed (use i in simp_all)
qed

lemma reindex_all_commits:
  "reindex_all kp v = (Ok rep, v') \<Longrightarrow> kp_refuses kp WriteFile [INDEX_FILE, ''rebuild''] = None"
  by (auto simp: reindex_all_def next_op_Ok commit_index_def)

text \<open>An operation that neither reads nor writes the index and the timelines.\<close>

definition reseat :: "index \<Rightarrow> (string list \<times> string) list \<Rightarrow> vault \<Rightarrow> vault" where
  "reseat idx ents v = v\<lparr>va_store := (va_store v)\<lparr>st_index := idx\<rparr>, va_entities := ents\<rparr>"

definition blind :: "('b, vault) operation \<Rightarrow> bool" where
  "blind m \<longleftrightarrow> (\<forall>idx ents v. m (reseat idx ents v) = (case m v of (r, w) \<Rightarrow> (r, reseat idx ents w)))"

named_theorems blind_intros \<open>introduction rules for blind\<close>

lemma reseat_simps [simp]:
  "st_records (va_store (reseat idx ents v)) = st_records (va_store v)"
  "st_spool (va_store (reseat idx ents v)) = st_spool (va_store v)"
  "st_key_files (va_store (reseat idx ents v)) = st_key_files (va_store v)"
  "va_cold (reseat idx ents v) = va_cold v" "va_tombstones (reseat idx ents v) = va_tombstones v"
  "record_paths (reseat idx ents v) = record_paths v" "spool_ids (reseat idx ents v) = spool_ids v"
  "st_index (va_store (reseat idx ents v)) = idx" "va_entities (reseat idx ents v) = ents"
  by (simp_all add: reseat_def record_paths_def spool_ids_def)

lemma reseat_twice [simp]: "reseat idx ents (reseat idx' ents' v) = reseat idx ents v"
  by (simp add: reseat_def)

lemma blind_give [blind_intros]: "blind (give a)" "blind (lift_result r)" "blind (can kp act path)"
  by (simp_all add: blind_def give_def lift_result_def can_def)

lemma blind_next [blind_intros]:
  assumes "blind m" "\<And>a. blind (f a)" shows "blind (next_op m f)"
  using assms by (auto simp: blind_def next_op_def split: prod.split result.split)

lemma blind_fold [blind_intros]: "(\<And>a x. blind (f a x)) \<Longrightarrow> blind (fold_op f a xs)"
  by (induction xs arbitrary: a) (auto intro: blind_intros)

lemma blind_reading [blind_intros]:
  assumes "\<And>idx ents v. g (reseat idx ents v) = g v" shows "blind (\<lambda>v. (g v, v))"
  using assms by (simp add: blind_def)

lemma blind_read_log [blind_intros]: "blind (read_log kp)"
  by (simp add: read_log_def blind_def next_op_def can_def lift_result_def tomb_entries_def split: option.split)

lemma blind_reads [blind_intros]:
  "blind (walk_records kp)" "blind (walk_spool kp)" "blind (read_record kp path)"
  "blind (read_spool kp rid)" "blind (read_cold kp path)" "blind (walk_manifests kp)"
  by (simp_all add: walk_records_def walk_spool_def read_record_def read_spool_def read_cold_def
      walk_manifests_def blind_def next_op_def can_def lift_result_def split: option.split)

lemma blind_keys [blind_intros]: "blind (on_keys f)"
  by (simp add: blind_def on_keys_def reseat_def split: prod.split)

lemma blind_replace [blind_intros]: "blind (replace_record kp path text)"
  unfolding replace_record_def
  by (intro blind_intros) (simp add: blind_def reseat_def Let_def)

lemma blind_remove_spool [blind_intros]: "blind (remove_spool kp rid)"
  unfolding remove_spool_def by (intro blind_intros) (simp add: blind_def reseat_def)

lemma blind_stage: "blind (on_store (stage pl d))"
  by (auto simp: blind_def on_store_def stage_def reseat_def split: result.split)

lemma blind_place: "blind (on_store (place pl d st))"
proof -
  have dirs: "create_record_dirs pl rec dir (w\<lparr>st_index := idx\<rparr>)
      = (case create_record_dirs pl rec dir w of (r, u) \<Rightarrow> (r, u\<lparr>st_index := idx\<rparr>))" for rec dir w idx
    by (simp add: create_record_dirs_def split: result.split option.split)
  have "place pl d st (w\<lparr>st_index := idx\<rparr>) = (case place pl d st w of (r, u) \<Rightarrow> (r, u\<lparr>st_index := idx\<rparr>))" for w idx
    by (auto simp: place_def dirs split: result.split prod.split option.split)
  then show ?thesis by (simp add: blind_def on_store_def reseat_def split: prod.split)
qed

lemma blind_publish_structure [blind_intros]: "blind (publish_structure_only kp d)"
proof -
  have "blind (\<lambda>v. if in_tree (va_store v) path then (Ok (), v)
       else next_op (on_store (stage pl (erased_copy d))) (\<lambda>_. on_store (place pl (erased_copy d) st)) v)" for pl path st
  proof -
    have "blind (next_op (on_store (stage pl (erased_copy d))) (\<lambda>_. on_store (place pl (erased_copy d) st)))"
      by (intro blind_next blind_stage blind_place)
    then show ?thesis by (simp add: blind_def)
  qed
  then show ?thesis unfolding publish_structure_only_def by (intro blind_intros)
qed

lemma blind_replay: "blind (replay_tombstones kp)"
proof -
  have "blind (drop_body kp s n path)" "blind (settle_held kp s n rid)" for s n path rid
    unfolding drop_body_def settle_held_def by (auto intro!: blind_intros split: result.split)
  then have "blind (erase_again kp s)" for s
    unfolding erase_again_def drop_bodies_def sweep_quarantine_def by (intro blind_intros)
  then have "blind (replay_entry kp p e)" for p e
    unfolding replay_entry_def by (auto intro!: blind_intros split: prod.split)
  then show ?thesis unfolding replay_tombstones_def by (auto intro!: blind_intros split: prod.split)
qed

lemma blind_build: "blind (build_index kp so idx)"
proof -
  have "blind (index_file kp st path)" for st path
    unfolding index_file_def by (auto intro!: blind_intros split: prod.split result.split)
  moreover have "blind (index_line kp st line)" for st line
    unfolding index_line_def by (auto intro!: blind_intros split: prod.split result.split)
  moreover have "blind (reregister kp st rid)" for st rid
    unfolding reregister_def by (auto intro!: blind_intros split: result.split)
  ultimately show ?thesis unfolding build_index_def index_tree_def index_manifests_def reregister_quarantine_def
    by (auto intro!: blind_intros split: prod.split)
qed

lemma blind_list_sources: "blind (list_sources kp)"
  unfolding list_sources_def by (intro blind_intros)

lemma blindD: "blind m \<Longrightarrow> m v = (r, w) \<Longrightarrow> m (reseat idx ents v) = (r, reseat idx ents w)"
  by (simp add: blind_def)

text \<open>The records of a manifest's readable lines, and a scan over them.\<close>

definition manifest_records :: "('a cold_keeper_scheme) \<Rightarrow> string list \<Rightarrow> action_record list" where
  "manifest_records kp ls = List.map_filter (\<lambda>line.
     if blank line then None
     else (case manifest_record kp line of Ok rec \<Rightarrow> Some rec | Err _ \<Rightarrow> None)) ls"

definition archived_in :: "('a cold_keeper_scheme) \<Rightarrow> vault \<Rightarrow> string list list \<Rightarrow> action_record list" where
  "archived_in kp v paths = concat (map (\<lambda>path. manifest_records kp (file_lines (map_of (va_cold v) path))) paths)"

fun scan_found ::
  "string list \<Rightarrow> (string, action_record) btree \<Rightarrow> action_record list \<Rightarrow> bool \<times> (string, action_record) btree" where
  "scan_found wanted found [] = (False, found)"
| "scan_found wanted found (rec # rest) =
     (if doc_id rec \<in> set wanted then
        let found' = bt_insert (doc_id rec) rec found
        in if length found' = card (set wanted) then (True, found') else scan_found wanted found' rest
      else scan_found wanted found rest)"

lemma scan_lines_found: "scan_lines kp wanted found ls = scan_found wanted found (manifest_records kp ls)"
  by (induction ls arbitrary: found) (auto simp: manifest_records_def map_filter_simps Let_def split: result.split)

lemma scan_found_append:
  "scan_found wanted found (xs @ ys) =
     (case scan_found wanted found xs of (True, f) \<Rightarrow> (True, f) | (False, f) \<Rightarrow> scan_found wanted f ys)"
  by (induction xs arbitrary: found) (simp_all add: Let_def)

text \<open>The last of the lines read is the one a wanted record is taken from.\<close>

definition last_of :: "action_record list \<Rightarrow> string \<Rightarrow> action_record option" where
  "last_of recs rid = find (\<lambda>rec. doc_id rec = rid) (rev recs)"

lemma last_of_snoc [simp]: "last_of (recs @ [rec]) rid = (if doc_id rec = rid then Some rec else last_of recs rid)"
  by (simp add: last_of_def)

lemma last_of_None: "last_of recs rid = None \<longleftrightarrow> rid \<notin> doc_id ` set recs"
  by (auto simp: last_of_def find_None_iff)

definition in_hand :: "string list \<Rightarrow> action_record list \<Rightarrow> (string, action_record) btree \<Rightarrow> bool" where
  "in_hand wanted recs found \<longleftrightarrow> bt_ordered found
     \<and> (\<forall>rid. map_of found rid = (if rid \<in> set wanted then last_of recs rid else None))"

lemma in_hand_keys: "in_hand wanted recs found \<Longrightarrow> fst ` set found = set wanted \<inter> doc_id ` set recs"
proof (rule set_eqI)
  fix rid assume "in_hand wanted recs found"
  then have "map_of found rid = (if rid \<in> set wanted then last_of recs rid else None)" by (simp add: in_hand_def)
  moreover have "rid \<in> fst ` set found \<longleftrightarrow> map_of found rid \<noteq> None" by (simp add: map_of_eq_None_iff)
  ultimately show "rid \<in> fst ` set found \<longleftrightarrow> rid \<in> set wanted \<inter> doc_id ` set recs"
    using last_of_None [of recs rid] by (cases "rid \<in> set wanted") simp_all
qed

lemma in_hand_all:
  assumes "in_hand wanted recs found"
  shows "length found = card (set wanted) \<longleftrightarrow> set wanted \<subseteq> doc_id ` set recs"
proof -
  have "distinct (map fst found)" using assms by (auto simp: in_hand_def intro: bt_ordered_distinct)
  then have "length found = card (fst ` set found)" by (metis distinct_card length_map list.set_map)
  moreover have "fst ` set found = set wanted \<inter> doc_id ` set recs" by (rule in_hand_keys [OF assms])
  ultimately show ?thesis by (metis Int_lower1 List.finite_set card_subset_eq inf.absorb_iff1)
qed

lemma in_hand_skipped:
  "in_hand wanted recs found \<Longrightarrow> doc_id rec \<notin> set wanted \<Longrightarrow> in_hand wanted (recs @ [rec]) found"
  by (auto simp: in_hand_def)

lemma in_hand_taken:
  "in_hand wanted recs found \<Longrightarrow> doc_id rec \<in> set wanted \<Longrightarrow> in_hand wanted (recs @ [rec]) (bt_insert (doc_id rec) rec found)"
  by (auto simp: in_hand_def)

text \<open>The scan stops at the first record that leaves nothing to look for, and not before.\<close>

lemma scan_found_stops:
  assumes "in_hand wanted seen found" "\<not> set wanted \<subseteq> doc_id ` set seen" "scan_found wanted found recs = (whole, found')"
  obtains pre rest where "recs = pre @ rest" "in_hand wanted (seen @ pre) found'"
    "if whole then set wanted \<subseteq> doc_id ` set (seen @ pre) else rest = []"
    "whole \<or> \<not> set wanted \<subseteq> doc_id ` set (seen @ pre)"
    "\<And>p r q. pre = p @ r # q \<Longrightarrow> \<not> set wanted \<subseteq> doc_id ` set (seen @ p)"
  using assms
proof (induction recs arbitrary: seen found thesis)
  case Nil
  then show ?case by simp
next
  case (Cons rec recs)
  define next_found where
    "next_found = (if doc_id rec \<in> set wanted then bt_insert (doc_id rec) rec found else found)"
  have h: "in_hand wanted (seen @ [rec]) next_found"
    using in_hand_skipped [OF Cons.prems(2)] in_hand_taken [OF Cons.prems(2)] by (simp add: next_found_def)
  show ?case
  proof (cases "set wanted \<subseteq> doc_id ` set (seen @ [rec])")
    case True
    with Cons.prems(3) have "doc_id rec \<in> set wanted" by auto
    with True in_hand_all [OF h] Cons.prems(4) have "whole" "found' = next_found"
      by (simp_all add: next_found_def Let_def)
    with True h Cons.prems(3) show ?thesis by (intro Cons.prems(1) [of "[rec]" recs]) (auto simp: Cons_eq_append_conv)
  next
    case False
    with in_hand_all [OF h] Cons.prems(4) have "scan_found wanted next_found recs = (whole, found')"
      by (simp add: next_found_def Let_def split: if_splits)
    from Cons.IH [OF _ h False this] obtain pre rest where t: "recs = pre @ rest"
      "in_hand wanted ((seen @ [rec]) @ pre) found'"
      "if whole then set wanted \<subseteq> doc_id ` set ((seen @ [rec]) @ pre) else rest = []"
      "whole \<or> \<not> set wanted \<subseteq> doc_id ` set ((seen @ [rec]) @ pre)"
      "\<And>p r q. pre = p @ r # q \<Longrightarrow> \<not> set wanted \<subseteq> doc_id ` set ((seen @ [rec]) @ p)" by metis
    show ?thesis
    proof (rule Cons.prems(1) [of "rec # pre" rest])
      show "\<not> set wanted \<subseteq> doc_id ` set (seen @ p)" if "rec # pre = p @ r # q" for p r q
        using that Cons.prems(3) t(5) by (cases p) fastforce+
    qed (use t(1-4) in \<open>simp_all only: append.assoc append.simps\<close>)
  qed
qed

text \<open>A manifest that can be read is read; what comes of the ones behind it depends on whether it was enough.\<close>

lemma read_cold_readable:
  "kp_refuses kp ReadFile path = None \<Longrightarrow> map_of (va_cold v) path = Some content \<Longrightarrow> read_cold kp path v = (Ok content, v)"
  by (simp add: read_cold_def next_op_def can_def lift_result_def)

lemma scan_manifests_found:
  assumes "\<forall>path \<in> set ps. kp_refuses kp ReadFile path = None \<and> map_of (va_cold v) path \<noteq> None"
  shows "scan_manifests kp wanted found (ps @ qs) v =
    (case scan_found wanted found (archived_in kp v ps) of
       (True, f) \<Rightarrow> (Ok f, v) | (False, f) \<Rightarrow> scan_manifests kp wanted f qs v)"
  using assms
proof (induction ps arbitrary: found)
  case Nil
  then show ?case by (simp add: archived_in_def)
next
  case (Cons path ps)
  then obtain content where c: "map_of (va_cold v) path = Some content" by auto
  with Cons.prems have r: "read_cold kp path v = (Ok content, v)" by (intro read_cold_readable) simp_all
  have split: "archived_in kp v (path # ps) = manifest_records kp (str_lines content) @ archived_in kp v ps"
    by (simp add: archived_in_def c file_lines_def)
  show ?case
  proof (cases "scan_found wanted found (manifest_records kp (str_lines content))")
    case (Pair whole f)
    then show ?thesis using Cons.IH [of f] Cons.prems
      by (cases whole) (simp_all add: split scan_found_append next_op_def r scan_lines_found give_def)
  qed
qed

lemma rebuild_erased:
  assumes "\<And>f. CHR 0x0A \<notin> set (pl_floats kp f)" "reindex_all kp v = (Ok rep, v')"
    and "replay_tombstones kp v = (Ok n, v1)" "erased kp s v1"
  shows "erased kp s v' \<and> no_share s (st_index (va_store v'))"
proof -
  from assms(2) obtain v2 so idx ft fm sk where r: "replay_tombstones kp v = (Ok (rx_tombstones_replayed rep), v2)"
    "list_sources kp v2 = (Ok so, v2)"
    "build_index kp so (truncate_derived (st_index (va_store v2))) (v2\<lparr>va_entities := []\<rparr>)
       = (Ok (idx, ft, fm, sk), v2\<lparr>va_entities := []\<rparr>)"
    "v' = v2\<lparr>va_entities := [], va_store := (va_store v2)\<lparr>st_index := idx\<rparr>\<rparr>"
    by (rule reindex_all_Ok)
  have v2: "v2 = v1" using r(1) assms(3) by simp
  have frame: "erased kp s w \<longleftrightarrow> erased kp s v1"
    if "st_records (va_store w) = st_records (va_store v1)" "st_spool (va_store w) = st_spool (va_store v1)"
      "st_key_files (va_store w) = st_key_files (va_store v1)" for w
    using that by (simp add: erased_def keyless_def sealed_off_def unspooled_def record_paths_def)
  have "sealed_off kp s (v2\<lparr>va_entities := []\<rparr>)"
    using assms(4) frame [of "v2\<lparr>va_entities := []\<rparr>"] by (simp add: erased_def v2)
  moreover have "set (so_tree so) \<subseteq> set (record_paths (v2\<lparr>va_entities := []\<rparr>))"
    using list_sources_Ok [OF r(2)] by (simp add: record_paths_def)
  ultimately have "no_share s idx" using build_no_share [OF r(3)] by simp
  with assms(4) frame [of v'] r(4) v2 show ?thesis by simp
qed

lemma rebuild_keeps_erased:
  assumes "\<And>f. CHR 0x0A \<notin> set (pl_floats kp f)" "reindex_all kp v = (Ok rep, v')" "erased kp s v"
  shows "erased kp s v' \<and> no_share s (st_index (va_store v'))"
proof -
  from assms(2) obtain v1 where r: "replay_tombstones kp v = (Ok (rx_tombstones_replayed rep), v1)"
    by (rule reindex_all_Ok)
  have "erased kp s v1" by (rule erased_kept [OF assms(1) erasesD [OF erases_replay r] assms(3)])
  with rebuild_erased [OF assms(1,2) r] show ?thesis .
qed

lemma rebuild_replays:
  assumes "\<And>f. CHR 0x0A \<notin> set (pl_floats kp f)" "reindex_all kp v = (Ok rep, v')"
    and "one_subject (tomb_entries kp v)" "e \<in> set (tomb_entries kp v)"
  shows "\<exists>s. subject_hash_try_from (tl_subject e) = Ok s \<and> erased kp s v' \<and> no_share s (st_index (va_store v'))"
proof -
  from assms(2) obtain v1 where r: "replay_tombstones kp v = (Ok (rx_tombstones_replayed rep), v1)"
    by (rule reindex_all_Ok)
  from replay_erased [OF assms(1) r assms(3,4)] rebuild_erased [OF assms(1,2) r] show ?thesis by blast
qed

section \<open>Properties\<close>

text \<open>
  C2: A rebuild comes back with nothing an erasure took. When it answers, every subject the tombstone log
  names is erased in the tree, the quarantine and the key files, and the index it built holds no key share
  of that subject, whatever the tree and the index held before.
\<close>

theorem rebuild_replays_erasures:
  assumes "\<forall>f. CHR 0x0A \<notin> set (pl_floats kp f)" "reindex_all kp v = (Ok rep, v')"
    and "one_subject (tomb_entries kp v)" "e \<in> set (tomb_entries kp v)"
  shows "\<exists>s. subject_hash_try_from (tl_subject e) = Ok s \<and> erased kp s v' \<and> no_share s (st_index (va_store v'))"
  using rebuild_replays [OF _ assms(2-4)] assms(1) by blast

text \<open>
  C17: A rebuild that fails leaves the index it started from, whichever step failed, its commit included.
\<close>

theorem failed_rebuild_keeps_index:
  assumes "reindex_all kp v = (Err e, v')"
  shows "st_index (va_store v') = st_index (va_store v)"
  using reindex_all_index [OF assms] by simp

text \<open>
  C16: The index is derived. Whatever the index and the timelines held, a rebuild of the same tree, archive,
  quarantine and logs leaves the same vault, index included; only the count of timelines dropped differs.
\<close>

theorem index_is_derived:
  assumes "reindex_all kp v = (Ok rep, v')"
  shows "reindex_all kp (reseat idx ents v)
     = (Ok (rep\<lparr>rx_timelines_dropped := length (walk_files ''md'' ents)\<rparr>), v')"
proof -
  from assms obtain v1 so idx' ft fm sk where r: "replay_tombstones kp v = (Ok (rx_tombstones_replayed rep), v1)"
    "list_sources kp v1 = (Ok so, v1)"
    "drop_timelines kp v1 = (Ok (rx_timelines_dropped rep), v1\<lparr>va_entities := []\<rparr>)"
    "build_index kp so (truncate_derived (st_index (va_store v1))) (v1\<lparr>va_entities := []\<rparr>)
       = (Ok (idx', ft, fm, sk), v1\<lparr>va_entities := []\<rparr>)"
    "v' = v1\<lparr>va_entities := [], va_store := (va_store v1)\<lparr>st_index := idx'\<rparr>\<rparr>"
    "rep = \<lparr>rx_from_tree = ft, rx_from_manifests = fm, rx_skipped = sk,
       rx_tombstones_replayed = rx_tombstones_replayed rep, rx_timelines_dropped = rx_timelines_dropped rep\<rparr>"
    by (rule reindex_all_Ok)
  let ?w = "reseat idx ents v1"
  have truncate: "truncate_derived a = truncate_derived b" for a b by (simp add: truncate_derived_def)
  have 1: "replay_tombstones kp (reseat idx ents v) = (Ok (rx_tombstones_replayed rep), ?w)"
    by (rule blindD [OF blind_replay r(1)])
  have 2: "list_sources kp ?w = (Ok so, ?w)" by (rule blindD [OF blind_list_sources r(2)])
  have 3: "drop_timelines kp ?w = (Ok (length (walk_files ''md'' ents)), ?w\<lparr>va_entities := []\<rparr>)"
    using r(3) by (auto simp: drop_timelines_def next_op_Ok Let_def)
  have "?w\<lparr>va_entities := []\<rparr> = reseat idx [] (v1\<lparr>va_entities := []\<rparr>)" by (simp add: reseat_def)
  with blindD [OF blind_build r(4)] have 4: "build_index kp so (truncate_derived idx) (?w\<lparr>va_entities := []\<rparr>)
      = (Ok (idx', ft, fm, sk), ?w\<lparr>va_entities := []\<rparr>)"
    using truncate [of idx "st_index (va_store v1)"] by simp
  have 5: "commit_index kp [''rebuild''] idx' (?w\<lparr>va_entities := []\<rparr>) = (Ok (), v')"
    using reindex_all_commits [OF assms] by (simp add: commit_index_def rows_written_def lift_result_def next_op_def reseat_def r(5))
  have "reindex_all kp (reseat idx ents v) = (Ok \<lparr>rx_from_tree = ft, rx_from_manifests = fm, rx_skipped = sk,
       rx_tombstones_replayed = rx_tombstones_replayed rep, rx_timelines_dropped = length (walk_files ''md'' ents)\<rparr>, v')"
    unfolding reindex_all_def by (simp add: next_op_def 1 2 3 4 5 give_def)
  with r(6) show ?thesis by (metis reindex_report.update_convs(5))
qed

text \<open>
  C18: Reading the archive for some records, at least one, reads no further than it has to. When the archive
  lists, and the manifests up to some point can be read and hold a readable line for every wanted record, or
  are all there are, the read answers whatever becomes of the manifests behind that point: of the lines before
  it, it reads up to the first at which nothing wanted is missing, or all of them, and each wanted record is
  the last of the lines read that has its identifier, one that none has being absent.
\<close>

theorem archive_finds_what_is_there:
  assumes "wanted \<noteq> []" "kp_refuses kp ReadFile [COLD_DIR] = None" "walk_files ''jsonl'' (va_cold v) = ps @ qs"
    and "\<forall>path \<in> set ps. kp_refuses kp ReadFile path = None"
    and "qs = [] \<or> set wanted \<subseteq> doc_id ` set (archived_in kp v ps)"
  shows "\<exists>found pre rest. cold_records kp wanted v = (Ok found, v) \<and> archived_in kp v ps = pre @ rest
    \<and> (\<forall>rid. map_of found rid = (if rid \<in> set wanted then last_of pre rid else None))
    \<and> (rest = [] \<or> set wanted \<subseteq> doc_id ` set pre)
    \<and> (\<forall>p r q. pre = p @ r # q \<longrightarrow> \<not> set wanted \<subseteq> doc_id ` set p)"
proof -
  obtain whole found where f: "scan_found wanted [] (archived_in kp v ps) = (whole, found)" by fastforce
  have "in_hand wanted [] []" by (simp add: in_hand_def last_of_def)
  moreover have "\<not> set wanted \<subseteq> doc_id ` set ([] :: action_record list)" using assms(1) by simp
  ultimately obtain pre rest where t: "archived_in kp v ps = pre @ rest" "in_hand wanted pre found"
    "if whole then set wanted \<subseteq> doc_id ` set pre else rest = []" "whole \<or> \<not> set wanted \<subseteq> doc_id ` set pre"
    "\<And>p r q. pre = p @ r # q \<Longrightarrow> \<not> set wanted \<subseteq> doc_id ` set p"
    using scan_found_stops [OF _ _ f] by (metis append_Nil)
  have "set ps \<subseteq> set (walk_files ''jsonl'' (va_cold v))" by (simp add: assms(3))
  then have "\<forall>path \<in> set ps. kp_refuses kp ReadFile path = None \<and> map_of (va_cold v) path \<noteq> None"
    using assms(4) by (auto simp: set_walk_files map_of_eq_None_iff)
  from scan_manifests_found [OF this, of wanted "[]" qs] f
  have scan: "scan_manifests kp wanted [] (ps @ qs) v = (if whole then (Ok found, v) else scan_manifests kp wanted found qs v)"
    by simp
  have "whole \<or> qs = []" using assms(5) t(1,3,4) by (cases whole) auto
  with scan have "cold_records kp wanted v = (Ok found, v)"
    by (auto simp: cold_records_def walk_manifests_def next_op_def can_def lift_result_def assms(2,3) give_def)
  moreover have "rest = [] \<or> set wanted \<subseteq> doc_id ` set pre" using t(3) by (cases whole) simp_all
  ultimately show ?thesis using t(1,2,5) unfolding in_hand_def by blast
qed

section \<open>The properties at work\<close>

definition sample_tomb :: tomb_line where
  "sample_tomb = \<lparr>tl_id = ''tomb-'' @ record_id_str sample_id, tl_subject = subject_hash_str sample_hash, tl_at_ms = 5,
     tl_complete = False, tl_records = [\<lparr>er_record = record_id_str sample_id, er_roles = [Principal]\<rparr>]\<rparr>"

definition sample_tomb_json :: "tomb_line \<Rightarrow> string option" where
  "sample_tomb_json l =
     (if l = sample_tomb then Some ''{t}'' else if l = sample_tomb\<lparr>tl_complete := True\<rparr> then Some ''{c}'' else None)"

definition sample_read_tomb :: "string \<Rightarrow> tomb_line option" where
  "sample_read_tomb t =
     (if t = ''{t}'' then Some sample_tomb else if t = ''{c}'' then Some (sample_tomb\<lparr>tl_complete := True\<rparr>) else None)"

definition sample_eraser :: erase_keeper where
  "sample_eraser = hold_keeper.extend
     (keeper.extend (quiet_keeper\<lparr>kp_reader := sample_reader sample_sealed\<rparr>) (hold_keeper.fields sample_hold_json sample_read_hold))
     (erase_keeper.fields sample_tomb_json sample_read_tomb)"

definition sample_cold :: cold_keeper where
  "sample_cold = erase_keeper.extend sample_eraser
     (cold_keeper.fields (\<lambda>line. if line = ''{m}'' then Some (JObject []) else None))"

definition sealed_path :: "string list" where
  "sealed_path = [RECORDS_DIR, ''2026'', ''01'', ''01'', record_file (record_id_str sample_id)]"

definition sealed_vault :: vault where
  "sealed_vault = sample_vault\<lparr>va_store := fresh_store\<lparr>st_records := [(sealed_path,
       (doc_render sample_floats \<lparr>doc_record = sample_sealed, doc_body = Sealed sample_body\<rparr>, None))],
     st_key_files := one_key\<rparr>\<rparr>"

lemma sample_cold_simps [simp]:
  "kp_refuses sample_cold act path = None" "kp_now sample_cold = 5" "kp_reader sample_cold = sample_reader sample_sealed"
  "kp_tomb_json sample_cold = sample_tomb_json" "kp_read_tomb sample_cold = sample_read_tomb"
  "kp_read_hold sample_cold = sample_read_hold" "pl_keys sample_cold = sample_store"
  "pl_floats sample_cold = sample_floats" "pl_epoch_ms sample_cold = (\<lambda>_. Some 0)" "pl_root sample_cold = ''/m''"
  "kp_json sample_cold = (\<lambda>line. if line = ''{m}'' then Some (JObject []) else None)"
  by (simp_all add: sample_cold_def sample_eraser_def quiet_keeper_def sample_path_def sample_pipeline_def
      keeper.defs hold_keeper.defs erase_keeper.defs cold_keeper.defs write_path.defs pipeline.defs)

lemma sealed_parses:
  "doc_parse (sample_reader sample_sealed) (doc_render sample_floats \<lparr>doc_record = sample_sealed, doc_body = Sealed sample_body\<rparr>)
     = Ok sealed_document" (is ?sealed)
  "doc_parse (sample_reader sample_sealed) (doc_render sample_floats (erased_copy sealed_document)) = Ok (erased_copy sealed_document)" (is ?erased)
proof -
  have f: "fm_parse (md_load (sample_reader sample_sealed)) (md_typed (sample_reader sample_sealed)) yaml
      = Ok (sample_sealed\<lparr>summary := []\<rparr>)" for yaml
    by (rule sample_reader_reads) code_simp
  have "trim_separators (newline @ newline) = []" "\<not> is_sealed []" by code_simp+
  moreover have "CHR 0x0A \<notin> set (sample_floats f)" for f by (simp add: sample_floats_def)
  ultimately show ?erased unfolding erased_copy_def
    by (subst doc_parse_rendered [OF _ f refl]) (simp_all add: sealed_document_def)
  have "epoch_from_stored ''2026-Q1'' = Ok (Epoch ''2026-Q1'')" by code_simp
  moreover have "printable ''2026-Q1''" by (simp add: printable_def ascii_graphic_def byte_of_def)
  ultimately have "block_parse (md_hex_decode (sample_reader sample_sealed)) (block_render sample_body) = Ok sample_body"
    using block_parse_render [of "md_hex_decode (sample_reader sample_sealed)" sample_body] sample_hash_valid
    by (simp add: sealed_for_def sample_epoch_def sample_hex_decode_encode sample_reader_def)
  moreover have "List.last (block_render sample_body) \<noteq> CHR 0x0D" using block_render_ends(2) [of sample_body] by auto
  ultimately show ?sealed
    by (subst doc_parse_rendered [OF _ f refl])
      (simp_all add: sealed_document_def trim_separators_written is_sealed_block sample_floats_def)
qed

text \<open>A vault whose log names the subject of the sealed record it holds, and whose key it still holds.\<close>

definition owing_vault :: vault where
  "owing_vault = sealed_vault\<lparr>va_tombstones := Some (''{t}'' @ newline)\<rparr>"

lemma sealed_path_listed: "extension (List.last sealed_path) = Some RECORD_EXT" "sealed_path \<noteq> []"
  by code_simp+

lemma sample_sealed_paths:
  "record_paths (sealed_vault\<lparr>va_store := w\<rparr>) = [sealed_path]" if "st_records w = [(sealed_path, f)]"
  using that sealed_path_listed by (simp add: record_paths_def walk_files_def)

lemma owing_tombs: "tomb_entries sample_cold owing_vault = [sample_tomb]"
proof -
  have "file_lines (Some (''{t}'' @ newline)) = [''{t}'']" "\<not> blank ''{t}''" by code_simp+
  then show ?thesis by (simp add: tomb_entries_def owing_vault_def map_filter_simps sample_read_tomb_def)
qed

lemma sample_names: "names sealed_document sample_hash" "\<not> is_plain (doc_body sealed_document)"
  by (simp_all add: names_def sealed_document_def sample_sealed_def)

abbreviation sealed_file :: "(string list \<times> text_file) list" where
  "sealed_file \<equiv> [(sealed_path, (doc_render sample_floats \<lparr>doc_record = sample_sealed, doc_body = Sealed sample_body\<rparr>, None))]"

abbreviation emptied_file :: "(string list \<times> text_file) list" where
  "emptied_file \<equiv> [(sealed_path, (doc_render sample_floats (erased_copy sealed_document), None))]"

lemma sample_record_paths: "st_records (va_store v) = [(sealed_path, f)] \<Longrightarrow> record_paths v = [sealed_path]"
  using sealed_path_listed by (simp add: record_paths_def walk_files_def)

lemma sample_reads:
  "st_records (va_store v) = [(sealed_path, (content, m))] \<Longrightarrow> read_record sample_cold sealed_path v = (Ok content, v)"
  "st_records (va_store v) = [(sealed_path, f)] \<Longrightarrow> walk_records sample_cold v = (Ok [sealed_path], v)"
  by (simp_all add: read_record_def walk_records_def next_op_def can_def lift_result_def sample_record_paths)

lemma sample_drops:
  "st_records (va_store v) = sealed_file \<Longrightarrow> drop_bodies sample_cold sample_hash v
     = (Ok 1, v\<lparr>va_store := (va_store v)\<lparr>st_records := emptied_file\<rparr>\<rparr>)"
  "st_records (va_store v) = emptied_file \<Longrightarrow> drop_bodies sample_cold sample_hash v = (Ok 0, v)"
  using sample_names
  by (simp_all add: drop_bodies_def drop_body_def next_op_def sample_reads sealed_parses replace_record_def Let_def
      can_def lift_result_def give_def)
    (simp add: erased_copy_def)

lemma sample_sweeps: "st_spool (va_store v) = [] \<Longrightarrow> sweep_quarantine sample_cold sample_hash v = (Ok 0, v)"
  by (simp add: sweep_quarantine_def walk_spool_def spool_ids_def next_op_def can_def lift_result_def give_def)

lemma sample_keys:
  "\<exists>ks. on_keys (tombstone sample_store sample_hash) v = (Ok (), v\<lparr>va_store := (va_store v)\<lparr>st_key_files := ks\<rparr>\<rparr>)"
  "\<exists>ks. on_keys (destroy_subject sample_store sample_hash) v = (Ok (), v\<lparr>va_store := (va_store v)\<lparr>st_key_files := ks\<rparr>\<rparr>)"
  using sample_hash_valid
  by (auto simp: on_keys_def tombstone_def destroy_subject_def intro: exI [of _ "st_key_files (va_store v)"]
      split: result.split prod.split)

lemma sample_replays:
  assumes "tomb_entries sample_cold v = [sample_tomb]" "st_spool (va_store v) = []"
    "st_records (va_store v) = sealed_file \<or> st_records (va_store v) = emptied_file"
  shows "\<exists>ks. replay_tombstones sample_cold v
     = (Ok 1, v\<lparr>va_store := (va_store v)\<lparr>st_key_files := ks, st_records := emptied_file\<rparr>\<rparr>)"
proof -
  obtain k1 where 1: "on_keys (tombstone sample_store sample_hash) v = (Ok (), v\<lparr>va_store := (va_store v)\<lparr>st_key_files := k1\<rparr>\<rparr>)"
    using sample_keys(1) by blast
  obtain k2 where 2: "on_keys (destroy_subject sample_store sample_hash) (v\<lparr>va_store := (va_store v)\<lparr>st_key_files := k1\<rparr>\<rparr>)
      = (Ok (), v\<lparr>va_store := (va_store v)\<lparr>st_key_files := k2\<rparr>\<rparr>)"
    using sample_keys(2) [of "v\<lparr>va_store := (va_store v)\<lparr>st_key_files := k1\<rparr>\<rparr>"] by auto
  define w where "w = v\<lparr>va_store := (va_store v)\<lparr>st_key_files := k2\<rparr>\<rparr>"
  have 3: "\<exists>n. drop_bodies sample_cold sample_hash w = (Ok n, w\<lparr>va_store := (va_store w)\<lparr>st_records := emptied_file\<rparr>\<rparr>)"
  proof (cases "st_records (va_store v) = sealed_file")
    case True
    then have "st_records (va_store w) = sealed_file" by (simp add: w_def)
    from sample_drops(1) [OF this] show ?thesis by blast
  next
    case False
    with assms(3) have e: "st_records (va_store w) = emptied_file" by (simp add: w_def)
    have "w\<lparr>va_store := (va_store w)\<lparr>st_records := st_records (va_store w)\<rparr>\<rparr> = w" by simp
    then have "w\<lparr>va_store := (va_store w)\<lparr>st_records := emptied_file\<rparr>\<rparr> = w" unfolding e .
    with sample_drops(2) [OF e] show ?thesis by auto
  qed
  then obtain n where 3: "drop_bodies sample_cold sample_hash w = (Ok n, w\<lparr>va_store := (va_store w)\<lparr>st_records := emptied_file\<rparr>\<rparr>)" ..
  have 4: "sweep_quarantine sample_cold sample_hash (w\<lparr>va_store := (va_store w)\<lparr>st_records := emptied_file\<rparr>\<rparr>)
      = (Ok 0, w\<lparr>va_store := (va_store w)\<lparr>st_records := emptied_file\<rparr>\<rparr>)"
    using assms(2) by (intro sample_sweeps) (simp add: w_def)
  have "subject_hash_try_from (subject_hash_str sample_hash) = Ok sample_hash"
    using subject_hash_try_from_Ok_iff [of "subject_hash_str sample_hash" sample_hash] by simp
  then have "replay_tombstones sample_cold v = (Ok 1, w\<lparr>va_store := (va_store w)\<lparr>st_records := emptied_file\<rparr>\<rparr>)"
    by (simp add: replay_tombstones_def read_log_def next_op_def can_def lift_result_def assms(1) replay_entry_def
        sample_tomb_def erase_again_def 1 2 3 4 give_def flip: w_def)
  then show ?thesis by (auto simp: w_def)
qed

lemma sample_builds:
  assumes "st_records (va_store v) = emptied_file"
  shows "\<exists>idx. build_index sample_cold \<lparr>so_tree = [sealed_path], so_manifests = [], so_quarantine = []\<rparr> empty_index v
     = (Ok (idx, 1, 0, 0), v)"
proof -
  have "is_ok (publish_document (\<lambda>_. Some 0) empty_index (erased_copy sealed_document))" by code_simp
  then obtain idx where "publish_document (\<lambda>_. Some 0) empty_index (erased_copy sealed_document) = Ok idx"
    by (auto simp: is_ok_iff)
  with assms show ?thesis
    by (simp add: build_index_def index_tree_def index_file_def index_manifests_def reregister_quarantine_def
        next_op_def sample_reads sealed_parses give_def lift_result_def)
qed

lemma sample_rebuilds:
  assumes "tomb_entries sample_cold v = [sample_tomb]" "st_spool (va_store v) = []" "va_cold v = []"
    "st_records (va_store v) = sealed_file \<or> st_records (va_store v) = emptied_file"
  shows "\<exists>rep v'. reindex_all sample_cold v = (Ok rep, v') \<and> st_records (va_store v') = emptied_file
    \<and> va_key_copies v' = va_key_copies v"
proof -
  obtain ks where r: "replay_tombstones sample_cold v
      = (Ok 1, v\<lparr>va_store := (va_store v)\<lparr>st_key_files := ks, st_records := emptied_file\<rparr>\<rparr>)"
    using sample_replays [OF assms(1,2,4)] by blast
  define w where "w = v\<lparr>va_store := (va_store v)\<lparr>st_key_files := ks, st_records := emptied_file\<rparr>\<rparr>"
  have w: "st_records (va_store w) = emptied_file" "st_spool (va_store w) = []" "va_cold w = []"
    using assms(2,3) by (simp_all add: w_def)
  have k: "va_key_copies w = va_key_copies v" by (simp add: w_def)
  have l: "list_sources sample_cold w = (Ok \<lparr>so_tree = [sealed_path], so_manifests = [], so_quarantine = []\<rparr>, w)"
    using w by (simp add: list_sources_def next_op_def sample_reads walk_manifests_def walk_spool_def spool_ids_def
        walk_files_def can_def lift_result_def give_def)
  have "st_records (va_store (w\<lparr>va_entities := []\<rparr>)) = emptied_file" using w by simp
  from sample_builds [OF this] obtain idx where
    b: "build_index sample_cold \<lparr>so_tree = [sealed_path], so_manifests = [], so_quarantine = []\<rparr> empty_index (w\<lparr>va_entities := []\<rparr>)
      = (Ok (idx, 1, 0, 0), w\<lparr>va_entities := []\<rparr>)" by blast
  show ?thesis
    using w(1) k by (simp add: reindex_all_def next_op_def r l b drop_timelines_def can_def lift_result_def give_def
        truncate_derived_def commit_index_def rows_written_def lift_result_def flip: w_def)
qed

lemma owing_vault_simps [simp]:
  "st_spool (va_store owing_vault) = []" "va_cold owing_vault = []" "st_records (va_store owing_vault) = sealed_file"
  by (simp_all add: owing_vault_def sealed_vault_def sample_vault_def)

lemma sample_tombs_one: "one_subject [sample_tomb]"
  by (simp add: one_subject_def)

theorem rebuild_replays_erasures_witness:
  "\<exists>rep v'. reindex_all sample_cold owing_vault = (Ok rep, v') \<and> erased sample_cold sample_hash v'
     \<and> no_share sample_hash (st_index (va_store v'))"
proof -
  obtain rep v' where r: "reindex_all sample_cold owing_vault = (Ok rep, v')"
    using sample_rebuilds [OF owing_tombs] by auto
  have "CHR 0x0A \<notin> set (pl_floats sample_cold f)" for f by (simp add: sample_floats_def)
  with rebuild_replays_erasures [OF _ r, of sample_tomb] sample_tombs_one obtain s where
    "subject_hash_try_from (tl_subject sample_tomb) = Ok s" "erased sample_cold s v'" "no_share s (st_index (va_store v'))"
    by (auto simp: owing_tombs)
  moreover have "subject_hash_try_from (tl_subject sample_tomb) = Ok sample_hash"
    using subject_hash_try_from_Ok_iff [of "subject_hash_str sample_hash" sample_hash] by (simp add: sample_tomb_def)
  ultimately show ?thesis using r by auto
qed

theorem failed_rebuild_keeps_index_witness:
  "\<exists>kp v'. reindex_all (kp :: cold_keeper) sample_vault = (Err (CoreIo (IoOther ''busy'')), v')
     \<and> st_index (va_store v') = st_index (va_store sample_vault)"
proof -
  let ?kp = "sample_cold\<lparr>kp_refuses := (\<lambda>act path. if act = Remove then Some (IoOther ''busy'') else None)\<rparr>"
  obtain v' where r: "reindex_all ?kp sample_vault = (Err (CoreIo (IoOther ''busy'')), v')"
    by (simp add: reindex_all_def replay_tombstones_def read_log_def tomb_entries_def sample_vault_def file_lines_def
        map_filter_simps next_op_def can_def lift_result_def give_def list_sources_def walk_records_def record_paths_def
        walk_files_def walk_manifests_def walk_spool_def spool_ids_def drop_timelines_def)
  from failed_rebuild_keeps_index [OF r] r show ?thesis by blast
qed

theorem index_is_derived_witness:
  "\<exists>rep v'. reindex_all sample_cold owing_vault = (Ok rep, v')
     \<and> reindex_all sample_cold (reseat sample_index [([ENTITIES_DIR, ''ticket'', ''A'', ''timeline.md''], ''- line'')] owing_vault)
         = (Ok (rep\<lparr>rx_timelines_dropped := 1\<rparr>), v')"
proof -
  obtain rep v' where r: "reindex_all sample_cold owing_vault = (Ok rep, v')"
    using sample_rebuilds [OF owing_tombs] by auto
  have "length (walk_files ''md'' [([ENTITIES_DIR, ''ticket'', ''A'', ''timeline.md''], ''- line'')]) = 1"
    by code_simp
  with index_is_derived [OF r] r show ?thesis by metis
qed

definition archived_vault :: vault where
  "archived_vault = sample_vault\<lparr>va_cold := [([COLD_DIR, ''b.jsonl''], ''torn''), ([COLD_DIR, ''a.jsonl''], ''{m}'' @ newline)]\<rparr>"

text \<open>The second manifest cannot be read, and is not.\<close>

definition one_manifest :: cold_keeper where
  "one_manifest = sample_cold\<lparr>kp_refuses := (\<lambda>act path. if path = [COLD_DIR, ''b.jsonl''] then Some (IoOther ''busy'') else None)\<rparr>"

theorem archive_finds_what_is_there_witness:
  "\<exists>found. cold_records one_manifest [record_id_str sample_id] archived_vault = (Ok found, archived_vault)
     \<and> map_of found (record_id_str sample_id) = Some (sample_sealed\<lparr>summary := []\<rparr>)"
proof -
  let ?id = "record_id_str sample_id" and ?a = "[COLD_DIR, ''a.jsonl'']" and ?rec = "sample_sealed\<lparr>summary := []\<rparr>"
  have v: "validate ?rec = Ok ()" by code_simp
  have m: "manifest_record one_manifest ''{m}'' = Ok ?rec"
    by (simp add: manifest_record_def sample_reader_def one_manifest_def v)
  have e: "extension ''a.jsonl'' = Some ''jsonl''" "extension ''b.jsonl'' = Some ''jsonl''" by code_simp+
  have p: "walk_files ''jsonl'' (va_cold archived_vault) = [?a] @ [[COLD_DIR, ''b.jsonl'']]"
    by (simp add: archived_vault_def walk_files_def e insort_key.simps)
  have l: "str_lines (''{m}'' @ newline) = [''{m}'']" "\<not> blank ''{m}''" by code_simp+
  have "map_of (va_cold archived_vault) ?a = Some (''{m}'' @ newline)" by (simp add: archived_vault_def)
  then have recs: "archived_in one_manifest archived_vault [?a] = [?rec]"
    by (simp add: archived_in_def file_lines_def l(1) [simplified] l(2) manifest_records_def map_filter_simps m)
  have i: "doc_id ?rec = ?id" by (simp add: sample_sealed_def)
  have "kp_refuses one_manifest ReadFile [COLD_DIR] = None" "\<forall>path \<in> set [?a]. kp_refuses one_manifest ReadFile path = None"
    by (simp_all add: one_manifest_def)
  moreover have "[[COLD_DIR, ''b.jsonl'']] = [] \<or> set [?id] \<subseteq> doc_id ` set (archived_in one_manifest archived_vault [?a])"
    unfolding recs using i by simp
  ultimately obtain found pre rest where
    t: "cold_records one_manifest [?id] archived_vault = (Ok found, archived_vault)"
      "archived_in one_manifest archived_vault [?a] = pre @ rest"
      "\<forall>rid. map_of found rid = (if rid \<in> set [?id] then last_of pre rid else None)"
      "rest = [] \<or> set [?id] \<subseteq> doc_id ` set pre"
    using archive_finds_what_is_there [OF list.discI [OF refl] _ p, of one_manifest ?id "[]"] by blast
  have "pre = [?rec]" using t(2,4) unfolding recs by (cases pre) auto
  then have "last_of pre ?id = Some ?rec" using last_of_snoc [of "[]" ?rec ?id] i by simp
  then show ?thesis using t(1,3) by auto
qed

end
