(* ===== verification/Erasure.thy ===== *)
theory Erasure
  imports Reindex
begin

text \<open>
  \<open>yaam-core/src/erase.rs\<close>, the request: what it would reach, the erasure itself with the rebuild it ends
  in, and the completion stamp.
\<close>

record erase_preview =
  ep_records :: nat
  ep_bodies_readable :: nat
  ep_keys :: nat
  ep_quarantined :: nat
  ep_already_tombstoned :: bool
  ep_holds :: "hold list"

record erase_report =
  ers_bodies_sealed_off :: nat
  ers_keys_destroyed :: nat
  ers_quarantine_settled :: nat
  ers_tombstone_id :: string

section \<open>The preview\<close>

definition preview_record ::
  "('a keeper_scheme) \<Rightarrow> subject_hash \<Rightarrow> nat \<times> nat \<Rightarrow> string list \<Rightarrow> (nat \<times> nat, vault) operation" where
  "preview_record kp subject = (\<lambda>(records, readable) path.
     next_op (read_record kp path) (\<lambda>text.
       (case doc_parse (kp_reader kp) text of
          Err _ \<Rightarrow> give (records, readable)
        | Ok d \<Rightarrow>
            if \<not> names d subject then give (records, readable)
            else give (Suc records, if is_plain (doc_body d) then readable else Suc readable))))"

definition preview_held ::
  "('a keeper_scheme) \<Rightarrow> subject_hash \<Rightarrow> nat \<Rightarrow> string \<Rightarrow> (nat, vault) operation" where
  "preview_held kp subject quarantined rid =
     next_op (read_spool kp rid) (\<lambda>text.
       (case doc_parse (kp_reader kp) text of
          Err _ \<Rightarrow> give quarantined
        | Ok d \<Rightarrow> give (if names d subject then Suc quarantined else quarantined)))"

definition check_tombstoned :: "('a keeper_scheme) \<Rightarrow> subject_hash \<Rightarrow> (bool, vault) operation" where
  "check_tombstoned kp subject = on_keys (\<lambda>ks. (is_tombstoned (pl_keys kp) ks subject, ks))"

definition preview :: "('a hold_keeper_scheme) \<Rightarrow> subject_hash \<Rightarrow> (erase_preview, vault) operation" where
  "preview kp subject =
     next_op (walk_records kp) (\<lambda>paths.
     next_op (fold_op (preview_record kp subject) (0, 0) paths) (\<lambda>(records, readable).
     next_op (walk_spool kp) (\<lambda>ids.
     next_op (fold_op (preview_held kp subject) 0 ids) (\<lambda>quarantined.
     next_op (count_key_files kp subject) (\<lambda>keys.
     next_op (check_tombstoned kp subject) (\<lambda>erased.
     next_op (standing_for kp subject) (\<lambda>hs.
       give \<lparr>ep_records = records, ep_bodies_readable = readable, ep_keys = keys, ep_quarantined = quarantined,
         ep_already_tombstoned = erased, ep_holds = hs\<rparr>)))))))"

section \<open>The erasure\<close>

definition TOMB_PREFIX :: string where "TOMB_PREFIX = ''tomb-''"

definition erase_subject :: "('a cold_keeper_scheme) \<Rightarrow> subject_hash \<Rightarrow> (erase_report, vault) operation" where
  "erase_subject kp subject =
     next_op (refuse_if_held kp subject) (\<lambda>_.
     next_op generate (\<lambda>ulid.
     next_op (affected kp subject) (\<lambda>reached.
     next_op (tomb_append kp \<lparr>tl_id = TOMB_PREFIX @ record_id_str ulid, tl_subject = subject_hash_str subject,
       tl_at_ms = kp_now kp, tl_complete = False, tl_records = reached\<rparr>) (\<lambda>_.
     next_op (on_keys (tombstone (pl_keys kp) subject)) (\<lambda>_.
     next_op (count_key_files kp subject) (\<lambda>keys_destroyed.
     next_op (on_keys (destroy_subject (pl_keys kp) subject)) (\<lambda>_.
     next_op (drop_bodies kp subject) (\<lambda>bodies.
     next_op (sweep_quarantine kp subject) (\<lambda>settled.
     next_op (reindex_all kp) (\<lambda>_.
     next_op (verify_live kp subject) (\<lambda>_.
       give \<lparr>ers_bodies_sealed_off = bodies, ers_keys_destroyed = keys_destroyed,
         ers_quarantine_settled = settled, ers_tombstone_id = TOMB_PREFIX @ record_id_str ulid\<rparr>)))))))))))"

text \<open>\<open>rfind\<close> over the log: the last line of an identifier is the one that counts.\<close>

definition last_entry :: "string \<Rightarrow> tomb_line list \<Rightarrow> tomb_line option" where
  "last_entry tid es = find (\<lambda>e. tl_id e = tid) (rev es)"

definition confirm_erasure :: "('a erase_keeper_scheme) \<Rightarrow> string \<Rightarrow> (bool, vault) operation" where
  "confirm_erasure kp tid =
     next_op (read_log kp) (\<lambda>es.
       (case last_entry tid es of
          None \<Rightarrow> lift_result (Err (CoreIo (IoNotFound tid)))
        | Some e \<Rightarrow>
            if tl_complete e then give True
            else
              next_op (lift_result (map_err CoreInvalid (subject_hash_try_from (tl_subject e)))) (\<lambda>subject.
              next_op (count_key_files kp subject) (\<lambda>keys.
                if 0 < keys then give False
                else next_op (check_tombstoned kp subject) (\<lambda>erased.
                  if \<not> erased then give False
                  else if kp_now kp < wrap_i64 (tl_at_ms e + KEY_BACKUP_WINDOW_MS) then give False
                  else next_op (tomb_append kp (e\<lparr>tl_complete := True\<rparr>)) (\<lambda>_. give True))))))"

section \<open>Lemmas\<close>

lemma reads_only_tombstoned [intro, simp]: "reads_only (check_tombstoned kp s)"
  by (simp add: reads_only_def check_tombstoned_def on_keys_def)

lemma tomb_append_Ok:
  "tomb_append kp e v = (Ok u, v') \<Longrightarrow>
     \<exists>t. kp_tomb_json kp e = Some t \<and> v' = v\<lparr>va_tombstones := append_line t (va_tombstones v)\<rparr>"
  by (cases "kp_tomb_json kp e"; cases "kp_refuses kp AppendFile [TOMBSTONE_LOG]")
    (auto simp: tomb_append_def append_line_sync_def)

lemma tomb_append_cases [consumes 1, case_names unwritten written]:
  assumes "tomb_append kp e v = (r, v')"
  obtains (unwritten) f where "r = Err f" "v' = v"
  | (written) line new where "kp_tomb_json kp e = Some line"
      "append_line_sync kp [TOMBSTONE_LOG] line (va_tombstones v) = (r, new)" "v' = v\<lparr>va_tombstones := new\<rparr>"
proof (cases "kp_tomb_json kp e")
  case None
  with assms unwritten show ?thesis by (auto simp: tomb_append_def lift_result_def)
next
  case (Some line)
  obtain q new where "append_line_sync kp [TOMBSTONE_LOG] line (va_tombstones v) = (q, new)" by fastforce
  with Some assms written show ?thesis by (auto simp: tomb_append_def)
qed

text \<open>The steps of an erasure that answers.\<close>

lemma erase_subject_Ok:
  assumes "erase_subject kp s v = (Ok rep, v')"
  obtains ulid reached t v1 v2 v3 v4 v5 rx where
    "kp_tomb_json kp \<lparr>tl_id = TOMB_PREFIX @ record_id_str ulid, tl_subject = subject_hash_str s,
       tl_at_ms = kp_now kp, tl_complete = False, tl_records = reached\<rparr> = Some t"
    "va_tombstones v1 = append_line t (va_tombstones v)" "va_key_copies v1 = va_key_copies v"
    "on_keys (tombstone (pl_keys kp) s) v1 = (Ok (), v2)"
    "on_keys (destroy_subject (pl_keys kp) s) v2 = (Ok (), v3)"
    "drop_bodies kp s v3 = (Ok (ers_bodies_sealed_off rep), v4)"
    "sweep_quarantine kp s v4 = (Ok (ers_quarantine_settled rep), v5)"
    "reindex_all kp v5 = (Ok rx, v')" "verify_live kp s v' = (Ok (), v')"
    "ers_tombstone_id rep = TOMB_PREFIX @ record_id_str ulid"
proof -
  from assms obtain x v0 ulid w reached w' u1 v1 u2 v2 n v2' u3 v3 b v4 q v5 rx v6 u7 v7 where
    r: "refuse_if_held kp s v = (Ok x, v0)" "generate v0 = (Ok ulid, w)" "affected kp s w = (Ok reached, w')"
    "tomb_append kp \<lparr>tl_id = TOMB_PREFIX @ record_id_str ulid, tl_subject = subject_hash_str s,
       tl_at_ms = kp_now kp, tl_complete = False, tl_records = reached\<rparr> w' = (Ok u1, v1)"
    "on_keys (tombstone (pl_keys kp) s) v1 = (Ok u2, v2)" "count_key_files kp s v2 = (Ok n, v2')"
    "on_keys (destroy_subject (pl_keys kp) s) v2' = (Ok u3, v3)" "drop_bodies kp s v3 = (Ok b, v4)"
    "sweep_quarantine kp s v4 = (Ok q, v5)" "reindex_all kp v5 = (Ok rx, v6)" "verify_live kp s v6 = (Ok u7, v7)"
    "give \<lparr>ers_bodies_sealed_off = b, ers_keys_destroyed = n, ers_quarantine_settled = q,
       ers_tombstone_id = TOMB_PREFIX @ record_id_str ulid\<rparr> v7 = (Ok rep, v')"
    unfolding erase_subject_def next_op_Ok by (elim exE conjE) (rule that)
  have same: "v0 = v" "w' = w" "v2' = v2" "v7 = v6" "v' = v6"
    using reads_onlyD [OF reads_only_refuse r(1)] reads_onlyD [OF reads_only_affected r(3)]
      reads_onlyD [OF reads_only_count r(6)] reads_onlyD [OF reads_only_verify r(11)] r(12) by simp_all
  from tomb_append_Ok [OF r(4)] obtain t where "kp_tomb_json kp \<lparr>tl_id = TOMB_PREFIX @ record_id_str ulid,
      tl_subject = subject_hash_str s, tl_at_ms = kp_now kp, tl_complete = False, tl_records = reached\<rparr> = Some t"
    "v1 = w'\<lparr>va_tombstones := append_line t (va_tombstones w')\<rparr>" by blast
  moreover have "w = v\<lparr>va_ulids := stl (va_ulids v)\<rparr>" using r(2) same(1) by (simp add: generate_def)
  ultimately show ?thesis using r same that [of ulid reached t v1 v2 v3 v4 v5 rx] by simp
qed

text \<open>\<open>serde_json\<close> on one line of the log: no line break inside, and it reads back.\<close>

definition tomb_json_ok :: "('a erase_keeper_scheme) \<Rightarrow> bool" where
  "tomb_json_ok kp \<longleftrightarrow> (\<forall>l t. kp_tomb_json kp l = Some t \<longrightarrow>
     CHR 0x0A \<notin> set t \<and> strip_cr t = t \<and> \<not> blank t \<and> kp_read_tomb kp t = Some l)"

lemma tomb_entries_append:
  assumes "tomb_json_ok kp" "closed (va_tombstones v)" "kp_tomb_json kp l = Some t"
    and "text_of (va_tombstones v') = text_of (va_tombstones v) @ t @ newline"
  shows "tomb_entries kp v' = tomb_entries kp v @ [l]"
proof -
  have t: "CHR 0x0A \<notin> set t" "strip_cr t = t" "\<not> blank t" "kp_read_tomb kp t = Some l"
    using assms(1,3) by (auto simp: tomb_json_ok_def)
  have "file_lines (va_tombstones v') = file_lines (append_line t (va_tombstones v))"
    by (simp add: file_lines_text assms(4) append_line_def)
  with t show ?thesis unfolding tomb_entries_def file_lines_append_line [OF assms(2) t(1)]
    by (simp add: map_filter_def)
qed

lemma erases_preserves_log: "erases kp m \<Longrightarrow> preserves (\<lambda>v. va_tombstones v = l) m"
  unfolding preserves_def using erasesD [of kp m] by (metis erasing_def)

lemma drop_timelines_preserves_log: "preserves (\<lambda>v. va_tombstones v = l) (drop_timelines kp)"
  unfolding preserves_def using drop_timelines_frame(1) [of kp] by fastforce

lemma reindex_preserves_log: "preserves (\<lambda>v. va_tombstones v = l) (reindex_all kp)"
proof -
  have commit: "preserves (\<lambda>v. va_tombstones v = l) (commit_index kp [''rebuild''] idx)" for idx
    by (auto simp: preserves_def commit_index_def next_op_def rows_written_def lift_result_def split: result.splits if_splits)
  have "preserves (\<lambda>v. va_tombstones v = l) (\<lambda>v. next_op (drop_timelines kp) (\<lambda>dropped.
     next_op (build_index kp so (truncate_derived (st_index (va_store v)))) (\<lambda>(idx, from_tree, from_manifests, skipped).
     next_op (commit_index kp [''rebuild''] idx) (\<lambda>_.
       give \<lparr>rx_from_tree = from_tree, rx_from_manifests = from_manifests, rx_skipped = skipped,
         rx_tombstones_replayed = n, rx_timelines_dropped = dropped\<rparr>))) v)" for so n
    by (rule preserves_at)
      (auto intro!: preserves_next drop_timelines_preserves_log preserves_reads_only [OF reads_only_build] commit
        preserves_give split: prod.split)
  then show ?thesis unfolding reindex_all_def
    by (intro preserves_next erases_preserves_log [OF erases_replay] preserves_reads_only [OF reads_only_list_sources])
qed

text \<open>Whatever stops an erasure, its line is in the log, or the part of it that was written.\<close>

lemma erase_subject_log:
  assumes "erase_subject kp s v = (r, v')"
  obtains (unlogged) "va_tombstones v' = va_tombstones v"
  | (logged) ulid reached t where "kp_tomb_json kp \<lparr>tl_id = TOMB_PREFIX @ record_id_str ulid, tl_subject = subject_hash_str s,
       tl_at_ms = kp_now kp, tl_complete = False, tl_records = reached\<rparr> = Some t"
      "text_of (va_tombstones v') = text_of (va_tombstones v) @ t @ newline"
  | (cut) e ulid reached p q where "r = Err e"
      "kp_tomb_json kp \<lparr>tl_id = TOMB_PREFIX @ record_id_str ulid, tl_subject = subject_hash_str s,
       tl_at_ms = kp_now kp, tl_complete = False, tl_records = reached\<rparr> = Some (p @ q)"
      "text_of (va_tombstones v') = text_of (va_tombstones v) @ p"
proof -
  let ?l = "\<lambda>ulid reached. \<lparr>tl_id = TOMB_PREFIX @ record_id_str ulid, tl_subject = subject_hash_str s,
       tl_at_ms = kp_now kp, tl_complete = False, tl_records = reached\<rparr>"
  have rest: "preserves (\<lambda>v. va_tombstones v = l) (next_op (on_keys (tombstone (pl_keys kp) s)) (\<lambda>_.
     next_op (count_key_files kp s) (\<lambda>keys_destroyed.
     next_op (on_keys (destroy_subject (pl_keys kp) s)) (\<lambda>_.
     next_op (drop_bodies kp s) (\<lambda>bodies.
     next_op (sweep_quarantine kp s) (\<lambda>settled.
     next_op (reindex_all kp) (\<lambda>_.
     next_op (verify_live kp s) (\<lambda>_.
       give \<lparr>ers_bodies_sealed_off = bodies, ers_keys_destroyed = keys_destroyed,
         ers_quarantine_settled = settled, ers_tombstone_id = TOMB_PREFIX @ record_id_str ulid\<rparr>))))))))" for l ulid
    by (intro preserves_next erases_preserves_log [OF erases_keys(1)] preserves_reads_only [OF reads_only_count]
        erases_preserves_log [OF erases_keys(2)] erases_preserves_log [OF erases_drop_bodies]
        erases_preserves_log [OF erases_sweep] reindex_preserves_log preserves_reads_only [OF reads_only_verify]
        preserves_give)
  from assms reads_only_refuse show ?thesis unfolding erase_subject_def
  proof (cases rule: next_op_read)
    case stopped
    with unlogged show ?thesis by simp
  next
    case (went_on u)
    from went_on(2) show ?thesis
    proof (cases rule: next_op_cases)
      case (stopped e)
      with unlogged show ?thesis by (simp add: generate_def)
    next
      case (went_on ulid w)
      have w: "va_tombstones w = va_tombstones v" using went_on(1) by (auto simp: generate_def)
      from went_on(2) reads_only_affected show ?thesis
      proof (cases rule: next_op_read)
        case stopped
        with unlogged w show ?thesis by simp
      next
        case (went_on reached)
        from went_on(2) show ?thesis
        proof (cases rule: next_op_cases)
          case (stopped e)
          from stopped(1) show ?thesis
          proof (cases rule: tomb_append_cases)
            case unwritten
            with unlogged w show ?thesis by simp
          next
            case (written line new)
            from written(2) show ?thesis
            proof (cases rule: append_line_sync_cases)
              case appended
              with written w logged show ?thesis by simp
            next
              case untouched
              with written w unlogged show ?thesis by simp
            next
              case (cut f p q)
              with written w \<open>r = Err e\<close> show ?thesis using that(3) [of e ulid reached p q] by simp
            qed
          qed
        next
          case (went_on x v1)
          from tomb_append_Ok [OF went_on(1)] w obtain t where t: "kp_tomb_json kp (?l ulid reached) = Some t"
            "va_tombstones v1 = append_line t (va_tombstones v)" by auto
          from preservesD [OF rest went_on(2)] t logged show ?thesis by (simp add: append_line_def)
        qed
      qed
    qed
  qed
qed

section \<open>Properties\<close>

text \<open>
  C5: A subject somebody holds is not erased. While a hold on the subject stands, the erasure is refused and
  the whole vault is what it was: no log line, no marker, no key and no body touched.
\<close>

theorem held_subject_not_erased:
  assumes "standing kp v = (Ok hs, w)" "\<exists>h \<in> set hs. ho_subject h = s"
  shows "\<exists>e. erase_subject kp s v = (Err (Held e), v)"
proof -
  have w: "w = v" using reads_onlyD [OF reads_only_standing assms(1)] .
  have "filter (\<lambda>h. ho_subject h = s) hs \<noteq> []" using assms(2) by (auto simp: filter_empty_conv)
  with assms(1) w have "\<exists>e. refuse_if_held kp s v = (Err (Held e), v)"
    by (simp add: refuse_if_held_def standing_for_def next_op_def give_def lift_result_def)
  then show ?thesis by (auto simp: erase_subject_def next_op_def)
qed

text \<open>
  C1: What an erasure that answers has left. The subject has its marker and no key, no readable record
  naming it has a sealed body, no held copy names it, no file stands under the key root in its name, and the
  index carries no share of its keys.
\<close>

theorem erasure_leaves_nothing:
  assumes "\<forall>f. CHR 0x0A \<notin> set (pl_floats kp f)" "erase_subject kp s v = (Ok rep, v')"
  shows "erased kp s v' \<and> no_share s (st_index (va_store v')) \<and> count_key_files kp s v' = (Ok 0, v')
    \<and> check_tombstoned kp s v' = (Ok True, v')"
proof -
  have nl: "CHR 0x0A \<notin> set (pl_floats kp f)" for f using assms(1) by blast
  from assms(2) obtain v1 v2 v3 v4 v5 rx where e: "on_keys (tombstone (pl_keys kp) s) v1 = (Ok (), v2)"
    "on_keys (destroy_subject (pl_keys kp) s) v2 = (Ok (), v3)"
    "drop_bodies kp s v3 = (Ok (ers_bodies_sealed_off rep), v4)"
    "sweep_quarantine kp s v4 = (Ok (ers_quarantine_settled rep), v5)"
    "reindex_all kp v5 = (Ok rx, v')" "verify_live kp s v' = (Ok (), v')"
    by (rule erase_subject_Ok)
  note e4 = erasesD [OF erases_drop_bodies e(3)] and e5 = erasesD [OF erases_sweep e(4)]
  have "keyless s v5" using keys_destroyed [OF e(1,2)] erasing_keeps(3) [OF nl] e4 e5 by metis
  moreover have "sealed_off kp s v5"
    using drop_bodies_seal_off [OF nl e(3)] erasing_keeps(1) [OF nl e5] by blast
  ultimately have v5: "erased kp s v5" using sweep_unspools [OF e(4)] by (simp add: erased_def)
  from rebuild_keeps_erased [OF nl e(5) v5] have "erased kp s v' \<and> no_share s (st_index (va_store v'))" .
  moreover have "check_tombstoned kp s v' = (Ok True, v') \<and> count_key_files kp s v' = (Ok 0, v')"
    using e(6) reads_onlyD [OF reads_only_tombstoned] reads_onlyD [OF reads_only_count]
    by (fastforce simp: verify_live_def check_tombstoned_def [symmetric] next_op_Ok split: if_splits)
  ultimately show ?thesis by blast
qed



section \<open>The properties at work\<close>

definition held_vault :: vault where
  "held_vault = sealed_vault\<lparr>va_holds := Some (''{p}'' @ newline)\<rparr>"

lemma held_vault_standing: "standing sample_cold held_vault = (Ok [sample_hold], held_vault)"
proof -
  have "file_lines (Some (''{p}'' @ newline)) = [''{p}'']" "\<not> blank ''{p}''" by code_simp+
  then have e: "hold_entries sample_cold held_vault = [placement sample_hold]"
    by (simp add: hold_entries_def held_vault_def map_filter_simps sample_read_hold_def)
  have "hold_read sample_cold held_vault = (Ok ([(ho_id sample_hold, sample_hold)], []), held_vault)"
    unfolding hold_read_Ok e using sample_hash_valid subject_hash_try_from_Ok_iff [of "subject_hash_str sample_hash" sample_hash]
    by (simp add: read_hold_line_def placement_def sample_hold_def)
  then show ?thesis by (simp add: standing_def next_op_def give_def)
qed

theorem held_subject_not_erased_witness:
  "\<exists>e. erase_subject sample_cold sample_hash held_vault = (Err (Held e), held_vault)"
  using held_subject_not_erased [OF held_vault_standing, of sample_hash] by (simp add: sample_hold_def)

lemma verify_live_erased:
  assumes "erased sample_cold sample_hash v" "va_key_copies v = []" "list_all (\<lambda>p. map_of (st_records (va_store v)) p \<noteq> None) (record_paths v)"
  shows "verify_live sample_cold sample_hash v = (Ok (), v)"
proof -
  have body: "verify_body sample_cold sample_hash u path v = (Ok (), v)" if p: "path \<in> set (record_paths v)" for u path
  proof -
    obtain content m where c: "map_of (st_records (va_store v)) path = Some (content, m)"
      using assms(3) p by (fastforce simp: list_all_iff)
    then have r: "read_record sample_cold path v = (Ok content, v)"
      by (simp add: read_record_def next_op_def can_def lift_result_def)
    have "\<not> (names d sample_hash \<and> \<not> is_plain (doc_body d))" if "doc_parse (kp_reader sample_cold) content = Ok d" for d
      using assms(1) c that \<open>path \<in> _\<close> unfolding erased_def sealed_off_def by blast
    then show ?thesis
      by (cases "doc_parse (kp_reader sample_cold) content") (auto simp: verify_body_def next_op_def r give_def)
  qed
  have bodies: "fold_op (verify_body sample_cold sample_hash) () paths v = (Ok (), v)" if "set paths \<subseteq> set (record_paths v)" for paths
    using that by (induction paths) (simp_all add: body next_op_def give_def)
  have "keyless sample_hash v" using assms(1) by (simp add: erased_def)
  then have k: "filter (\<lambda>(n, _). n = subject_hash_str sample_hash) (ks_keys (st_key_files (va_store v))) = []"
    "subject_hash_str sample_hash \<in> set (ks_tombstones (st_key_files (va_store v)))"
    by (force simp: keyless_def filter_empty_conv)+
  have "on_keys (\<lambda>ks. (is_tombstoned sample_store ks sample_hash, ks)) v = (Ok True, v)"
    using k(2) by (simp add: on_keys_def is_tombstoned_def tombstone_path_def safe_subject [OF sample_hash_valid])
  moreover have "count_key_files sample_cold sample_hash v = (Ok 0, v)"
    by (simp add: count_key_files_def next_op_def can_def lift_result_def k(1) assms(2))
  ultimately show ?thesis
    using bodies [of "record_paths v"]
    by (simp add: verify_live_def next_op_def walk_records_def can_def lift_result_def)
qed

lemma sample_erased:
  "\<exists>rep v'. erase_subject sample_cold sample_hash sealed_vault = (Ok rep, v')
     \<and> va_tombstones v' = Some (''{t}'' @ newline)"
proof -
  let ?k = "record_id_str sample_id"
  define w where "w = sealed_vault\<lparr>va_ulids := sconst other_id\<rparr>"
  have s: "st_records (va_store w) = sealed_file" "st_spool (va_store w) = []" "va_cold w = []" "va_key_copies w = []"
    "va_tombstones w = None" by (simp_all add: w_def sealed_vault_def sample_vault_def)
  have refuse: "refuse_if_held sample_cold sample_hash sealed_vault = (Ok (), sealed_vault)"
    by (simp add: refuse_if_held_def standing_for_def standing_def next_op_def hold_read_def can_def lift_result_def
        give_def sealed_vault_def sample_vault_def file_lines_def map_filter_simps)
  have gen: "generate sealed_vault = (Ok sample_id, w)"
    by (simp add: generate_def w_def sealed_vault_def sample_vault_def)
  have roles: "roles_of sealed_document sample_hash = [Principal]"
    by (simp add: roles_of_def sealed_document_def sample_sealed_def)
  have id: "doc_id (doc_record sealed_document) = ?k" by (simp add: sealed_document_def sample_sealed_def)
  have aff: "affected sample_cold sample_hash w = (Ok (tl_records sample_tomb), w)"
    by (simp add: affected_def next_op_def sample_reads s add_affected_def sealed_parses add_roles_def roles id give_def
        walk_spool_def spool_ids_def can_def lift_result_def sample_tomb_def)
  have entry: "\<lparr>tl_id = TOMB_PREFIX @ ?k, tl_subject = subject_hash_str sample_hash, tl_at_ms = 5, tl_complete = False,
      tl_records = tl_records sample_tomb\<rparr> = sample_tomb"
    by (simp add: sample_tomb_def TOMB_PREFIX_def)
  define w1 where "w1 = w\<lparr>va_tombstones := Some (''{t}'' @ newline)\<rparr>"
  from entry have app: "tomb_append sample_cold \<lparr>tl_id = TOMB_PREFIX @ ?k, tl_subject = subject_hash_str sample_hash,
      tl_at_ms = 5, tl_complete = False, tl_records = tl_records sample_tomb\<rparr> w
      = (Ok (), w1)"
    by (simp add: w1_def tomb_append_def next_op_def lift_result_def append_line_sync_def s append_line_def sample_tomb_json_def)
  obtain k1 where 1: "on_keys (tombstone sample_store sample_hash) w1 = (Ok (), w1\<lparr>va_store := (va_store w1)\<lparr>st_key_files := k1\<rparr>\<rparr>)"
    using sample_keys(1) by blast
  define w2 where "w2 = w1\<lparr>va_store := (va_store w1)\<lparr>st_key_files := k1\<rparr>\<rparr>"
  obtain n where 2: "count_key_files sample_cold sample_hash w2 = (Ok n, w2)"
    by (simp add: count_key_files_def next_op_def can_def lift_result_def)
  obtain k3 where 3: "on_keys (destroy_subject sample_store sample_hash) w2 = (Ok (), w2\<lparr>va_store := (va_store w2)\<lparr>st_key_files := k3\<rparr>\<rparr>)"
    using sample_keys(2) by blast
  define w3 where "w3 = w2\<lparr>va_store := (va_store w2)\<lparr>st_key_files := k3\<rparr>\<rparr>"
  define w4 where "w4 = w3\<lparr>va_store := (va_store w3)\<lparr>st_records := emptied_file\<rparr>\<rparr>"
  have 4: "drop_bodies sample_cold sample_hash w3 = (Ok 1, w4)"
    unfolding w4_def by (rule sample_drops(1)) (simp add: w3_def w2_def w1_def s)
  have s4: "st_records (va_store w4) = emptied_file" "st_spool (va_store w4) = []" "va_cold w4 = []" "va_key_copies w4 = []"
    "va_tombstones w4 = Some (''{t}'' @ newline)"
    by (simp_all add: w4_def w3_def w2_def w1_def s)
  have "tomb_entries sample_cold w4 = [sample_tomb]"
    using owing_tombs unfolding tomb_entries_def s4(5) by (simp add: owing_vault_def)
  from sample_rebuilds [OF this] s4 obtain rep v' where r: "reindex_all sample_cold w4 = (Ok rep, v')"
    "st_records (va_store v') = emptied_file" "va_key_copies v' = []" by auto
  have nl: "CHR 0x0A \<notin> set (pl_floats sample_cold f)" for f by (simp add: sample_floats_def)
  from rebuild_replays [OF nl r(1)] \<open>tomb_entries sample_cold w4 = [sample_tomb]\<close> sample_tombs_one obtain s' where
    s': "subject_hash_try_from (tl_subject sample_tomb) = Ok s'" "erased sample_cold s' v'" by auto
  moreover have "subject_hash_try_from (tl_subject sample_tomb) = Ok sample_hash"
    using subject_hash_try_from_Ok_iff [of "subject_hash_str sample_hash" sample_hash] by (simp add: sample_tomb_def)
  ultimately have "erased sample_cold sample_hash v'" by simp
  then have 5: "verify_live sample_cold sample_hash v' = (Ok (), v')"
    using r(2,3) by (intro verify_live_erased) (simp_all add: sample_record_paths)
  have log: "va_tombstones v' = Some (''{t}'' @ newline)"
    using preservesD [OF reindex_preserves_log r(1)] s4(5) by simp
  show ?thesis
    using log unfolding erase_subject_def
    by (simp add: next_op_def refuse gen aff app 1 [folded w2_def] 2 3 [folded w3_def] 4 sample_sweeps s4 r 5 give_def)
qed

lemma sample_floats_line: "\<forall>f. CHR 0x0A \<notin> set (pl_floats sample_cold f)"
  by (simp add: sample_floats_def)

theorem erasure_leaves_nothing_witness:
  "\<exists>rep v'. erase_subject sample_cold sample_hash sealed_vault = (Ok rep, v') \<and> erased sample_cold sample_hash v'
     \<and> no_share sample_hash (st_index (va_store v'))"
proof -
  obtain rep v' where r: "erase_subject sample_cold sample_hash sealed_vault = (Ok rep, v')"
    using sample_erased by blast
  from erasure_leaves_nothing [OF sample_floats_line r] r show ?thesis by blast
qed

lemma sample_tomb_json_ok: "tomb_json_ok sample_cold"
proof -
  have "\<not> blank ''{t}''" "\<not> blank ''{c}''" by code_simp+
  moreover have "sample_tomb\<lparr>tl_complete := True\<rparr> \<noteq> sample_tomb" by (simp add: sample_tomb_def)
  ultimately show ?thesis by (auto simp: tomb_json_ok_def sample_tomb_json_def sample_read_tomb_def strip_cr_def)
qed


definition late_keeper :: cold_keeper where
  "late_keeper = sample_cold\<lparr>kp_now := 5 + KEY_BACKUP_WINDOW_MS\<rparr>"

definition marked_vault :: vault where
  "marked_vault = owing_vault\<lparr>va_store := (va_store owing_vault)\<lparr>st_key_files := (st_key_files (va_store owing_vault))
     \<lparr>ks_tombstones := [subject_hash_str sample_hash], ks_keys := []\<rparr>\<rparr>\<rparr>"


end
