(* ===== verification/Fanout.thy ===== *)
theory Fanout
  imports Erasure Wikilink
begin

text \<open>
  \<open>yaam-core/src/pipeline.rs\<close>, the fan-out: the queue drained into entity timelines and subject audit files,
  with its retries and dead letters. The text of an error, which a dead letter quotes, is \<open>kp_error_text\<close>.
\<close>

definition FANOUT_MAX_ATTEMPTS :: nat where "FANOUT_MAX_ATTEMPTS = 5"

definition FANOUT_BACKOFF_MS :: int where "FANOUT_BACKOFF_MS = 1000"

definition FANOUT_BACKOFF_CAP_MS :: int where "FANOUT_BACKOFF_CAP_MS = 60000"

definition TIMELINE_HEAD :: string where "TIMELINE_HEAD = ''timeline.md''"

definition TIMELINE_PART :: string where "TIMELINE_PART = ''timeline-''"

definition TIMELINE_MAX_BYTES :: nat where "TIMELINE_MAX_BYTES = 64 * 1024"

record fanout_keeper = cold_keeper +
  kp_error_text :: "core_error \<Rightarrow> string"

section \<open>Timelines\<close>

definition outcome_text :: "outcome \<Rightarrow> string" where
  "outcome_text out = (case out of Success \<Rightarrow> ''success'' | Failure \<Rightarrow> ''failure'' | Partial \<Rightarrow> ''partial''
     | Declined \<Rightarrow> ''declined'')"

definition entity_dir :: "string \<Rightarrow> string \<Rightarrow> string list" where
  "entity_dir knd ident = [ENTITIES_DIR, knd, to_path_segment ident]"

text \<open>\<open>str::parse::<u32>\<close>.\<close>

definition parse_u32 :: "string \<Rightarrow> nat option" where
  "parse_u32 s =
     (let digits = (if s \<noteq> [] \<and> hd s = CHR ''+'' \<and> tl s \<noteq> [] then tl s else s)
      in if list_all is_ascii_digit digits then parse_digits 4294967295 digits else None)"

definition part_number :: "string list \<Rightarrow> nat option" where
  "part_number path = Option.bind (strip_prefix TIMELINE_PART (file_stem (List.last path))) parse_u32"

definition files_under :: "string list \<Rightarrow> vault \<Rightarrow> (string list \<times> string) list" where
  "files_under dir v = filter (\<lambda>(path, _). take (length dir) path = dir) (va_entities v)"

text \<open>A \<open>u32\<close>: the number after the last wraps.\<close>

definition next_part_number :: "string list \<Rightarrow> vault \<Rightarrow> nat" where
  "next_part_number dir v =
     (foldr max (List.map_filter part_number (walk_files ''md'' (files_under dir v))) 0 + 1) mod 2 ^ 32"

definition head_is_full :: "('a keeper_scheme) \<Rightarrow> string list \<Rightarrow> (bool, vault) operation" where
  "head_is_full kp head = next_op (can kp Stat head) (\<lambda>_ v.
     (Ok (case map_of (va_entities v) head of None \<Rightarrow> False | Some text \<Rightarrow> TIMELINE_MAX_BYTES \<le> length text), v))"

definition roll_over :: "('a keeper_scheme) \<Rightarrow> string list \<Rightarrow> string list \<Rightarrow> (unit, vault) operation" where
  "roll_over kp dir head =
     next_op (can kp ReadFile dir) (\<lambda>_ v.
       (let part = dir @ [TIMELINE_PART @ format_width 4 (int (next_part_number dir v)) @ ''.md'']
        in next_op (can kp Rename head) (\<lambda>_.
           next_op (\<lambda>v. (case map_of (va_entities v) head of
                None \<Rightarrow> (Err (CoreIo (IoNotFound (List.last head))), v)
              | Some text \<Rightarrow> (Ok (), v\<lparr>va_entities := AList.update part text (AList.delete head (va_entities v))\<rparr>))) (\<lambda>_.
           next_op (can kp WriteFile head) (\<lambda>_ v.
             (Ok (), v\<lparr>va_entities := AList.update head [] (va_entities v)\<rparr>))))) v)"

definition append_file :: "('a keeper_scheme) \<Rightarrow> string list \<Rightarrow> string \<Rightarrow> (unit, vault) operation" where
  "append_file kp path line v =
     (case append_line_sync kp path line (map_of (va_entities v) path) of
        (r, new) \<Rightarrow> (r, case new of None \<Rightarrow> v | Some text \<Rightarrow> v\<lparr>va_entities := AList.update path text (va_entities v)\<rparr>))"

definition timeline_line :: "action_record \<Rightarrow> entity_ref \<Rightarrow> string" where
  "timeline_line rec e =
     ''- '' @ wl_render \<lparr>ent_kind = ''record'', ent_id = doc_id rec, ent_role = ent_role e, ent_confidence = ent_confidence e\<rparr>
       @ '' '' @ received_at rec @ '' '' @ action rec @ ''/'' @ outcome_text (outcome rec)"

definition append_timeline :: "('a keeper_scheme) \<Rightarrow> action_record \<Rightarrow> entity_ref \<Rightarrow> (unit, vault) operation" where
  "append_timeline kp rec e =
     (let dir = entity_dir (ent_kind e) (ent_id e); head = dir @ [TIMELINE_HEAD]
      in next_op (can kp MakeDir dir) (\<lambda>_.
         next_op (head_is_full kp head) (\<lambda>full.
         next_op (if full then roll_over kp dir head else give ()) (\<lambda>_ v.
           (case claim_timeline_mention (doc_id rec) (ent_kind e) (ent_id e) (st_index (va_store v)) of
              Err err \<Rightarrow> (Err (CoreStore err), v)
            | Ok None \<Rightarrow> (Ok (), v)
            | Ok (Some idx) \<Rightarrow>
                next_op (append_file kp head (timeline_line rec e)) (\<lambda>_.
                  commit_index kp [doc_id rec, ent_kind e, ent_id e] idx) v)))))"

definition append_timelines :: "('a keeper_scheme) \<Rightarrow> action_record \<Rightarrow> (unit, vault) operation" where
  "append_timelines kp rec = fold_op (\<lambda>_ e. append_timeline kp rec e) () (entities rec)"

section \<open>Subject audits\<close>

definition subject_line :: "subject_ref \<Rightarrow> string" where
  "subject_line s =
     ''- [[subject:'' @ subject_hash_str (subj_hash s) @ '']] role='' @ subject_role_text (subj_role s) @ '' canon_ver=''
       @ (case subj_canon s of CanonVer n \<Rightarrow> show_nat n) @ newline"

definition write_subject_audit :: "('a keeper_scheme) \<Rightarrow> action_record \<Rightarrow> (unit, vault) operation" where
  "write_subject_audit kp rec =
     (if subjects rec = [] then give ()
      else
        let path = [AUDIT_DIR, ''subjects'', record_file (doc_id rec)];
            text = ''# subjects named by [[record:'' @ doc_id rec @ '']]'' @ newline @ newline
              @ concat (map subject_line (subjects rec))
        in next_op (can kp MakeDir (butlast path)) (\<lambda>_.
           next_op (can kp WriteFile path) (\<lambda>_ v. (Ok (), v\<lparr>va_audit := AList.update path text (va_audit v)\<rparr>))))"

section \<open>The queue\<close>

definition backoff_ms :: "nat \<Rightarrow> int" where
  "backoff_ms attempts =
     min (min (2 ^ 63 - 1) (FANOUT_BACKOFF_MS * 2 ^ min (attempts - 1) 16)) FANOUT_BACKOFF_CAP_MS"

definition on_index :: "('a keeper_scheme) \<Rightarrow> string list \<Rightarrow> (index \<Rightarrow> index) \<Rightarrow> (unit, vault) operation" where
  "on_index kp what f =
     next_op (rows_written kp what) (\<lambda>_ v. (Ok (), v\<lparr>va_store := (va_store v)\<lparr>st_index := f (st_index (va_store v))\<rparr>\<rparr>))"

definition claim_jobs :: "('a keeper_scheme) \<Rightarrow> nat \<Rightarrow> int \<Rightarrow> (job_row list, vault) operation" where
  "claim_jobs kp limit now =
     next_op (rows_written kp [''claim'']) (\<lambda>_ v.
       (case claim_fanout limit now (st_index (va_store v)) of
          (idx, jobs) \<Rightarrow> (Ok jobs, v\<lparr>va_store := (va_store v)\<lparr>st_index := idx\<rparr>\<rparr>)))"

definition locate :: "('a keeper_scheme) \<Rightarrow> ((string, string list) btree, vault) operation" where
  "locate kp = next_op (can kp ReadFile [RECORDS_DIR]) (\<lambda>_ v. (Ok (locate_records v), v))"

definition locate_archived ::
  "('a cold_keeper_scheme) \<Rightarrow> job_row list \<Rightarrow> (string, string list) btree \<Rightarrow>
     ((string, action_record) btree, vault) operation" where
  "locate_archived kp jobs located =
     (let wanted = remdups (filter (\<lambda>rid. map_of located rid = None) (map job_record jobs))
      in if wanted = [] then give [] else cold_records kp wanted)"

definition run_job ::
  "('a keeper_scheme) \<Rightarrow> job_row \<Rightarrow> (string, string list) btree \<Rightarrow> (string, action_record) btree \<Rightarrow>
     (unit, vault) operation" where
  "run_job kp job located archived =
     next_op
       (case map_of located (job_record job) of
          Some path \<Rightarrow>
            next_op (read_record kp path) (\<lambda>text.
              lift_result (and_then (parse_doc kp text) (\<lambda>d. Ok (doc_record d))))
        | None \<Rightarrow> lift_result (ok_or (CoreIo (IoNotFound (job_record job))) (map_of archived (job_record job))))
       (\<lambda>rec.
          if job_kind job = JOB_BUNDLE then append_timelines kp rec
          else if job_kind job = JOB_SUBJECT_LINK then write_subject_audit kp rec
          else lift_result (Err (invalid (UnknownJobKind (job_kind job)))))"

definition dead_letter :: "('a fanout_keeper_scheme) \<Rightarrow> job_row \<Rightarrow> core_error \<Rightarrow> (unit, vault) operation" where
  "dead_letter kp job reason =
     (let name = job_record job @ ''.'' @ job_kind job;
          text = ''record: '' @ job_record job @ newline @ ''job: '' @ job_kind job @ newline
            @ ''attempts: '' @ show_nat (job_attempts job) @ newline @ ''reason: '' @ kp_error_text kp reason @ newline
      in next_op (can kp MakeDir [DEAD_LETTER_DIR]) (\<lambda>_.
         next_op (can kp WriteFile [DEAD_LETTER_DIR, name]) (\<lambda>_ v.
           (Ok (), v\<lparr>va_dead := AList.update name text (va_dead v)\<rparr>))))"

text \<open>An operation whose failure is an answer.\<close>

definition catch :: "('a, 's) operation \<Rightarrow> (('a, core_error) result, 's) operation" where
  "catch m s = (case m s of (r, t) \<Rightarrow> (Ok r, t))"

definition complete_job :: "('a keeper_scheme) \<Rightarrow> job_row \<Rightarrow> (unit, vault) operation" where
  "complete_job kp job = on_index kp [''complete'', show_nat (job_id job)] (complete_fanout (job_id job))"

definition fail_job :: "('a keeper_scheme) \<Rightarrow> job_row \<Rightarrow> (unit, vault) operation" where
  "fail_job kp job = on_index kp [''fail'', show_nat (job_id job)]
     (fail_fanout (job_id job) (kp_now kp + backoff_ms (job_attempts job)))"

definition settle_job ::
  "('a fanout_keeper_scheme) \<Rightarrow> (string, string list) btree \<Rightarrow> (string, action_record) btree \<Rightarrow> nat \<Rightarrow> job_row \<Rightarrow>
     (nat, vault) operation" where
  "settle_job kp located archived settled job =
     next_op (catch (run_job kp job located archived)) (\<lambda>r.
       (case r of
          Ok _ \<Rightarrow> next_op (complete_job kp job) (\<lambda>_. give (Suc settled))
        | Err reason \<Rightarrow>
            if FANOUT_MAX_ATTEMPTS \<le> job_attempts job then
              next_op (dead_letter kp job reason) (\<lambda>_.
              next_op (complete_job kp job) (\<lambda>_. give (Suc settled)))
            else
              next_op (fail_job kp job) (\<lambda>_.
                give settled)))"

definition drain_fanout :: "('a fanout_keeper_scheme) \<Rightarrow> nat \<Rightarrow> (nat, vault) operation" where
  "drain_fanout kp max_jobs =
     (let limit = min max_jobs 4294967295
      in if limit = 0 then give 0
         else
           next_op (claim_jobs kp limit (kp_now kp)) (\<lambda>jobs.
             if jobs = [] then give 0
             else
               next_op (locate kp) (\<lambda>located.
               next_op (locate_archived kp jobs located) (\<lambda>archived.
                 fold_op (settle_job kp located archived) 0 jobs))))"

section \<open>Draining on demand\<close>

text \<open>\<open>yaam-core/src/drain.rs\<close>.\<close>

definition MAX_JOBS :: nat where "MAX_JOBS = 10000"

record drain_report =
  dr_settled :: nat
  dr_budget :: nat
  dr_remaining :: nat
  dr_dead_lettered :: nat

definition hit_bound :: "drain_report \<Rightarrow> bool" where
  "hit_bound report \<longleftrightarrow> dr_budget report \<le> dr_settled report \<and> 0 < dr_remaining report"

definition needs_attention :: "drain_report \<Rightarrow> bool" where
  "needs_attention report \<longleftrightarrow> 0 < dr_remaining report \<or> 0 < dr_dead_lettered report"

text \<open>\<open>fanout_pending\<close> of the health read: the jobs in state \<open>pending\<close>.\<close>

definition queued :: "(nat, vault) operation" where
  "queued v = (Ok (length (filter (\<lambda>j. job_state j = Pending) (fanout_queue (st_index (va_store v))))), v)"

definition dead_lettered :: "('a keeper_scheme) \<Rightarrow> (nat, vault) operation" where
  "dead_lettered kp = next_op (can kp ReadFile [DEAD_LETTER_DIR]) (\<lambda>_ v. (Ok (length (va_dead v)), v))"

text \<open>The loop: a round that settles nothing ends it, and so does the budget.\<close>

function drain_rounds :: "('a fanout_keeper_scheme) \<Rightarrow> nat \<Rightarrow> nat \<Rightarrow> vault \<Rightarrow> (nat, core_error) result \<times> vault" where
  "drain_rounds kp budget settled v =
     (if settled < budget then
        (case drain_fanout kp (min MAX_JOBS (budget - settled)) v of
           (Err e, v') \<Rightarrow> (Err e, v')
         | (Ok settled_now, v') \<Rightarrow>
             if settled_now = 0 then (Ok settled, v') else drain_rounds kp budget (settled + settled_now) v')
      else (Ok settled, v))"
  by pat_completeness auto
termination by (relation "measure (\<lambda>(kp, budget, settled, v). budget - settled)") auto

declare drain_rounds.simps [simp del]

definition drain :: "('a fanout_keeper_scheme) \<Rightarrow> nat \<Rightarrow> (drain_report, vault) operation" where
  "drain kp budget =
     next_op (drain_rounds kp budget 0) (\<lambda>settled.
     next_op queued (\<lambda>remaining.
     next_op (dead_lettered kp) (\<lambda>aside.
       give \<lparr>dr_settled = settled, dr_budget = budget, dr_remaining = remaining, dr_dead_lettered = aside\<rparr>)))"

definition drain_backlog :: "('a fanout_keeper_scheme) \<Rightarrow> (drain_report, vault) operation" where
  "drain_backlog kp = next_op queued (drain kp)"

lemma reads_only_cold: "reads_only (cold_records kp wanted)"
proof -
  have "reads_only (scan_manifests kp wanted found paths)" for found paths
    by (induction paths arbitrary: found) (auto intro!: reads_only_next split: prod.split bool.split)
  moreover have "reads_only (walk_manifests kp)" unfolding walk_manifests_def
    by (intro reads_only_next reads_only_can) (simp add: reads_only_def)
  ultimately show ?thesis unfolding cold_records_def by (intro reads_only_next)
qed

section \<open>Timelines as their lines\<close>

definition lines_of :: "string list \<Rightarrow> (string list \<times> string) list \<Rightarrow> string multiset" where
  "lines_of dir entries = sum_list (map (\<lambda>(path, text). if butlast path = dir then mset (str_lines text) else {#}) entries)"

definition dir_lines :: "string list \<Rightarrow> vault \<Rightarrow> string multiset" where
  "dir_lines dir v = lines_of dir (va_entities v)"

definition timelines_ok :: "vault \<Rightarrow> bool" where
  "timelines_ok v \<longleftrightarrow> distinct (map fst (va_entities v)) \<and> (\<forall>(path, text) \<in> set (va_entities v). closed (Some text))"

text \<open>Room for so many more parts below the last number a \<open>u32\<close> has.\<close>

definition room :: "nat \<Rightarrow> vault \<Rightarrow> bool" where
  "room n v \<longleftrightarrow> n < 2 ^ 32 - 1
     \<and> (\<forall>path \<in> fst ` set (va_entities v). \<forall>k. part_number path = Some k \<longrightarrow> k + n < 2 ^ 32 - 1)"

abbreviation mentions :: "vault \<Rightarrow> (string \<times> string \<times> string) list" where
  "mentions v \<equiv> timeline_mentions (st_index (va_store v))"

abbreviation weight :: "string list \<Rightarrow> string list \<Rightarrow> string \<Rightarrow> string multiset" where
  "weight dir path text \<equiv> (if butlast path = dir then mset (str_lines text) else {#})"

lemma lines_of_update:
  "lines_of dir (AList.update p t al) + (case map_of al p of None \<Rightarrow> {#} | Some old \<Rightarrow> weight dir p old)
     = lines_of dir al + weight dir p t"
proof (induction al)
  case (Cons a al)
  obtain q u where a: "a = (q, u)" by (cases a)
  have "lines_of dir ((q, u) # xs) = weight dir q u + lines_of dir xs" for u xs by (simp add: lines_of_def)
  with Cons a show ?case by (cases "q = p") (simp_all add: ac_simps)
qed (simp add: lines_of_def)

lemma lines_of_new: "map_of al p = None \<Longrightarrow> lines_of dir (AList.update p t al) = lines_of dir al + weight dir p t"
  using lines_of_update [of dir p t al] by simp

lemma lines_of_delete:
  "distinct (map fst al) \<Longrightarrow> lines_of dir (AList.delete p al) + (case map_of al p of None \<Rightarrow> {#} | Some old \<Rightarrow> weight dir p old)
     = lines_of dir al"
proof (induction al)
  case (Cons a al)
  obtain q u where a: "a = (q, u)" by (cases a)
  have s: "lines_of dir ((q, u) # xs) = weight dir q u + lines_of dir xs" for xs by (simp add: lines_of_def)
  show ?case
  proof (cases "q = p")
    case True
    with Cons.prems a have "p \<notin> fst ` set al" by auto
    then have "AList.delete p al = al" by (simp add: delete_id)
    with True show ?thesis unfolding a s by (simp add: ac_simps)
  next
    case False
    with Cons show ?thesis unfolding a by (simp add: s ac_simps)
  qed
qed (simp add: lines_of_def)

lemma set_update_subset: "set (AList.update k x al) \<subseteq> insert (k, x) (set al)"
  using update_members by fastforce

lemma closed_update:
  assumes "\<forall>(path, text) \<in> set al. closed (Some text)" "closed (Some t)"
  shows "\<forall>(path, text) \<in> set (AList.update p t al). closed (Some text)"
  using assms set_update_subset [of p t al] by fastforce

lemma closed_delete:
  "\<forall>(path, text) \<in> set al. closed (Some text) \<Longrightarrow> \<forall>(path, text) \<in> set (AList.delete p al). closed (Some text)"
  by (auto simp: AList.delete_eq)

text \<open>The part a roll-over freezes the head into is a new file.\<close>

lemma parse_u32_format:
  assumes "n \<le> 4294967295" shows "parse_u32 (format_width 4 (int n)) = Some n"
proof -
  have d: "list_all is_ascii_digit (format_width 4 (int n))" "nat_of_digits (format_width 4 (int n)) = n"
    "format_width 4 (int n) \<noteq> []"
    using format_width_digits [of "int n" 4] by simp_all
  then have "hd (format_width 4 (int n)) \<noteq> CHR ''+''"
    by (cases "format_width 4 (int n)") (auto simp: is_ascii_digit_def byte_of_def)
  with d assms show ?thesis by (simp add: parse_u32_def parse_digits_def)
qed

lemma part_name:
  assumes "n \<le> 4294967295"
  shows "part_number (dir @ [TIMELINE_PART @ format_width 4 (int n) @ ''.md'']) = Some n"
    "extension (TIMELINE_PART @ format_width 4 (int n) @ ''.md'') = Some ''md''"
proof -
  have "rsplit_once ((TIMELINE_PART @ format_width 4 (int n)) @ ''.'' @ ''md'') ''.'' = Some (TIMELINE_PART @ format_width 4 (int n), ''md'')"
    by (rule rsplit_once_last) simp_all
  then have r: "rsplit_once (TIMELINE_PART @ format_width 4 (int n) @ ''.md'') ''.'' = Some (TIMELINE_PART @ format_width 4 (int n), ''md'')"
    by simp
  moreover have ne: "TIMELINE_PART @ format_width 4 (int n) \<noteq> []" by (simp add: TIMELINE_PART_def)
  moreover have nd: "TIMELINE_PART @ format_width 4 (int n) @ ''.md'' \<noteq> ''..''" by (simp add: TIMELINE_PART_def)
  ultimately have "file_stem (TIMELINE_PART @ format_width 4 (int n) @ ''.md'') = TIMELINE_PART @ format_width 4 (int n)"
    unfolding file_stem_def by simp
  then show "part_number (dir @ [TIMELINE_PART @ format_width 4 (int n) @ ''.md'']) = Some n"
    using parse_u32_format [OF assms] strip_prefix_iff [of TIMELINE_PART "TIMELINE_PART @ format_width 4 (int n)" "format_width 4 (int n)"]
    by (simp add: part_number_def)
  show "extension (TIMELINE_PART @ format_width 4 (int n) @ ''.md'') = Some ''md''"
    using r ne nd unfolding extension_def by simp
qed

lemma set_map_filter: "k \<in> set (List.map_filter f xs) \<longleftrightarrow> (\<exists>x \<in> set xs. f x = Some k)"
  by (force simp: List.map_filter_def)

lemma foldr_max_ge: "k \<in> set ns \<Longrightarrow> k \<le> foldr max ns (0 :: nat)"
  by (induction ns) auto

lemma foldr_max_less: "\<forall>k \<in> set ns. k < m \<Longrightarrow> 0 < m \<Longrightarrow> foldr max ns (0 :: nat) < m"
  by (induction ns) auto

lemma next_part_new:
  assumes "room (Suc n) v"
    and part_def: "part = dir @ [TIMELINE_PART @ format_width 4 (int (next_part_number dir v)) @ ''.md'']"
  shows "part \<notin> fst ` set (va_entities v)" "\<exists>k. part_number part = Some k \<and> k + n < 2 ^ 32 - 1"
proof -
  let ?ns = "List.map_filter part_number (walk_files ''md'' (files_under dir v))"
  let ?k = "foldr max ?ns 0 + 1"
  have listed: "path \<in> set (walk_files ''md'' (files_under dir v))"
    if "path \<in> fst ` set (va_entities v)" "take (length dir) path = dir" "path \<noteq> []" "extension (List.last path) = Some ''md''" for path
    using that by (auto simp: set_walk_files files_under_def)
  have "\<forall>k \<in> set ?ns. k < 2 ^ 32 - 1 - Suc n"
    using assms(1) by (fastforce simp: room_def set_map_filter set_walk_files files_under_def image_iff)
  then have less: "foldr max ?ns 0 < 2 ^ 32 - 1 - Suc n"
    using assms(1) by (intro foldr_max_less) (auto simp: room_def)
  then have k: "?k + n < 2 ^ 32 - 1" by simp
  then have nxt: "next_part_number dir v = ?k" by (simp add: next_part_number_def)
  have le: "?k \<le> 4294967295" using k by simp
  have num: "part_number part = Some ?k" unfolding part_def nxt by (rule part_name(1) [OF le])
  then show "\<exists>k. part_number part = Some k \<and> k + n < 2 ^ 32 - 1" using k by blast
  show "part \<notin> fst ` set (va_entities v)"
  proof
    assume "part \<in> fst ` set (va_entities v)"
    from listed [OF this] have "part \<in> set (walk_files ''md'' (files_under dir v))"
      unfolding part_def nxt using part_name(2) [OF le] by simp
    with num have "?k \<in> set ?ns" by (auto simp: set_map_filter)
    from foldr_max_ge [OF this] show False by simp
  qed
qed

lemma room_head: "part_number (dir @ [TIMELINE_HEAD]) = None"
proof -
  have "strip_prefix TIMELINE_PART (file_stem TIMELINE_HEAD) = None" by code_simp
  then show ?thesis by (simp add: part_number_def)
qed

lemma room_less: "room (Suc n) v \<Longrightarrow> room n v"
  unfolding room_def by fastforce

lemma room_mono:
  assumes "room n v" "fst ` set (va_entities v') \<subseteq> insert p (fst ` set (va_entities v))"
    and "\<forall>k. part_number p = Some k \<longrightarrow> k + n < 2 ^ 32 - 1"
  shows "room n v'"
  unfolding room_def using assms by (auto simp: room_def)

lemma keys_update: "fst ` set (AList.update k x al) \<subseteq> insert k (fst ` set al)"
  using set_update_subset [of k x al] by auto

lemma keys_delete: "fst ` set (AList.delete k al) \<subseteq> fst ` set al"
  by (auto simp: AList.delete_eq)

text \<open>A roll-over loses no line and makes none.\<close>

definition same_lines :: "nat \<Rightarrow> vault \<Rightarrow> vault \<Rightarrow> bool" where
  "same_lines n v v' \<longleftrightarrow> timelines_ok v' \<and> room n v' \<and> (\<forall>dir. dir_lines dir v' = dir_lines dir v)
     \<and> va_store v' = va_store v"

lemma head_is_full_reads [intro, simp]: "reads_only (head_is_full kp head)"
  unfolding head_is_full_def by (intro reads_only_next reads_only_can) (simp add: reads_only_def)

lemma roll_over_lines:
  assumes "roll_over kp dir (dir @ [TIMELINE_HEAD]) v = (r, v')" "timelines_ok v" "room (Suc n) v"
  shows "same_lines n v v'"
proof -
  let ?head = "dir @ [TIMELINE_HEAD]"
  define part where "part = dir @ [TIMELINE_PART @ format_width 4 (int (next_part_number dir v)) @ ''.md'']"
  have nd: "distinct (map fst (va_entities v))" "\<forall>(path, text) \<in> set (va_entities v). closed (Some text)"
    using assms(2) by (auto simp: timelines_ok_def)
  note new = next_part_new [OF assms(3) part_def]
  have unchanged: "same_lines n v v" using assms(2) room_less [OF assms(3)] by (simp add: same_lines_def)
  have other: "part \<noteq> ?head" using new(2) room_head [of dir] by auto
  have moved: "same_lines n v (v\<lparr>va_entities := AList.update part t (AList.delete ?head (va_entities v))\<rparr>)"
    "same_lines n v (v\<lparr>va_entities := AList.update ?head [] (AList.update part t (AList.delete ?head (va_entities v)))\<rparr>)"
    if t: "map_of (va_entities v) ?head = Some t" for t
  proof -
    let ?al = "AList.delete ?head (va_entities v)"
    let ?v1 = "v\<lparr>va_entities := AList.update part t ?al\<rparr>"
    have c: "closed (Some t)" using nd(2) map_of_SomeD [OF t] by auto
    have fresh: "map_of ?al part = None"
      using new(1) by (auto simp: delete_conv' map_of_eq_None_iff)
    have "dir_lines d ?v1 = dir_lines d v" for d
      using lines_of_delete [OF nd(1), of d ?head] lines_of_new [OF fresh, of d t] t
      by (simp add: dir_lines_def part_def)
    moreover have "timelines_ok ?v1"
      using nd closed_update [OF closed_delete [OF nd(2)] c] by (simp add: timelines_ok_def distinct_update distinct_delete)
    moreover have r1: "room n ?v1"
    proof (rule room_mono [OF room_less [OF assms(3)], where p = part])
      show "fst ` set (va_entities ?v1) \<subseteq> insert part (fst ` set (va_entities v))"
        using subset_trans [OF keys_update [of part t ?al] insert_mono [OF keys_delete]] by simp
    qed (use new(2) in auto)
    ultimately show 1: "same_lines n v ?v1" by (simp add: same_lines_def)
    let ?v2 = "v\<lparr>va_entities := AList.update ?head [] (AList.update part t ?al)\<rparr>"
    have "map_of (AList.update part t ?al) ?head = None" using other by (simp add: update_conv' delete_conv')
    from lines_of_new [OF this, of _ "[]"] have "dir_lines d ?v2 = dir_lines d ?v1" for d by (simp add: dir_lines_def)
    moreover have "timelines_ok ?v2"
      using 1 closed_update [of "AList.update part t ?al" "[]" ?head]
      by (simp add: same_lines_def timelines_ok_def distinct_update closed_def)
    moreover have "room n ?v2"
      by (rule room_mono [OF r1, where p = ?head])
        (use keys_update [of ?head "[]" "AList.update part t ?al"] in \<open>simp_all add: room_head\<close>)
    ultimately show "same_lines n v ?v2" using 1 by (simp add: same_lines_def)
  qed
  show ?thesis
    using assms(1) unchanged moved unfolding roll_over_def part_def [symmetric] Let_def
    by (auto simp: next_op_def can_def lift_result_def part_def [symmetric] split: result.splits option.splits prod.splits)
qed

lemma cancel_middle: "a + c = b + (c + d) \<Longrightarrow> a = b + (d :: 'a multiset)"
proof -
  assume "a + c = b + (c + d)"
  then have "a + c = (b + d) + c" by (simp add: ac_simps)
  then show "a = b + d" by simp
qed

lemma head_written_lines:
  assumes "str_lines t = file_lines (map_of al (dir @ [TIMELINE_HEAD])) @ ls"
  shows "lines_of d (AList.update (dir @ [TIMELINE_HEAD]) t al) = lines_of d al + (if d = dir then mset ls else {#})"
proof -
  let ?head = "dir @ [TIMELINE_HEAD]" and ?old = "map_of al (dir @ [TIMELINE_HEAD])"
  define old where "old = (case ?old of None \<Rightarrow> {#} | Some text \<Rightarrow> weight d ?head text)"
  have "weight d ?head t = old + (if d = dir then mset ls else {#})"
    using assms by (cases ?old) (auto simp: old_def file_lines_def)
  then have "lines_of d (AList.update ?head t al) + old = lines_of d al + (old + (if d = dir then mset ls else {#}))"
    using lines_of_update [of d ?head t al] unfolding old_def by simp
  then show ?thesis by (rule cancel_middle)
qed

text \<open>An append puts the line behind the others, or fails and leaves its start there.\<close>

lemma append_file_cases [consumes 5, case_names whole part]:
  assumes "append_file kp (dir @ [TIMELINE_HEAD]) line v = (r, v')" "timelines_ok v" "room n v"
    and "CHR 0x0A \<notin> set line" "strip_cr line = line"
  obtains (whole) "timelines_ok v'" "room n v'" "va_store v' = va_store v"
      "\<And>d. dir_lines d v' = dir_lines d v + (if d = dir then {#line#} else {#})"
  | (part) e s rest where "r = Err e" "line = s @ rest" "room n v'" "va_store v' = va_store v"
      "\<And>d. dir_lines d v' = dir_lines d v + (if d = dir \<and> s \<noteq> [] then {#s#} else {#})"
proof -
  let ?head = "dir @ [TIMELINE_HEAD]" and ?old = "map_of (va_entities v) (dir @ [TIMELINE_HEAD])"
  obtain new where a: "append_line_sync kp ?head line ?old = (r, new)"
    "v' = (case new of None \<Rightarrow> v | Some t \<Rightarrow> v\<lparr>va_entities := AList.update ?head t (va_entities v)\<rparr>)"
    using assms(1) by (auto simp: append_file_def split: prod.splits)
  have c: "closed ?old" using assms(2) map_of_SomeD [of "va_entities v" ?head] by (cases ?old) (auto simp: closed_def timelines_ok_def)
  have store: "va_store v' = va_store v" by (simp add: a(2) split: option.split)
  have roomy: "room n v'"
  proof (cases new)
    case (Some t)
    show ?thesis
      by (rule room_mono [OF assms(3), where p = ?head])
        (use keys_update [of ?head t "va_entities v"] a(2) Some in \<open>simp_all add: room_head\<close>)
  qed (use a(2) assms(3) in simp)
  from a(1) show ?thesis
  proof (cases rule: append_line_sync_cases)
    case appended
    then obtain t where t: "new = Some t" "t = text_of ?old @ line @ newline" by (cases new) auto
    have l: "str_lines t = file_lines ?old @ [line]"
      using file_lines_append_line [OF c assms(4)] assms(5) t(2) by (simp add: file_lines_text append_line_def)
    have "closed (Some t)" by (simp add: t(2) closed_def)
    with closed_update [of "va_entities v" t ?head] assms(2) a(2) t(1) have "timelines_ok v'"
      by (simp add: timelines_ok_def distinct_update)
    then show ?thesis
      using whole roomy store head_written_lines [OF l] a(2) t(1) by (simp add: dir_lines_def)
  next
    case (untouched e)
    then have "v' = v" using a(2) by (cases ?old) (simp_all add: update_triv)
    with untouched(1) part [of e "[]" line] assms(3) show ?thesis by simp
  next
    case (cut e s rest)
    show ?thesis
    proof (cases new)
      case None
      with cut a(2) part [of e "[]" line] assms(3) show ?thesis by simp
    next
      case (Some t)
      have "str_lines s = (if s = [] then [] else [s])" using assms(4) cut(2) by (simp add: lines_no_newline)
      moreover have "str_lines (text_of ?old @ s) = str_lines (text_of ?old) @ str_lines s"
        using c by (intro lines_closed_append) (cases ?old; simp add: closed_def)
      ultimately have l: "str_lines t = file_lines ?old @ (if s = [] then [] else [s])"
        using cut(3) Some by (simp add: file_lines_text)
      have "dir_lines d v' = dir_lines d v + (if d = dir \<and> s \<noteq> [] then {#s#} else {#})" for d
        using head_written_lines [OF l, of d] a(2) Some by (simp add: dir_lines_def)
      with part [OF cut(1,2) roomy store] show ?thesis by blast
    qed
  qed
qed

text \<open>
  What listing a record under some entities does: a row and a line for each, in step, and whatever of one
  more line an append that failed has left.
\<close>

definition listed ::
  "string \<Rightarrow> (string \<times> string \<times> string) list \<Rightarrow> string list \<Rightarrow> string \<Rightarrow> vault \<Rightarrow> vault \<Rightarrow> bool" where
  "listed line new here s v v' \<longleftrightarrow> distinct new \<and> set new \<inter> set (mentions v) = {}
     \<and> va_store v' = (va_store v)\<lparr>st_index := (st_index (va_store v))\<lparr>timeline_mentions := mentions v @ new\<rparr>\<rparr>
     \<and> (\<forall>dir. dir_lines dir v' = dir_lines dir v
          + replicate_mset (length (filter (\<lambda>(i, k, e). entity_dir k e = dir) new)) line
          + (if dir = here \<and> s \<noteq> [] then {#s#} else {#}))"

lemma listed_none:
  assumes "va_store v' = va_store v" "\<And>dir. dir_lines dir v' = dir_lines dir v" shows "listed line [] here [] v v'"
  using assms by (simp add: listed_def)

lemma replicate_mset_plus: "replicate_mset (a + b) x = replicate_mset a x + replicate_mset b x"
  by (induction a) simp_all

lemma listed_trans:
  assumes "listed line a there [] u v" "listed line b here s v w" shows "listed line (a @ b) here s u w"
proof -
  have m: "mentions v = mentions u @ a" using assms(1) by (simp add: listed_def)
  with assms(2) have "set b \<inter> set a = {}" "set b \<inter> set (mentions u) = {}" by (auto simp: listed_def)
  moreover have "dir_lines d w = dir_lines d u
      + replicate_mset (length (filter (\<lambda>(i, k, e). entity_dir k e = d) (a @ b))) line
      + (if d = here \<and> s \<noteq> [] then {#s#} else {#})" for d
    using assms by (simp add: listed_def replicate_mset_plus)
  ultimately show ?thesis using assms m unfolding listed_def by auto
qed

lemma timeline_line_same: "timeline_line rec e = timeline_line rec e'"
  by (simp add: timeline_line_def wl_render_def)

lemma timeline_line_strip: "strip_cr (timeline_line rec e) = timeline_line rec e"
proof -
  have "List.last (timeline_line rec e) = List.last (outcome_text (outcome rec))"
    by (cases "outcome rec") (simp_all add: timeline_line_def outcome_text_def)
  also have "\<dots> \<noteq> CHR 0x0D" by (cases "outcome rec") (simp_all add: outcome_text_def)
  finally show ?thesis by (simp add: strip_cr_def)
qed

text \<open>One more run of the job, as far as it came.\<close>

definition listing ::
  "nat \<Rightarrow> string \<Rightarrow> (string \<times> string \<times> string) set \<Rightarrow> (unit, core_error) result \<Rightarrow> vault \<Rightarrow> vault \<Rightarrow> bool" where
  "listing n line rows r v v' \<longleftrightarrow> (\<exists>new here s rest. line = s @ rest \<and> set new \<subseteq> rows \<and> listed line new here s v v'
     \<and> (r = Ok () \<longrightarrow> s = [] \<and> timelines_ok v' \<and> room n v' \<and> rows \<subseteq> set (mentions v')))"

lemma commit_index_cases [consumes 1, case_names failed committed]:
  assumes "commit_index kp what idx v = (r, v')"
  obtains (failed) "r = Err (CoreStore SqliteFailed)" "v' = v"
  | (committed) "r = Ok ()" "v' = v\<lparr>va_store := (va_store v)\<lparr>st_index := idx\<rparr>\<rparr>"
  using assms by (auto simp: commit_index_def next_op_def rows_written_def lift_result_def split: if_splits)

lemma append_timeline_listing:
  assumes "append_timeline kp rec e v = (r, v')" "timelines_ok v" "room (Suc n) v" "CHR 0x0A \<notin> set (timeline_line rec e)"
  shows "listing n (timeline_line rec e) {(doc_id rec, ent_kind e, ent_id e)} r v v'"
proof -
  let ?dir = "entity_dir (ent_kind e) (ent_id e)" and ?row = "(doc_id rec, ent_kind e, ent_id e)"
    and ?line = "timeline_line rec e"
  let ?goal = "listing n ?line {?row} r v v'"
  let ?step = "\<lambda>_ v. (case claim_timeline_mention (doc_id rec) (ent_kind e) (ent_id e) (st_index (va_store v)) of
              Err err \<Rightarrow> (Err (CoreStore err), v)
            | Ok None \<Rightarrow> (Ok (), v)
            | Ok (Some idx) \<Rightarrow>
                next_op (append_file kp (?dir @ [TIMELINE_HEAD]) ?line) (\<lambda>_.
                  commit_index kp [doc_id rec, ent_kind e, ent_id e] idx) v)"
  have stalled: ?goal if "same_lines n v v'" "r \<noteq> Ok ()"
    unfolding listing_def using that listed_none [of v' v]
    by (intro exI [of _ "[]"] exI [of _ "?line"]) (simp add: same_lines_def)
  have same: "same_lines n v v" using assms(2) room_less [OF assms(3)] by (simp add: same_lines_def)
  have rolled: "same_lines n v u" if "(if full then roll_over kp ?dir (?dir @ [TIMELINE_HEAD]) else give ()) v = (q, u)" for full q u
    using that roll_over_lines [OF _ assms(2,3)] same by (cases full) auto
  have stepped: ?goal if u: "same_lines n v u" and s: "?step x u = (r, v')" for u x
  proof -
    have ok: "timelines_ok u" "room n u" using u by (simp_all add: same_lines_def)
    have lu: "listed ?line [] here [] v u" for here using u by (intro listed_none) (simp_all add: same_lines_def)
    show ?thesis
    proof (cases "claim_timeline_mention (doc_id rec) (ent_kind e) (ent_id e) (st_index (va_store u))")
      case (Err err)
      with s have same: "v' = u" "r = Err (CoreStore err)" by auto
      show ?thesis by (rule stalled) (use u same in simp_all)
    next
      case (Ok claim)
      show ?thesis
      proof (cases claim)
        case None
        with s Ok have v': "v' = u" "r = Ok ()" by simp_all
        have "?row \<in> set (mentions u)" using Ok None by (auto simp: claim_timeline_mention_def split: if_splits)
        with ok lu v' show ?thesis unfolding listing_def
          by (intro exI [of _ "[]"] exI [of _ "?line"]) simp
      next
        case (Some idx)
        have idx: "idx = (st_index (va_store u))\<lparr>timeline_mentions := mentions u @ [?row]\<rparr>" "?row \<notin> set (mentions u)"
          using Ok Some by (auto simp: claim_timeline_mention_def split: if_splits)
        from s Ok Some have "next_op (append_file kp (?dir @ [TIMELINE_HEAD]) ?line) (\<lambda>_.
            commit_index kp [doc_id rec, ent_kind e, ent_id e] idx) u = (r, v')" by simp
        then obtain q w where a: "append_file kp (?dir @ [TIMELINE_HEAD]) ?line u = (q, w)"
          "q = Ok () \<and> commit_index kp [doc_id rec, ent_kind e, ent_id e] idx w = (r, v')
           \<or> q \<noteq> Ok () \<and> r \<noteq> Ok () \<and> v' = w"
          by (cases rule: next_op_cases) auto
        have left: ?goal if "listed ?line [] ?dir s u w" "?line = s @ rest" "v' = w" "r \<noteq> Ok ()" for s rest
          unfolding listing_def using listed_trans [OF lu that(1)] that(2-4)
          by (intro exI [of _ "[]"] exI [of _ ?dir] exI [of _ s] exI [of _ rest]) simp
        from a(1) ok assms(4) timeline_line_strip show ?thesis
        proof (cases rule: append_file_cases)
          case whole
          have "listed ?line [] ?dir ?line u w" using whole idx by (simp add: listed_def timeline_line_def)
          note left = left [OF this, of "[]", simplified]
          have listing: ?goal if c: "v' = w\<lparr>va_store := (va_store w)\<lparr>st_index := idx\<rparr>\<rparr>" "r = Ok ()"
          proof -
            have "listed ?line [?row] ?dir [] u v'" using whole idx c by (auto simp: listed_def dir_lines_def)
            from listed_trans [OF lu this] have "listed ?line [?row] ?dir [] v v'" by simp
            moreover have "timelines_ok v'" "room n v'" using whole c by (simp_all add: timelines_ok_def room_def)
            moreover have "?row \<in> set (mentions v')" using c idx by simp
            ultimately show ?thesis unfolding listing_def using c
              by (intro exI [of _ "[?row]"] exI [of _ ?dir] exI [of _ "[]"] exI [of _ ?line]) simp
          qed
          show ?thesis using a(2)
          proof (elim disjE conjE)
            assume "commit_index kp [doc_id rec, ent_kind e, ent_id e] idx w = (r, v')"
            then show ?thesis by (cases rule: commit_index_cases) (use left listing in simp_all)
          qed (use left in simp)
        next
          case (part err s rest)
          have "listed ?line [] ?dir s u w" using part by (simp add: listed_def)
          with left part(1,2) a(2) show ?thesis by auto
        qed
      qed
    qed
  qed
  from assms(1) have "next_op (can kp MakeDir ?dir) (\<lambda>_.
         next_op (head_is_full kp (?dir @ [TIMELINE_HEAD])) (\<lambda>full.
         next_op (if full then roll_over kp ?dir (?dir @ [TIMELINE_HEAD]) else give ()) ?step)) v = (r, v')"
    unfolding append_timeline_def Let_def .
  from this reads_only_can show ?thesis
  proof (cases rule: next_op_read)
    case stopped
    with stalled same show ?thesis by simp
  next
    case (went_on y)
    from went_on(2) head_is_full_reads show ?thesis
    proof (cases rule: next_op_read)
      case stopped
      with stalled same show ?thesis by simp
    next
      case (went_on full)
      from went_on(2) show ?thesis
      proof (cases rule: next_op_cases)
        case (stopped err)
        from stalled rolled [OF stopped(1)] stopped(2) show ?thesis by simp
      next
        case (went_on y u)
        from stepped [OF rolled [OF went_on(1)] went_on(2)] show ?thesis .
      qed
    qed
  qed
qed

lemma append_all_listing:
  assumes "fold_op (\<lambda>_ e. append_timeline kp rec e) () es v = (r, v')" "timelines_ok v" "room (length es) v"
    and "CHR 0x0A \<notin> set (timeline_line rec e0)"
  shows "listing 0 (timeline_line rec e0) ((\<lambda>e. (doc_id rec, ent_kind e, ent_id e)) ` set es) r v v'"
  using assms(1-3)
proof (induction es arbitrary: v)
  case Nil
  then show ?case unfolding listing_def using listed_none [of v' v "timeline_line rec e0"]
    by (intro exI [of _ "[]"] exI [of _ "timeline_line rec e0"]) simp
next
  case (Cons e es)
  let ?line = "timeline_line rec e0" and ?row = "\<lambda>e. (doc_id rec, ent_kind e, ent_id e)"
  have l: "timeline_line rec e = ?line" by (rule timeline_line_same)
  have step: "listing (length es) ?line {?row e} q v w" if "append_timeline kp rec e v = (q, w)" for q w
    using append_timeline_listing [OF that Cons.prems(2), of "length es"] Cons.prems(3) assms(4) by (simp add: l)
  from Cons.prems(1) have "next_op (append_timeline kp rec e) (\<lambda>b. fold_op (\<lambda>_ e. append_timeline kp rec e) b es) v = (r, v')" by simp
  then show ?case
  proof (cases rule: next_op_cases)
    case (stopped err)
    from step [OF stopped(1)] stopped(2) show ?thesis unfolding listing_def by fastforce
  next
    case (went_on u w)
    from step [OF went_on(1)] obtain new here where n: "set new \<subseteq> {?row e}" "listed ?line new here [] v w"
      "timelines_ok w" "room (length es) w" "?row e \<in> set (mentions w)" unfolding listing_def by auto
    from Cons.IH [of w] went_on(2) n(3,4) have "listing 0 ?line (?row ` set es) r w v'" by simp
    then obtain new' here' s rest where n': "?line = s @ rest" "set new' \<subseteq> ?row ` set es"
      "listed ?line new' here' s w v'"
      "r = Ok () \<longrightarrow> s = [] \<and> timelines_ok v' \<and> room 0 v' \<and> ?row ` set es \<subseteq> set (mentions v')"
      unfolding listing_def by (elim exE conjE)
    have "set (mentions w) \<subseteq> set (mentions v')" using n'(3) by (auto simp: listed_def)
    with n'(4) n(5) have "r = Ok () \<longrightarrow> s = [] \<and> timelines_ok v' \<and> room 0 v' \<and> ?row ` set (e # es) \<subseteq> set (mentions v')"
      by auto
    moreover have "set (new @ new') \<subseteq> ?row ` set (e # es)" using n(1) n'(2) by auto
    moreover note listed_trans [OF n(2) n'(3)] n'(1)
    ultimately show ?thesis unfolding listing_def by blast
  qed
qed

section \<open>Settling a job\<close>

text \<open>A job's own work touches neither the queue nor the dead letters.\<close>

abbreviation queue :: "vault \<Rightarrow> job_row list" where
  "queue v \<equiv> fanout_queue (st_index (va_store v))"

definition same_queue :: "vault \<Rightarrow> vault \<Rightarrow> bool" where
  "same_queue v v' \<longleftrightarrow> queue v' = queue v \<and> va_dead v' = va_dead v"

definition keeps_queue :: "('a, vault) operation \<Rightarrow> bool" where
  "keeps_queue m \<longleftrightarrow> (\<forall>q d. preserves (\<lambda>v. queue v = q \<and> va_dead v = d) m)"

named_theorems queue_intros \<open>introduction rules for keeps_queue\<close>

lemma keeps_queueD: "keeps_queue m \<Longrightarrow> m v = (r, v') \<Longrightarrow> same_queue v v'"
  unfolding keeps_queue_def preserves_def same_queue_def by blast

lemma keeps_queueI: "(\<And>v r v'. m v = (r, v') \<Longrightarrow> same_queue v v') \<Longrightarrow> keeps_queue m"
  unfolding keeps_queue_def preserves_def same_queue_def by auto

lemma keeps_queue_reads: "reads_only m \<Longrightarrow> keeps_queue m"
  unfolding keeps_queue_def by (simp add: preserves_reads_only)

lemma keeps_queue_basic [queue_intros]: "keeps_queue (give a)" "keeps_queue (lift_result r)" "keeps_queue (can kp act path)"
  by (simp_all add: keeps_queue_reads)

lemma keeps_queue_next [queue_intros]: "keeps_queue m \<Longrightarrow> (\<And>a. keeps_queue (f a)) \<Longrightarrow> keeps_queue (next_op m f)"
  unfolding keeps_queue_def by (blast intro: preserves_next)

lemma keeps_queue_fold [queue_intros]: "(\<And>a x. keeps_queue (f a x)) \<Longrightarrow> keeps_queue (fold_op f a xs)"
  unfolding keeps_queue_def by (blast intro: preserves_fold)

lemma keeps_queue_roll: "keeps_queue (roll_over kp dir head)"
  by (rule keeps_queueI) (auto simp: same_queue_def roll_over_def next_op_def can_def lift_result_def Let_def
      split: result.splits option.splits prod.splits)

lemma keeps_queue_append: "keeps_queue (append_timeline kp rec e)"
proof -
  have step: "keeps_queue (\<lambda>v. (case claim_timeline_mention (doc_id rec) (ent_kind e) (ent_id e) (st_index (va_store v)) of
              Err err \<Rightarrow> (Err (CoreStore err), v)
            | Ok None \<Rightarrow> (Ok (), v)
            | Ok (Some idx) \<Rightarrow> next_op (append_file kp path line) (\<lambda>_. commit_index kp what idx) v))" for path line what
    by (rule keeps_queueI) (auto simp: same_queue_def claim_timeline_mention_def append_file_def next_op_def lift_result_def
        commit_index_def rows_written_def split: result.splits option.splits prod.splits if_splits)
  show ?thesis unfolding append_timeline_def Let_def
    by (intro keeps_queue_next keeps_queue_basic keeps_queue_reads [OF head_is_full_reads] step)
      (simp add: keeps_queue_roll keeps_queue_basic split: if_split)
qed

lemma keeps_queue_run: "keeps_queue (run_job kp job located archived)"
proof -
  have "keeps_queue (write_subject_audit kp rec)" for rec
  proof -
    have "keeps_queue (\<lambda>v. (Ok (), v\<lparr>va_audit := f v\<rparr>))" for f by (rule keeps_queueI) (auto simp: same_queue_def)
    then show ?thesis by (auto simp: write_subject_audit_def Let_def intro!: queue_intros)
  qed
  moreover have "keeps_queue (append_timelines kp rec)" for rec
    unfolding append_timelines_def by (intro queue_intros keeps_queue_append)
  ultimately show ?thesis unfolding run_job_def
    by (auto intro!: queue_intros keeps_queue_reads [OF reads_only_read_record] split: option.split)
qed

definition letter :: "job_row \<Rightarrow> string" where
  "letter job = job_record job @ ''.'' @ job_kind job"

definition letters :: "vault \<Rightarrow> string set" where
  "letters v = fst ` set (va_dead v)"

lemma letters_index [simp]: "letters (v\<lparr>va_store := w\<rparr>) = letters v"
  by (simp add: letters_def)

lemma dead_letter_Ok:
  assumes "dead_letter kp job reason v = (Ok u, v')"
  shows "queue v' = queue v" "letters v' = insert (letter job) (letters v)"
  using assms by (auto simp: letters_def dead_letter_def Let_def next_op_Ok letter_def dom_map_of_conv_image_fst [symmetric] update_conv')

text \<open>What a drain leaves of a job it claimed; a job done without its work has left a letter.\<close>

definition settled_row :: "int \<Rightarrow> job_row \<Rightarrow> job_row \<Rightarrow> bool" where
  "settled_row now j j' \<longleftrightarrow> job_id j' = job_id j \<and> job_record j' = job_record j \<and> job_kind j' = job_kind j
     \<and> job_attempts j' = job_attempts j \<and> job_claimed_ms j' = None
     \<and> (job_state j' = Done
        \<or> job_state j' = Pending \<and> job_attempts j < FANOUT_MAX_ATTEMPTS
            \<and> job_not_before_ms j' = now + backoff_ms (job_attempts j))"

text \<open>
  The record a job is about, as the tree or the archive has it, and its work: a row for every entity, or the
  audit file.
\<close>

definition source_of ::
  "('a keeper_scheme) \<Rightarrow> (string, action_record) btree \<Rightarrow> string \<Rightarrow> vault \<Rightarrow> action_record option" where
  "source_of kp archived rid v =
     (case map_of (locate_records v) rid of
        None \<Rightarrow> map_of archived rid
      | Some path \<Rightarrow>
          (case map_of (st_records (va_store v)) path of
             None \<Rightarrow> None
           | Some (text, _) \<Rightarrow> (case parse_doc kp text of Err _ \<Rightarrow> None | Ok d \<Rightarrow> Some (doc_record d))))"

definition work_done :: "job_row \<Rightarrow> action_record \<Rightarrow> vault \<Rightarrow> bool" where
  "work_done j rec v \<longleftrightarrow>
     (if job_kind j = JOB_BUNDLE then \<forall>e \<in> set (entities rec). (doc_id rec, ent_kind e, ent_id e) \<in> set (mentions v)
      else job_kind j = JOB_SUBJECT_LINK
        \<and> (subjects rec = [] \<or> [AUDIT_DIR, ''subjects'', record_file (doc_id rec)] \<in> fst ` set (va_audit v)))"

definition worked :: "('a keeper_scheme) \<Rightarrow> (string, action_record) btree \<Rightarrow> job_row \<Rightarrow> vault \<Rightarrow> bool" where
  "worked kp archived j v \<longleftrightarrow> (\<exists>rec. source_of kp archived (job_record j) v = Some rec \<and> work_done j rec v)"

text \<open>What a drain only adds to.\<close>

definition grown :: "vault \<Rightarrow> vault \<Rightarrow> bool" where
  "grown v v' \<longleftrightarrow> st_records (va_store v') = st_records (va_store v) \<and> set (mentions v) \<subseteq> set (mentions v')
     \<and> fst ` set (va_audit v) \<subseteq> fst ` set (va_audit v') \<and> letters v \<subseteq> letters v'"

definition grows :: "('a, vault) operation \<Rightarrow> bool" where
  "grows m \<longleftrightarrow> (\<forall>v r v'. m v = (r, v') \<longrightarrow> grown v v')"

named_theorems grows_intros \<open>introduction rules for grows\<close>

lemma grown_refl [simp]: "grown v v"
  by (simp add: grown_def)

lemma grown_trans: "grown u v \<Longrightarrow> grown v w \<Longrightarrow> grown u w"
  unfolding grown_def by (metis subset_trans)

lemma growsD: "grows m \<Longrightarrow> m v = (r, v') \<Longrightarrow> grown v v'"
  by (simp add: grows_def)

lemma growsI: "(\<And>v r v'. m v = (r, v') \<Longrightarrow> grown v v') \<Longrightarrow> grows m"
  by (simp add: grows_def)

lemma grows_reads: "reads_only m \<Longrightarrow> grows m"
  unfolding grows_def using reads_onlyD grown_refl by metis

lemma grows_basic [grows_intros]:
  "grows (give a)" "grows (lift_result r)" "grows (can kp act path)" "grows (rows_written kp what)"
  by (simp_all add: grows_reads)

lemma grows_next [grows_intros]: "grows m \<Longrightarrow> (\<And>a. grows (f a)) \<Longrightarrow> grows (next_op m f)"
  by (rule growsI) (erule next_op_cases; blast dest: growsD intro: grown_trans)

lemma grows_fold [grows_intros]: "(\<And>a x. grows (f a x)) \<Longrightarrow> grows (fold_op f a xs)"
  by (induction xs arbitrary: a) (auto intro: grows_next grows_basic)

lemma grows_append_timeline: "grows (append_timeline kp rec e)"
proof -
  have step: "grows (\<lambda>v. (case claim_timeline_mention (doc_id rec) (ent_kind e) (ent_id e) (st_index (va_store v)) of
              Err err \<Rightarrow> (Err (CoreStore err), v)
            | Ok None \<Rightarrow> (Ok (), v)
            | Ok (Some idx) \<Rightarrow> next_op (append_file kp path line) (\<lambda>_. commit_index kp what idx) v))" for path line what
    by (rule growsI) (auto simp: grown_def letters_def claim_timeline_mention_def append_file_def next_op_def lift_result_def
        commit_index_def rows_written_def split: result.splits option.splits prod.splits if_splits)
  have roll: "grows (roll_over kp dir head)" for dir head
    by (rule growsI) (auto simp: grown_def letters_def roll_over_def next_op_def can_def lift_result_def Let_def
        split: result.splits option.splits prod.splits)
  show ?thesis unfolding append_timeline_def Let_def
    by (intro grows_next grows_basic grows_reads [OF head_is_full_reads] step)
      (simp add: roll grows_basic split: if_split)
qed

lemma grows_run: "grows (run_job kp job located archived)"
proof -
  have "grows (write_subject_audit kp rec)" for rec
  proof -
    have "grows (\<lambda>v. (Ok (), v\<lparr>va_audit := AList.update path content (va_audit v)\<rparr>))" for path content
      by (rule growsI) (auto simp: grown_def letters_def dom_map_of_conv_image_fst [symmetric] update_conv')
    then show ?thesis by (auto simp: write_subject_audit_def Let_def intro!: grows_intros)
  qed
  moreover have "grows (append_timelines kp rec)" for rec
    unfolding append_timelines_def by (intro grows_intros grows_append_timeline)
  ultimately show ?thesis unfolding run_job_def
    by (auto intro!: grows_intros grows_reads [OF reads_only_read_record] split: option.split)
qed

lemma grown_locate: "grown v v' \<Longrightarrow> locate_records v' = locate_records v"
  by (simp add: grown_def locate_records_def record_paths_def)

lemma grown_source:
  assumes "grown v v'" shows "source_of kp archived rid v' = source_of kp archived rid v"
proof -
  have r: "st_records (va_store v') = st_records (va_store v)" using assms by (simp add: grown_def)
  show ?thesis unfolding source_of_def grown_locate [OF assms] r by (rule refl)
qed

lemma grown_worked:
  assumes "grown v v'" "worked kp archived j v" shows "worked kp archived j v'"
proof -
  have "source_of kp archived rid v' = source_of kp archived rid v" for rid by (rule grown_source [OF assms(1)])
  moreover have "work_done j rec v \<Longrightarrow> work_done j rec v'" for rec
    using assms(1) unfolding work_done_def grown_def by (auto split: if_splits)
  ultimately show ?thesis using assms(2) unfolding worked_def by metis
qed

text \<open>A run that answers has done the work.\<close>

lemma append_timeline_row:
  assumes "append_timeline kp rec e v = (Ok (), v')"
  shows "(doc_id rec, ent_kind e, ent_id e) \<in> set (mentions v')"
proof -
  let ?row = "(doc_id rec, ent_kind e, ent_id e)"
  from assms obtain u where u: "(case claim_timeline_mention (doc_id rec) (ent_kind e) (ent_id e) (st_index (va_store u)) of
              Err err \<Rightarrow> (Err (CoreStore err), u)
            | Ok None \<Rightarrow> (Ok (), u)
            | Ok (Some idx) \<Rightarrow>
                next_op (append_file kp (entity_dir (ent_kind e) (ent_id e) @ [TIMELINE_HEAD]) (timeline_line rec e)) (\<lambda>_.
                  commit_index kp [doc_id rec, ent_kind e, ent_id e] idx) u) = (Ok (), v')"
    unfolding append_timeline_def Let_def next_op_Ok by blast
  show ?thesis
  proof (cases "claim_timeline_mention (doc_id rec) (ent_kind e) (ent_id e) (st_index (va_store u))")
    case (Err err)
    with u show ?thesis by simp
  next
    case (Ok claim)
    show ?thesis
    proof (cases claim)
      case None
      with u Ok show ?thesis by (auto simp: claim_timeline_mention_def split: if_splits)
    next
      case (Some idx)
      with Ok have "?row \<in> set (timeline_mentions idx)" by (auto simp: claim_timeline_mention_def split: if_splits)
      moreover obtain w where "commit_index kp [doc_id rec, ent_kind e, ent_id e] idx w = (Ok (), v')"
        using u Ok Some by (auto simp: next_op_Ok)
      ultimately show ?thesis by (auto simp: commit_index_def next_op_Ok)
    qed
  qed
qed

lemma append_timelines_rows:
  assumes "fold_op (\<lambda>_ e. append_timeline kp rec e) () es v = (Ok (), v')" "e \<in> set es"
  shows "(doc_id rec, ent_kind e, ent_id e) \<in> set (mentions v')"
  using assms
proof (induction es arbitrary: v)
  case (Cons a es)
  from Cons.prems(1) obtain w where w: "append_timeline kp rec a v = (Ok (), w)"
    "fold_op (\<lambda>_ e. append_timeline kp rec e) () es w = (Ok (), v')" by (auto simp: next_op_Ok)
  have "grown w v'" using growsD [OF grows_fold w(2)] grows_append_timeline by blast
  with append_timeline_row [OF w(1)] Cons.IH [OF w(2)] Cons.prems(2) show ?case by (auto simp: grown_def)
qed simp

lemma run_job_works:
  assumes "run_job kp j located archived v = (Ok (), v')" "located = locate_records v"
  shows "worked kp archived j v'"
proof -
  from assms(1) obtain rec u where r: "(case map_of located (job_record j) of
          Some path \<Rightarrow> next_op (read_record kp path) (\<lambda>text. lift_result (and_then (parse_doc kp text) (\<lambda>d. Ok (doc_record d))))
        | None \<Rightarrow> lift_result (ok_or (CoreIo (IoNotFound (job_record j))) (map_of archived (job_record j)))) v = (Ok rec, u)"
    "(if job_kind j = JOB_BUNDLE then append_timelines kp rec
      else if job_kind j = JOB_SUBJECT_LINK then write_subject_audit kp rec
      else lift_result (Err (invalid (UnknownJobKind (job_kind j))))) u = (Ok (), v')"
    unfolding run_job_def next_op_Ok by blast
  have src: "source_of kp archived (job_record j) v = Some rec \<and> u = v"
  proof (cases "map_of located (job_record j)")
    case None
    with r(1) show ?thesis by (cases "map_of archived (job_record j)") (auto simp: source_of_def assms(2))
  next
    case (Some path)
    with r(1) obtain content m where c: "map_of (st_records (va_store v)) path = Some (content, m)"
      "lift_result (and_then (parse_doc kp content) (\<lambda>d. Ok (doc_record d))) v = (Ok rec, u)"
      by (auto simp: next_op_Ok read_record_Ok)
    from c(2) show ?thesis using Some c(1) assms(2) by (cases "parse_doc kp content") (auto simp: source_of_def)
  qed
  have "grown v v'" by (rule growsD [OF grows_run assms(1)])
  then have "source_of kp archived (job_record j) v' = Some rec"
    using src grown_source by metis
  moreover have "work_done j rec v'"
  proof (cases "job_kind j = JOB_BUNDLE")
    case True
    with r(2) have "append_timelines kp rec u = (Ok (), v')" by simp
    note rows = append_timelines_rows [OF this [unfolded append_timelines_def]]
    with True show ?thesis by (simp add: work_done_def)
  next
    case False
    with r(2) have l: "job_kind j = JOB_SUBJECT_LINK" "write_subject_audit kp rec u = (Ok (), v')" by (auto split: if_splits)
    from l(2) have "subjects rec = [] \<or> [AUDIT_DIR, ''subjects'', record_file (doc_id rec)] \<in> fst ` set (va_audit v')"
      by (auto simp: write_subject_audit_def Let_def next_op_Ok dom_map_of_conv_image_fst [symmetric] update_conv'
          split: if_splits)
    with l(1) False show ?thesis by (simp add: work_done_def)
  qed
  ultimately show ?thesis by (simp add: worked_def)
qed

definition accounted :: "('a keeper_scheme) \<Rightarrow> (string, action_record) btree \<Rightarrow> job_row \<Rightarrow> vault \<Rightarrow> bool" where
  "accounted kp archived j v \<longleftrightarrow> (\<exists>j' \<in> set (queue v). settled_row (kp_now kp) j j'
     \<and> (job_state j' = Done \<longrightarrow> worked kp archived j v
          \<or> FANOUT_MAX_ATTEMPTS \<le> job_attempts j \<and> letter j \<in> letters v))"

definition finished :: "job_row \<Rightarrow> vault \<Rightarrow> bool" where
  "finished j v \<longleftrightarrow> (\<exists>j' \<in> set (queue v). job_id j' = job_id j \<and> job_state j' = Done)"

definition touched ::
  "('a keeper_scheme) \<Rightarrow> (string, action_record) btree \<Rightarrow> job_row \<Rightarrow> nat \<Rightarrow> nat \<Rightarrow> vault \<Rightarrow> vault \<Rightarrow> bool" where
  "touched kp archived j n m v v' \<longleftrightarrow> grown v v'
     \<and> (\<exists>f. queue v' = map (\<lambda>x. if job_id x = job_id j then f x else x) (queue v) \<and> (\<forall>x. job_id (f x) = job_id x)
          \<and> (job_state j = Claimed \<longrightarrow> settled_row (kp_now kp) j (f j)
               \<and> m = (if job_state (f j) = Done then Suc n else n)
               \<and> (job_state (f j) = Done \<longrightarrow> worked kp archived j v'
                    \<or> FANOUT_MAX_ATTEMPTS \<le> job_attempts j \<and> letter j \<in> letters v')))"

lemma dead_letter_grown: "dead_letter kp job reason v = (Ok u, v') \<Longrightarrow> grown v v'"
  by (auto simp: grown_def letters_def dead_letter_def Let_def next_op_Ok dom_map_of_conv_image_fst [symmetric] update_conv')

lemma on_index_Ok: "on_index kp what f u = (Ok x, w) \<Longrightarrow> w = u\<lparr>va_store := (va_store u)\<lparr>st_index := f (st_index (va_store u))\<rparr>\<rparr>"
  by (auto simp: on_index_def next_op_Ok)

lemma settle_job_touches:
  assumes "settle_job kp located archived n j v = (Ok m, v')" "located = locate_records v"
  shows "touched kp archived j n m v v'"
proof -
  let ?done = "\<lambda>x. x\<lparr>job_state := Done, job_claimed_ms := None\<rparr>"
  let ?owed = "\<lambda>x. if job_state x = Claimed then x\<lparr>job_state := Pending, job_claimed_ms := None,
    job_not_before_ms := kp_now kp + backoff_ms (job_attempts j)\<rparr> else x"
  have completed: "touched kp archived j n (Suc n) v w"
    if u: "queue u = queue v" "grown v u" "worked kp archived j u
        \<or> FANOUT_MAX_ATTEMPTS \<le> job_attempts j \<and> letter j \<in> letters u" "complete_job kp j u = (Ok x, w)" for u w x
  proof -
    have w: "w = u\<lparr>va_store := (va_store u)\<lparr>st_index := complete_fanout (job_id j) (st_index (va_store u))\<rparr>\<rparr>"
      using u(4) on_index_Ok unfolding complete_job_def by blast
    then have g: "grown u w" by (simp add: grown_def complete_fanout_def letters_def)
    moreover have "worked kp archived j w \<or> FANOUT_MAX_ATTEMPTS \<le> job_attempts j \<and> letter j \<in> letters w"
      using u(3) grown_worked [OF g] w by auto
    ultimately show ?thesis unfolding touched_def using u(1) grown_trans [OF u(2)] w
      by (intro conjI exI [of _ ?done]) (auto simp: complete_fanout_def settled_row_def)
  qed
  have failed: "touched kp archived j n n v w" if u: "queue u = queue v" "grown v u" "job_attempts j < FANOUT_MAX_ATTEMPTS"
    "fail_job kp j u = (Ok x, w)" for u w x
  proof -
    have w: "w = u\<lparr>va_store := (va_store u)\<lparr>st_index := fail_fanout (job_id j) (kp_now kp + backoff_ms (job_attempts j))
        (st_index (va_store u))\<rparr>\<rparr>" using u(4) on_index_Ok unfolding fail_job_def by blast
    then have "grown u w" by (simp add: grown_def fail_fanout_def letters_def)
    then show ?thesis unfolding touched_def using u(1,3) grown_trans [OF u(2)] w
      by (intro conjI exI [of _ ?owed]) (auto simp: fail_fanout_def settled_row_def)
  qed
  obtain r u where run: "run_job kp j located archived v = (r, u)" by fastforce
  then have u: "same_queue v u" "grown v u" using keeps_queueD [OF keeps_queue_run run] growsD [OF grows_run run] by simp_all
  then have q: "queue u = queue v" by (simp add: same_queue_def)
  show ?thesis
  proof (cases r)
    case (Ok x)
    with assms(1) run have "next_op (complete_job kp j) (\<lambda>_. give (Suc n)) u = (Ok m, v')"
      by (simp add: settle_job_def next_op_def [of "catch _"] catch_def)
    then have c: "complete_job kp j u = (Ok (), v')" "m = Suc n" by (auto simp: next_op_Ok)
    have "worked kp archived j u" using run_job_works [of kp j located archived v u] run Ok assms(2) by simp
    with completed [OF q u(2) _ c(1)] c(2) show ?thesis by simp
  next
    case (Err reason)
    show ?thesis
    proof (cases "FANOUT_MAX_ATTEMPTS \<le> job_attempts j")
      case True
      with assms(1) run Err have "next_op (dead_letter kp j reason) (\<lambda>_. next_op (complete_job kp j) (\<lambda>_. give (Suc n))) u = (Ok m, v')"
        by (simp add: settle_job_def next_op_def [of "catch _"] catch_def)
      then obtain w where d: "dead_letter kp j reason u = (Ok (), w)" "complete_job kp j w = (Ok (), v')" "m = Suc n"
        by (auto simp: next_op_Ok)
      have "grown u w" using dead_letter_grown [OF d(1)] .
      then have "grown v w" by (rule grown_trans [OF u(2)])
      with completed [OF _ _ _ d(2)] dead_letter_Ok [OF d(1)] q True d(3) show ?thesis by auto
    next
      case False
      with assms(1) run Err have "next_op (fail_job kp j) (\<lambda>_. give n) u = (Ok m, v')"
        by (simp add: settle_job_def next_op_def [of "catch _"] catch_def)
      then have f: "fail_job kp j u = (Ok (), v')" "m = n" by (auto simp: next_op_Ok)
      with failed [OF q u(2) _ f(1)] False show ?thesis by simp
    qed
  qed
qed

lemma finished_iff: "distinct (map job_id (queue v)) \<Longrightarrow> x \<in> set (queue v) \<Longrightarrow> job_id x = job_id j \<Longrightarrow> finished j v \<longleftrightarrow> job_state x = Done"
  unfolding finished_def by (metis distinct_map inj_on_eq_iff)

lemma settle_all:
  assumes "fold_op (settle_job kp located archived) n jobs v = (Ok m, v')" "distinct (map job_id jobs)"
    and "set jobs \<subseteq> set (queue v)" "\<forall>j \<in> set jobs. job_state j = Claimed" "distinct (map job_id (queue v))"
    and "located = locate_records v"
  shows "(\<forall>j \<in> set jobs. accounted kp archived j v')
    \<and> (\<forall>j \<in> set (queue v). job_id j \<notin> job_id ` set jobs \<longrightarrow> j \<in> set (queue v'))
    \<and> (\<forall>j \<in> set (queue v'). job_state j = Claimed \<longrightarrow> j \<in> set (queue v) - set jobs)
    \<and> m = n + length (filter (\<lambda>j. finished j v') jobs)
    \<and> map job_id (queue v') = map job_id (queue v) \<and> grown v v'"
  using assms
proof (induction jobs arbitrary: n v)
  case (Cons j js)
  from Cons.prems(1) obtain k u where u: "settle_job kp located archived n j v = (Ok k, u)"
    "fold_op (settle_job kp located archived) k js u = (Ok m, v')" by (auto simp: next_op_Ok)
  from settle_job_touches [OF u(1) Cons.prems(6)] Cons.prems(4) obtain f where
    f: "queue u = map (\<lambda>x. if job_id x = job_id j then f x else x) (queue v)" "\<And>x. job_id (f x) = job_id x"
    "settled_row (kp_now kp) j (f j)" "k = (if job_state (f j) = Done then Suc n else n)" "grown v u"
    "job_state (f j) = Done \<longrightarrow> worked kp archived j u \<or> FANOUT_MAX_ATTEMPTS \<le> job_attempts j \<and> letter j \<in> letters u"
    by (auto simp: touched_def)
  have located: "located = locate_records u" using grown_locate [OF f(5)] Cons.prems(6) by simp
  have inj: "x = j" if "x \<in> set (queue v)" "job_id x = job_id j" for x
    using that Cons.prems(3,5) by (auto simp: distinct_map dest: inj_onD)
  have ids: "map job_id (queue u) = map job_id (queue v)" unfolding f(1) using f(2) by (auto simp: comp_def)
  have other: "x \<in> set (queue u)" if "x \<in> set (queue v)" "job_id x \<noteq> job_id j" for x
    unfolding f(1) using that by (auto simp: image_iff intro!: bexI [of _ x])
  have "f j \<in> set (queue u)" using Cons.prems(3) unfolding f(1) by (auto simp: image_iff intro!: bexI [of _ j])
  have sub: "set js \<subseteq> set (queue u)"
  proof
    fix x assume "x \<in> set js"
    moreover from this Cons.prems(2) have "job_id x \<noteq> job_id j" by (auto simp: image_iff)
    ultimately show "x \<in> set (queue u)" using other Cons.prems(3) by auto
  qed
  have ih: "(\<forall>j \<in> set js. accounted kp archived j v')
    \<and> (\<forall>x \<in> set (queue u). job_id x \<notin> job_id ` set js \<longrightarrow> x \<in> set (queue v'))
    \<and> (\<forall>x \<in> set (queue v'). job_state x = Claimed \<longrightarrow> x \<in> set (queue u) - set js)
    \<and> m = k + length (filter (\<lambda>j. finished j v') js)
    \<and> map job_id (queue v') = map job_id (queue u) \<and> grown u v'"
    using Cons.IH [OF u(2) _ sub _ _ located] Cons.prems(2,4,5) ids by simp
  have "job_id (f j) \<notin> job_id ` set js" using f(2) Cons.prems(2) by simp
  with ih \<open>f j \<in> set (queue u)\<close> have there: "f j \<in> set (queue v')" by blast
  have "grown u v'" using ih by blast
  then have "worked kp archived j u \<Longrightarrow> worked kp archived j v'" "letters u \<subseteq> letters v'"
    by (simp_all add: grown_worked) (simp add: grown_def)
  with f(3,6) there have settled: "accounted kp archived j v'" unfolding accounted_def by blast
  have kept: "x \<in> set (queue v')" if "x \<in> set (queue v)" "job_id x \<notin> job_id ` set (j # js)" for x
    using that other [of x] ih by auto
  have left: "x \<in> set (queue v) - set (j # js)" if "x \<in> set (queue v')" "job_state x = Claimed" for x
  proof -
    have x: "x \<in> set (queue u)" "x \<notin> set js" using ih that by auto
    then obtain y where y: "y \<in> set (queue v)" "x = (if job_id y = job_id j then f y else y)" unfolding f(1) by auto
    show ?thesis
    proof (cases "job_id y = job_id j")
      case True
      with inj [OF y(1)] y(2) f(3) that(2) show ?thesis by (auto simp: settled_row_def)
    next
      case False
      with y x show ?thesis by auto
    qed
  qed
  have ids': "map job_id (queue v') = map job_id (queue v)" using ih ids by simp
  have "finished j v' \<longleftrightarrow> job_state (f j) = Done"
    by (rule finished_iff) (use ids' Cons.prems(5) there f(2) in simp_all)
  with ih f(4) have count: "m = n + length (filter (\<lambda>j. finished j v') (j # js))" by simp
  have "\<forall>x \<in> set js. accounted kp archived x v'" using ih by blast
  with settled have all: "\<forall>x \<in> set (j # js). accounted kp archived x v'" by simp
  have kept_all: "\<forall>x \<in> set (queue v). job_id x \<notin> job_id ` set (j # js) \<longrightarrow> x \<in> set (queue v')"
    and left_all: "\<forall>x \<in> set (queue v'). job_state x = Claimed \<longrightarrow> x \<in> set (queue v) - set (j # js)"
    using kept left by blast+
  have "grown v v'" using ih f(5) grown_trans by blast
  then show ?case by (intro conjI all kept_all left_all count ids')
qed simp

lemma claim_jobs_facts:
  assumes "claim_jobs kp limit now v = (Ok jobs, v')" "distinct (map job_id (queue v))"
  shows "length jobs \<le> limit" "set jobs \<subseteq> set (queue v')" "\<forall>j \<in> set jobs. job_state j = Claimed"
    "distinct (map job_id jobs)" "map job_id (queue v') = map job_id (queue v)"
    "\<forall>j \<in> set (queue v') - set jobs. j \<in> set (queue v)"
proof -
  obtain idx where c: "claim_fanout limit now (st_index (va_store v)) = (idx, jobs)" "queue v' = fanout_queue idx"
    using assms(1) by (auto simp: claim_jobs_def next_op_Ok split: prod.splits)
  let ?old = "oldest_ready limit now (queue v)" and ?q = "queue v"
  note shape = claim_fanout_shape [OF assms(2) c(1)]
  have id: "job_id (claim_job now j) = job_id j" for j by (simp add: claim_job_def)
  have dq: "distinct ?q" using assms(2) by (simp add: distinct_map)
  have "length (filter (\<lambda>j. j \<in> set ?old) ?q) = card (set (filter (\<lambda>j. j \<in> set ?old) ?q))"
    by (rule distinct_card [symmetric, OF distinct_filter [OF dq]])
  also have "\<dots> \<le> card (set ?old)" by (intro card_mono) auto
  also have "\<dots> \<le> limit" using card_length [of ?old] oldest_ready_facts(2) [of limit now ?q] by linarith
  finally show "length jobs \<le> limit" by (simp add: shape(1))
  show "set jobs \<subseteq> set (queue v')" unfolding c(2) shape by auto
  show "\<forall>j \<in> set jobs. job_state j = Claimed" unfolding shape(1) by (auto simp: claim_job_def)
  show "distinct (map job_id jobs)" unfolding shape(1) using assms(2) by (simp add: comp_def id distinct_map_filter)
  show "map job_id (queue v') = map job_id ?q" unfolding c(2) shape(2) by (simp add: comp_def id if_distrib cong: if_cong)
  show "\<forall>j \<in> set (queue v') - set jobs. j \<in> set ?q" unfolding c(2) shape by auto
qed

lemma drain_fanout_settles:
  assumes "drain_fanout kp max_jobs v = (Ok n, v')"
    and "claim_jobs kp (min max_jobs 4294967295) (kp_now kp) v = (Ok jobs, v1)" "0 < max_jobs"
    and d: "distinct (map job_id (queue v))"
  shows "\<exists>archived. (jobs = [] \<or> locate_archived kp jobs (locate_records v1) v1 = (Ok archived, v1))
    \<and> (\<forall>j \<in> set jobs. accounted kp archived j v') \<and> n = length (filter (\<lambda>j. finished j v') jobs)
    \<and> length jobs \<le> max_jobs
    \<and> (\<forall>j \<in> set (queue v'). job_state j = Claimed \<longrightarrow> j \<in> set (queue v))
    \<and> map job_id (queue v') = map job_id (queue v) \<and> (jobs = [] \<longrightarrow> v' = v1)"
proof -
  note c = claim_jobs_facts [OF assms(2) d]
  define limit where "limit = min max_jobs 4294967295"
  have limit: "limit \<noteq> 0" "limit \<le> max_jobs" using assms(3) by (simp_all add: limit_def)
  note claimed = assms(2) [folded limit_def]
  have drained: "next_op (claim_jobs kp limit (kp_now kp)) (\<lambda>jobs.
      if jobs = [] then give 0
      else next_op (locate kp) (\<lambda>located. next_op (locate_archived kp jobs located) (\<lambda>archived.
        fold_op (settle_job kp located archived) 0 jobs))) v = (Ok n, v')"
    using assms(1) limit(1) unfolding drain_fanout_def limit_def [symmetric] Let_def by simp
  show ?thesis
  proof (cases "jobs = []")
    case True
    with drained claimed have "n = 0" "v' = v1" by (simp_all add: next_op_def)
    with True c(5,6) show ?thesis by auto
  next
    case False
    with drained claimed have "next_op (locate kp) (\<lambda>located. next_op (locate_archived kp jobs located) (\<lambda>archived.
        fold_op (settle_job kp located archived) 0 jobs)) v1 = (Ok n, v')" by (simp add: next_op_def)
    then obtain located u archived w where l: "locate kp v1 = (Ok located, u)"
      "locate_archived kp jobs located u = (Ok archived, w)"
      "fold_op (settle_job kp located archived) 0 jobs w = (Ok n, v')"
      unfolding next_op_Ok by blast
    have u: "u = v1" "located = locate_records v1" using l(1) by (auto simp: locate_def next_op_Ok)
    have ra: "reads_only (locate_archived kp jobs located)"
      unfolding locate_archived_def Let_def by (auto intro: reads_only_cold)
    have w: "w = v1" using reads_onlyD [OF ra l(2)] u by simp
    have "distinct (map job_id (queue v1))" using d c(5) by simp
    note all = settle_all [OF l(3) [unfolded w] c(4,2,3) this u(2)]
    have s: "\<forall>j \<in> set jobs. accounted kp archived j v'"
      "\<forall>j \<in> set (queue v'). job_state j = Claimed \<longrightarrow> j \<in> set (queue v1) - set jobs"
      "n = length (filter (\<lambda>j. finished j v') jobs)"
      "map job_id (queue v') = map job_id (queue v1)" using all by simp_all
    have "length jobs \<le> max_jobs" using c(1) by simp
    moreover have "\<forall>j \<in> set (queue v'). job_state j = Claimed \<longrightarrow> j \<in> set (queue v)" using s(2) c(6) by blast
    moreover have "locate_archived kp jobs (locate_records v1) v1 = (Ok archived, v1)" using l(2) u w by simp
    ultimately show ?thesis using s(1,3,4) c(5) False by auto
  qed
qed

lemma drain_fanout_claims:
  assumes "drain_fanout kp max_jobs v = (Ok n, v')" "0 < max_jobs"
  obtains jobs v1 where "claim_jobs kp (min max_jobs 4294967295) (kp_now kp) v = (Ok jobs, v1)"
proof -
  define limit where "limit = min max_jobs 4294967295"
  have "limit \<noteq> 0" using assms(2) by (simp add: limit_def)
  with assms(1) that show ?thesis unfolding drain_fanout_def limit_def [symmetric] Let_def by (auto simp: next_op_Ok)
qed

lemma drain_fanout_bound:
  assumes "drain_fanout kp max_jobs v = (Ok n, v')" "distinct (map job_id (queue v))"
  shows "n \<le> max_jobs \<and> map job_id (queue v') = map job_id (queue v)"
proof (cases "max_jobs = 0")
  case True
  with assms(1) show ?thesis by (simp add: drain_fanout_def)
next
  case False
  then have "0 < max_jobs" by simp
  obtain jobs v1 where "claim_jobs kp (min max_jobs 4294967295) (kp_now kp) v = (Ok jobs, v1)"
    using drain_fanout_claims [OF assms(1) \<open>0 < max_jobs\<close>] .
  from drain_fanout_settles [OF assms(1) this \<open>0 < max_jobs\<close> assms(2)] show ?thesis
    by (auto intro: le_trans [OF length_filter_le])
qed

text \<open>A round that settles nothing found no job ready, or put back every job it took.\<close>

definition fruitless :: "('a fanout_keeper_scheme) \<Rightarrow> nat \<Rightarrow> vault \<Rightarrow> vault \<Rightarrow> bool" where
  "fruitless kp limit v v' \<longleftrightarrow> (\<exists>jobs v1. claim_jobs kp (min limit 4294967295) (kp_now kp) v = (Ok jobs, v1)
     \<and> (jobs = [] \<and> v' = v1 \<or> jobs \<noteq> [] \<and> (\<forall>j \<in> set jobs. \<exists>j' \<in> set (queue v'). settled_row (kp_now kp) j j' \<and> job_state j' = Pending)))"

lemma drain_fanout_fruitless:
  assumes "drain_fanout kp max_jobs v = (Ok 0, v')" "distinct (map job_id (queue v))" "0 < max_jobs"
  shows "fruitless kp max_jobs v v'"
proof -
  obtain jobs v1 where c: "claim_jobs kp (min max_jobs 4294967295) (kp_now kp) v = (Ok jobs, v1)"
    using drain_fanout_claims [OF assms(1,3)] .
  from drain_fanout_settles [OF assms(1) c assms(3,2)] obtain archived where
    a: "\<forall>j \<in> set jobs. accounted kp archived j v'" "0 = length (filter (\<lambda>j. finished j v') jobs)" "jobs = [] \<longrightarrow> v' = v1"
    by (elim exE conjE) (rule that)
  have d: "filter (\<lambda>j. finished j v') jobs = []" using a(2) by simp
  have "\<exists>j' \<in> set (queue v'). settled_row (kp_now kp) j j' \<and> job_state j' = Pending" if taken: "j \<in> set jobs" for j
  proof -
    obtain j' where j': "j' \<in> set (queue v')" "settled_row (kp_now kp) j j'"
      using bspec [OF a(1) taken] unfolding accounted_def by (elim bexE conjE) (rule that)
    have "\<not> finished j v'" using d taken unfolding filter_empty_conv by blast
    moreover have "job_id j' = job_id j" using j'(2) by (simp add: settled_row_def)
    ultimately have "job_state j' \<noteq> Done" using j'(1) unfolding finished_def by blast
    moreover have "job_state j' = Done \<or> job_state j' = Pending" using j'(2) unfolding settled_row_def by blast
    ultimately show ?thesis using j' by blast
  qed
  with c a(3) show ?thesis unfolding fruitless_def by blast
qed

lemma drain_rounds_bound:
  assumes "drain_rounds kp budget settled v = (Ok n, v')" "distinct (map job_id (queue v))" "settled \<le> budget"
  shows "n \<le> budget \<and> (n < budget \<longrightarrow> (\<exists>u. fruitless kp (min MAX_JOBS (budget - n)) u v'))"
  using assms
proof (induction kp budget settled v rule: drain_rounds.induct)
  case (1 kp budget settled v)
  show ?case
  proof (cases "settled < budget")
    case False
    with 1(2,4) show ?thesis by (simp add: drain_rounds.simps [of kp budget settled v])
  next
    case True
    obtain q u where f: "drain_fanout kp (min MAX_JOBS (budget - settled)) v = (q, u)" by fastforce
    show ?thesis
    proof (cases q)
      case (Err e)
      with 1(2) True f show ?thesis by (simp add: drain_rounds.simps [of kp budget settled v])
    next
      case (Ok k)
      note b = drain_fanout_bound [OF f [unfolded Ok] 1(3)]
      show ?thesis
      proof (cases "k = 0")
        case True
        with 1(2) \<open>settled < budget\<close> f Ok have "n = settled" "v' = u" by (simp_all add: drain_rounds.simps [of kp budget settled v])
        moreover have "fruitless kp (min MAX_JOBS (budget - settled)) v u"
          by (rule drain_fanout_fruitless) (use f Ok True \<open>settled < budget\<close> 1(3) in \<open>simp_all add: MAX_JOBS_def\<close>)
        ultimately show ?thesis using \<open>settled < budget\<close> by auto
      next
        case False
        with 1(2) True f Ok have "drain_rounds kp budget (settled + k) u = (Ok n, v')"
          by (simp add: drain_rounds.simps [of kp budget settled v])
        moreover have "distinct (map job_id (queue u))" using b 1(3) by simp
        moreover have "settled + k \<le> budget" using b True by linarith
        ultimately show ?thesis using 1(1) [OF True f [symmetric] Ok False] by simp
      qed
    qed
  qed
qed

section \<open>Properties\<close>


text \<open>
  C6: A drain leaves no job it took in the air. When it answers it has taken no more jobs than it was allowed,
  every job it took is done or back in the queue, due after its backoff and with attempts left, and the answer
  is the number done. A job that is done and not out of attempts has its work in place: its record, as the
  tree has it or else the archive, is listed by a row under each of its entities, or has its audit file where
  it names subjects. One out of attempts may have left a dead letter instead. No job is claimed that was
  not claimed before.
\<close>

theorem drained_jobs_are_settled:
  assumes "index_ok (st_index (va_store v))" "drain_fanout kp max_jobs v = (Ok n, v')"
    and "claim_jobs kp (min max_jobs 4294967295) (kp_now kp) v = (Ok jobs, v1)" "0 < max_jobs"
  shows "\<exists>archived. (jobs = [] \<or> locate_archived kp jobs (locate_records v1) v1 = (Ok archived, v1))
    \<and> (\<forall>j \<in> set jobs. accounted kp archived j v') \<and> n = length (filter (\<lambda>j. finished j v') jobs)
    \<and> length jobs \<le> max_jobs
    \<and> (\<forall>j \<in> set (queue v'). job_state j = Claimed \<longrightarrow> j \<in> set (queue v))"
proof -
  have d: "distinct (map job_id (queue v))" using assms(1) by (simp add: index_ok_def queue_ok_def)
  show ?thesis using drain_fanout_settles [OF assms(2,3,4) d] by blast
qed


section \<open>The properties at work\<close>

definition sample_fanout :: fanout_keeper where
  "sample_fanout = cold_keeper.extend sample_cold (fanout_keeper.fields (\<lambda>_. ''failed''))"

definition queued_vault :: vault where
  "queued_vault = sealed_vault\<lparr>va_store := (va_store sealed_vault)\<lparr>st_index := sealed_index\<rparr>\<rparr>"

lemma sample_fanout_simps [simp]:
  "kp_refuses sample_fanout act path = None" "kp_now sample_fanout = 5" "kp_reader sample_fanout = sample_reader sample_sealed"
  by (simp_all add: sample_fanout_def cold_keeper.defs sample_cold_def sample_eraser_def quiet_keeper_def
      keeper.defs hold_keeper.defs erase_keeper.defs write_path.defs)

lemma queued_vault_simps [simp]:
  "st_index (va_store queued_vault) = sealed_index" "va_entities queued_vault = []" "va_cold queued_vault = []"
  "st_records (va_store queued_vault) = sealed_file"
  by (simp_all add: queued_vault_def sealed_vault_def sample_vault_def)

lemma sample_line: "CHR 0x0A \<notin> set (timeline_line sample_sealed e)"
  by (simp add: timeline_line_def wl_render_def sample_sealed_def sample_record_def outcome_text_def)


lemma fresh_job_settles:
  assumes "job_attempts j < FANOUT_MAX_ATTEMPTS" obtains m v' where "settle_job sample_fanout located archived n j v = (Ok m, v')"
proof -
  obtain r u where run: "run_job sample_fanout j located archived v = (r, u)" by fastforce
  show ?thesis
    by (cases r) (use assms run that in \<open>auto simp: settle_job_def complete_job_def fail_job_def next_op_def catch_def on_index_def
        rows_written_def lift_result_def give_def\<close>)
qed

lemma fresh_jobs_settle:
  assumes "\<forall>j \<in> set jobs. job_attempts j < FANOUT_MAX_ATTEMPTS"
  shows "\<exists>m v'. fold_op (settle_job sample_fanout located archived) n jobs v = (Ok m, v')"
  using assms
proof (induction jobs arbitrary: n v)
  case (Cons j jobs)
  from Cons.prems obtain m v' where s: "settle_job sample_fanout located archived n j v = (Ok m, v')"
    by (auto intro: fresh_job_settles [of j located archived n v])
  with Cons.IH [of m v'] Cons.prems show ?case by (simp add: next_op_def)
qed (simp add: give_def)

lemma sample_drained:
  assumes "0 < limit"
  obtains n v' jobs v1 where "drain_fanout sample_fanout limit queued_vault = (Ok n, v')"
    "claim_jobs sample_fanout (min limit 4294967295) 5 queued_vault = (Ok jobs, v1)"
proof -
  define l where "l = min limit 4294967295"
  have l: "l \<noteq> 0" using assms by (simp add: l_def)
  obtain idx jobs where c: "claim_fanout l 5 sealed_index = (idx, jobs)" by fastforce
  define v1 where "v1 = queued_vault\<lparr>va_store := (va_store queued_vault)\<lparr>st_index := idx\<rparr>\<rparr>"
  have j: "claim_jobs sample_fanout l 5 queued_vault = (Ok jobs, v1)"
    by (simp add: claim_jobs_def rows_written_def lift_result_def next_op_def c v1_def)
  have "distinct (map job_id (fanout_queue sealed_index))" "\<forall>x \<in> set (fanout_queue sealed_index). job_attempts x = 0" by code_simp+
  then have fresh: "\<forall>x \<in> set jobs. job_attempts x < FANOUT_MAX_ATTEMPTS"
    using claim_fanout_shape(1) [OF _ c] by (auto simp: claim_job_def FANOUT_MAX_ATTEMPTS_def)
  obtain located where loc: "locate sample_fanout v1 = (Ok located, v1)"
    by (simp add: locate_def next_op_def can_def lift_result_def)
  obtain archived where arch: "locate_archived sample_fanout jobs located v1 = (Ok archived, v1)"
    by (simp add: locate_archived_def Let_def cold_records_def walk_manifests_def next_op_def can_def lift_result_def give_def
        v1_def walk_files_def split: if_split)
  obtain n v' where f: "fold_op (settle_job sample_fanout located archived) 0 jobs v1 = (Ok n, v')"
    using fresh_jobs_settle [OF fresh] by blast
  have "\<exists>n v'. drain_fanout sample_fanout limit queued_vault = (Ok n, v')"
    using l f loc arch j unfolding drain_fanout_def l_def [symmetric] Let_def
    by (simp add: next_op_def give_def)
  with j that show ?thesis unfolding l_def by blast
qed

lemma queued_index_ok: "index_ok (st_index (va_store queued_vault))"
  using reachable_index_ok [OF sample_reachable(2)] by simp

theorem drained_jobs_are_settled_witness:
  "\<exists>n v'. drain_fanout sample_fanout 9 queued_vault = (Ok n, v') \<and> n \<le> 9"
proof -
  obtain n v' jobs v1 where r: "drain_fanout sample_fanout 9 queued_vault = (Ok n, v')"
    "claim_jobs sample_fanout (min 9 4294967295) 5 queued_vault = (Ok jobs, v1)" by (rule sample_drained [of 9]) auto
  have "claim_jobs sample_fanout (min 9 4294967295) (kp_now sample_fanout) queued_vault = (Ok jobs, v1)" using r(2) by simp
  from drained_jobs_are_settled [OF queued_index_ok r(1) this] obtain k where
    "n = length (filter (\<lambda>j. finished j v') k)" "length k \<le> 9" by auto
  then have "n \<le> 9" using le_trans [OF length_filter_le] by blast
  with r(1) show ?thesis by blast
qed


end
