(* ===== verification/Utf8.thy ===== *)
theory Utf8
  imports Rust_Std
begin

text \<open>
  What \<open>str::from_utf8\<close> and \<open>String::from_utf8\<close> accept: the well-formed sequences of bytes.
\<close>

definition continues :: "char \<Rightarrow> bool" where
  "continues c \<longleftrightarrow> 128 \<le> byte_of c \<and> byte_of c < 192"

fun utf8_valid :: "string \<Rightarrow> bool" where
  "utf8_valid [] = True"
| "utf8_valid (c # cs) =
     (let b = byte_of c
      in if b < 128 then utf8_valid cs
         else if 194 \<le> b \<and> b < 224 then (case cs of c1 # ds \<Rightarrow> continues c1 \<and> utf8_valid ds | _ \<Rightarrow> False)
         else if 224 \<le> b \<and> b < 240 then
           (case cs of
              c1 # c2 # ds \<Rightarrow>
                continues c1 \<and> (b = 224 \<longrightarrow> 160 \<le> byte_of c1) \<and> (b = 237 \<longrightarrow> byte_of c1 < 160)
                \<and> continues c2 \<and> utf8_valid ds
            | _ \<Rightarrow> False)
         else if 240 \<le> b \<and> b < 245 then
           (case cs of
              c1 # c2 # c3 # ds \<Rightarrow>
                continues c1 \<and> (b = 240 \<longrightarrow> 144 \<le> byte_of c1) \<and> (b = 244 \<longrightarrow> byte_of c1 < 144)
                \<and> continues c2 \<and> continues c3 \<and> utf8_valid ds
            | _ \<Rightarrow> False)
         else False)"

end
