(* ===== verification/Unseal.thy ===== *)
theory Unseal
  imports Fanout Utf8
begin

text \<open>
  \<open>yaam-core/src/unseal.rs\<close>: reading a sealed body. The reading is accepted as a record of its own, through
  the write path, before a key is asked for; what needs no key to be refused is refused before that.
\<close>

section \<open>Data\<close>

definition AUDIT_ACTION :: string where "AUDIT_ACTION = ''unseal''"

definition AUDIT_SCHEMA_VER :: schema_ver where "AUDIT_SCHEMA_VER = SchemaVer 1"

record erasure_standing =
  es_subject :: subject_hash
  es_tombstone :: "string option"

datatype held_body =
    HeldSealed "subject_hash list" string nat "erasure_standing list"  \<comment> \<open>subjects, epoch and size\<close>
  | HeldPlain
  | HeldShredded "subject_hash list" "erasure_standing list"
  | HeldAbsent bool                                                     \<comment> \<open>archived\<close>

datatype reading =
    Revealed string record_id                                           \<comment> \<open>body and audit record\<close>
  | Shredded "subject_hash list" "erasure_standing list" "record_id option"
  | ReadPlain
  | ReadAbsent bool

section \<open>What stands against a reading\<close>

definition add_erasure ::
  "('a keeper_scheme) \<Rightarrow> tomb_line list \<Rightarrow> erasure_standing list \<Rightarrow> subject_hash \<Rightarrow>
     (erasure_standing list, vault) operation" where
  "add_erasure kp entries found subject =
     next_op (check_tombstoned kp subject) (\<lambda>erased.
       give (if \<not> erased then found
             else found @ [\<lparr>es_subject = subject,
               es_tombstone = map_option tl_id (List.find (\<lambda>e. tl_subject e = subject_hash_str subject) (rev entries))\<rparr>]))"

definition erasures :: "('a erase_keeper_scheme) \<Rightarrow> subject_hash list \<Rightarrow> (erasure_standing list, vault) operation" where
  "erasures kp subs = next_op (read_log kp) (\<lambda>entries. fold_op (add_erasure kp entries) [] subs)"

definition archived :: "('a cold_keeper_scheme) \<Rightarrow> record_id \<Rightarrow> (bool, vault) operation" where
  "archived kp rid = next_op (cold_records kp [record_id_str rid]) (\<lambda>found. give (found \<noteq> []))"

definition read_document :: "('a keeper_scheme) \<Rightarrow> string list \<Rightarrow> (document, vault) operation" where
  "read_document kp path = next_op (read_record kp path) (\<lambda>text. lift_result (parse_doc kp text))"

definition inspect :: "('a cold_keeper_scheme) \<Rightarrow> record_id \<Rightarrow> (held_body, vault) operation" where
  "inspect kp rid =
     next_op (locate kp) (\<lambda>located.
       (case map_of located (record_id_str rid) of
          None \<Rightarrow> next_op (archived kp rid) (\<lambda>a. give (HeldAbsent a))
        | Some path \<Rightarrow>
            next_op (read_document kp path) (\<lambda>d.
              (case doc_body d of
                 Sealed sb \<Rightarrow>
                   let subs = map ws_subject (sb_shares sb)
                   in next_op (erasures kp subs) (\<lambda>es.
                        give (HeldSealed subs (epoch_str (sb_epoch sb)) (length (sb_ciphertext sb)) es))
               | Plain _ \<Rightarrow>
                   if data_class (doc_record d) = SubjectDerived then
                     let named = map subj_hash (subjects (doc_record d))
                     in next_op (erasures kp named) (\<lambda>es. give (HeldShredded named es))
                   else give HeldPlain))))"

section \<open>The record of a reading\<close>

definition named_operator :: "string \<Rightarrow> (string, core_error) result" where
  "named_operator operator =
     (if trim operator = []
      then Err (invalid (Unstated (''a read has to name the operator making it: the audit record's whole purpose is to say ''
             @ ''who read the body'')))
      else Ok (trim operator))"

definition stated_reason :: "string \<Rightarrow> (string, core_error) result" where
  "stated_reason reason =
     (if trim reason = []
      then Err (invalid (Unstated (''a read has to state why: an audit trail of decrypts with no reasons in it answers the ''
             @ ''question nobody asks'')))
      else Ok (trim reason))"

definition audit_summary :: "record_id \<Rightarrow> nat \<Rightarrow> string \<Rightarrow> string \<Rightarrow> string \<Rightarrow> string" where
  "audit_summary rid keys_used ep operator reason =
     ''operator `'' @ operator @ ''` was granted a decrypt of [[record:'' @ record_id_str rid @ '']].'' @ newline @ newline
     @ ''reason: '' @ reason @ newline @ newline
     @ ''keys used: '' @ show_nat keys_used @ '' subject key(s) of epoch '' @ ep @ ''.'' @ newline
     @ ''Which subjects those were is not ''
     @ ''restated here: that record's own frontmatter names them, and a copy of it in this record ''
     @ ''would be plaintext no key protects and no erasure can reach.'' @ newline
     @ ''This record is written before ''
     @ ''the keys are fetched, so it stands whether or not the body decrypted.'' @ newline"

definition audit_record ::
  "('a keeper_scheme) \<Rightarrow> record_id \<Rightarrow> record_id \<Rightarrow> nat \<Rightarrow> string \<Rightarrow> string \<Rightarrow> string \<Rightarrow> action_record" where
  "audit_record kp ulid rid keys_used ep operator reason =
     \<lparr>record_id = ulid, schema_ver = AUDIT_SCHEMA_VER, at_time = format_ms (kp_now kp),
      received_at = format_ms (kp_now kp), backfilled = False, agent = operator, agent_ver = None,
      correlation_id = None, action = AUDIT_ACTION, outcome = Success, attrs = [], entities = [],
      subjects = [], visibility = Operator, team = None, data_class = Internal,
      redaction_policy = redaction_name (pl_redaction kp), fields_masked = [], tags = [],
      summary = audit_summary rid keys_used ep operator reason\<rparr>"

section \<open>Reading\<close>

definition open_body ::
  "('a erase_keeper_scheme) \<Rightarrow> record_id \<Rightarrow> record_id \<Rightarrow> document \<Rightarrow> (reading, vault) operation" where
  "open_body kp rid audit d v =
     (case doc_body d of
        Plain _ \<Rightarrow> (Ok ReadPlain, v)
      | Sealed sb \<Rightarrow>
          (case unseal (fs_get (pl_keys kp) (st_key_files (va_store v))) (pl_crates kp) rid sb of
             Ok text \<Rightarrow>
               (if utf8_valid text then Ok (Revealed text audit)
                else Err (invalid (BodyNotText (record_id_str rid))), v)
           | Err e \<Rightarrow>
               (case e of
                  KeyAbsent _ _ \<Rightarrow>
                    (let subs = map ws_subject (sb_shares sb)
                     in next_op (erasures kp subs) (\<lambda>es. give (Shredded subs es (Some audit))) v)
                | _ \<Rightarrow> (Err (CoreCrypto e), v))))"

definition reveal :: "('a erase_keeper_scheme) \<Rightarrow> record_id \<Rightarrow> record_id \<Rightarrow> (reading, vault) operation" where
  "reveal kp rid audit =
     next_op (locate kp) (\<lambda>located.
     next_op (lift_result (ok_or (invalid (RecordLeftTree (record_id_str rid))) (map_of located (record_id_str rid)))) (\<lambda>path.
     next_op (read_document kp path) (open_body kp rid audit)))"

text \<open>
  Nothing keeps another process from the key files while the record of the reading is stored: \<open>pl_meanwhile\<close>
  is what it makes of them by the time the keys are asked for.
\<close>

definition meanwhile :: "('a keeper_scheme) \<Rightarrow> (unit, vault) operation" where
  "meanwhile kp v = (Ok (), v\<lparr>va_store := (va_store v)\<lparr>st_key_files := pl_meanwhile kp (st_key_files (va_store v))\<rparr>\<rparr>)"

definition read_body ::
  "('a cold_keeper_scheme) \<Rightarrow> record_id \<Rightarrow> string \<Rightarrow> string \<Rightarrow> (reading, vault) operation" where
  "read_body kp rid operator reason =
     next_op (lift_result (named_operator operator)) (\<lambda>operator.
     next_op (lift_result (stated_reason reason)) (\<lambda>reason.
     next_op (inspect kp rid) (\<lambda>held.
       (case held of
          HeldSealed subs ep _ es \<Rightarrow>
            if es \<noteq> [] then give (Shredded subs es None)
            else
              next_op generate (\<lambda>ulid.
                let audit = audit_record kp ulid rid (length subs) ep operator reason
                in next_op (on_store (accept (write_path.truncate kp) audit (summary audit))) (\<lambda>accepted.
                     (case accepted of
                        Stored _ \<Rightarrow> next_op (meanwhile kp) (\<lambda>_. reveal kp rid ulid)
                      | Duplicate i \<Rightarrow> lift_result (Err (invalid (AuditNotPublished (record_id_str i) (record_id_str rid))))
                      | Quarantined i \<Rightarrow> lift_result (Err (invalid (AuditNotPublished (record_id_str i) (record_id_str rid)))))))
        | HeldShredded subs es \<Rightarrow> give (Shredded subs es None)
        | HeldPlain \<Rightarrow> give ReadPlain
        | HeldAbsent a \<Rightarrow> give (ReadAbsent a)))))"

section \<open>What a reading leaves alone\<close>

lemma reads_only_locate: "reads_only (locate kp)"
  by (auto simp: locate_def reads_only_def next_op_def can_def lift_result_def split: option.splits)

lemma reads_only_read_document: "reads_only (read_document kp path)"
  unfolding read_document_def by (intro reads_only_next reads_only_read_record reads_only_lift)

lemma reads_only_erasures: "reads_only (erasures kp subs)"
  unfolding erasures_def add_erasure_def
  by (intro reads_only_next reads_only_fold reads_only_read_log reads_only_tombstoned reads_only_give)

lemma reads_only_archived: "reads_only (archived kp rid)"
  unfolding archived_def by (intro reads_only_next reads_only_cold reads_only_give)

lemma reads_only_inspect: "reads_only (inspect kp rid)"
proof -
  have "reads_only (case doc_body d of
      Sealed sb \<Rightarrow> let subs = map ws_subject (sb_shares sb)
        in next_op (erasures kp subs) (\<lambda>es. give (HeldSealed subs (epoch_str (sb_epoch sb)) (length (sb_ciphertext sb)) es))
    | Plain _ \<Rightarrow> if data_class (doc_record d) = SubjectDerived then
        let named = map subj_hash (subjects (doc_record d))
        in next_op (erasures kp named) (\<lambda>es. give (HeldShredded named es)) else give HeldPlain)" for d
    by (auto simp: Let_def intro: reads_only_erasures split: body.split)
  note body = reads_only_next [OF reads_only_read_document this]
  show ?thesis unfolding inspect_def
    by (rule reads_only_next [OF reads_only_locate])
      (auto split: option.split intro: reads_only_next [OF reads_only_archived] body)
qed

text \<open>A reading of the tree at the moment of revealing it.\<close>

definition located_document :: "('a keeper_scheme) \<Rightarrow> record_id \<Rightarrow> document \<Rightarrow> vault \<Rightarrow> bool" where
  "located_document kp rid d v \<longleftrightarrow> (\<exists>path. map_of (locate_records v) (record_id_str rid) = Some path
     \<and> read_document kp path v = (Ok d, v))"

lemma locate_Ok: "locate kp v = (Ok located, v') \<Longrightarrow> located = locate_records v \<and> v' = v"
  by (auto simp: locate_def next_op_Ok can_Ok)

lemma reveal_elim [consumes 1, case_names moved revealed shredded]:
  assumes "reveal kp rid audit v = (Ok a, v')"
  obtains (moved) d where "a = ReadPlain" "v' = v" "located_document kp rid d v" "is_plain (doc_body d)"
  | (revealed) d sb t where "a = Revealed t audit" "v' = v" "located_document kp rid d v" "doc_body d = Sealed sb"
      "unseal (fs_get (pl_keys kp) (st_key_files (va_store v))) (pl_crates kp) rid sb = Ok t" "utf8_valid t"
  | (shredded) d sb s ep es where "a = Shredded (map ws_subject (sb_shares sb)) es (Some audit)" "v' = v"
      "located_document kp rid d v" "doc_body d = Sealed sb"
      "unseal (fs_get (pl_keys kp) (st_key_files (va_store v))) (pl_crates kp) rid sb = Err (KeyAbsent s ep)"
      "erasures kp (map ws_subject (sb_shares sb)) v = (Ok es, v)"
proof -
  from assms obtain path d where l: "map_of (locate_records v) (record_id_str rid) = Some path"
    "read_document kp path v = (Ok d, v)" and r: "open_body kp rid audit d v = (Ok a, v')"
    unfolding reveal_def next_op_Ok lift_result_iff ok_or_eq_Ok
    using locate_Ok [of kp v] reads_onlyD [OF reads_only_read_document] by blast
  then have d: "located_document kp rid d v" by (auto simp: located_document_def)
  show ?thesis
  proof (cases "doc_body d")
    case (Plain t)
    with r d show ?thesis by (intro moved) (auto simp: open_body_def)
  next
    case (Sealed sb)
    show ?thesis
    proof (cases "unseal (fs_get (pl_keys kp) (st_key_files (va_store v))) (pl_crates kp) rid sb")
      case (Ok t)
      with r d Sealed show ?thesis by (intro revealed) (auto simp: open_body_def split: if_splits)
    next
      case (Err e)
      with r Sealed obtain s ep es where "e = KeyAbsent s ep"
        "erasures kp (map ws_subject (sb_shares sb)) v = (Ok es, v')"
        "a = Shredded (map ws_subject (sb_shares sb)) es (Some audit)"
        by (cases e) (auto simp: open_body_def next_op_Ok Let_def)
      with Err d Sealed show ?thesis using reads_onlyD [OF reads_only_erasures] by (intro shredded) auto
    qed
  qed
qed

text \<open>A reading either stops before it touches anything, or its record is stored and it reveals.\<close>

lemma read_body_elim [consumes 1, case_names stopped recorded]:
  assumes "read_body kp rid operator reason v = (Ok a, v')"
  obtains (stopped) "v' = v" "\<And>t i. a \<noteq> Revealed t i" "\<And>ss es i. a \<noteq> Shredded ss es (Some i)"
  | (recorded) subs ep n i w u where "trim operator \<noteq> []" "trim reason \<noteq> []"
      "inspect kp rid v = (Ok (HeldSealed subs ep n []), v)"
      "accept (write_path.truncate kp)
         (audit_record kp (shd (va_ulids v)) rid (length subs) ep (trim operator) (trim reason))
         (audit_summary rid (length subs) ep (trim operator) (trim reason)) (va_store v) = (Ok (Stored i), w)"
      "u = v\<lparr>va_ulids := stl (va_ulids v), va_store := w\<lparr>st_key_files := pl_meanwhile kp (st_key_files w)\<rparr>\<rparr>"
      "reveal kp rid (shd (va_ulids v)) u = (Ok a, u)" "v' = u"
proof -
  from assms have named: "trim operator \<noteq> []" "trim reason \<noteq> []"
    by (auto simp: read_body_def named_operator_def stated_reason_def next_op_Ok split: if_splits)
  obtain held where h: "inspect kp rid v = (Ok held, v)"
    using assms named reads_onlyD [OF reads_only_inspect]
    by (fastforce simp: read_body_def named_operator_def stated_reason_def next_op_Ok)
  show ?thesis
  proof (cases "\<exists>subs ep n. held = HeldSealed subs ep n []")
    case False
    with assms named h show ?thesis
      by (intro stopped; cases held)
        (auto simp: read_body_def named_operator_def stated_reason_def next_op_def give_def split: if_splits)
  next
    case True
    then obtain subs ep n where held: "held = HeldSealed subs ep n []" by blast
    let ?rec = "audit_record kp (shd (va_ulids v)) rid (length subs) ep (trim operator) (trim reason)"
    obtain r w where a: "accept (write_path.truncate kp) ?rec (summary ?rec) (va_store v) = (r, w)" by fastforce
    have run: "read_body kp rid operator reason v =
        (case r of
           Err e \<Rightarrow> (Err e, v\<lparr>va_ulids := stl (va_ulids v), va_store := w\<rparr>)
         | Ok accepted \<Rightarrow>
             (case accepted of
                Stored _ \<Rightarrow> next_op (meanwhile kp) (\<lambda>_. reveal kp rid (shd (va_ulids v)))
              | Duplicate i \<Rightarrow> lift_result (Err (invalid (AuditNotPublished (record_id_str i) (record_id_str rid))))
              | Quarantined i \<Rightarrow> lift_result (Err (invalid (AuditNotPublished (record_id_str i) (record_id_str rid)))))
             (v\<lparr>va_ulids := stl (va_ulids v), va_store := w\<rparr>))"
      using named h held a
      by (cases r) (simp_all add: read_body_def named_operator_def stated_reason_def next_op_def generate_def Let_def on_store_def)
    define u where
      "u = v\<lparr>va_ulids := stl (va_ulids v), va_store := w\<lparr>st_key_files := pl_meanwhile kp (st_key_files w)\<rparr>\<rparr>"
    from run assms obtain i where i: "r = Ok (Stored i)"
      and rv: "reveal kp rid (shd (va_ulids v)) u = (Ok a, v')"
      by (cases r) (auto simp: lift_result_def meanwhile_def next_op_def u_def split: accepted.splits)
    have "v' = u" using rv by (cases rule: reveal_elim) simp_all
    with named h held a i rv show ?thesis
      by (intro recorded [of subs ep n i w u]) (auto simp: audit_record_def u_def)
  qed
qed

text \<open>An internal record is stored with the body it came with, names nobody, and is indexed.\<close>

lemma accept_internal:
  assumes "accept pl rec t w = (Ok (Stored i), w')" "data_class rec = Internal" "entities rec = []" "subjects rec = []"
    "summary rec = t"
  obtains st path where "stamp_of rec = Ok st" "record_relative rec st = Ok path" "map_of (st_records w) path = None"
    "map_of (st_records w') path = Some (doc_render (pl_floats pl) \<lparr>doc_record = rec, doc_body = Plain t\<rparr>, record_mode rec)"
    "doc_id rec \<in> fst ` set (record_rows (st_index w'))" "st_key_files w' = st_key_files w"
  using assms(1)
proof (cases rule: accept_elim)
  case (stored st path valid subs b ks rng)
  from resolve_and_seal_Ok [OF stored(5)] have rs: "check_subjects valid subs = Ok ()"
    "seal_body (pipeline.truncate pl) valid subs st t (st_key_files w) (st_rng w) = (Ok b, ks, rng)" by simp_all
  obtain ents where v: "try_map (canonical_entity (pipeline.truncate pl)) (entities rec) = Ok ents"
    "valid = rec\<lparr>entities := ents, summary := (case data_class rec of Internal \<Rightarrow> t | SubjectDerived \<Rightarrow> [])\<rparr>"
    using validated_Ok [OF stored(4)] by metis
  have valid: "valid = rec" using v assms(2,3,5) by simp
  have subs: "subs = []" using rs(1) assms(2) valid by (auto simp: check_subjects_def split: if_splits)
  have b: "b = Plain t" "ks = st_key_files w" using rs(2) assms(2) valid by (auto simp: seal_body_def)
  have d: "\<lparr>doc_record = valid\<lparr>subjects := subs\<rparr>, doc_body = b\<rparr> = \<lparr>doc_record = rec, doc_body = Plain t\<rparr>"
    using valid subs b assms(4) by simp
  from store_document_reaches [OF stored(6) [unfolded d]] stored(2)
  have r: "reached pl \<lparr>doc_record = rec, doc_body = Plain t\<rparr> path (w\<lparr>st_key_files := ks, st_rng := rng\<rparr>) w' Indexed"
    by auto
  then obtain idx where idx: "publish_document (pl_epoch_ms pl) (st_index w) \<lparr>doc_record = rec, doc_body = Plain t\<rparr> = Ok idx"
    "st_index w' = idx \<or> st_index w' = dequeue_quarantine (doc_id rec) idx" by (auto simp: reached_def)
  have "doc_id rec \<in> fst ` set (record_rows idx)" using publish_rows(1) [OF publish_document_Ok [OF idx(1)]] by simp
  then have "doc_id rec \<in> fst ` set (record_rows (st_index w'))" using idx(2) by (auto simp: dequeue_quarantine_def)
  moreover have "map_of (st_records w) path = None" using stored(3) by (cases "map_of (st_records w) path") auto
  ultimately show ?thesis using stored(1,2) r b(2) by (intro that [OF stored(1,2)]) (auto simp: reached_def file_of_def update_conv')
qed simp_all

section \<open>The properties\<close>

text \<open>
  C7: No body is revealed without a record of the reading. A reading that hands back a body has, in the tree
  and in the index, a new record of its own that was not there before: it names the operator and the reason,
  neither of them blank, is for operators only, and belongs to no subject, so no erasure reaches it. The keys
  were asked for after that: the body is what the sealed document of the tree opens to with the key files as
  they are once the record is stored, whatever another process has made of them since the reading began, and
  the reading itself changes no key file.
\<close>

theorem revealed_body_is_on_record:
  assumes "read_body kp rid operator reason v = (Ok (Revealed content audit), v')"
  shows "\<exists>rec path. record_id rec = audit \<and> agent rec = trim operator \<and> trim operator \<noteq> [] \<and> trim reason \<noteq> []
    \<and> contains (summary rec) (trim reason) \<and> contains (summary rec) (record_id_str rid)
    \<and> action rec = AUDIT_ACTION \<and> visibility rec = Operator \<and> data_class rec = Internal \<and> subjects rec = []
    \<and> map_of (st_records (va_store v)) path = None
    \<and> map_of (st_records (va_store v')) path
        = Some (doc_render (pl_floats kp) \<lparr>doc_record = rec, doc_body = Plain (summary rec)\<rparr>, record_mode rec)
    \<and> record_id_str audit \<in> fst ` set (record_rows (st_index (va_store v')))
    \<and> st_key_files (va_store v') = pl_meanwhile kp (st_key_files (va_store v))
    \<and> (\<exists>d sb. located_document kp rid d v' \<and> doc_body d = Sealed sb
         \<and> unseal (fs_get (pl_keys kp) (st_key_files (va_store v'))) (pl_crates kp) rid sb = Ok content)"
  using assms
proof (cases rule: read_body_elim)
  case stopped
  from stopped(2) show ?thesis by blast
next
  case (recorded subs ep n i w u)
  define rec where "rec = audit_record kp (shd (va_ulids v)) rid (length subs) ep (trim operator) (trim reason)"
  have r: "data_class rec = Internal" "entities rec = []" "subjects rec = []" "agent rec = trim operator"
    "summary rec = audit_summary rid (length subs) ep (trim operator) (trim reason)" "action rec = AUDIT_ACTION"
    "visibility rec = Operator" "record_id rec = shd (va_ulids v)"
    by (simp_all add: rec_def audit_record_def)
  have audit: "audit = shd (va_ulids v)" using recorded(6) by (cases rule: reveal_elim) simp_all
  have opened: "\<exists>d sb. located_document kp rid d v' \<and> doc_body d = Sealed sb
      \<and> unseal (fs_get (pl_keys kp) (st_key_files (va_store v'))) (pl_crates kp) rid sb = Ok content"
    unfolding recorded(7) using recorded(6) by (cases rule: reveal_elim) auto
  have says: "contains (summary rec) (trim reason)" "contains (summary rec) (record_id_str rid)"
    unfolding r(5) audit_summary_def contains_iff by (metis append.assoc)+
  from recorded(4) [folded rec_def] obtain path where "map_of (st_records (va_store v)) path = None"
    "map_of (st_records w) path
       = Some (doc_render (pl_floats (write_path.truncate kp)) \<lparr>doc_record = rec, doc_body = Plain (summary rec)\<rparr>, record_mode rec)"
    "doc_id rec \<in> fst ` set (record_rows (st_index w))" "st_key_files w = st_key_files (va_store v)"
    by (rule accept_internal) (simp_all add: r)
  then have "record_id rec = audit \<and> agent rec = trim operator \<and> trim operator \<noteq> [] \<and> trim reason \<noteq> []
    \<and> contains (summary rec) (trim reason) \<and> contains (summary rec) (record_id_str rid)
    \<and> action rec = AUDIT_ACTION \<and> visibility rec = Operator \<and> data_class rec = Internal \<and> subjects rec = []
    \<and> map_of (st_records (va_store v)) path = None
    \<and> map_of (st_records (va_store v')) path
        = Some (doc_render (pl_floats kp) \<lparr>doc_record = rec, doc_body = Plain (summary rec)\<rparr>, record_mode rec)
    \<and> record_id_str audit \<in> fst ` set (record_rows (st_index (va_store v')))
    \<and> st_key_files (va_store v') = pl_meanwhile kp (st_key_files (va_store v))"
    using r audit says recorded(1,2,5,7) by (simp add: write_path.defs)
  with opened show ?thesis by blast
qed

text \<open>A subject whose keys an erasure took has nothing to fetch.\<close>

lemma no_key_fetches_nothing:
  assumes "subject_hash_str s \<notin> fst ` set (ks_keys ks)" shows "fs_get st ks s ep \<noteq> Ok (Some key)"
proof -
  have "map_of (ks_keys ks) (subject_hash_str s) = None" using assms by (simp add: map_of_eq_None_iff)
  then have "read_key ks s ep = None" by (simp add: read_key_def)
  then show ?thesis by (auto simp: fs_get_def)
qed

lemma unseal_fetches:
  assumes "unseal get c rid sb = Ok t" "share \<in> set (sb_shares sb)"
  obtains key where "get (ws_subject share) (sb_epoch sb) = Ok (Some key)"
proof -
  from assms(1) obtain bare where "try_map (unwrap_one get c (sb_epoch sb)) (sb_shares sb) = Ok bare"
    by (auto simp: unseal_def)
  with assms(2) obtain b where "unwrap_one get c (sb_epoch sb) share = Ok b"
    unfolding try_map_Ok_iff in_set_conv_nth by (auto dest: list_all2_nthD)
  then show ?thesis by (auto simp: unwrap_one_def intro: that)
qed

text \<open>
  C35: What an erasure has taken is never read again. When the key store holds no file of a subject by the time
  the keys are asked for, which is how an erasure leaves it, no reading reveals a body that subject has a share of, whatever the tree holds by
  then, a restored copy of the sealed body included; what is revealed is what every share together opens.
\<close>

theorem erased_body_is_never_revealed:
  assumes "read_body kp rid operator reason v = (Ok (Revealed content audit), v')"
    and "subject_hash_str s \<notin> fst ` set (ks_keys (st_key_files (va_store v')))"
  shows "\<exists>d sb. located_document kp rid d v' \<and> doc_body d = Sealed sb \<and> s \<notin> ws_subject ` set (sb_shares sb)
    \<and> unseal (fs_get (pl_keys kp) (st_key_files (va_store v'))) (pl_crates kp) rid sb = Ok content"
  using assms(1)
proof (cases rule: read_body_elim)
  case stopped
  from stopped(2) show ?thesis by blast
next
  case (recorded subs ep n i w u)
  from recorded(6) show ?thesis
  proof (cases rule: reveal_elim)
    case (revealed d sb t)
    from no_key_fetches_nothing [OF assms(2)] recorded(7) have "s \<notin> ws_subject ` set (sb_shares sb)"
      using revealed(1,5) by (auto elim!: unseal_fetches)
    with revealed recorded(7) show ?thesis by auto
  qed simp_all
qed

text \<open>
  A reading that reaches no key changes nothing. Only two answers go with a record of the reading, a body
  and the news that a key is gone; every other answer, about a body that was never sealed, one already erased
  or a record that is not here, leaves the store as it was.
\<close>

theorem reading_without_keys_changes_nothing:
  assumes "read_body kp rid operator reason v = (Ok a, v')"
  shows "v' = v \<or> (\<exists>content audit. a = Revealed content audit) \<or> (\<exists>subs es audit. a = Shredded subs es (Some audit)) \<or> a = ReadPlain"
  using assms
proof (cases rule: read_body_elim)
  case (recorded subs ep n i w u)
  from recorded(6,7) show ?thesis by (cases rule: reveal_elim) auto
qed simp

section \<open>The properties at work\<close>

lemma sample_unseals: "unseal (fs_get sample_store one_key) sample_seal_crates sample_id sample_body = Ok ''body''"
  by (rule key_store.unseal_seal [OF fs_key_store [OF sample_store_wrapping] sample_seal_crates_ok
        sample_seal [OF sample_hash_valid]])

definition reading_vault :: vault where
  "reading_vault = sealed_vault\<lparr>va_ulids := sconst other_id\<rparr>"

lemma reading_vault_simps [simp]:
  "st_records (va_store reading_vault) = sealed_file" "st_key_files (va_store reading_vault) = one_key"
  "st_index (va_store reading_vault) = empty_index" "st_spool (va_store reading_vault) = []"
  "va_tombstones reading_vault = None" "va_ulids reading_vault = sconst other_id"
  by (simp_all add: reading_vault_def sealed_vault_def sample_vault_def)

lemma sample_locates:
  assumes "st_records (va_store v) = sealed_file"
  shows "locate sample_cold v = (Ok [(record_id_str sample_id, sealed_path)], v)"
    and "read_document sample_cold sealed_path v = (Ok sealed_document, v)"
proof -
  have "file_stem (last sealed_path) = record_id_str sample_id" by code_simp
  with assms show "locate sample_cold v = (Ok [(record_id_str sample_id, sealed_path)], v)"
    by (simp add: locate_def locate_records_def sample_record_paths next_op_def can_def lift_result_def)
  show "read_document sample_cold sealed_path v = (Ok sealed_document, v)"
    using assms by (simp add: read_document_def next_op_def sample_reads parse_doc_def sealed_parses lift_result_def)
qed

lemma sample_inspects:
  assumes "st_records (va_store v) = sealed_file" "va_tombstones v = None" "st_key_files (va_store v) = one_key"
  shows "\<exists>n. inspect sample_cold sample_id v = (Ok (HeldSealed [sample_hash] ''2026-Q1'' n []), v)"
proof -
  have "tomb_entries sample_cold v = []" using assms(2) by (simp add: tomb_entries_def file_lines_def map_filter_simps)
  moreover have "check_tombstoned sample_cold sample_hash v = (Ok False, v)"
    using assms(3) sample_hash_valid by (simp add: check_tombstoned_def on_keys_def)
  ultimately have "erasures sample_cold [sample_hash] v = (Ok [], v)"
    by (simp add: erasures_def read_log_def add_erasure_def next_op_def can_def lift_result_def give_def)
  with sample_locates [OF assms(1)] show ?thesis
    by (simp add: inspect_def next_op_def sealed_document_def sealed_for_def sample_epoch_def Let_def give_def)
qed

abbreviation sample_audit :: action_record where
  "sample_audit \<equiv> audit_record sample_cold other_id sample_id (Suc 0) ''2026-Q1'' ''ann'' ''order''"

definition audit_path :: "string list" where
  "audit_path = [RECORDS_DIR, ''1970'', ''01'', ''01'', record_file (record_id_str other_id)]"

lemma sample_audit_place:
  "stamp_of sample_audit = Ok \<lparr>stamp_ms = 5, stamp_year = 1970, stamp_month = 1, stamp_day = 1\<rparr>"
  "record_relative sample_audit \<lparr>stamp_ms = 5, stamp_year = 1970, stamp_month = 1, stamp_day = 1\<rparr> = Ok audit_path"
  "owner_relative sample_audit = Ok None" "audit_path \<noteq> sealed_path"
proof -
  have "format_ms 5 = ''1970-01-01T00:00:00.005Z''" "parse_ms ''1970-01-01T00:00:00.005Z'' = Some 5"
    "civil_from_ms 5 = (1970, 1, 1)" by code_simp+
  then show "stamp_of sample_audit = Ok \<lparr>stamp_ms = 5, stamp_year = 1970, stamp_month = 1, stamp_day = 1\<rparr>"
    by (simp add: stamp_of_def stamp_parse_def audit_record_def)
  show "record_relative sample_audit \<lparr>stamp_ms = 5, stamp_year = 1970, stamp_month = 1, stamp_day = 1\<rparr> = Ok audit_path"
    "owner_relative sample_audit = Ok None" "audit_path \<noteq> sealed_path" by code_simp+
qed

lemma sample_audit_valid: "validated sample_pipeline sample_audit (summary sample_audit) = Ok sample_audit"
proof -
  have "is_ok (validated sample_pipeline sample_audit (summary sample_audit))" by code_simp
  then obtain valid where v: "validated sample_pipeline sample_audit (summary sample_audit) = Ok valid"
    by (auto simp: is_ok_iff)
  then have "valid = sample_audit" by (rule validated_Ok) (simp add: audit_record_def)
  with v show ?thesis by simp
qed

lemma sample_audit_accepted:
  "\<exists>w. accept sample_path sample_audit (summary sample_audit) (va_store reading_vault) = (Ok (Stored other_id), w)
     \<and> (\<exists>f. st_records w = sealed_file @ [(audit_path, f)])"
proof -
  let ?d = "\<lparr>doc_record = sample_audit, doc_body = Plain (summary sample_audit)\<rparr>"
  have "is_ok (publish_document (\<lambda>_. Some 0) empty_index ?d)" by code_simp
  then obtain idx where idx: "publish_document (\<lambda>_. Some 0) empty_index ?d = Ok idx" by (auto simp: is_ok_iff)
  have r: "data_class sample_audit = Internal" "subjects sample_audit = []" "record_id sample_audit = other_id"
    by (simp_all add: audit_record_def)
  have rs: "resolve_and_seal sample_pipeline sample_audit st t ks rng = (Ok ([], Plain t), ks, rng)" for st t ks rng
    by (simp add: resolve_and_seal_def check_subjects_def seal_body_def r)
  obtain w where w: "store_document sample_path ?d \<lparr>stamp_ms = 5, stamp_year = 1970, stamp_month = 1, stamp_day = 1\<rparr>
      (va_store reading_vault) = (Ok (), w)" "st_records w = AList.update audit_path (file_of sample_path ?d) sealed_file"
    using sample_audit_place idx
    by (simp add: store_document_def stage_def place_def published_path_def create_record_dirs_def
        update_conv' commit_def settle_quarantine_def dequeue_settled_def file_of_def)
  have same: "sample_audit\<lparr>subjects := []\<rparr> = sample_audit" by (simp add: audit_record_def)
  have accepts: "accept sample_path sample_audit (summary sample_audit) w0 = (Ok (Stored other_id), w1)"
    if "store_document sample_path ?d \<lparr>stamp_ms = 5, stamp_year = 1970, stamp_month = 1, stamp_day = 1\<rparr> w0 = (Ok (), w1)"
      "map_of (st_records w0) audit_path = None" for w0 w1
    using that by (simp add: accept_def published_path_def sample_audit_place(1,2) sample_audit_valid rs r(3) same)
  have "accept sample_path sample_audit (summary sample_audit) (va_store reading_vault) = (Ok (Stored other_id), w)"
    using sample_audit_place(4) by (intro accepts w(1)) simp
  moreover have "st_records w = sealed_file @ [(audit_path, file_of sample_path ?d)]"
    using w(2) sample_audit_place(4) by simp
  ultimately show ?thesis by blast
qed

lemma sample_undisturbed: "pl_meanwhile sample_cold = id"
  by (simp add: sample_cold_def sample_eraser_def quiet_keeper_def sample_path_def sample_pipeline_def keeper.defs
      hold_keeper.defs erase_keeper.defs cold_keeper.defs write_path.defs pipeline.defs)

lemma sample_reading_keys:
  assumes "read_body sample_cold sample_id operator reason reading_vault = (Ok (Revealed content audit), v')"
  shows "st_key_files (va_store v') = one_key"
  using assms
proof (cases rule: read_body_elim)
  case stopped
  from stopped(2) show ?thesis by blast
next
  case (recorded subs ep n i w u)
  have "st_key_files w = one_key"
    using recorded(4) by (rule accept_internal) (simp_all add: audit_record_def)
  then show ?thesis using recorded(5,7) by (simp add: sample_undisturbed)
qed

lemma sample_reading:
  "\<exists>v'. read_body sample_cold sample_id ''ann'' ''order'' reading_vault = (Ok (Revealed ''body'' other_id), v')"
proof -
  obtain w f where w: "accept sample_path sample_audit (summary sample_audit) (va_store reading_vault) = (Ok (Stored other_id), w)"
    "st_records w = sealed_file @ [(audit_path, f)]" using sample_audit_accepted by blast
  define v1 where "v1 = reading_vault\<lparr>va_ulids := sconst other_id, va_store := w\<rparr>"
  have "sort (filter (\<lambda>path. path \<noteq> [] \<and> extension (last path) = Some RECORD_EXT) (remdups [sealed_path, audit_path]))
    = [audit_path, sealed_path]" "file_stem (last sealed_path) = record_id_str sample_id"
    "file_stem (last audit_path) = record_id_str other_id" by code_simp+
  then have l: "map_of (locate_records v1) (record_id_str sample_id) = Some sealed_path"
    by (simp add: locate_records_def record_paths_def walk_files_def v1_def w(2) bt_get_insert)
  have d: "read_document sample_cold sealed_path v1 = (Ok sealed_document, v1)"
    by (simp add: read_document_def next_op_def read_record_def can_def lift_result_def parse_doc_def sealed_parses
        v1_def w(2))
  have "st_key_files (va_store v1) = one_key"
    using accept_internal [OF w(1)] by (auto simp: v1_def audit_record_def)
  moreover have cold: "pl_crates sample_cold = sample_seal_crates" "write_path.truncate sample_cold = sample_path"
    by (simp_all add: sample_cold_def sample_eraser_def quiet_keeper_def sample_path_def sample_pipeline_def
        keeper.defs hold_keeper.defs erase_keeper.defs cold_keeper.defs write_path.defs pipeline.defs)
  moreover have "utf8_valid ''body''" by code_simp
  ultimately have "reveal sample_cold sample_id other_id v1 = (Ok (Revealed ''body'' other_id), v1)"
    using l d sample_unseals
    by (simp add: reveal_def locate_def next_op_def can_def lift_result_def open_body_def sealed_document_def)
  moreover obtain n where "inspect sample_cold sample_id reading_vault = (Ok (HeldSealed [sample_hash] ''2026-Q1'' n []), reading_vault)"
    using sample_inspects [of reading_vault] by auto
  moreover have "trim ''ann'' = ''ann''" "trim ''order'' = ''order''" by code_simp+
  ultimately show ?thesis
    using w(1) by (simp add: read_body_def named_operator_def stated_reason_def next_op_def lift_result_def generate_def
        on_store_def Let_def v1_def cold meanwhile_def sample_undisturbed)
qed

theorem revealed_body_is_on_record_witness:
  "\<exists>v' rec path. read_body sample_cold sample_id ''ann'' ''order'' reading_vault = (Ok (Revealed ''body'' other_id), v')
     \<and> record_id rec = other_id \<and> agent rec = trim ''ann''
     \<and> map_of (st_records (va_store v')) path
        = Some (doc_render (pl_floats sample_cold) \<lparr>doc_record = rec, doc_body = Plain (summary rec)\<rparr>, record_mode rec)"
proof -
  obtain v' where v': "read_body sample_cold sample_id ''ann'' ''order'' reading_vault = (Ok (Revealed ''body'' other_id), v')"
    using sample_reading by blast
  from revealed_body_is_on_record [OF this] v' show ?thesis by blast
qed

theorem erased_body_is_never_revealed_witness:
  "\<exists>v' d sb. read_body sample_cold sample_id ''ann'' ''order'' reading_vault = (Ok (Revealed ''body'' other_id), v')
     \<and> located_document sample_cold sample_id d v' \<and> doc_body d = Sealed sb
     \<and> SubjectHash ''gone'' \<notin> ws_subject ` set (sb_shares sb)"
proof -
  obtain v' where v': "read_body sample_cold sample_id ''ann'' ''order'' reading_vault = (Ok (Revealed ''body'' other_id), v')"
    using sample_reading by blast
  then have "st_key_files (va_store v') = one_key" by (rule sample_reading_keys)
  then have "subject_hash_str (SubjectHash ''gone'') \<notin> fst ` set (ks_keys (st_key_files (va_store v')))"
    by (simp add: key_of_def sample_hash_def)
  from erased_body_is_never_revealed [OF v' this] v' show ?thesis by blast
qed

theorem reading_without_keys_changes_nothing_witness:
  "\<exists>v'. read_body sample_cold sample_id ''ann'' ''order'' sample_vault = (Ok (ReadAbsent False), v') \<and> v' = sample_vault"
proof -
  have "trim ''ann'' = ''ann''" "trim ''order'' = ''order''" by code_simp+
  moreover have "inspect sample_cold sample_id sample_vault = (Ok (HeldAbsent False), sample_vault)"
    by (simp add: inspect_def locate_def locate_records_def record_paths_def walk_files_def archived_def cold_records_def
        walk_manifests_def next_op_def can_def lift_result_def give_def sample_vault_def)
  ultimately obtain v' where v': "read_body sample_cold sample_id ''ann'' ''order'' sample_vault = (Ok (ReadAbsent False), v')"
    by (simp add: read_body_def named_operator_def stated_reason_def next_op_def lift_result_def give_def)
  from reading_without_keys_changes_nothing [OF this] v' show ?thesis by auto
qed

end
