(* ===== verification/Spool.thy ===== *)
theory Spool
  imports Core_Error Epoch "HOL-Library.Multiset"
begin

text \<open>
  \<open>yaam-agent/src/spool.rs\<close> and \<open>error.rs\<close>: the sidecar's queue of records the service has not taken yet, one
  file per entry in one directory. \<open>outbox\<close> is what the sidecar relies on; the directory provides it.
  \<open>se_refuses\<close> says which act on which file fails, and how; a write that fails leaves as much of the entry
  as \<open>se_torn\<close> says.
\<close>

datatype (plugins only: code) agent_error =
    Rejected string
  | Spooled
  | SpoolFull
  | Unreachable string
  | AgentCrypto crypto_error
  | AgentIo io_failure

section \<open>The directory\<close>

record spool =
  sp_files :: "(string \<times> string) list"
  sp_next :: nat
  sp_capacity :: nat

datatype spool_act =
    MakePrivate | ListSpool | CreateEntry string | WriteEntry string | SyncEntry string | SyncSpool
  | ReadEntry string | RemoveEntry string

record spool_env =
  se_refuses :: "spool_act \<Rightarrow> io_failure option"
  se_torn :: nat

definition ENTRY_SUFFIX :: string where "ENTRY_SUFFIX = ''.entry''"

definition SEQ_WIDTH :: nat where "SEQ_WIDTH = 20"

definition DEFAULT_CAPACITY :: nat where "DEFAULT_CAPACITY = 10000"

definition strip_entry_suffix :: "string \<Rightarrow> string \<Rightarrow> string option" where
  "strip_entry_suffix p s = map_option rev (strip_prefix (rev p) (rev s))"

text \<open>\<open>str::parse::<u64>\<close>.\<close>

definition parse_u64 :: "string \<Rightarrow> nat option" where
  "parse_u64 s =
     (let digits = (if s \<noteq> [] \<and> hd s = CHR ''+'' \<and> tl s \<noteq> [] then tl s else s)
      in if list_all is_ascii_digit digits then parse_digits 18446744073709551615 digits else None)"

definition entry_name :: "nat \<Rightarrow> string" where
  "entry_name n = format_width SEQ_WIDTH (int n) @ ENTRY_SUFFIX"

definition seq_of :: "string \<Rightarrow> nat option" where
  "seq_of name = Option.bind (strip_entry_suffix ENTRY_SUFFIX name) parse_u64"

definition entries :: "(string \<times> string) list \<Rightarrow> (nat \<times> string) list" where
  "entries dir = sort_key fst (List.map_filter (\<lambda>(name, _). map_option (\<lambda>q. (q, name)) (seq_of name)) dir)"

definition act :: "spool_env \<Rightarrow> spool_act \<Rightarrow> (unit, agent_error) result" where
  "act env a = (case se_refuses env a of None \<Rightarrow> Ok () | Some e \<Rightarrow> Err (AgentIo e))"

section \<open>Operations\<close>

definition open_with_capacity ::
  "spool_env \<Rightarrow> (string \<times> string) list \<Rightarrow> nat \<Rightarrow> (spool, agent_error) result" where
  "open_with_capacity env dir capacity =
     and_then (act env MakePrivate) (\<lambda>_.
     and_then (act env ListSpool) (\<lambda>_.
       Ok \<lparr>sp_files = dir, sp_next = (if entries dir = [] then 0 else Suc (fst (last (entries dir)))),
         sp_capacity = capacity\<rparr>))"

definition spool_open :: "spool_env \<Rightarrow> (string \<times> string) list \<Rightarrow> (spool, agent_error) result" where
  "spool_open env dir = open_with_capacity env dir DEFAULT_CAPACITY"

definition depth :: "spool_env \<Rightarrow> spool \<Rightarrow> (nat, agent_error) result" where
  "depth env sp = and_then (act env ListSpool) (\<lambda>_. Ok (length (entries (sp_files sp))))"

text \<open>\<open>create_new\<close>, then the bytes, then the two syncs: a step that fails keeps what the ones before it did.\<close>

definition push :: "spool_env \<Rightarrow> string \<Rightarrow> spool \<Rightarrow> (unit, agent_error) result \<times> spool" where
  "push env sealed sp =
     (case depth env sp of
        Err e \<Rightarrow> (Err e, sp)
      | Ok n \<Rightarrow>
          if sp_capacity sp \<le> n then (Err SpoolFull, sp)
          else
            let name = entry_name (sp_next sp);
                wrote = (\<lambda>bytes. sp\<lparr>sp_files := sp_files sp @ [(name, bytes)]\<rparr>)
            in (case act env (CreateEntry name) of
                  Err e \<Rightarrow> (Err e, sp)
                | Ok _ \<Rightarrow>
                    if map_of (sp_files sp) name \<noteq> None then (Err (AgentIo (IoOther ''File exists'')), sp)
                    else
                      (case act env (WriteEntry name) of
                         Err e \<Rightarrow> (Err e, wrote (take (se_torn env) sealed))
                       | Ok _ \<Rightarrow>
                           (case act env (SyncEntry name) of
                              Err e \<Rightarrow> (Err e, wrote sealed)
                            | Ok _ \<Rightarrow>
                                (case act env SyncSpool of
                                   Err e \<Rightarrow> (Err e, wrote sealed)
                                 | Ok _ \<Rightarrow> (Ok (), (wrote sealed)\<lparr>sp_next := Suc (sp_next sp)\<rparr>))))))"

type_synonym 'u sender = "string \<Rightarrow> 'u \<Rightarrow> (unit, agent_error) result \<times> 'u"

text \<open>What an answer means for the entry it answers: whether it is done with, or the error that ends the drain.\<close>

definition drain_verdict :: "(unit, agent_error) result \<Rightarrow> (bool, agent_error) result" where
  "drain_verdict r =
     (case r of
        Ok _ \<Rightarrow> Ok True
      | Err e \<Rightarrow> (case e of Rejected _ \<Rightarrow> Ok True | Spooled \<Rightarrow> Ok False | _ \<Rightarrow> Err e))"

definition drop_entry :: "spool_env \<Rightarrow> string \<Rightarrow> spool \<Rightarrow> (unit, agent_error) result \<times> spool" where
  "drop_entry env name sp =
     (case act env (RemoveEntry name) of
        Err e \<Rightarrow> (Err e, sp)
      | Ok _ \<Rightarrow> (act env SyncSpool, sp\<lparr>sp_files := AList.delete name (sp_files sp)\<rparr>))"

fun drain_entries ::
  "spool_env \<Rightarrow> 'u sender \<Rightarrow> nat \<Rightarrow> (nat \<times> string) list \<Rightarrow> spool \<Rightarrow> 'u \<Rightarrow> (nat, agent_error) result \<times> spool \<times> 'u" where
  "drain_entries env send removed [] sp u = (Ok removed, sp, u)"
| "drain_entries env send removed ((_, name) # rest) sp u =
     (case and_then (act env (ReadEntry name)) (\<lambda>_. ok_or (AgentIo (IoNotFound name)) (map_of (sp_files sp) name)) of
        Err e \<Rightarrow> (Err e, sp, u)
      | Ok sealed \<Rightarrow>
          (case send sealed u of
             (r, u1) \<Rightarrow>
               (case drain_verdict r of
                  Err e \<Rightarrow> (Err e, sp, u1)
                | Ok False \<Rightarrow> (Ok removed, sp, u1)
                | Ok True \<Rightarrow>
                    (case drop_entry env name sp of
                       (Err e, sp1) \<Rightarrow> (Err e, sp1, u1)
                     | (Ok _, sp1) \<Rightarrow> drain_entries env send (Suc removed) rest sp1 u1))))"

definition spool_drain :: "spool_env \<Rightarrow> 'u sender \<Rightarrow> spool \<Rightarrow> 'u \<Rightarrow> (nat, agent_error) result \<times> spool \<times> 'u" where
  "spool_drain env send sp u =
     (case act env ListSpool of
        Err e \<Rightarrow> (Err e, sp, u)
      | Ok _ \<Rightarrow> drain_entries env send 0 (entries (sp_files sp)) sp u)"

section \<open>The interface\<close>

text \<open>What the service answered for good: it has the entry, or never will.\<close>

definition settled :: "(unit, agent_error) result \<Rightarrow> bool" where
  "settled r \<longleftrightarrow> drain_verdict r = Ok True"

fun answered :: "('e \<Rightarrow> 'u \<Rightarrow> (unit, agent_error) result \<times> 'u) \<Rightarrow> 'e list \<Rightarrow> 'u \<Rightarrow> 'u \<Rightarrow> bool" where
  "answered send [] u u' \<longleftrightarrow> u' = u"
| "answered send (e # es) u u' \<longleftrightarrow> settled (fst (send e u)) \<and> answered send es (snd (send e u)) u'"

lemma answered_append:
  "answered send (es @ fs) u u' \<longleftrightarrow> (\<exists>u1. answered send es u u1 \<and> answered send fs u1 u')"
  by (induction es arbitrary: u) auto

text \<open>
  A queue that is emptied from the front by sending: \<open>replayed\<close> is what a drain may do to it, and
  \<open>fresh\<close> says that another entry can still be numbered.
\<close>

definition replayed ::
  "('e \<Rightarrow> 'u \<Rightarrow> (unit, agent_error) result \<times> 'u) \<Rightarrow> 'e list \<Rightarrow> 'u \<Rightarrow> (nat, agent_error) result \<Rightarrow> 'e list \<Rightarrow> 'u \<Rightarrow> bool" where
  "replayed send es u r rest u' \<longleftrightarrow>
     (\<exists>k u1. k \<le> length es \<and> rest = drop k es \<and> answered send (take k es) u u1 \<and> (\<forall>n. r = Ok n \<longrightarrow> n = k)
        \<and> (u' = u1 \<or> k < length es \<and> u' = snd (send (es ! k) u1)))"

locale outbox =
  fixes waiting :: "'s \<Rightarrow> 'e list"
    and sound :: "'s \<Rightarrow> bool"
    and fresh :: "'s \<Rightarrow> bool"
    and enqueue :: "'e \<Rightarrow> 's \<Rightarrow> (unit, agent_error) result \<times> 's"
    and replay :: "('e \<Rightarrow> 'u \<Rightarrow> (unit, agent_error) result \<times> 'u) \<Rightarrow> 's \<Rightarrow> 'u \<Rightarrow> (nat, agent_error) result \<times> 's \<times> 'u"
  assumes enqueued: "sound s \<Longrightarrow> fresh s \<Longrightarrow> enqueue e s = (Ok (), s') \<Longrightarrow> waiting s' = waiting s @ [e] \<and> sound s'"
    and not_enqueued: "sound s \<Longrightarrow> fresh s \<Longrightarrow> enqueue e s = (Err x, s') \<Longrightarrow> \<exists>torn. waiting s' = waiting s @ torn"
    and replayed: "sound s \<Longrightarrow> replay send s u = (r, s', u')
      \<Longrightarrow> replayed send (waiting s) u r (waiting s') u' \<and> sound s' \<and> (fresh s \<longrightarrow> fresh s')"
begin

text \<open>Replaying and then queueing behind what is left keeps the order of arrival.\<close>

lemma replay_then_enqueue:
  assumes "sound s" "fresh s" "replay send s u = (r, s1, u1)" "enqueue e s1 = (Ok (), s2)"
  obtains k u2 where "k \<le> length (waiting s)" "waiting s2 = drop k (waiting s) @ [e]" "sound s2"
    "answered send (take k (waiting s)) u u2" "u1 = u2 \<or> k < length (waiting s) \<and> u1 = snd (send (waiting s ! k) u2)"
  using replayed [OF assms(1,3)] enqueued [OF _ _ assms(4)] assms(2) by (auto simp: replayed_def)

lemma replay_all:
  assumes "sound s" "replay send s u = (r, s1, u1)" "waiting s1 = []"
  shows "answered send (waiting s) u u1"
proof -
  obtain k u2 where k: "k \<le> length (waiting s)" "drop k (waiting s) = []" "answered send (take k (waiting s)) u u2"
    "u1 = u2 \<or> k < length (waiting s) \<and> u1 = snd (send (waiting s ! k) u2)"
    using replayed [OF assms(1,2)] assms(3) by (auto simp: replayed_def)
  then have "k = length (waiting s)" by simp
  with k(3,4) show ?thesis by simp
qed

end

section \<open>The directory is an outbox\<close>

definition spool_waiting :: "spool \<Rightarrow> string list" where
  "spool_waiting sp = map (\<lambda>(q, name). the (map_of (sp_files sp) name)) (entries (sp_files sp))"

definition spool_sound :: "spool \<Rightarrow> bool" where
  "spool_sound sp \<longleftrightarrow> distinct (map fst (sp_files sp)) \<and> distinct (map fst (entries (sp_files sp)))
     \<and> (\<forall>(q, _) \<in> set (entries (sp_files sp)). q < sp_next sp)"

definition numbers_left :: "spool \<Rightarrow> bool" where
  "numbers_left sp \<longleftrightarrow> sp_next sp < 2 ^ 64"

lemma act_Ok [simp]: "act env a = Ok u \<longleftrightarrow> se_refuses env a = None"
  by (auto simp: act_def split: option.splits)

lemma strip_suffix_iff: "strip_entry_suffix p s = Some r \<longleftrightarrow> s = r @ p"
  by (auto simp: strip_entry_suffix_def strip_prefix_iff) (metis rev_append rev_rev_ident)+

lemma seq_of_entry_name:
  assumes "n < 2 ^ 64" shows "seq_of (entry_name n) = Some n"
proof -
  let ?d = "format_width SEQ_WIDTH (int n)"
  have d: "list_all is_ascii_digit ?d" "nat_of_digits ?d = n" "?d \<noteq> []"
    using format_width_digits [of "int n" SEQ_WIDTH] by simp_all
  then have "hd ?d \<noteq> CHR ''+''" by (cases ?d) (auto simp: is_ascii_digit_def byte_of_def)
  with d assms have "parse_u64 ?d = Some n" by (simp add: parse_u64_def parse_digits_def)
  moreover have "strip_entry_suffix ENTRY_SUFFIX (entry_name n) = Some ?d" by (simp add: strip_suffix_iff entry_name_def)
  ultimately show ?thesis by (simp add: seq_of_def)
qed

lemma set_entries: "(q, name) \<in> set (entries dir) \<longleftrightarrow> name \<in> fst ` set dir \<and> seq_of name = Some q"
  by (force simp: entries_def List.map_filter_def)

lemma entries_append:
  assumes "\<forall>(q, _) \<in> set (entries dir). q < n" "seq_of name = Some n"
  shows "entries (dir @ [(name, c)]) = entries dir @ [(n, name)]"
proof -
  let ?f = "\<lambda>(name, _ :: string). map_option (\<lambda>q. (q, name)) (seq_of name)"
  have "List.map_filter ?f (dir @ [(name, c)]) = List.map_filter ?f dir @ [(n, name)]"
    using assms(2) by (simp add: List.map_filter_def)
  moreover have "sort_key fst (List.map_filter ?f dir @ [(n, name)]) = entries dir @ [(n, name)]"
  proof (rule properties_for_sort_key)
    show "mset (entries dir @ [(n, name)]) = mset (List.map_filter ?f dir @ [(n, name)])" by (simp add: entries_def)
    show "sorted (map fst (entries dir @ [(n, name)]))"
      using assms(1) by (auto simp: sorted_append entries_def less_imp_le)
    fix k
    show "filter (\<lambda>x. fst k = fst x) (entries dir @ [(n, name)])
        = filter (\<lambda>x. fst k = fst x) (List.map_filter ?f dir @ [(n, name)])"
      using sort_key_stable [of fst "fst k" "List.map_filter ?f dir"] by (simp add: entries_def eq_commute)
  qed
  ultimately show ?thesis by (simp add: entries_def)
qed

lemma entries_delete: "entries (AList.delete name dir) = filter (\<lambda>(_, n). n \<noteq> name) (entries dir)"
proof -
  let ?f = "\<lambda>(name, _ :: string). map_option (\<lambda>q. (q, name)) (seq_of name)"
  have "List.map_filter ?f (AList.delete name dir) = filter (\<lambda>(_, n). n \<noteq> name) (List.map_filter ?f dir)"
    by (induction dir) (auto simp: List.map_filter_def AList.delete_eq split: option.splits)
  then show ?thesis by (simp add: entries_def filter_sort)
qed

lemma distinct_entry_names:
  assumes "distinct (map fst dir)" shows "distinct (map snd (entries dir))"
proof -
  let ?f = "\<lambda>(name, _ :: string). map_option (\<lambda>q. (q, name)) (seq_of name)"
  have "map snd (List.map_filter ?f dir) = filter (\<lambda>n. seq_of n \<noteq> None) (map fst dir)"
    by (induction dir) (auto simp: List.map_filter_def)
  with assms have "distinct (map snd (List.map_filter ?f dir))" by simp
  moreover have "mset (map snd (entries dir)) = mset (map snd (List.map_filter ?f dir))"
    by (simp add: entries_def)
  ultimately show ?thesis using mset_eq_imp_distinct_iff by blast
qed

lemma map_of_entry: "(q, name) \<in> set (entries dir) \<Longrightarrow> map_of dir name \<noteq> None"
  by (auto simp: set_entries map_of_eq_None_iff)

lemma waiting_append:
  assumes "spool_sound sp" "numbers_left sp" "map_of (sp_files sp) (entry_name (sp_next sp)) = None"
  shows "spool_waiting (sp\<lparr>sp_files := sp_files sp @ [(entry_name (sp_next sp), c)]\<rparr>) = spool_waiting sp @ [c]"
    and "spool_sound (sp\<lparr>sp_files := sp_files sp @ [(entry_name (sp_next sp), c)], sp_next := Suc (sp_next sp)\<rparr>)"
proof -
  let ?n = "entry_name (sp_next sp)"
  have e: "entries (sp_files sp @ [(?n, c)]) = entries (sp_files sp) @ [(sp_next sp, ?n)]"
    using assms(1,2) by (intro entries_append) (auto simp: spool_sound_def numbers_left_def seq_of_entry_name)
  have old: "map_of (sp_files sp @ [(?n, c)]) name = map_of (sp_files sp) name"
    if "(q, name) \<in> set (entries (sp_files sp))" for q name
    using map_of_entry [OF that] by (auto simp: map_add_def)
  have "map_of (sp_files sp @ [(?n, c)]) ?n = Some c" using assms(3) by (simp add: map_add_def)
  with e old show "spool_waiting (sp\<lparr>sp_files := sp_files sp @ [(?n, c)]\<rparr>) = spool_waiting sp @ [c]"
    by (auto simp: spool_waiting_def)
  show "spool_sound (sp\<lparr>sp_files := sp_files sp @ [(?n, c)], sp_next := Suc (sp_next sp)\<rparr>)"
    using assms(1,3) by (fastforce simp: spool_sound_def e map_of_eq_None_iff)
qed

lemma waiting_delete:
  assumes "spool_sound sp" "entries (sp_files sp) = (q, name) # rest"
  shows "entries (AList.delete name (sp_files sp)) = rest"
    and "spool_waiting (sp\<lparr>sp_files := AList.delete name (sp_files sp)\<rparr>) = tl (spool_waiting sp)"
    and "spool_sound (sp\<lparr>sp_files := AList.delete name (sp_files sp)\<rparr>)"
proof -
  have d: "distinct (map snd (entries (sp_files sp)))" using assms(1) distinct_entry_names by (auto simp: spool_sound_def)
  then have "name \<notin> snd ` set rest" using assms(2) by simp
  then have "filter (\<lambda>(_, n). n \<noteq> name) rest = rest" by (force simp: filter_id_conv)
  then show e: "entries (AList.delete name (sp_files sp)) = rest" by (simp add: entries_delete assms(2))
  have "map_of (AList.delete name (sp_files sp)) n = map_of (sp_files sp) n" if "(p, n) \<in> set rest" for p n
    using \<open>name \<notin> snd ` set rest\<close> that by (force simp: delete_conv')
  then show "spool_waiting (sp\<lparr>sp_files := AList.delete name (sp_files sp)\<rparr>) = tl (spool_waiting sp)"
    by (auto simp: spool_waiting_def e assms(2))
  show "spool_sound (sp\<lparr>sp_files := AList.delete name (sp_files sp)\<rparr>)"
    using assms by (auto simp: spool_sound_def e distinct_delete)
qed

definition drained ::
  "'u sender \<Rightarrow> nat \<Rightarrow> spool \<Rightarrow> 'u \<Rightarrow> (nat, agent_error) result \<Rightarrow> spool \<Rightarrow> 'u \<Rightarrow> nat \<Rightarrow> 'u \<Rightarrow> bool" where
  "drained send removed sp u r sp' u' k u1 \<longleftrightarrow>
     k \<le> length (spool_waiting sp) \<and> spool_waiting sp' = drop k (spool_waiting sp)
     \<and> answered send (take k (spool_waiting sp)) u u1 \<and> (\<forall>n. r = Ok n \<longrightarrow> n = removed + k)
     \<and> (u' = u1 \<or> k < length (spool_waiting sp) \<and> u' = snd (send (spool_waiting sp ! k) u1))
     \<and> spool_sound sp' \<and> sp_next sp' = sp_next sp"

lemma drained_none: "spool_sound sp \<Longrightarrow> (\<forall>n. r = Ok n \<longrightarrow> n = removed) \<Longrightarrow> drained send removed sp u r sp u 0 u"
  by (simp add: drained_def)

lemma drained_tried:
  "spool_sound sp \<Longrightarrow> spool_waiting sp = c # cs \<Longrightarrow> (\<forall>n. r = Ok n \<longrightarrow> n = removed)
    \<Longrightarrow> drained send removed sp u r sp (snd (send c u)) 0 u"
  by (simp add: drained_def)

lemma drained_first:
  assumes "spool_waiting sp = c # spool_waiting sp1" "settled (fst (send c u))" "sp_next sp1 = sp_next sp"
    and "drained send (Suc removed) sp1 (snd (send c u)) r sp' u' k u1"
  shows "drained send removed sp u r sp' u' (Suc k) u1"
  using assms by (auto simp: drained_def)

lemma drain_entries_replays:
  assumes "drain_entries env send removed (entries (sp_files sp)) sp u = (r, sp', u')" "spool_sound sp"
  shows "\<exists>k u1. drained send removed sp u r sp' u' k u1"
  using assms
proof (induction "entries (sp_files sp)" arbitrary: removed sp u)
  case Nil
  from Nil.prems have "sp' = sp" "u' = u" "r = Ok removed" by (simp_all flip: Nil.hyps)
  with Nil.prems(2) show ?case by (blast intro: drained_none)
next
  case (Cons e rest)
  obtain q name where e: "entries (sp_files sp) = (q, name) # rest" using Cons.hyps(2) by (metis prod.collapse)
  then obtain c where c: "map_of (sp_files sp) name = Some c" using map_of_entry [of q name "sp_files sp"] by auto
  let ?sp1 = "sp\<lparr>sp_files := AList.delete name (sp_files sp)\<rparr>"
  note gone = waiting_delete [OF Cons.prems(2) e]
  have w: "spool_waiting sp = c # spool_waiting ?sp1" by (simp add: gone(2)) (simp add: spool_waiting_def e c)
  obtain a u1 where s: "send c u = (a, u1)" by fastforce
  note tried = drained_tried [OF Cons.prems(2) w, of r removed send u, unfolded s snd_conv]
  show ?case
  proof (cases "se_refuses env (ReadEntry name)")
    case (Some x)
    with Cons.prems(1) have "sp' = sp" "u' = u" "r = Err (AgentIo x)" by (simp_all add: e act_def)
    with Cons.prems(2) show ?thesis by (blast intro: drained_none)
  next
    case read: None
    with Cons.prems(1) have d: "(case drain_verdict a of
          Err x \<Rightarrow> (Err x, sp, u1)
        | Ok False \<Rightarrow> (Ok removed, sp, u1)
        | Ok True \<Rightarrow> (case drop_entry env name sp of (Err x, sp1) \<Rightarrow> (Err x, sp1, u1)
            | (Ok _, sp1) \<Rightarrow> drain_entries env send (Suc removed) rest sp1 u1)) = (r, sp', u')"
      by (simp add: e act_def c s)
    show ?thesis
    proof (cases "drain_verdict a = Ok True")
      case False
      with d have "sp' = sp" "u' = u1" "\<forall>n. r = Ok n \<longrightarrow> n = removed"
        by (auto split: result.splits bool.splits)
      with tried show ?thesis by blast
    next
      case over: True
      then have settled: "settled (fst (send c u))" by (simp add: settled_def s)
      show ?thesis
      proof (cases "se_refuses env (RemoveEntry name)")
        case (Some x)
        with d over have "sp' = sp" "u' = u1" "r = Err (AgentIo x)" by (simp_all add: drop_entry_def act_def)
        with tried show ?thesis by blast
      next
        case removed: None
        show ?thesis
        proof (cases "se_refuses env SyncSpool")
          case (Some x)
          with d over removed have "sp' = ?sp1" "u' = u1" "r = Err (AgentIo x)" by (simp_all add: drop_entry_def act_def)
          moreover have "drained send (Suc removed) ?sp1 u1 (Err (AgentIo x)) ?sp1 u1 0 u1"
            using gone(3) by (intro drained_none) simp_all
          ultimately have "drained send removed sp u r sp' u' (Suc 0) u1"
            using drained_first [of sp c ?sp1 send u removed, OF w settled] by (simp add: s)
          then show ?thesis by blast
        next
          case None
          with d over removed have "drain_entries env send (Suc removed) (entries (sp_files ?sp1)) ?sp1 u1 = (r, sp', u')"
            by (simp add: drop_entry_def act_def gone(1))
          from Cons.hyps(1) [OF _ this gone(3)] gone(1) obtain k u2 where
            "drained send (Suc removed) ?sp1 u1 r sp' u' k u2" by auto
          with drained_first [of sp c ?sp1 send u removed, OF w settled] have "drained send removed sp u r sp' u' (Suc k) u2"
            by (simp add: s)
          then show ?thesis by blast
        qed
      qed
    qed
  qed
qed

lemma push_elim [consumes 1, case_names kept torn taken]:
  assumes "push env e s = (r, s')"
  obtains (kept) x where "r = Err x" "s' = s"
  | (torn) x c where "r = Err x" "map_of (sp_files s) (entry_name (sp_next s)) = None"
      "s' = s\<lparr>sp_files := sp_files s @ [(entry_name (sp_next s), c)]\<rparr>"
  | (taken) "r = Ok ()" "map_of (sp_files s) (entry_name (sp_next s)) = None"
      "s' = s\<lparr>sp_files := sp_files s @ [(entry_name (sp_next s), e)], sp_next := Suc (sp_next s)\<rparr>"
      "length (entries (sp_files s)) < sp_capacity s"
proof -
  let ?name = "entry_name (sp_next s)"
  show ?thesis
  proof (cases "(\<exists>n. depth env s = Ok n \<and> n < sp_capacity s) \<and> act env (CreateEntry ?name) = Ok ()
      \<and> map_of (sp_files s) ?name = None")
    case False
    then consider x where "depth env s = Err x" | n where "depth env s = Ok n" "sp_capacity s \<le> n"
      | n x where "depth env s = Ok n" "\<not> sp_capacity s \<le> n" "act env (CreateEntry ?name) = Err x"
      | n where "depth env s = Ok n" "\<not> sp_capacity s \<le> n" "act env (CreateEntry ?name) = Ok ()" "map_of (sp_files s) ?name \<noteq> None"
      by (cases "depth env s"; cases "act env (CreateEntry ?name)") fastforce+
    then have "\<exists>x. push env e s = (Err x, s)" by cases (simp_all add: push_def Let_def del: act_Ok)
    then show ?thesis using assms kept by auto
  next
    case True
    then obtain n where n: "depth env s = Ok n" "n < sp_capacity s" "n = length (entries (sp_files s))"
      by (auto simp: depth_def)
    have "(\<exists>x c. push env e s = (Err x, s\<lparr>sp_files := sp_files s @ [(?name, c)]\<rparr>))
      \<or> push env e s = (Ok (), s\<lparr>sp_files := sp_files s @ [(?name, e)], sp_next := Suc (sp_next s)\<rparr>)"
      using True n(1,2)
      by (cases "act env (WriteEntry ?name)"; cases "act env (SyncEntry ?name)"; cases "act env SyncSpool")
        (auto simp: push_def Let_def simp del: act_Ok)
    then show ?thesis using assms True n(2,3) torn taken by auto
  qed
qed

interpretation spool: outbox spool_waiting spool_sound numbers_left "push env" "spool_drain env"
proof
  fix e s s' assume s: "spool_sound s" "numbers_left s" and p: "push env e s = (Ok (), s')"
  from p show "spool_waiting s' = spool_waiting s @ [e] \<and> spool_sound s'"
  proof (cases rule: push_elim)
    case taken
    with waiting_append [OF s taken(2), of e] show ?thesis by (simp add: spool_waiting_def)
  qed simp_all
next
  fix e s x s' assume s: "spool_sound s" "numbers_left s" and p: "push env e s = (Err x, s')"
  from p show "\<exists>torn. spool_waiting s' = spool_waiting s @ torn"
    by (cases rule: push_elim) (use waiting_append(1) [OF s] in auto)
next
  fix send :: "'u sender" and s u r s' u'
  assume s: "spool_sound s" and d: "spool_drain env send s u = (r, s', u')"
  show "replayed send (spool_waiting s) u r (spool_waiting s') u' \<and> spool_sound s' \<and> (numbers_left s \<longrightarrow> numbers_left s')"
  proof (cases "se_refuses env ListSpool")
    case (Some x)
    with d s show ?thesis by (auto simp: spool_drain_def act_def replayed_def)
  next
    case None
    with d have "drain_entries env send 0 (entries (sp_files s)) s u = (r, s', u')" by (simp add: spool_drain_def act_def)
    from drain_entries_replays [OF this s] show ?thesis
      by (auto simp: drained_def replayed_def numbers_left_def)
  qed
qed

lemma waiting_opened: "open_with_capacity env dir n = Ok sp \<Longrightarrow> spool_waiting sp = map (\<lambda>(q, name). the (map_of dir name)) (entries dir)"
  by (auto simp: open_with_capacity_def spool_waiting_def split: if_splits)

section \<open>The properties\<close>

text \<open>
  C8: A drain replays in order and loses nothing. Whatever the service and the file system do, the entries a
  drain has removed are the oldest ones, each of them answered for good, in the order they arrived; every
  other one is still there, and at most one more than those removed has been tried.
\<close>

theorem spool_replays_in_order:
  assumes "spool_sound sp" "spool_drain env send sp u = (r, sp', u')"
  shows "\<exists>k u1. k \<le> length (spool_waiting sp) \<and> spool_waiting sp' = drop k (spool_waiting sp)
     \<and> answered send (take k (spool_waiting sp)) u u1 \<and> (\<forall>n. r = Ok n \<longrightarrow> n = k)
     \<and> (u' = u1 \<or> k < length (spool_waiting sp) \<and> u' = snd (send (spool_waiting sp ! k) u1))"
  using spool.replayed [OF assms] by (auto simp: replayed_def)

text \<open>
  C36: A restart keeps the queue. Opening the directory a push has just answered for, with any capacity, gives
  a queue whose entries are those that waited before it, in that order, and the new one behind them; and the
  next entry it numbers goes behind that.
\<close>

theorem reopened_spool_keeps_order:
  assumes "spool_sound sp" "numbers_left sp" "push env e sp = (Ok (), sp')"
    and "open_with_capacity env' (sp_files sp') capacity = Ok sp''"
  shows "spool_waiting sp'' = spool_waiting sp @ [e] \<and> spool_sound sp'' \<and> sp_next sp'' = Suc (sp_next sp)"
  using assms(3)
proof (cases rule: push_elim)
  case taken
  let ?n = "entry_name (sp_next sp)"
  from spool.enqueued [OF assms(1-3)] have w: "spool_waiting sp' = spool_waiting sp @ [e]" and s: "spool_sound sp'" by blast+
  have "entries (sp_files sp') = entries (sp_files sp) @ [(sp_next sp, ?n)]"
    unfolding taken(3) using assms(1,2)
    by (simp add: entries_append seq_of_entry_name spool_sound_def numbers_left_def)
  then have "sp_next sp'' = Suc (sp_next sp)" and same: "sp_files sp'' = sp_files sp'"
    using assms(4) by (auto simp: open_with_capacity_def)
  moreover have "spool_sound sp''" using s calculation(1) unfolding spool_sound_def same by (simp add: taken(3))
  ultimately show ?thesis using w by (simp add: spool_waiting_def)
qed simp_all

text \<open>
  C37: A write that fails halfway wedges the queue. The entry is left torn behind the others, its number is
  used up but not passed, and until that entry is gone or the queue is opened again every push fails, however
  well the file system works by then.
\<close>

theorem torn_entry_wedges_spool:
  assumes "spool_sound sp" "numbers_left sp" "push env e sp = (Err (AgentIo x), sp')"
    and "se_refuses env (WriteEntry (entry_name (sp_next sp))) = Some x" "se_refuses env ListSpool = None"
    and "length (spool_waiting sp) < sp_capacity sp" "map_of (sp_files sp) (entry_name (sp_next sp)) = None"
    and "se_refuses env (CreateEntry (entry_name (sp_next sp))) = None"
    and "\<And>a. se_refuses healthy a = None" "Suc (length (spool_waiting sp)) < sp_capacity sp"
  shows "spool_waiting sp' = spool_waiting sp @ [take (se_torn env) e]
     \<and> push healthy e' sp' = (Err (AgentIo (IoOther ''File exists'')), sp')"
proof -
  let ?n = "entry_name (sp_next sp)"
  have l: "length (entries (sp_files sp)) = length (spool_waiting sp)" by (simp add: spool_waiting_def)
  have sp': "sp' = sp\<lparr>sp_files := sp_files sp @ [(?n, take (se_torn env) e)]\<rparr>"
    using assms(3-8) l by (simp add: push_def depth_def act_def Let_def)
  have w: "spool_waiting sp' = spool_waiting sp @ [take (se_torn env) e]"
    unfolding sp' by (rule waiting_append(1) [OF assms(1,2,7)])
  then have "length (entries (sp_files sp')) = Suc (length (spool_waiting sp))"
    by (metis length_append_singleton length_map spool_waiting_def)
  then have "push healthy e' sp' = (Err (AgentIo (IoOther ''File exists'')), sp')"
    using assms(7,9,10) by (simp add: push_def depth_def act_def Let_def sp' map_add_def)
  with w show ?thesis by blast
qed

section \<open>The properties at work\<close>

definition good_disk :: spool_env where "good_disk = \<lparr>se_refuses = (\<lambda>_. None), se_torn = 0\<rparr>"

definition full_disk :: spool_env where
  "full_disk = \<lparr>se_refuses = (\<lambda>a. case a of WriteEntry _ \<Rightarrow> Some (IoOther ''No space left'') | _ \<Rightarrow> None), se_torn = 2\<rparr>"

definition two_waiting :: spool where
  "two_waiting = \<lparr>sp_files = [(entry_name 4, ''b''), (''notes.txt'', ''x''), (entry_name 3, ''a'')], sp_next = 5, sp_capacity = 10\<rparr>"

lemma entry_name_inject: "m < 2 ^ 64 \<Longrightarrow> n < 2 ^ 64 \<Longrightarrow> entry_name m = entry_name n \<longleftrightarrow> m = n"
  by (metis option.inject seq_of_entry_name)

lemma two_waiting_facts:
  "spool_sound two_waiting" "numbers_left two_waiting" "spool_waiting two_waiting = [''a'', ''b'']"
  "map_of (sp_files two_waiting) (entry_name 5) = None" "sp_next two_waiting = 5" "sp_capacity two_waiting = 10"
proof -
  have foreign: "seq_of ''notes.txt'' = None"
  proof -
    have "strip_entry_suffix ENTRY_SUFFIX ''notes.txt'' = None" by code_simp
    then show ?thesis by (simp add: seq_of_def)
  qed
  have named: "seq_of (entry_name 3) = Some 3" "seq_of (entry_name 4) = Some 4" "seq_of (entry_name 5) = Some 5"
    by (simp_all add: seq_of_entry_name)
  have other: "''notes.txt'' \<noteq> entry_name n" if "n < 2 ^ 64" for n
    using foreign seq_of_entry_name [OF that] by auto
  have e: "entries (sp_files two_waiting) = [(3, entry_name 3), (4, entry_name 4)]"
    by (simp add: entries_def two_waiting_def List.map_filter_def named foreign)
  have d: "entry_name 3 \<noteq> entry_name 4" "entry_name 5 \<noteq> entry_name 4" "entry_name 5 \<noteq> entry_name 3"
    "''notes.txt'' \<noteq> entry_name 3" "''notes.txt'' \<noteq> entry_name 4" "''notes.txt'' \<noteq> entry_name 5"
    by (simp_all add: entry_name_inject other)
  then show "spool_sound two_waiting" "spool_waiting two_waiting = [''a'', ''b'']"
    "map_of (sp_files two_waiting) (entry_name 5) = None"
    unfolding spool_sound_def spool_waiting_def e by (auto simp: two_waiting_def)
  show "numbers_left two_waiting" "sp_next two_waiting = 5" "sp_capacity two_waiting = 10"
    by (simp_all add: numbers_left_def two_waiting_def)
qed

lemma two_waiting_length: "length (entries (sp_files two_waiting)) = 2"
  using two_waiting_facts(3) by (metis length_map spool_waiting_def length_Cons list.size(3) One_nat_def Suc_1)

theorem spool_replays_in_order_witness:
  "\<exists>r sp' u'. spool_drain good_disk (\<lambda>e u. if e = ''a'' then (Ok (), u @ [e]) else (Err Spooled, u)) two_waiting [] = (r, sp', u')
     \<and> (\<exists>k. spool_waiting sp' = drop k [''a'', ''b''])"
proof -
  let ?send = "\<lambda>e u. if e = ''a'' then (Ok (), u @ [e]) else (Err Spooled, u)"
  obtain r sp' u' where d: "spool_drain good_disk ?send two_waiting [] = (r, sp', u')" by (rule prod_cases3)
  obtain k where k: "spool_waiting sp' = drop k (spool_waiting two_waiting)"
    using spool_replays_in_order [OF two_waiting_facts(1) d] by (elim exE conjE)
  show ?thesis by (rule exI, rule exI, rule exI, rule conjI, rule d, rule exI, rule k [unfolded two_waiting_facts(3)])
qed

theorem reopened_spool_keeps_order_witness:
  "\<exists>sp' sp''. push good_disk ''c'' two_waiting = (Ok (), sp') \<and> open_with_capacity good_disk (sp_files sp') 1 = Ok sp''
     \<and> spool_waiting sp'' = [''a'', ''b''] @ [''c'']"
proof -
  obtain sp' where p: "push good_disk ''c'' two_waiting = (Ok (), sp')"
    using two_waiting_facts by (simp add: push_def depth_def act_def good_disk_def Let_def two_waiting_length)
  obtain sp'' where q: "open_with_capacity good_disk (sp_files sp') 1 = Ok sp''"
    by (simp add: open_with_capacity_def good_disk_def)
  from reopened_spool_keeps_order [OF two_waiting_facts(1,2) p q] p q show ?thesis by (simp add: two_waiting_facts(3))
qed

theorem torn_entry_wedges_spool_witness:
  "\<exists>x sp'. push full_disk ''abc'' two_waiting = (Err (AgentIo x), sp') \<and> spool_waiting sp' = [''a'', ''b''] @ [''ab'']
     \<and> push good_disk ''d'' sp' = (Err (AgentIo (IoOther ''File exists'')), sp')"
proof -
  obtain sp' where p: "push full_disk ''abc'' two_waiting = (Err (AgentIo (IoOther ''No space left'')), sp')"
    using two_waiting_facts by (simp add: push_def depth_def act_def full_disk_def Let_def two_waiting_length)
  have "spool_waiting sp' = spool_waiting two_waiting @ [take (se_torn full_disk) ''abc'']
     \<and> push good_disk ''d'' sp' = (Err (AgentIo (IoOther ''File exists'')), sp')"
    by (rule torn_entry_wedges_spool [OF two_waiting_facts(1,2) p])
      (simp_all add: full_disk_def good_disk_def two_waiting_facts)
  with p show ?thesis by (simp add: two_waiting_facts(3) full_disk_def)
qed

end
