(* ===== verification/Sql.thy ===== *)
theory Sql
  imports Index
begin

text \<open>
  What \<open>yaam-store/src/query.rs\<close> relies on of SQLite, over the tables of the index. A statement is the
  FROM list, the conditions of its ON and WHERE clauses in the order the text has them, the ORDER BY list
  and the LIMIT; a \<open>?\<close> is a hole, and the bound values fill the holes of the text from left to right. A value
  that is missing or bound to nothing is NULL, and a comparison with NULL does not hold. Text compares by its
  bytes, and an integer and a real by value. The frontmatter column holds the structure the JSON text spells.
\<close>

section \<open>Values and rows\<close>

datatype sql_value = Null | SInt int | SReal f32 | SText string | SDoc record_structure

text \<open>The place of a value in the order of values: NULL, then numbers, then text.\<close>

definition value_key :: "sql_value \<Rightarrow> nat \<times> rat \<times> string" where
  "value_key v =
     (case v of
        Null \<Rightarrow> (0, 0, [])
      | SInt i \<Rightarrow> (2, of_int i, [])
      | SReal x \<Rightarrow> (case x of F32 q \<Rightarrow> (2, q, []) | NegInf \<Rightarrow> (1, 0, []) | Inf \<Rightarrow> (3, 0, []) | NaN \<Rightarrow> (0, 0, []))
      | SText s \<Rightarrow> (4, 0, s)
      | SDoc _ \<Rightarrow> (5, 0, []))"

definition is_null :: "sql_value \<Rightarrow> bool" where
  "is_null v \<longleftrightarrow> fst (value_key v) = 0"

datatype comparison = Equal | Differs | AtLeast | AtMost | Below

definition compares :: "comparison \<Rightarrow> sql_value \<Rightarrow> sql_value \<Rightarrow> bool" where
  "compares op u v \<longleftrightarrow> \<not> is_null u \<and> \<not> is_null v \<and>
     (case op of
        Equal \<Rightarrow> value_key u = value_key v
      | Differs \<Rightarrow> value_key u \<noteq> value_key v
      | AtLeast \<Rightarrow> value_key v \<le> value_key u
      | AtMost \<Rightarrow> value_key u \<le> value_key v
      | Below \<Rightarrow> value_key u < value_key v)"

definition lesser :: "sql_value \<Rightarrow> sql_value \<Rightarrow> sql_value" where
  "lesser u v = (if value_key v < value_key u then v else u)"

datatype table_row =
    RecordRow "string \<times> record_row"
  | AttrRow "(nat \<times> string) \<times> string"
  | RefRow "(nat \<times> string \<times> string \<times> string) \<times> ref_row"
  | HitRow nat f32                                   \<comment> \<open>row and relevance of a full-text match\<close>
  | CteRow "(string \<times> sql_value) list"            \<comment> \<open>of a common table expression, by column\<close>

definition opt_text :: "string option \<Rightarrow> sql_value" where
  "opt_text o' = (case o' of None \<Rightarrow> Null | Some s \<Rightarrow> SText s)"

definition record_column :: "string \<Rightarrow> string \<times> record_row \<Rightarrow> sql_value" where
  "record_column c = (\<lambda>(rid, row). let s = rec_frontmatter row in
     if c = ''id'' then SInt (int (rec_pk row))
     else if c = ''record_id'' then SText rid
     else if c = ''frontmatter'' then SDoc s
     else if c = ''received_ms'' then SInt (rec_received_ms row)
     else if c = ''action'' then SText (action s)
     else if c = ''outcome'' then SText (outcome_str (outcome s))
     else if c = ''agent'' then SText (agent s)
     else if c = ''visibility'' then SText (visibility_str (visibility s))
     else if c = ''team'' then opt_text (team s)
     else if c = ''sealed'' then SInt (if data_class s = SubjectDerived then 1 else 0)
     else Null)"

fun row_column :: "table_row \<Rightarrow> string \<Rightarrow> sql_value" where
  "row_column (RecordRow r) c = record_column c r"
| "row_column (AttrRow ((pk, key), v)) c =
     (if c = ''record_pk'' then SInt (int pk) else if c = ''key'' then SText key
      else if c = ''value'' then SText v else Null)"
| "row_column (RefRow ((pk, kind, eid, role), r)) c =
     (if c = ''record_pk'' then SInt (int pk) else if c = ''kind'' then SText kind
      else if c = ''entity_id'' then SText eid else if c = ''role'' then SText role
      else if c = ''confidence'' then SReal (ref_confidence r)
      else if c = ''received_ms'' then SInt (ref_received_ms r) else Null)"
| "row_column (HitRow pk relevance) c =
     (if c = ''record_pk'' then SInt (int pk) else if c = ''relevance'' then SReal relevance else Null)"
| "row_column (CteRow cs) c = (case map_of cs c of None \<Rightarrow> Null | Some v \<Rightarrow> v)"

text \<open>A row of a join: the rows it joins, each under its alias.\<close>

type_synonym joined = "(string \<times> table_row) list"
type_synonym column = "string \<times> string"

definition column_of :: "joined \<Rightarrow> column \<Rightarrow> sql_value" where
  "column_of t = (\<lambda>(alias, c). case map_of t alias of None \<Rightarrow> Null | Some r \<Rightarrow> row_column r c)"

section \<open>Conditions\<close>

datatype condition =
    Never                                            \<comment> \<open>\<open>1 = 0\<close>\<close>
  | Holds column comparison                          \<comment> \<open>a column against a hole\<close>
  | OneOf column nat                                 \<comment> \<open>\<open>IN (?, ?)\<close>\<close>
  | Columns column comparison column
  | Within column column                             \<comment> \<open>\<open>a <= b + ?\<close>\<close>
  | Fixed column sql_value                           \<comment> \<open>a column against a constant\<close>
  | HasAttr column                                   \<comment> \<open>\<open>EXISTS\<close> a row of \<open>record_attrs\<close> with two holes\<close>
  | AllOf "condition list"
  | AnyOf "condition list"

fun holes :: "condition \<Rightarrow> nat" where
  "holes Never = 0"
| "holes (Holds _ _) = 1"
| "holes (OneOf _ n) = n"
| "holes (Columns _ _ _) = 0"
| "holes (Within _ _) = 1"
| "holes (Fixed _ _) = 0"
| "holes (HasAttr _) = 2"
| "holes (AllOf cs) = sum_list (map holes cs)"
| "holes (AnyOf cs) = sum_list (map holes cs)"

text \<open>The value bound to the hole at a position; an unbound one is NULL.\<close>

definition bound :: "sql_value list \<Rightarrow> nat \<Rightarrow> sql_value" where
  "bound bs i = (if i < length bs then bs ! i else Null)"

fun shifted :: "sql_value \<Rightarrow> sql_value \<Rightarrow> sql_value" where
  "shifted (SInt i) (SInt j) = SInt (i + j)"
| "shifted _ _ = Null"

definition has_attr :: "index \<Rightarrow> sql_value \<Rightarrow> sql_value \<Rightarrow> sql_value \<Rightarrow> bool" where
  "has_attr idx pk key v \<longleftrightarrow> list_ex (\<lambda>a. compares Equal (row_column (AttrRow a) ''record_pk'') pk
     \<and> compares Equal (row_column (AttrRow a) ''key'') key \<and> compares Equal (row_column (AttrRow a) ''value'') v)
     (record_attrs idx)"

fun meets :: "index \<Rightarrow> joined \<Rightarrow> condition \<Rightarrow> sql_value list \<Rightarrow> bool"
  and meets_all :: "index \<Rightarrow> joined \<Rightarrow> condition list \<Rightarrow> sql_value list \<Rightarrow> bool"
  and meets_any :: "index \<Rightarrow> joined \<Rightarrow> condition list \<Rightarrow> sql_value list \<Rightarrow> bool" where
  "meets idx t Never bs = False"
| "meets idx t (Holds c op) bs = compares op (column_of t c) (bound bs 0)"
| "meets idx t (OneOf c n) bs = list_ex (compares Equal (column_of t c)) (map (bound bs) [0..<n])"
| "meets idx t (Columns c op d) bs = compares op (column_of t c) (column_of t d)"
| "meets idx t (Within c d) bs = compares AtMost (column_of t c) (shifted (column_of t d) (bound bs 0))"
| "meets idx t (Fixed c v) bs = compares Equal (column_of t c) v"
| "meets idx t (HasAttr c) bs = has_attr idx (column_of t c) (bound bs 0) (bound bs 1)"
| "meets idx t (AllOf cs) bs = meets_all idx t cs bs"
| "meets idx t (AnyOf cs) bs = meets_any idx t cs bs"
| "meets_all idx t [] bs = True"
| "meets_all idx t (c # cs) bs = (meets idx t c (take (holes c) bs) \<and> meets_all idx t cs (drop (holes c) bs))"
| "meets_any idx t [] bs = False"
| "meets_any idx t (c # cs) bs = (meets idx t c (take (holes c) bs) \<or> meets_any idx t cs (drop (holes c) bs))"

section \<open>Statements\<close>

text \<open>The terms of an ORDER BY: a column, and whether it is descending.\<close>

fun comes_before :: "(column \<times> bool) list \<Rightarrow> joined \<Rightarrow> joined \<Rightarrow> bool" where
  "comes_before [] t u = True"
| "comes_before ((c, desc) # terms) t u =
     (let x = value_key (column_of t c); y = value_key (column_of u c)
      in if x = y then comes_before terms t u else if desc then y < x else x < y)"

fun place_row :: "(column \<times> bool) list \<Rightarrow> joined \<Rightarrow> joined list \<Rightarrow> joined list" where
  "place_row terms t [] = [t]"
| "place_row terms t (u # us) = (if comes_before terms t u then t # u # us else u # place_row terms t us)"

definition arranged :: "(column \<times> bool) list \<Rightarrow> joined list \<Rightarrow> joined list" where
  "arranged terms ts = foldr (place_row terms) ts []"

record statement =
  st_from :: "(string \<times> string) list"               \<comment> \<open>table and alias\<close>
  st_where :: "condition list"
  st_order :: "(column \<times> bool) list"
  st_paged :: bool

definition table_rows :: "index \<Rightarrow> string \<Rightarrow> table_row list" where
  "table_rows idx name =
     (if name = ''records'' then map RecordRow (record_rows idx)
      else if name = ''record_attrs'' then map AttrRow (record_attrs idx)
      else if name = ''entity_refs'' then map RefRow (entity_refs idx) else [])"

fun join_tables :: "(string \<Rightarrow> table_row list) \<Rightarrow> (string \<times> string) list \<Rightarrow> joined list" where
  "join_tables tables [] = [[]]"
| "join_tables tables ((name, alias) # rest) =
     concat (map (\<lambda>r. map (\<lambda>t. (alias, r) # t) (join_tables tables rest)) (tables name))"

definition all_holes :: "condition list \<Rightarrow> nat" where
  "all_holes cs = sum_list (map holes cs)"

text \<open>A LIMIT bound to a number that is not negative takes that many rows.\<close>

definition first_rows :: "sql_value \<Rightarrow> 'a list \<Rightarrow> 'a list" where
  "first_rows v xs = (case v of SInt n \<Rightarrow> if n < 0 then xs else take (nat n) xs | _ \<Rightarrow> xs)"

definition query_rows :: "index \<Rightarrow> (string \<Rightarrow> table_row list) \<Rightarrow> statement \<Rightarrow> sql_value list \<Rightarrow> joined list" where
  "query_rows idx tables stmt bs =
     (let found = arranged (st_order stmt)
        (filter (\<lambda>t. meets_all idx t (st_where stmt) (take (all_holes (st_where stmt)) bs)) (join_tables tables (st_from stmt)))
      in if st_paged stmt then first_rows (bound bs (all_holes (st_where stmt))) found else found)"

section \<open>Filled holes\<close>

text \<open>The values bound to a condition are exactly those its holes take, and under them it says what is meant.\<close>

definition fits :: "index \<Rightarrow> joined \<Rightarrow> condition \<Rightarrow> sql_value list \<Rightarrow> bool \<Rightarrow> bool" where
  "fits idx t c bs p \<longleftrightarrow> holes c = length bs \<and> meets idx t c bs = p"

definition fits_all :: "index \<Rightarrow> joined \<Rightarrow> condition list \<Rightarrow> sql_value list \<Rightarrow> bool \<Rightarrow> bool" where
  "fits_all idx t cs bs p \<longleftrightarrow> all_holes cs = length bs \<and> meets_all idx t cs bs = p"

definition fits_any :: "index \<Rightarrow> joined \<Rightarrow> condition list \<Rightarrow> sql_value list \<Rightarrow> bool \<Rightarrow> bool" where
  "fits_any idx t cs bs p \<longleftrightarrow> all_holes cs = length bs \<and> meets_any idx t cs bs = p"

lemma all_holes_simps [simp]:
  "all_holes [] = 0" "all_holes (c # cs) = holes c + all_holes cs" "all_holes (cs @ ds) = all_holes cs + all_holes ds"
  by (simp_all add: all_holes_def)

lemma meets_all_append:
  "meets_all idx t (cs @ ds) bs \<longleftrightarrow>
     meets_all idx t cs (take (all_holes cs) bs) \<and> meets_all idx t ds (drop (all_holes cs) bs)"
proof (induction cs arbitrary: bs)
  case (Cons c cs)
  show ?case using Cons.IH [of "drop (holes c) bs"]
    by (simp add: take_drop add.commute min_def)
qed simp

lemma meets_any_append:
  "meets_any idx t (cs @ ds) bs \<longleftrightarrow>
     meets_any idx t cs (take (all_holes cs) bs) \<or> meets_any idx t ds (drop (all_holes cs) bs)"
proof (induction cs arbitrary: bs)
  case (Cons c cs)
  show ?case using Cons.IH [of "drop (holes c) bs"]
    by (simp add: take_drop add.commute min_def)
qed simp

lemma fits_all_Nil [intro]: "fits_all idx t [] [] True"
  by (simp add: fits_all_def)

lemma fits_any_Nil [intro]: "fits_any idx t [] [] False"
  by (simp add: fits_any_def)

lemma fits_all_append:
  "fits_all idx t cs bs p \<Longrightarrow> fits_all idx t ds bs' q \<Longrightarrow> fits_all idx t (cs @ ds) (bs @ bs') (p \<and> q)"
  by (auto simp: fits_all_def meets_all_append)

lemma fits_any_append:
  "fits_any idx t cs bs p \<Longrightarrow> fits_any idx t ds bs' q \<Longrightarrow> fits_any idx t (cs @ ds) (bs @ bs') (p \<or> q)"
  by (auto simp: fits_any_def meets_any_append)

lemma fits_all_one: "fits idx t c bs p \<Longrightarrow> fits_all idx t [c] bs p"
  by (simp add: fits_all_def fits_def)

lemma fits_any_one: "fits idx t c bs p \<Longrightarrow> fits_any idx t [c] bs p"
  by (simp add: fits_any_def fits_def)

lemma fits_AnyOf: "fits_any idx t cs bs p \<Longrightarrow> fits idx t (AnyOf cs) bs p"
  by (simp add: fits_any_def fits_def all_holes_def)

lemma fits_AllOf: "fits_all idx t cs bs p \<Longrightarrow> fits idx t (AllOf cs) bs p"
  by (simp add: fits_all_def fits_def all_holes_def)

lemma fits_basic:
  "fits idx t Never [] False"
  "fits idx t (Holds c op) [v] (compares op (column_of t c) v)"
  "fits idx t (Columns c op d) [] (compares op (column_of t c) (column_of t d))"
  "fits idx t (Within c d) [v] (compares AtMost (column_of t c) (shifted (column_of t d) v))"
  "fits idx t (Fixed c v) [] (compares Equal (column_of t c) v)"
  "fits idx t (HasAttr c) [k, v] (has_attr idx (column_of t c) k v)"
  by (simp_all add: fits_def bound_def)

lemma fits_OneOf: "fits idx t (OneOf c (length vs)) vs (\<exists>v \<in> set vs. compares Equal (column_of t c) v)"
proof -
  have "map (bound vs) [0..<length vs] = vs" by (rule nth_equalityI) (simp_all add: bound_def)
  then show ?thesis by (simp add: fits_def list_ex_iff)
qed

lemma fits_all_iff: "fits_all idx t cs bs p \<Longrightarrow> p = q \<Longrightarrow> fits_all idx t cs bs q"
  by simp

section \<open>Values\<close>

lemma value_key_simps [simp]:
  "value_key (SInt i) = value_key (SInt j) \<longleftrightarrow> i = j" "value_key (SText s) = value_key (SText u) \<longleftrightarrow> s = u"
  "value_key (SInt i) < value_key (SInt j) \<longleftrightarrow> i < j" "value_key (SInt i) \<le> value_key (SInt j) \<longleftrightarrow> i \<le> j"
  "value_key (SText s) < value_key (SText u) \<longleftrightarrow> s < u"
  "is_null (SInt i) = False" "is_null (SText s) = False" "is_null Null = True"
  by (auto simp: value_key_def is_null_def)

lemma compares_simps [simp]:
  "compares Equal (SInt i) (SInt j) \<longleftrightarrow> i = j" "compares Equal (SText s) (SText u) \<longleftrightarrow> s = u"
  "compares Differs (SInt i) (SInt j) \<longleftrightarrow> i \<noteq> j" "compares Differs (SText s) (SText u) \<longleftrightarrow> s \<noteq> u"
  "compares AtLeast (SInt i) (SInt j) \<longleftrightarrow> j \<le> i" "compares AtMost (SInt i) (SInt j) \<longleftrightarrow> i \<le> j"
  "compares Below (SInt i) (SInt j) \<longleftrightarrow> i < j" "compares op Null v = False" "compares op v Null = False"
  by (auto simp: compares_def split: comparison.split)

lemma compares_opt_text [simp]: "compares Equal (opt_text u) (SText s) \<longleftrightarrow> u = Some s"
  by (cases u) (simp_all add: opt_text_def)

text \<open>On confidences the comparison is that of the reals.\<close>

lemma compares_real [simp]: "compares AtLeast (SReal x) (SReal y) \<longleftrightarrow> f32_le y x"
  by (cases x; cases y) (auto simp: compares_def is_null_def value_key_def)

lemma has_attr_iff [simp]: "has_attr idx (SInt (int pk)) (SText k) (SText v) \<longleftrightarrow> ((pk, k), v) \<in> set (record_attrs idx)"
  by (force simp: has_attr_def list_ex_iff)

lemma column_of_simps [simp]:
  "column_of ((a, r) # t) (b, c) = (if a = b then row_column r c else column_of t (b, c))"
  "column_of [] (b, c) = Null"
  by (auto simp: column_of_def)

section \<open>Order and pages\<close>

lemma mset_place_row [simp]: "set (place_row terms t us) = insert t (set us)"
  by (induction us) auto

lemma set_arranged [simp]: "set (arranged terms ts) = set ts"
  unfolding arranged_def by (induction ts) simp_all

lemma length_place_row [simp]: "length (place_row terms t us) = Suc (length us)"
  by (induction us) auto

lemma length_arranged [simp]: "length (arranged terms ts) = length ts"
  unfolding arranged_def by (induction ts) simp_all

text \<open>Where the terms say what a key says, arranging is sorting by the key.\<close>

lemma insort_key_map: "insort_key k (f x) (map f xs) = map f (insort_key (k \<circ> f) x xs)"
  by (induction xs) simp_all

text \<open>A term ahead of the others is a component ahead of their key.\<close>

lemma precedes_ascending:
  fixes k k' :: "'k :: linorder"
  assumes "comes_before terms t u \<longleftrightarrow> k \<le> k'"
  shows "column_of t c = SInt i \<Longrightarrow> column_of u c = SInt j \<Longrightarrow> comes_before ((c, False) # terms) t u \<longleftrightarrow> (i, k) \<le> (j, k')"
    and "column_of t c = SText s \<Longrightarrow> column_of u c = SText w \<Longrightarrow> comes_before ((c, False) # terms) t u \<longleftrightarrow> (s, k) \<le> (w, k')"
  using assms by (auto simp: Let_def dest: order.not_eq_order_implies_strict)

lemma precedes_final: "column_of t c = SText s \<Longrightarrow> column_of u c = SText w \<Longrightarrow> comes_before [(c, False)] t u \<longleftrightarrow> s \<le> w"
  by (auto simp: Let_def dest: order.not_eq_order_implies_strict)

lemma precedes_descending:
  fixes k k' :: "'k :: linorder"
  assumes "comes_before terms t u \<longleftrightarrow> k \<le> k'"
  shows "column_of t c = SInt i \<Longrightarrow> column_of u c = SInt j \<Longrightarrow> comes_before ((c, True) # terms) t u \<longleftrightarrow> (- i, k) \<le> (- j, k')"
  using assms by (auto simp: Let_def dest: order.not_eq_order_implies_strict)

lemma sort_key_map: "sort_key k (map f xs) = map f (sort_key (k \<circ> f) xs)"
  by (induction xs) (simp_all add: insort_key_map comp_def)

lemma arranged_map:
  assumes "\<And>x y. x \<in> set xs \<Longrightarrow> y \<in> set xs \<Longrightarrow> comes_before terms (f x) (f y) \<longleftrightarrow> k x \<le> k y"
  shows "arranged terms (map f xs) = map f (sort_key k xs)"
  using assms
proof (induction xs)
  case (Cons x xs)
  have "place_row terms (f x) (map f ys) = map f (insort_key k x ys)" if "set ys \<subseteq> set xs" for ys
    using that Cons.prems by (induction ys) auto
  with Cons show ?case by (simp add: arranged_def)
qed (simp add: arranged_def)

lemma first_rows_set: "x \<in> set (first_rows v xs) \<Longrightarrow> x \<in> set xs"
  by (auto simp: first_rows_def split: sql_value.splits if_splits dest: in_set_takeD)

lemma first_rows_nat [simp]: "first_rows (SInt (int n)) xs = take n xs"
  by (simp add: first_rows_def)

lemma first_rows_map: "first_rows v (map f xs) = map f (first_rows v xs)"
  by (simp add: first_rows_def take_map split: sql_value.split)

declare join_tables.simps [simp del]

lemma join_none [simp]: "join_tables tables [] = [[]]"
  by (simp add: join_tables.simps)

lemma set_join_tables_Cons [simp]:
  "t \<in> set (join_tables tables ((name, alias) # rest)) \<longleftrightarrow>
     (\<exists>r \<in> set (tables name). \<exists>u \<in> set (join_tables tables rest). t = (alias, r) # u)"
  by (auto simp: join_tables.simps)

text \<open>What a statement answers, once its conditions are known to say what is meant.\<close>

lemma query_rows_over:
  assumes J: "join_tables tables (st_from stmt) = map f xs"
    and fit: "\<And>x. x \<in> set xs \<Longrightarrow> fits_all idx (f x) (st_where stmt) bs (q x)"
    and ord: "\<And>x y. x \<in> set xs \<Longrightarrow> y \<in> set xs \<Longrightarrow> comes_before (st_order stmt) (f x) (f y) \<longleftrightarrow> k x \<le> k y"
  shows "query_rows idx tables (stmt\<lparr>st_paged := True\<rparr>) (bs @ [page]) = map f (first_rows page (sort_key k (filter q xs)))"
    and "query_rows idx tables (stmt\<lparr>st_paged := False\<rparr>) bs = map f (sort_key k (filter q xs))"
proof -
  let ?n = "all_holes (st_where stmt)"
  have n: "?n = length bs" if "x \<in> set xs" for x using fit [OF that] by (simp add: fits_all_def)
  have "filter (\<lambda>t. meets_all idx t (st_where stmt) (take ?n (bs @ more))) (map f xs) = map f (filter q xs)" for more
    unfolding filter_map by (intro arg_cong [where f = "map f"] filter_cong refl) (use fit in \<open>simp add: fits_all_def\<close>)
  moreover have "arranged (st_order stmt) (map f (filter q xs)) = map f (sort_key k (filter q xs))"
    by (rule arranged_map) (simp add: ord)
  ultimately have found: "arranged (st_order stmt)
      (filter (\<lambda>t. meets_all idx t (st_where stmt) (take ?n (bs @ more))) (map f xs)) = map f (sort_key k (filter q xs))" for more
    by simp
  from found [of "[]"] show "query_rows idx tables (stmt\<lparr>st_paged := False\<rparr>) bs = map f (sort_key k (filter q xs))"
    by (simp add: query_rows_def J)
  show "query_rows idx tables (stmt\<lparr>st_paged := True\<rparr>) (bs @ [page]) = map f (first_rows page (sort_key k (filter q xs)))"
  proof (cases xs)
    case Nil
    then show ?thesis by (simp add: query_rows_def J arranged_def first_rows_def split: sql_value.split)
  next
    case (Cons x ys)
    with n [of x] have "?n = length bs" by simp
    with found [of "[page]"] show ?thesis by (simp add: query_rows_def J bound_def first_rows_map)
  qed
qed

text \<open>No read answers with a row its conditions do not hold of.\<close>

lemma query_rows_meet:
  assumes "t \<in> set (query_rows idx tables stmt bs)"
  shows "t \<in> set (join_tables tables (st_from stmt))"
    and "meets_all idx t (st_where stmt) (take (all_holes (st_where stmt)) bs)"
  using assms by (auto simp: query_rows_def Let_def split: if_splits dest: first_rows_set)

end
