(* ===== verification/Query.thy ===== *)
theory Query
  imports Sql "HOL-Library.Multiset"
begin

text \<open>
  \<open>yaam-store/src/query.rs\<close> and the two readers of \<open>lib.rs\<close>: the reads of the index. A builder gives the
  statement and the values bound to it, in the order the code pushes them; a read runs it and decodes the rows.
  The two projections of a read are one statement with two select lists.
\<close>

section \<open>Data\<close>

definition DEFAULT_LIMIT :: nat where "DEFAULT_LIMIT = 1000"

definition DEFAULT_STRUCTURE_LIMIT :: nat where "DEFAULT_STRUCTURE_LIMIT = 200"

definition DEFAULT_PAIR_LIMIT :: nat where "DEFAULT_PAIR_LIMIT = 100"

definition SCOPE_HEADROOM :: nat where "SCOPE_HEADROOM = 20"

definition MAX_CANDIDATES :: nat where "MAX_CANDIDATES = 5000"

definition FTS_PREFIX :: string where "FTS_PREFIX = ''fts5:''"

definition MATCHES_NOTHING :: condition where "MATCHES_NOTHING = Never"

record window =
  from_ms :: int
  to_ms :: int

datatype scope =
    Nothing
  | Unrestricted
  | Caller "visibility list" string "string list"   \<comment> \<open>levels, agent and teams\<close>

record record_filter =
  f_action :: "string option"
  f_outcome :: "string option"
  f_agent :: "string option"
  f_attr :: "(string \<times> string) option"
  f_window :: "window option"
  f_limit :: "nat option"
  f_scope :: scope

datatype extent = Page "nat option" | Everything

datatype select = SelId | SelStructure

datatype read_error =
    SqliteFailure bool "string option"              \<comment> \<open>whether the code is \<open>Unknown\<close>, and the detail\<close>
  | InvalidColumnType
  | Drift string
  | BadNeedle string string

fun columns :: "select \<Rightarrow> column list" where
  "columns SelId = [(''rec'', ''record_id'')]"
| "columns SelStructure = [(''rec'', ''record_id''), (''rec'', ''frontmatter'')]"

fun pair_columns :: "select \<Rightarrow> column list" where
  "pair_columns SelId = [(''l'', ''record_id''), (''r'', ''record_id'')]"
| "pair_columns SelStructure =
     [(''l'', ''record_id''), (''l'', ''frontmatter''), (''r'', ''record_id''), (''r'', ''frontmatter'')]"

fun default_limit :: "select \<Rightarrow> nat" where
  "default_limit SelId = DEFAULT_LIMIT"
| "default_limit SelStructure = DEFAULT_STRUCTURE_LIMIT"

section \<open>Reading rows\<close>

definition stored_record_id :: "string \<Rightarrow> (record_id, read_error) result" where
  "stored_record_id s = map_err (\<lambda>_. Drift s) (record_id_try_from s)"

definition stored_structure :: "string \<Rightarrow> record_structure \<Rightarrow> (record_structure, read_error) result" where
  "stored_structure rid s = (if record_id_str (record_id s) \<noteq> rid then Err (Drift rid) else Ok s)"

definition get_text :: "sql_value list \<Rightarrow> nat \<Rightarrow> (string, read_error) result" where
  "get_text row i = (case bound row i of SText s \<Rightarrow> Ok s | _ \<Rightarrow> Err InvalidColumnType)"

definition get_doc :: "sql_value list \<Rightarrow> nat \<Rightarrow> (record_structure, read_error) result" where
  "get_doc row i = (case bound row i of SDoc s \<Rightarrow> Ok s | _ \<Rightarrow> Err InvalidColumnType)"

definition id_at :: "nat \<Rightarrow> sql_value list \<Rightarrow> (record_id, read_error) result" where
  "id_at i row = and_then (get_text row i) stored_record_id"

definition structure_at :: "nat \<Rightarrow> sql_value list \<Rightarrow> (record_structure, read_error) result" where
  "structure_at i row =
     and_then (get_text row i) (\<lambda>rid. and_then (get_doc row (Suc i)) (stored_structure rid))"

definition ids_of :: "sql_value list list \<Rightarrow> (record_id list, read_error) result" where
  "ids_of rows = try_map (id_at 0) rows"

definition structures_of :: "sql_value list list \<Rightarrow> (record_structure list, read_error) result" where
  "structures_of rows = try_map (structure_at 0) rows"

text \<open>A builder's answer: the select list, the statement and the values bound.\<close>

type_synonym built = "column list \<times> statement \<times> sql_value list"

definition run_rows :: "index \<Rightarrow> built \<Rightarrow> sql_value list list" where
  "run_rows idx = (\<lambda>(cols, stmt, binds).
     map (\<lambda>t. map (column_of t) cols) (query_rows idx (table_rows idx) stmt binds))"

definition run_ids :: "index \<Rightarrow> built \<Rightarrow> (record_id list, read_error) result" where
  "run_ids idx b = ids_of (run_rows idx b)"

definition run_structures :: "index \<Rightarrow> built \<Rightarrow> (record_structure list, read_error) result" where
  "run_structures idx b = structures_of (run_rows idx b)"

section \<open>Conditions\<close>

type_synonym builder = "condition list \<times> sql_value list"

definition add_when :: "'a option \<Rightarrow> ('a \<Rightarrow> builder) \<Rightarrow> builder \<Rightarrow> builder" where
  "add_when given f b = (case given of None \<Rightarrow> b | Some a \<Rightarrow> (fst b @ fst (f a), snd b @ snd (f a)))"

definition scope_level :: "string \<Rightarrow> string \<Rightarrow> string list \<Rightarrow> visibility \<Rightarrow> builder \<Rightarrow> builder" where
  "scope_level alias agnt teams level = (\<lambda>(allowed, binds).
     (case level of
        Owner \<Rightarrow> (allowed @ [AllOf [Holds (alias, ''visibility'') Equal, Holds (alias, ''agent'') Equal]],
                  binds @ [SText (visibility_str level), SText agnt])
      | Team \<Rightarrow>
          if teams \<noteq> [] then
            (allowed @ [AllOf [Holds (alias, ''visibility'') Equal, OneOf (alias, ''team'') (length teams)]],
             binds @ [SText (visibility_str level)] @ map SText teams)
          else (allowed, binds)
      | _ \<Rightarrow> (allowed @ [Holds (alias, ''visibility'') Equal], binds @ [SText (visibility_str level)])))"

definition scope_predicate :: "scope \<Rightarrow> string \<Rightarrow> sql_value list \<Rightarrow> condition option \<times> sql_value list" where
  "scope_predicate scope alias binds =
     (case scope of
        Unrestricted \<Rightarrow> (None, binds)
      | Nothing \<Rightarrow> (Some MATCHES_NOTHING, binds)
      | Caller levels agnt teams \<Rightarrow>
          (case fold (scope_level alias agnt teams) levels ([], binds) of
             (allowed, binds) \<Rightarrow> (Some (if allowed = [] then MATCHES_NOTHING else AnyOf allowed), binds)))"

definition and_scope :: "scope \<Rightarrow> string \<Rightarrow> builder \<Rightarrow> builder" where
  "and_scope scope alias = (\<lambda>(conds, binds).
     (case scope_predicate scope alias binds of
        (None, binds) \<Rightarrow> (conds, binds)
      | (Some p, binds) \<Rightarrow> (conds @ [p], binds)))"

definition record_predicates :: "record_filter \<Rightarrow> string \<Rightarrow> builder \<Rightarrow> builder" where
  "record_predicates flt alias b =
     and_scope (f_scope flt) alias
       (add_when (f_window flt) (\<lambda>w. ([Holds (alias, ''received_ms'') AtLeast, Holds (alias, ''received_ms'') Below],
          [SInt (from_ms w), SInt (to_ms w)]))
       (add_when (f_agent flt) (\<lambda>a. ([Holds (alias, ''agent'') Equal], [SText a]))
       (add_when (f_outcome flt) (\<lambda>a. ([Holds (alias, ''outcome'') Equal], [SText a]))
       (add_when (f_action flt) (\<lambda>a. ([Holds (alias, ''action'') Equal], [SText a])) b))))"

definition correlate_predicates :: "record_filter \<Rightarrow> string \<Rightarrow> builder \<Rightarrow> builder" where
  "correlate_predicates flt alias b =
     add_when (f_attr flt) (\<lambda>(key, v). ([HasAttr (alias, ''id'')], [SText key, SText v]))
       (record_predicates flt alias b)"

definition limit_bind :: "nat option \<Rightarrow> select \<Rightarrow> sql_value" where
  "limit_bind limit select = SInt (int (case limit of None \<Rightarrow> default_limit select | Some n \<Rightarrow> n))"

definition push_limit :: "nat option \<Rightarrow> select \<Rightarrow> statement \<times> sql_value list \<Rightarrow> statement \<times> sql_value list" where
  "push_limit limit select = (\<lambda>(stmt, binds). (stmt\<lparr>st_paged := True\<rparr>, binds @ [limit_bind limit select]))"

section \<open>Reads by entity and by filter\<close>

definition by_entity_sql ::
  "string \<Rightarrow> string \<Rightarrow> f32 \<Rightarrow> window option \<Rightarrow> extent \<Rightarrow> scope \<Rightarrow> select \<Rightarrow> built" where
  "by_entity_sql kind eid min_confidence window extent scope select =
     (case and_scope scope ''rec''
        (add_when window (\<lambda>w. ([Holds (''er'', ''received_ms'') AtLeast, Holds (''er'', ''received_ms'') Below],
           [SInt (from_ms w), SInt (to_ms w)]))
        ([Columns (''rec'', ''id'') Equal (''er'', ''record_pk''), Holds (''er'', ''kind'') Equal,
          Holds (''er'', ''entity_id'') Equal, Holds (''er'', ''confidence'') AtLeast],
         [SText kind, SText eid, SReal min_confidence])) of
        (conds, binds) \<Rightarrow>
          let stmt = \<lparr>st_from = [(''entity_refs'', ''er''), (''records'', ''rec'')], st_where = conds,
                st_order = [((''er'', ''received_ms''), True), ((''er'', ''record_pk''), True)], st_paged = False\<rparr>
          in (columns select, (case extent of Page page \<Rightarrow> push_limit page select (stmt, binds) | Everything \<Rightarrow> (stmt, binds))))"

definition by_entity ::
  "index \<Rightarrow> string \<Rightarrow> string \<Rightarrow> f32 \<Rightarrow> window option \<Rightarrow> nat option \<Rightarrow> scope \<Rightarrow> (record_id list, read_error) result" where
  "by_entity idx kind eid min_confidence window limit scope =
     run_ids idx (by_entity_sql kind eid min_confidence window (Page limit) scope SelId)"

definition by_entity_structures ::
  "index \<Rightarrow> string \<Rightarrow> string \<Rightarrow> f32 \<Rightarrow> window option \<Rightarrow> nat option \<Rightarrow> scope \<Rightarrow>
     (record_structure list, read_error) result" where
  "by_entity_structures idx kind eid min_confidence window limit scope =
     run_structures idx (by_entity_sql kind eid min_confidence window (Page limit) scope SelStructure)"

definition by_entity_unbounded ::
  "index \<Rightarrow> string \<Rightarrow> string \<Rightarrow> f32 \<Rightarrow> (record_id list, read_error) result" where
  "by_entity_unbounded idx kind eid min_confidence =
     run_ids idx (by_entity_sql kind eid min_confidence None Everything Unrestricted SelId)"

text \<open>\<open>SELECT 1 ... LIMIT 1\<close> is how rusqlite's \<open>exists\<close> reads: whether there is a row.\<close>

definition exists :: "index \<Rightarrow> string \<Rightarrow> scope \<Rightarrow> (bool, read_error) result" where
  "exists idx rid scope =
     (case and_scope scope ''rec'' ([Holds (''rec'', ''record_id'') Equal], [SText rid]) of
        (conds, binds) \<Rightarrow>
          Ok (query_rows idx (table_rows idx) \<lparr>st_from = [(''records'', ''rec'')], st_where = conds, st_order = [],
            st_paged = False\<rparr> binds \<noteq> []))"

definition filter_sql :: "record_filter \<Rightarrow> select \<Rightarrow> built" where
  "filter_sql flt select =
     (let driven = (case f_attr flt of
           Some (key, v) \<Rightarrow> ([(''record_attrs'', ''ra''), (''records'', ''rec'')],
             [Columns (''rec'', ''id'') Equal (''ra'', ''record_pk''), Holds (''ra'', ''key'') Equal, Holds (''ra'', ''value'') Equal],
             [SText key, SText v])
         | None \<Rightarrow> ([(''records'', ''rec'')], [], []));
        built = record_predicates flt ''rec'' (snd driven)
      in (columns select, push_limit (f_limit flt) select
           (\<lparr>st_from = fst driven, st_where = fst built,
              st_order = [((''rec'', ''received_ms''), True), ((''rec'', ''id''), True)], st_paged = False\<rparr>, snd built)))"

definition by_filter :: "index \<Rightarrow> record_filter \<Rightarrow> (record_id list, read_error) result" where
  "by_filter idx flt = run_ids idx (filter_sql flt SelId)"

definition by_filter_structures :: "index \<Rightarrow> record_filter \<Rightarrow> (record_structure list, read_error) result" where
  "by_filter_structures idx flt = run_structures idx (filter_sql flt SelStructure)"

section \<open>Correlation\<close>

definition correlate_sql :: "record_filter \<Rightarrow> record_filter \<Rightarrow> int \<Rightarrow> select \<Rightarrow> built" where
  "correlate_sql left right within_ms select =
     (let built = correlate_predicates right ''r'' (correlate_predicates left ''l''
           ([Columns (''r'', ''received_ms'') AtLeast (''l'', ''received_ms''),
             Within (''r'', ''received_ms'') (''l'', ''received_ms''), Columns (''l'', ''id'') Differs (''r'', ''id'')],
            [SInt within_ms]));
          page = (case select of
             SelId \<Rightarrow> f_limit left
           | SelStructure \<Rightarrow> Some (case f_limit left of None \<Rightarrow> DEFAULT_PAIR_LIMIT | Some n \<Rightarrow> n))
      in (pair_columns select, push_limit page select
           (\<lparr>st_from = [(''records'', ''l''), (''records'', ''r'')], st_where = fst built,
              st_order = [((''l'', ''received_ms''), True), ((''r'', ''received_ms''), False),
                ((''l'', ''id''), True), ((''r'', ''id''), False)], st_paged = False\<rparr>, snd built)))"

definition pair_at ::
  "(nat \<Rightarrow> sql_value list \<Rightarrow> ('a, read_error) result) \<Rightarrow> nat \<Rightarrow> sql_value list \<Rightarrow> ('a \<times> 'a, read_error) result" where
  "pair_at f i row = and_then (f 0 row) (\<lambda>a. and_then (f i row) (\<lambda>b. Ok (a, b)))"

definition correlate ::
  "index \<Rightarrow> record_filter \<Rightarrow> record_filter \<Rightarrow> int \<Rightarrow> ((record_id \<times> record_id) list, read_error) result" where
  "correlate idx left right within_ms = try_map (pair_at id_at 1) (run_rows idx (correlate_sql left right within_ms SelId))"

definition correlate_structures ::
  "index \<Rightarrow> record_filter \<Rightarrow> record_filter \<Rightarrow> int \<Rightarrow>
     ((record_structure \<times> record_structure) list, read_error) result" where
  "correlate_structures idx left right within_ms =
     try_map (pair_at structure_at 2) (run_rows idx (correlate_sql left right within_ms SelStructure))"

section \<open>Full-text search\<close>

text \<open>
  The full-text extension is a parameter: for a match expression and the rows of its table, the rows that match
  with their relevance, each once, or the failure stepping the statement gives.
\<close>

type_synonym full_text = "string \<Rightarrow> (nat \<times> string) list \<Rightarrow> ((nat \<times> f32) list, read_error) result"

definition refused_needle :: "string \<Rightarrow> read_error \<Rightarrow> read_error" where
  "refused_needle needle e =
     (case e of
        SqliteFailure True (Some detail) \<Rightarrow>
          BadNeedle needle (trim (case strip_prefix FTS_PREFIX detail of None \<Rightarrow> detail | Some rest \<Rightarrow> rest))
      | _ \<Rightarrow> e)"

definition candidate_ceiling :: "nat \<Rightarrow> nat" where
  "candidate_ceiling limit = max (min (min (limit * SCOPE_HEADROOM) (2 ^ 32 - 1)) MAX_CANDIDATES) limit"

definition search_sql :: "string \<Rightarrow> nat \<Rightarrow> scope \<Rightarrow> select \<Rightarrow> built" where
  "search_sql needle limit scope select =
     (case and_scope scope ''rec''
        ([Columns (''rec'', ''id'') Equal (''candidates'', ''record_pk''), Fixed (''rec'', ''sealed'') (SInt 0)],
         [SText needle, SInt (int (candidate_ceiling limit))]) of
        (conds, binds) \<Rightarrow>
          (columns select,
           \<lparr>st_from = [(''candidates'', ''candidates''), (''records'', ''rec'')], st_where = conds,
             st_order = [((''candidates'', ''relevance''), False), ((''rec'', ''received_ms''), True), ((''rec'', ''id''), True)],
             st_paged = True\<rparr>,
           binds @ [SInt (int limit)]))"

text \<open>The candidates: the statement before the join, with the first two values; newest row first.\<close>

definition search_candidates :: "full_text \<Rightarrow> index \<Rightarrow> sql_value list \<Rightarrow> ((nat \<times> f32) list, read_error) result" where
  "search_candidates fts idx binds =
     and_then (get_text binds 0) (\<lambda>needle.
     and_then (fts needle (records_fts idx)) (\<lambda>hits.
       Ok (first_rows (bound binds 1) (rev (sort_key fst hits)))))"

definition run_search :: "full_text \<Rightarrow> index \<Rightarrow> built \<Rightarrow> (sql_value list list, read_error) result" where
  "run_search fts idx = (\<lambda>(cols, stmt, binds).
     and_then (search_candidates fts idx (take 2 binds)) (\<lambda>hits.
       Ok (map (\<lambda>t. map (column_of t) cols)
         (query_rows idx (\<lambda>name. if name = ''candidates'' then map (\<lambda>(pk, relevance). HitRow pk relevance) hits
            else table_rows idx name) stmt (drop 2 binds)))))"

definition search :: "full_text \<Rightarrow> index \<Rightarrow> string \<Rightarrow> nat \<Rightarrow> scope \<Rightarrow> (record_id list, read_error) result" where
  "search fts idx needle limit scope =
     map_err (refused_needle needle) (and_then (run_search fts idx (search_sql needle limit scope SelId)) ids_of)"

definition search_structures ::
  "full_text \<Rightarrow> index \<Rightarrow> string \<Rightarrow> nat option \<Rightarrow> scope \<Rightarrow> (record_structure list, read_error) result" where
  "search_structures fts idx needle limit scope =
     (let limit = (case limit of None \<Rightarrow> default_limit SelStructure | Some n \<Rightarrow> n)
      in map_err (refused_needle needle)
           (and_then (run_search fts idx (search_sql needle limit scope SelStructure)) structures_of))"

section \<open>What a reader may see\<close>

text \<open>The rule, over a record's structure.\<close>

definition readable :: "scope \<Rightarrow> record_structure \<Rightarrow> bool" where
  "readable scope s \<longleftrightarrow>
     (case scope of
        Nothing \<Rightarrow> False
      | Unrestricted \<Rightarrow> True
      | Caller levels agnt teams \<Rightarrow> visibility s \<in> set levels
          \<and> (case visibility s of
               Owner \<Rightarrow> agent s = agnt
             | Team \<Rightarrow> (\<exists>t \<in> set teams. team s = Some t)
             | _ \<Rightarrow> True))"

definition in_window :: "window option \<Rightarrow> int \<Rightarrow> bool" where
  "in_window w ms \<longleftrightarrow> (case w of None \<Rightarrow> True | Some w \<Rightarrow> from_ms w \<le> ms \<and> ms < to_ms w)"

definition asked :: "'a option \<Rightarrow> 'a \<Rightarrow> bool" where
  "asked want have \<longleftrightarrow> (case want of None \<Rightarrow> True | Some w \<Rightarrow> have = w)"

text \<open>A record a filter asks for, attributes apart.\<close>

definition matching :: "record_filter \<Rightarrow> string \<times> record_row \<Rightarrow> bool" where
  "matching flt = (\<lambda>(rid, row). let s = rec_frontmatter row in
     asked (f_action flt) (action s) \<and> asked (f_outcome flt) (outcome_str (outcome s)) \<and> asked (f_agent flt) (agent s)
     \<and> in_window (f_window flt) (rec_received_ms row) \<and> readable (f_scope flt) s)"

definition attributed :: "index \<Rightarrow> record_filter \<Rightarrow> string \<times> record_row \<Rightarrow> bool" where
  "attributed idx flt = (\<lambda>(rid, row).
     (case f_attr flt of None \<Rightarrow> True | Some (key, v) \<Rightarrow> ((rec_pk row, key), v) \<in> set (record_attrs idx)))"

definition newest :: "string \<times> record_row \<Rightarrow> int \<times> int" where
  "newest = (\<lambda>(_, row). (- rec_received_ms row, - int (rec_pk row)))"

text \<open>What a builder's conditions say of a row of the join, under the values it binds.\<close>

abbreviation builds :: "index \<Rightarrow> joined \<Rightarrow> builder \<Rightarrow> bool \<Rightarrow> bool" where
  "builds idx t b p \<equiv> fits_all idx t (fst b) (snd b) p"

lemma builds_add_when:
  assumes "builds idx t b p" and "\<And>a. given = Some a \<Longrightarrow> builds idx t (f a) (q a)"
  shows "builds idx t (add_when given f b) (p \<and> (case given of None \<Rightarrow> True | Some a \<Rightarrow> q a))"
  using assms by (cases given) (auto simp: add_when_def fits_all_append)

lemma column_of_record: "map_of t alias = Some (RecordRow r) \<Longrightarrow> column_of t (alias, c) = record_column c r"
  by (simp add: column_of_def)

lemma record_column_simps [simp]:
  "record_column ''id'' (rid, row) = SInt (int (rec_pk row))"
  "record_column ''record_id'' (rid, row) = SText rid"
  "record_column ''frontmatter'' (rid, row) = SDoc (rec_frontmatter row)"
  "record_column ''received_ms'' (rid, row) = SInt (rec_received_ms row)"
  "record_column ''action'' (rid, row) = SText (action (rec_frontmatter row))"
  "record_column ''outcome'' (rid, row) = SText (outcome_str (outcome (rec_frontmatter row)))"
  "record_column ''agent'' (rid, row) = SText (agent (rec_frontmatter row))"
  "record_column ''visibility'' (rid, row) = SText (visibility_str (visibility (rec_frontmatter row)))"
  "record_column ''team'' (rid, row) = opt_text (team (rec_frontmatter row))"
  "record_column ''sealed'' (rid, row) = SInt (if data_class (rec_frontmatter row) = SubjectDerived then 1 else 0)"
  by (simp_all add: record_column_def)

definition readable_at :: "string \<Rightarrow> string list \<Rightarrow> visibility \<Rightarrow> record_structure \<Rightarrow> bool" where
  "readable_at agnt teams level s \<longleftrightarrow> visibility s = level
     \<and> (case level of Owner \<Rightarrow> agent s = agnt | Team \<Rightarrow> (\<exists>t \<in> set teams. team s = Some t) | _ \<Rightarrow> True)"

lemma fits_column:
  "map_of t alias = Some (RecordRow r) \<Longrightarrow> fits idx t (Holds (alias, c) op) [v] (compares op (record_column c r) v)"
  using fits_basic(2) [of idx t "(alias, c)" op v] by (simp add: column_of_record)

lemma scope_level_fits:
  assumes r: "map_of t alias = Some (RecordRow (rid, row))"
  shows "\<exists>cs new. scope_level alias agnt teams level (allowed, binds) = (allowed @ cs, binds @ new) \<and> (cs = [] \<longrightarrow> new = [])
    \<and> fits_any idx t cs new (readable_at agnt teams level (rec_frontmatter row))"
proof -
  let ?v = "Holds (alias, ''visibility'') Equal" and ?b = "SText (visibility_str level)" and ?s = "rec_frontmatter row"
  have v: "fits idx t ?v [?b] (visibility ?s = level)"
    using fits_column [OF r, of idx "''visibility''" Equal ?b] by simp
  have a: "fits idx t (Holds (alias, ''agent'') Equal) [SText agnt] (agent ?s = agnt)"
    using fits_column [OF r, of idx "''agent''" Equal "SText agnt"] by simp
  have tm: "fits idx t (OneOf (alias, ''team'') (length teams)) (map SText teams) (\<exists>u \<in> set teams. team ?s = Some u)"
    using fits_OneOf [of idx t "(alias, ''team'')" "map SText teams"] r by (simp add: column_of_record)
  note both = fits_any_one [OF fits_AllOf [OF fits_all_append [OF fits_all_one [OF v] fits_all_one]]]
  show ?thesis
  proof (cases level)
    case Owner
    with both [OF a] show ?thesis by (simp add: scope_level_def readable_at_def)
  next
    case Team
    with both [OF tm] show ?thesis
      by (cases "teams = []") (auto simp: scope_level_def readable_at_def fits_any_def)
  next
    case Org
    with fits_any_one [OF v] show ?thesis by (simp add: scope_level_def readable_at_def)
  next
    case Operator
    with fits_any_one [OF v] show ?thesis by (simp add: scope_level_def readable_at_def)
  qed
qed

lemma scope_levels_fit:
  assumes r: "map_of t alias = Some (RecordRow (rid, row))"
  shows "\<exists>cs new. fold (scope_level alias agnt teams) levels (allowed, binds) = (allowed @ cs, binds @ new) \<and> (cs = [] \<longrightarrow> new = [])
    \<and> fits_any idx t cs new (\<exists>level \<in> set levels. readable_at agnt teams level (rec_frontmatter row))"
proof (induction levels arbitrary: allowed binds)
  case Nil
  then show ?case by (simp add: fits_any_def)
next
  case (Cons level levels)
  obtain cs new where a: "scope_level alias agnt teams level (allowed, binds) = (allowed @ cs, binds @ new)" "cs = [] \<longrightarrow> new = []"
    "fits_any idx t cs new (readable_at agnt teams level (rec_frontmatter row))"
    using scope_level_fits [OF r, of agnt teams level allowed binds idx] by blast
  obtain cs' new' where b: "fold (scope_level alias agnt teams) levels (allowed @ cs, binds @ new) = ((allowed @ cs) @ cs', (binds @ new) @ new')"
    "cs' = [] \<longrightarrow> new' = []" "fits_any idx t cs' new' (\<exists>level \<in> set levels. readable_at agnt teams level (rec_frontmatter row))"
    using Cons.IH [of "allowed @ cs" "binds @ new"] by blast
  show ?case
    by (rule exI [of _ "cs @ cs'"], rule exI [of _ "new @ new'"])
      (use a(1,2) b(1,2) fits_any_append [OF a(3) b(3)] in simp)
qed

lemma readable_levels: "readable (Caller levels agnt teams) s \<longleftrightarrow> (\<exists>level \<in> set levels. readable_at agnt teams level s)"
  by (auto simp: readable_def readable_at_def)

lemma builds_and_scope:
  assumes "builds idx t b p" and r: "map_of t alias = Some (RecordRow r)"
  shows "builds idx t (and_scope scope alias b) (p \<and> readable scope (rec_frontmatter (snd r)))"
proof -
  obtain conds binds where b: "b = (conds, binds)" by (cases b)
  obtain rid row where row: "r = (rid, row)" by (cases r)
  show ?thesis
  proof (cases scope)
    case Nothing
    with fits_all_append [OF assms(1) fits_all_one [OF fits_basic(1)]] show ?thesis
      by (simp add: and_scope_def scope_predicate_def MATCHES_NOTHING_def readable_def b)
  next
    case Unrestricted
    then show ?thesis using assms by (simp add: and_scope_def scope_predicate_def readable_def b)
  next
    case (Caller levels agnt teams)
    obtain cs new where f: "fold (scope_level alias agnt teams) levels ([], binds) = (cs, binds @ new)" "cs = [] \<longrightarrow> new = []"
      "fits_any idx t cs new (readable scope (rec_frontmatter row))"
      using scope_levels_fit [OF r [unfolded row], of agnt teams levels "[]" binds idx] unfolding Caller readable_levels append_Nil by blast
    then have "fits idx t (if cs = [] then MATCHES_NOTHING else AnyOf cs) new (readable scope (rec_frontmatter row))"
      by (auto simp: MATCHES_NOTHING_def fits_def fits_any_def all_holes_def)
    from fits_all_append [OF assms(1) fits_all_one [OF this]] f(1) show ?thesis
      by (simp add: and_scope_def scope_predicate_def Caller b row)
  qed
qed

lemma builds_record_predicates:
  assumes "builds idx t b p" and r: "map_of t alias = Some (RecordRow r)"
  shows "builds idx t (record_predicates flt alias b) (p \<and> matching flt r)"
proof -
  have w: "builds idx t ([Holds (alias, ''received_ms'') AtLeast, Holds (alias, ''received_ms'') Below],
      [SInt (from_ms w), SInt (to_ms w)]) (from_ms w \<le> rec_received_ms (snd r) \<and> rec_received_ms (snd r) < to_ms w)" for w :: window
    using fits_all_append [OF fits_all_one [OF fits_column [OF r, of idx "''received_ms''" AtLeast "SInt (from_ms w)"]]
        fits_all_one [OF fits_column [OF r, of idx "''received_ms''" Below "SInt (to_ms w)"]]] by (cases r) simp
  have e: "builds idx t ([Holds (alias, c) Equal], [SText a]) (compares Equal (record_column c r) (SText a))" for a c
    using fits_all_one [OF fits_column [OF r]] by simp
  show ?thesis unfolding record_predicates_def
    by (rule fits_all_iff, (rule builds_and_scope builds_add_when assms e w)+)
      (cases r, auto simp: matching_def asked_def in_window_def Let_def split: option.splits)
qed

lemma builds_correlate_predicates:
  assumes "builds idx t b p" and r: "map_of t alias = Some (RecordRow r)"
  shows "builds idx t (correlate_predicates flt alias b) (p \<and> matching flt r \<and> attributed idx flt r)"
proof -
  have a: "builds idx t (case kv of (key, v) \<Rightarrow> ([HasAttr (alias, ''id'')], [SText key, SText v]))
      (((rec_pk (snd r), fst kv), snd kv) \<in> set (record_attrs idx))" for kv
    using fits_all_one [OF fits_basic(6) [of idx t "(alias, ''id'')" "SText (fst kv)" "SText (snd kv)"]] r
    by (cases r) (simp add: case_prod_unfold column_of_record)
  show ?thesis unfolding correlate_predicates_def
    by (rule fits_all_iff, (rule builds_add_when builds_record_predicates assms a)+)
      (cases r, auto simp: attributed_def split: option.splits)
qed

section \<open>Rows answered\<close>

lemma try_map_map: "try_map f (map g xs) = try_map (f \<circ> g) xs"
  by (induction xs) simp_all

lemma try_map_agree: "(\<And>x. x \<in> set xs \<Longrightarrow> f x = g x) \<Longrightarrow> try_map f xs = try_map g xs"
  by (induction xs) simp_all

lemma decoded [simp]:
  "column_of t (''rec'', ''record_id'') = SText rid \<Longrightarrow> id_at 0 (map (column_of t) (columns SelId)) = stored_record_id rid"
  "column_of t (''rec'', ''record_id'') = SText rid \<Longrightarrow> column_of t (''rec'', ''frontmatter'') = SDoc s \<Longrightarrow>
     structure_at 0 (map (column_of t) (columns SelStructure)) = stored_structure rid s"
  by (simp_all add: id_at_def structure_at_def get_text_def get_doc_def bound_def)

lemma decoded_pair [simp]:
  assumes "column_of t (''l'', ''record_id'') = SText rid" "column_of t (''r'', ''record_id'') = SText rid'"
  shows "pair_at id_at (Suc 0) (map (column_of t) (pair_columns SelId)) =
      and_then (stored_record_id rid) (\<lambda>a. and_then (stored_record_id rid') (\<lambda>b. Ok (a, b)))"
    and "column_of t (''l'', ''frontmatter'') = SDoc s \<Longrightarrow> column_of t (''r'', ''frontmatter'') = SDoc s' \<Longrightarrow>
      pair_at structure_at 2 (map (column_of t) (pair_columns SelStructure)) =
      and_then (stored_structure rid s) (\<lambda>a. and_then (stored_structure rid' s') (\<lambda>b. Ok (a, b)))"
  using assms by (simp_all add: pair_at_def id_at_def structure_at_def get_text_def get_doc_def bound_def numeral_2_eq_2)

text \<open>What a read makes of a row of the records table.\<close>

definition as_id :: "string \<times> record_row \<Rightarrow> (record_id, read_error) result" where
  "as_id r = stored_record_id (fst r)"

definition as_structure :: "string \<times> record_row \<Rightarrow> (record_structure, read_error) result" where
  "as_structure r = stored_structure (fst r) (rec_frontmatter (snd r))"

definition page :: "nat option \<Rightarrow> nat \<Rightarrow> 'a list \<Rightarrow> 'a list" where
  "page limit def xs = take (case limit of None \<Rightarrow> def | Some n \<Rightarrow> n) xs"

lemma page_map [simp]: "page limit n (map f xs) = map f (page limit n xs)"
  by (simp add: page_def take_map)

lemma set_page: "x \<in> set (page limit n xs) \<Longrightarrow> x \<in> set xs"
  by (auto simp: page_def dest: in_set_takeD)

lemma first_rows_bind: "first_rows (limit_bind limit select) xs = page limit (default_limit select) xs"
  by (cases limit) (simp_all add: limit_bind_def page_def)

text \<open>
  A join whose rows are those of a list, conditions that say what is meant of each and terms that order them as
  a key does: the read answers a page of the list, filtered and sorted.
\<close>

lemma run_rows_over:
  assumes J: "join_tables (table_rows idx) tabs = map f xs"
    and fit: "\<And>x. x \<in> set xs \<Longrightarrow> fits_all idx (f x) conds bs (q x)"
    and ord: "\<And>x y. x \<in> set xs \<Longrightarrow> y \<in> set xs \<Longrightarrow> comes_before terms (f x) (f y) \<longleftrightarrow> k x \<le> k y"
  shows "run_rows idx (cols, push_limit limit select
      (\<lparr>st_from = tabs, st_where = conds, st_order = terms, st_paged = False\<rparr>, bs))
    = map (\<lambda>x. map (column_of (f x)) cols) (page limit (default_limit select) (sort_key k (filter q xs)))"
    and "run_rows idx (cols, \<lparr>st_from = tabs, st_where = conds, st_order = terms, st_paged = False\<rparr>, bs)
    = map (\<lambda>x. map (column_of (f x)) cols) (sort_key k (filter q xs))"
  using query_rows_over(1) [where stmt = "\<lparr>st_from = tabs, st_where = conds, st_order = terms, st_paged = False\<rparr>",
      of "table_rows idx" f xs idx bs q k "limit_bind limit select"]
    query_rows_over(2) [where stmt = "\<lparr>st_from = tabs, st_where = conds, st_order = terms, st_paged = False\<rparr>",
      of "table_rows idx" f xs idx bs q k] assms
  by (simp_all add: run_rows_def push_limit_def first_rows_bind comp_def)

lemma join_one [simp]: "join_tables tables [(name, alias)] = map (\<lambda>r. [(alias, r)]) (tables name)"
  by (induction "tables name") (simp_all add: join_tables.simps)

lemma product_map: "List.product (map f xs) (map g ys) = map (\<lambda>(x, y). (f x, g y)) (List.product xs ys)"
  by (induction xs) (simp_all add: comp_def)

lemma join_two: "join_tables tables [(m, a), (n, b)] = map (\<lambda>(x, y). [(a, x), (b, y)]) (List.product (tables m) (tables n))"
  by (simp add: join_tables.simps product_concat_map map_concat comp_def)

section \<open>The read by filter\<close>

definition filter_answer :: "index \<Rightarrow> record_filter \<Rightarrow> (string \<times> record_row) list" where
  "filter_answer idx flt = sort_key newest (filter (\<lambda>r. matching flt r \<and> attributed idx flt r) (record_rows idx))"

lemma table_rows_simps [simp]:
  "table_rows idx ''records'' = map RecordRow (record_rows idx)"
  "table_rows idx ''record_attrs'' = map AttrRow (record_attrs idx)"
  "table_rows idx ''entity_refs'' = map RefRow (entity_refs idx)"
  by (simp_all add: table_rows_def)

lemma precedes_newest:
  assumes "map_of t ''rec'' = Some (RecordRow r)" "map_of u ''rec'' = Some (RecordRow r')"
  shows "comes_before [((''rec'', ''received_ms''), True), ((''rec'', ''id''), True)] t u \<longleftrightarrow> newest r \<le> newest r'"
  using assms by (cases r; cases r') (auto simp: column_of_record newest_def Let_def)

lemma plain_filter_rows:
  assumes "f_attr flt = None"
  shows "run_rows idx (filter_sql flt select) =
    map (\<lambda>r. map (column_of [(''rec'', RecordRow r)]) (columns select)) (page (f_limit flt) (default_limit select) (filter_answer idx flt))"
proof -
  let ?b = "record_predicates flt ''rec'' ([], [])"
  let ?f = "\<lambda>r. [(''rec'', RecordRow r)]"
  have "builds idx (?f r) ?b (True \<and> matching flt r)" for r
    by (rule builds_record_predicates) (simp_all add: fits_all_Nil)
  then show ?thesis
    unfolding filter_sql_def assms Let_def option.case fst_conv snd_conv filter_answer_def
    by (subst run_rows_over(1) [where f = ?f and xs = "record_rows idx" and q = "matching flt" and k = newest])
      (simp_all add: precedes_newest attributed_def assms case_prod_unfold del: comes_before.simps)
qed

lemma sort_key_unique:
  assumes "set xs = set ys" "distinct xs" "distinct ys" "inj_on k (set xs)"
  shows "sort_key k xs = sort_key k ys"
  using assms by (intro map_sorted_distinct_set_unique [of k]) (simp_all add: distinct_map)

lemma newest_inj:
  assumes "records_ok idx"
  shows "inj_on newest (set (record_rows idx))" "distinct (record_rows idx)"
proof -
  have "inj_on (\<lambda>(_, row). rec_pk row) (set (record_rows idx))" using assms by (simp add: records_ok_def distinct_map)
  then show "inj_on newest (set (record_rows idx))"
    by (rule inj_onI [OF inj_onD]) (auto simp: newest_def case_prod_unfold)
  show "distinct (record_rows idx)" using assms by (simp add: records_ok_def distinct_map)
qed

lemma distinct_attr_join:
  assumes "distinct (map fst as)" "distinct rows"
    and "\<And>a r. q a r \<Longrightarrow> fst a = (rec_pk (snd r), key)"
  shows "distinct (concat (map (\<lambda>a. filter (q a) rows) as))"
  using assms(1)
proof (induction as)
  case (Cons a as)
  have "set (filter (q a) rows) \<inter> set (concat (map (\<lambda>a. filter (q a) rows) as)) = {}"
  proof (rule equals0I)
    fix r assume "r \<in> set (filter (q a) rows) \<inter> set (concat (map (\<lambda>a. filter (q a) rows) as))"
    then obtain a' where "a' \<in> set as" "q a r" "q a' r" by auto
    with assms(3) [of a r] assms(3) [of a' r] Cons.prems show False by force
  qed
  with Cons assms(2) show ?case by simp
qed simp

lemma attr_filter_rows:
  assumes "f_attr flt = Some (key, v)" "index_ok idx"
  shows "run_rows idx (filter_sql flt select) =
    map (\<lambda>r. map (column_of [(''rec'', RecordRow r)]) (columns select)) (page (f_limit flt) (default_limit select) (filter_answer idx flt))"
proof -
  let ?conds = "[Columns (''rec'', ''id'') Equal (''ra'', ''record_pk''), Holds (''ra'', ''key'') Equal, Holds (''ra'', ''value'') Equal]"
  let ?b = "record_predicates flt ''rec'' (?conds, [SText key, SText v])"
  let ?tabs = "[(''record_attrs'', ''ra''), (''records'', ''rec'')]"
  let ?p = "\<lambda>t. compares Equal (column_of t (''rec'', ''id'')) (column_of t (''ra'', ''record_pk''))
      \<and> compares Equal (column_of t (''ra'', ''key'')) (SText key) \<and> compares Equal (column_of t (''ra'', ''value'')) (SText v)"
  let ?q = "\<lambda>a r. rec_pk (snd r) = fst (fst a) \<and> snd (fst a) = key \<and> snd a = v \<and> matching flt r"
  let ?t = "\<lambda>a r. [(''ra'', AttrRow a), (''rec'', RecordRow r)]"
  have base: "builds idx t (?conds, [SText key, SText v]) (?p t)" for t
    using fits_all_append [OF fits_all_one [OF fits_basic(3)]
      fits_all_append [OF fits_all_one [OF fits_basic(2)] fits_all_one [OF fits_basic(2)]]] by simp
  have b: "builds idx t ?b (?p t \<and> matching flt r)" if "map_of t ''rec'' = Some (RecordRow r)" for t r
    by (rule builds_record_predicates [OF base that])
  let ?xs = "List.product (record_attrs idx) (record_rows idx)"
  have "join_tables (table_rows idx) ?tabs = map (\<lambda>(a, r). ?t a r) ?xs"
    by (simp only: join_two table_rows_simps product_map map_map comp_def case_prod_unfold fst_conv snd_conv)
  moreover have "fits_all idx (case x of (a, r) \<Rightarrow> ?t a r) (fst ?b) (snd ?b) (case x of (a, r) \<Rightarrow> ?q a r)" for x
  proof -
    obtain pk k' v' r where x: "x = (((pk, k'), v'), r)" by (metis surj_pair)
    show ?thesis using b [of "?t ((pk, k'), v') r" r] by (cases r) (auto simp: x)
  qed
  moreover have "comes_before [((''rec'', ''received_ms''), True), ((''rec'', ''id''), True)] (case x of (a, r) \<Rightarrow> ?t a r)
      (case y of (a, r) \<Rightarrow> ?t a r) \<longleftrightarrow> (newest \<circ> snd) x \<le> (newest \<circ> snd) y" for x y
    by (cases x; cases y) (simp add: precedes_newest del: comes_before.simps)
  ultimately have "run_rows idx (filter_sql flt select) = map (\<lambda>x. map (column_of (case x of (a, r) \<Rightarrow> ?t a r)) (columns select))
      (page (f_limit flt) (default_limit select) (sort_key (newest \<circ> snd) (filter (\<lambda>(a, r). ?q a r) ?xs)))"
    unfolding filter_sql_def assms(1) Let_def option.case fst_conv snd_conv prod.case
    by (subst run_rows_over(1)) simp_all
  also have "\<dots> = map (\<lambda>r. map (column_of [(''rec'', RecordRow r)]) (columns select))
      (page (f_limit flt) (default_limit select) (map snd (sort_key (newest \<circ> snd) (filter (\<lambda>(a, r). ?q a r) ?xs))))"
    unfolding page_map map_map by (intro map_cong refl) (cases select; auto)
  also have "map snd (sort_key (newest \<circ> snd) (filter (\<lambda>(a, r). ?q a r) ?xs)) = filter_answer idx flt"
  proof -
    have m: "map snd (filter (\<lambda>(a, r). ?q a r) ?xs) = concat (map (\<lambda>a. filter (?q a) (record_rows idx)) (record_attrs idx))"
      by (simp add: product_concat_map filter_concat map_concat filter_map comp_def)
    have "distinct (concat (map (\<lambda>a. filter (?q a) (record_rows idx)) (record_attrs idx)))"
      using assms(2) by (intro distinct_attr_join newest_inj) (auto simp: index_ok_def catalogue_ok_def)
    moreover have "set (concat (map (\<lambda>a. filter (?q a) (record_rows idx)) (record_attrs idx)))
        = set (filter (\<lambda>r. matching flt r \<and> attributed idx flt r) (record_rows idx))"
      by (force simp: attributed_def assms(1) case_prod_unfold)
    ultimately show ?thesis
      unfolding sort_key_map [symmetric] m filter_answer_def using assms(2) newest_inj [of idx]
      by (intro sort_key_unique) (auto simp: index_ok_def intro: inj_on_subset)
  qed
  finally show ?thesis .
qed

lemma filter_rows:
  "index_ok idx \<Longrightarrow> run_rows idx (filter_sql flt select) =
    map (\<lambda>r. map (column_of [(''rec'', RecordRow r)]) (columns select)) (page (f_limit flt) (default_limit select) (filter_answer idx flt))"
  using plain_filter_rows [of flt idx select] attr_filter_rows [of flt _ _ idx select] by (cases "f_attr flt") auto

lemma decode_rows:
  "ids_of (map (\<lambda>r. map (column_of [(''rec'', RecordRow r)]) (columns SelId)) rs) = try_map as_id rs"
  "structures_of (map (\<lambda>r. map (column_of [(''rec'', RecordRow r)]) (columns SelStructure)) rs) = try_map as_structure rs"
  unfolding ids_of_def structures_of_def try_map_map
  by (rule try_map_agree; case_tac x; simp add: as_id_def as_structure_def del: columns.simps)+

section \<open>The reads by entity\<close>

definition referring ::
  "string \<Rightarrow> string \<Rightarrow> f32 \<Rightarrow> window option \<Rightarrow> scope \<Rightarrow> ((nat \<times> string \<times> string \<times> string) \<times> ref_row) \<times> string \<times> record_row \<Rightarrow> bool" where
  "referring kind eid least window scope = (\<lambda>(((pk, k, e, _), ref), (rid, row)).
     pk = rec_pk row \<and> k = kind \<and> e = eid \<and> f32_le least (ref_confidence ref)
     \<and> in_window window (ref_received_ms ref) \<and> readable scope (rec_frontmatter row))"

definition newest_ref :: "((nat \<times> string \<times> string \<times> string) \<times> ref_row) \<times> string \<times> record_row \<Rightarrow> int \<times> int" where
  "newest_ref = (\<lambda>(((pk, _), ref), _). (- ref_received_ms ref, - int pk))"

definition entity_answer ::
  "index \<Rightarrow> string \<Rightarrow> string \<Rightarrow> f32 \<Rightarrow> window option \<Rightarrow> scope \<Rightarrow> (string \<times> record_row) list" where
  "entity_answer idx kind eid least window scope =
     map snd (sort_key newest_ref (filter (referring kind eid least window scope) (List.product (entity_refs idx) (record_rows idx))))"

lemma entity_rows:
  "run_rows idx (by_entity_sql kind eid least window (Page limit) scope select) =
     map (\<lambda>r. map (column_of [(''rec'', RecordRow r)]) (columns select))
       (page limit (default_limit select) (entity_answer idx kind eid least window scope))"
  "run_rows idx (by_entity_sql kind eid least window Everything scope select) =
     map (\<lambda>r. map (column_of [(''rec'', RecordRow r)]) (columns select)) (entity_answer idx kind eid least window scope)"
proof -
  let ?conds = "[Columns (''rec'', ''id'') Equal (''er'', ''record_pk''), Holds (''er'', ''kind'') Equal,
          Holds (''er'', ''entity_id'') Equal, Holds (''er'', ''confidence'') AtLeast]"
  let ?vals = "[SText kind, SText eid, SReal least]"
  let ?w = "\<lambda>w. ([Holds (''er'', ''received_ms'') AtLeast, Holds (''er'', ''received_ms'') Below], [SInt (from_ms w), SInt (to_ms w)])"
  let ?b = "and_scope scope ''rec'' (add_when window ?w (?conds, ?vals))"
  let ?tabs = "[(''entity_refs'', ''er''), (''records'', ''rec'')]"
  let ?p = "\<lambda>t. (compares Equal (column_of t (''rec'', ''id'')) (column_of t (''er'', ''record_pk''))
      \<and> compares Equal (column_of t (''er'', ''kind'')) (SText kind) \<and> compares Equal (column_of t (''er'', ''entity_id'')) (SText eid)
      \<and> compares AtLeast (column_of t (''er'', ''confidence'')) (SReal least))"
  let ?q = "\<lambda>w t. (compares AtLeast (column_of t (''er'', ''received_ms'')) (SInt (from_ms w))
      \<and> compares Below (column_of t (''er'', ''received_ms'')) (SInt (to_ms w)))"
  let ?t = "\<lambda>(a, r). [(''er'', RefRow a), (''rec'', RecordRow r)]"
  let ?xs = "List.product (entity_refs idx) (record_rows idx)"
  have base: "builds idx t (?conds, ?vals) (?p t)" for t
    using fits_all_append [OF fits_all_one [OF fits_basic(3)] fits_all_append [OF fits_all_one [OF fits_basic(2)]
      fits_all_append [OF fits_all_one [OF fits_basic(2)] fits_all_one [OF fits_basic(2)]]]] by simp
  have win: "builds idx t (?w w) (?q w t)" for w t
    using fits_all_append [OF fits_all_one [OF fits_basic(2)] fits_all_one [OF fits_basic(2)]] by simp
  let ?all = "\<lambda>t r. (?p t \<and> (case window of None \<Rightarrow> True | Some w \<Rightarrow> ?q w t)) \<and> readable scope (rec_frontmatter (snd r))"
  have b: "builds idx t ?b (?all t r)" if "map_of t ''rec'' = Some (RecordRow r)" for t r
    by (rule builds_and_scope builds_add_when base win that)+
  have J: "join_tables (table_rows idx) ?tabs = map ?t ?xs"
    by (simp only: join_two table_rows_simps product_map map_map comp_def case_prod_unfold fst_conv snd_conv)
  have fit: "fits_all idx (?t x) (fst ?b) (snd ?b) (referring kind eid least window scope x)" for x
  proof -
    obtain pk k e rl ref r where x: "x = (((pk, k, e, rl), ref), r)" by (metis surj_pair)
    have "?all (?t x) r = referring kind eid least window scope x"
      by (cases r) (auto simp: x referring_def in_window_def split: option.splits)
    with b [of "?t x" r] show ?thesis by (simp add: x)
  qed
  have ord: "comes_before [((''er'', ''received_ms''), True), ((''er'', ''record_pk''), True)] (?t x) (?t y) \<longleftrightarrow> newest_ref x \<le> newest_ref y" for x y
    by (cases x; cases y; cases "fst x"; cases "fst y"; cases "fst (fst x)"; cases "fst (fst y)") (auto simp: newest_ref_def Let_def)
  note over = run_rows_over [OF J fit ord]
  have sel: "map (\<lambda>x. map (column_of (?t x)) (columns select)) zs
      = map (\<lambda>r. map (column_of [(''rec'', RecordRow r)]) (columns select)) (map snd zs)" for zs
    unfolding map_map by (intro map_cong refl) (cases select; auto)
  have sql: "by_entity_sql kind eid least window extent scope select = (columns select,
      (case extent of Page n \<Rightarrow> push_limit n select (\<lparr>st_from = ?tabs, st_where = fst ?b,
          st_order = [((''er'', ''received_ms''), True), ((''er'', ''record_pk''), True)], st_paged = False\<rparr>, snd ?b)
       | Everything \<Rightarrow> (\<lparr>st_from = ?tabs, st_where = fst ?b,
          st_order = [((''er'', ''received_ms''), True), ((''er'', ''record_pk''), True)], st_paged = False\<rparr>, snd ?b)))" for extent
    by (simp add: by_entity_sql_def case_prod_unfold Let_def)
  show "run_rows idx (by_entity_sql kind eid least window (Page limit) scope select) =
     map (\<lambda>r. map (column_of [(''rec'', RecordRow r)]) (columns select))
       (page limit (default_limit select) (entity_answer idx kind eid least window scope))"
    unfolding sql extent.case entity_answer_def page_map over(1) sel ..
  show "run_rows idx (by_entity_sql kind eid least window Everything scope select) =
     map (\<lambda>r. map (column_of [(''rec'', RecordRow r)]) (columns select)) (entity_answer idx kind eid least window scope)"
    unfolding sql extent.case entity_answer_def over(2) sel ..
qed

section \<open>Correlation\<close>

definition correlated ::
  "index \<Rightarrow> record_filter \<Rightarrow> record_filter \<Rightarrow> int \<Rightarrow> (string \<times> record_row) \<times> (string \<times> record_row) \<Rightarrow> bool" where
  "correlated idx left right within_ms = (\<lambda>(l, r).
     rec_received_ms (snd l) \<le> rec_received_ms (snd r) \<and> rec_received_ms (snd r) \<le> rec_received_ms (snd l) + within_ms
     \<and> rec_pk (snd l) \<noteq> rec_pk (snd r)
     \<and> matching left l \<and> attributed idx left l \<and> matching right r \<and> attributed idx right r)"

definition pair_order :: "(string \<times> record_row) \<times> (string \<times> record_row) \<Rightarrow> int \<times> int \<times> int \<times> int" where
  "pair_order = (\<lambda>(l, r). (- rec_received_ms (snd l), rec_received_ms (snd r), - int (rec_pk (snd l)), int (rec_pk (snd r))))"

definition correlate_answer ::
  "index \<Rightarrow> record_filter \<Rightarrow> record_filter \<Rightarrow> int \<Rightarrow> ((string \<times> record_row) \<times> (string \<times> record_row)) list" where
  "correlate_answer idx left right within_ms =
     sort_key pair_order (filter (correlated idx left right within_ms) (List.product (record_rows idx) (record_rows idx)))"

fun pair_default :: "select \<Rightarrow> nat" where
  "pair_default SelId = DEFAULT_LIMIT"
| "pair_default SelStructure = DEFAULT_PAIR_LIMIT"

lemma correlate_rows:
  "run_rows idx (correlate_sql left right within_ms select) =
     map (\<lambda>(l, r). map (column_of [(''l'', RecordRow l), (''r'', RecordRow r)]) (pair_columns select))
       (page (f_limit left) (pair_default select) (correlate_answer idx left right within_ms))"
proof -
  let ?conds = "[Columns (''r'', ''received_ms'') AtLeast (''l'', ''received_ms''),
             Within (''r'', ''received_ms'') (''l'', ''received_ms''), Columns (''l'', ''id'') Differs (''r'', ''id'')]"
  let ?b = "correlate_predicates right ''r'' (correlate_predicates left ''l'' (?conds, [SInt within_ms]))"
  let ?tabs = "[(''records'', ''l''), (''records'', ''r'')]"
  let ?terms = "[((''l'', ''received_ms''), True), ((''r'', ''received_ms''), False), ((''l'', ''id''), True), ((''r'', ''id''), False)]"
  let ?t = "\<lambda>(l, r). [(''l'', RecordRow l), (''r'', RecordRow r)]"
  let ?xs = "List.product (record_rows idx) (record_rows idx)"
  have J: "join_tables (table_rows idx) ?tabs = map ?t ?xs"
    by (simp only: join_two table_rows_simps product_map map_map comp_def case_prod_unfold fst_conv snd_conv)
  have fit: "builds idx (?t x) ?b (correlated idx left right within_ms x)" for x
  proof -
    obtain lid l rid r where x: "x = ((lid, l), (rid, r))" by (metis surj_pair)
    have base: "builds idx (?t x) (?conds, [SInt within_ms])
        (rec_received_ms l \<le> rec_received_ms r \<and> rec_received_ms r \<le> rec_received_ms l + within_ms \<and> rec_pk l \<noteq> rec_pk r)"
      using fits_all_append [OF fits_all_one [OF fits_basic(3) [of idx "?t x" "(''r'', ''received_ms'')" AtLeast "(''l'', ''received_ms'')"]]
          fits_all_append [OF fits_all_one [OF fits_basic(4) [of idx "?t x" "(''r'', ''received_ms'')" "(''l'', ''received_ms'')" "SInt within_ms"]]
            fits_all_one [OF fits_basic(3) [of idx "?t x" "(''l'', ''id'')" Differs "(''r'', ''id'')"]]]] by (simp add: x)
    have "map_of (?t x) ''l'' = Some (RecordRow (lid, l))" "map_of (?t x) ''r'' = Some (RecordRow (rid, r))" by (simp_all add: x)
    from fits_all_iff [OF builds_correlate_predicates [OF builds_correlate_predicates [OF base this(1)] this(2)]]
    show ?thesis by (simp add: x correlated_def)
  qed
  have ord: "comes_before ?terms (?t x) (?t y) \<longleftrightarrow> pair_order x \<le> pair_order y" for x y
    by (cases x; cases y; cases "fst x"; cases "fst y"; cases "snd x"; cases "snd y") (auto simp: pair_order_def Let_def)
  have lim: "page (case select of SelId \<Rightarrow> f_limit left | SelStructure \<Rightarrow> Some (case f_limit left of None \<Rightarrow> DEFAULT_PAIR_LIMIT | Some n \<Rightarrow> n))
      (default_limit select) xs = page (f_limit left) (pair_default select) xs" for xs :: "'a list"
    by (cases select) (simp_all add: page_def)
  show ?thesis
    unfolding correlate_sql_def Let_def correlate_answer_def run_rows_over(1) [OF J fit ord] lim by (simp add: case_prod_unfold)
qed

lemma decode_pairs:
  "try_map (pair_at id_at 1) (map (\<lambda>(l, r). map (column_of [(''l'', RecordRow l), (''r'', RecordRow r)]) (pair_columns SelId)) ps)
    = try_map (\<lambda>(l, r). and_then (as_id l) (\<lambda>a. and_then (as_id r) (\<lambda>b. Ok (a, b)))) ps"
  "try_map (pair_at structure_at 2) (map (\<lambda>(l, r). map (column_of [(''l'', RecordRow l), (''r'', RecordRow r)]) (pair_columns SelStructure)) ps)
    = try_map (\<lambda>(l, r). and_then (as_structure l) (\<lambda>a. and_then (as_structure r) (\<lambda>b. Ok (a, b)))) ps"
  unfolding try_map_map
  by (rule try_map_agree; case_tac x; case_tac "fst x"; case_tac "snd x";
      simp add: as_id_def as_structure_def del: pair_columns.simps)+

section \<open>Presence and search\<close>

lemma exists_iff:
  "exists idx rid scope = Ok (\<exists>row. (rid, row) \<in> set (record_rows idx) \<and> readable scope (rec_frontmatter row))"
proof -
  let ?b = "and_scope scope ''rec'' ([Holds (''rec'', ''record_id'') Equal], [SText rid])"
  let ?t = "\<lambda>r. [(''rec'', RecordRow r)]"
  let ?stmt = "\<lparr>st_from = [(''records'', ''rec'')], st_where = fst ?b, st_order = [], st_paged = False\<rparr>"
  have J: "join_tables (table_rows idx) (st_from ?stmt) = map ?t (record_rows idx)" by (simp add: comp_def)
  have fit: "fits_all idx (?t r) (st_where ?stmt) (snd ?b) (fst r = rid \<and> readable scope (rec_frontmatter (snd r)))" for r
  proof -
    have m: "map_of (?t r) ''rec'' = Some (RecordRow r)" by simp
    have "builds idx (?t r) ([Holds (''rec'', ''record_id'') Equal], [SText rid]) (fst r = rid)"
      using fits_all_one [OF fits_column [OF m, of idx "''record_id''" Equal "SText rid"]] by (cases r) simp
    from builds_and_scope [OF this m] show ?thesis by simp
  qed
  have "query_rows idx (table_rows idx) ?stmt (snd ?b)
      = map ?t (sort_key (\<lambda>_. 0 :: nat) (filter (\<lambda>r. fst r = rid \<and> readable scope (rec_frontmatter (snd r))) (record_rows idx)))"
    using query_rows_over(2) [where stmt = ?stmt and k = "\<lambda>_. 0 :: nat", OF J fit] by simp
  moreover have "exists idx rid scope = Ok (query_rows idx (table_rows idx) ?stmt (snd ?b) \<noteq> [])"
    by (simp add: exists_def case_prod_unfold)
  moreover have "sort_key (\<lambda>_. 0 :: nat) ys = [] \<longleftrightarrow> ys = []" for ys :: "(string \<times> record_row) list"
    by (metis length_0_conv length_sort)
  ultimately show ?thesis by (force simp: filter_empty_conv)
qed

definition search_order :: "(nat \<times> f32) \<times> string \<times> record_row \<Rightarrow> (nat \<times> rat \<times> string) \<times> int \<times> int" where
  "search_order = (\<lambda>((_, relevance), _, row). (value_key (SReal relevance), - rec_received_ms row, - int (rec_pk row)))"

definition plain_hit :: "scope \<Rightarrow> (nat \<times> f32) \<times> string \<times> record_row \<Rightarrow> bool" where
  "plain_hit scope = (\<lambda>((pk, _), _, row).
     rec_pk row = pk \<and> data_class (rec_frontmatter row) \<noteq> SubjectDerived \<and> readable scope (rec_frontmatter row))"

definition search_answer :: "index \<Rightarrow> scope \<Rightarrow> (nat \<times> f32) list \<Rightarrow> (string \<times> record_row) list" where
  "search_answer idx scope hits =
     map snd (sort_key search_order (filter (plain_hit scope) (List.product hits (record_rows idx))))"

definition newest_hits :: "nat \<Rightarrow> (nat \<times> f32) list \<Rightarrow> (nat \<times> f32) list" where
  "newest_hits limit hits = take (candidate_ceiling limit) (rev (sort_key fst hits))"

text \<open>What is bound before a builder's values stays before them.\<close>

lemma scope_level_prefix:
  "scope_level alias agnt teams level (allowed, pre @ binds) = apsnd ((@) pre) (scope_level alias agnt teams level (allowed, binds))"
  by (cases level) (simp_all add: scope_level_def)

lemma scope_levels_prefix:
  "fold (scope_level alias agnt teams) levels (allowed, pre @ binds)
    = apsnd ((@) pre) (fold (scope_level alias agnt teams) levels (allowed, binds))"
proof (induction levels arbitrary: allowed binds)
  case (Cons level levels)
  then show ?case
    by (cases "scope_level alias agnt teams level (allowed, binds)") (simp add: scope_level_prefix)
qed simp

lemma and_scope_prefix: "and_scope scope alias (conds, pre @ binds) = apsnd ((@) pre) (and_scope scope alias (conds, binds))"
  by (cases scope) (auto simp: and_scope_def scope_predicate_def scope_levels_prefix split: prod.splits)

lemma search_sql_head:
  "\<exists>stmt binds. search_sql needle limit scope select = (columns select, stmt, [SText needle, SInt (int (candidate_ceiling limit))] @ binds)"
  using and_scope_prefix [of scope "''rec''" "[Columns (''rec'', ''id'') Equal (''candidates'', ''record_pk''), Fixed (''rec'', ''sealed'') (SInt 0)]"
      "[SText needle, SInt (int (candidate_ceiling limit))]" "[]"]
  by (simp add: search_sql_def case_prod_unfold)

lemma search_fails:
  assumes "fts needle (records_fts idx) = Err e"
  shows "run_search fts idx (search_sql needle limit scope select) = Err e"
proof -
  obtain stmt binds where "search_sql needle limit scope select = (columns select, stmt, [SText needle, SInt (int (candidate_ceiling limit))] @ binds)"
    using search_sql_head by blast
  with assms show ?thesis by (simp add: run_search_def search_candidates_def get_text_def bound_def)
qed

lemma search_rows:
  assumes "fts needle (records_fts idx) = Ok hits"
  shows "run_search fts idx (search_sql needle limit scope select) =
     Ok (map (\<lambda>r. map (column_of [(''rec'', RecordRow r)]) (columns select))
       (take limit (search_answer idx scope (newest_hits limit hits))))"
proof -
  let ?conds = "[Columns (''rec'', ''id'') Equal (''candidates'', ''record_pk''), Fixed (''rec'', ''sealed'') (SInt 0)]"
  let ?head = "[SText needle, SInt (int (candidate_ceiling limit))]"
  let ?b = "and_scope scope ''rec'' (?conds, [])"
  let ?terms = "[((''candidates'', ''relevance''), False), ((''rec'', ''received_ms''), True), ((''rec'', ''id''), True)]"
  let ?stmt = "\<lparr>st_from = [(''candidates'', ''candidates''), (''records'', ''rec'')], st_where = fst ?b, st_order = ?terms, st_paged = True\<rparr>"
  let ?t = "\<lambda>(h, r). [(''candidates'', HitRow (fst h) (snd h)), (''rec'', RecordRow r)]"
  let ?hits = "newest_hits limit hits"
  let ?tables = "\<lambda>name. if name = ''candidates'' then map (\<lambda>(pk, relevance). HitRow pk relevance) ?hits else table_rows idx name"
  let ?xs = "List.product ?hits (record_rows idx)"
  have zero_one: "(if c then 1 else 0) = (0 :: int) \<longleftrightarrow> \<not> c" for c by simp
  have J: "join_tables ?tables (st_from ?stmt) = map ?t ?xs"
    by (simp add: join_two product_map case_prod_unfold)
  have fit: "fits_all idx (?t x) (st_where ?stmt) (snd ?b) (plain_hit scope x)" for x
  proof -
    obtain pk rel rid row where x: "x = ((pk, rel), (rid, row))" by (metis surj_pair)
    have m: "map_of (?t x) ''rec'' = Some (RecordRow (rid, row))" by (simp add: x)
    have "builds idx (?t x) (?conds, []) (rec_pk row = pk \<and> data_class (rec_frontmatter row) \<noteq> SubjectDerived)"
      using fits_all_append [OF fits_all_one [OF fits_basic(3) [of idx "?t x" "(''rec'', ''id'')" Equal "(''candidates'', ''record_pk'')"]]
          fits_all_one [OF fits_basic(5) [of idx "?t x" "(''rec'', ''sealed'')" "SInt 0"]]] by (simp add: x zero_one)
    from fits_all_iff [OF builds_and_scope [OF this m]] show ?thesis by (simp add: x plain_hit_def)
  qed
  have ord: "comes_before (st_order ?stmt) (?t x) (?t y) \<longleftrightarrow> search_order x \<le> search_order y" for x y
    by (cases x; cases y; cases "fst x"; cases "fst y"; cases "snd x"; cases "snd y") (auto simp: search_order_def Let_def)
  have rows: "query_rows idx ?tables ?stmt (snd ?b @ [SInt (int limit)]) = map ?t (take limit (sort_key search_order (filter (plain_hit scope) ?xs)))"
    using query_rows_over(1) [where stmt = ?stmt and page = "SInt (int limit)", OF J fit ord] by simp
  have sql: "search_sql needle limit scope select = (columns select, ?stmt, ?head @ snd ?b @ [SInt (int limit)])"
    using and_scope_prefix [of scope "''rec''" ?conds ?head "[]"] by (cases "?b") (simp add: search_sql_def)
  have hits: "search_candidates fts idx ?head = Ok ?hits"
    by (simp add: search_candidates_def get_text_def bound_def assms newest_hits_def)
  have "run_search fts idx (columns select, ?stmt, ?head @ snd ?b @ [SInt (int limit)])
     = Ok (map (\<lambda>t. map (column_of t) (columns select)) (query_rows idx ?tables ?stmt (snd ?b @ [SInt (int limit)])))"
    using hits by (simp add: run_search_def del: columns.simps)
  also have "\<dots> = Ok (map (\<lambda>r. map (column_of [(''rec'', RecordRow r)]) (columns select))
       (take limit (search_answer idx scope ?hits)))"
    unfolding rows search_answer_def by (cases select) (auto simp: take_map)
  finally show ?thesis unfolding sql .
qed

section \<open>What the reads answer\<close>

text \<open>
  C9: The filtered read answers exactly what was asked. It is the page of the records the filter names and the
  scope admits, newest first by the server's clock and then by arrival, whether the statement is driven from the
  records or from the attribute index, and the read of structures is the same page with its own default size.
\<close>

theorem filter_read_is_exact:
  assumes "index_ok idx"
  shows "by_filter idx flt = try_map as_id (page (f_limit flt) DEFAULT_LIMIT (filter_answer idx flt))
     \<and> by_filter_structures idx flt = try_map as_structure (page (f_limit flt) DEFAULT_STRUCTURE_LIMIT (filter_answer idx flt))"
  using assms by (simp only: by_filter_def by_filter_structures_def run_ids_def run_structures_def filter_rows decode_rows default_limit.simps)

text \<open>
  C39: An entity's history is exactly the records that refer to it. One row for each reference, as sure as was
  asked, inside the window and admitted by the scope, newest first; the read a rebuild uses leaves nothing out.
\<close>

theorem entity_read_is_exact:
  "by_entity idx kind eid least window limit scope =
     try_map as_id (page limit DEFAULT_LIMIT (entity_answer idx kind eid least window scope))
   \<and> by_entity_structures idx kind eid least window limit scope =
     try_map as_structure (page limit DEFAULT_STRUCTURE_LIMIT (entity_answer idx kind eid least window scope))
   \<and> by_entity_unbounded idx kind eid least = try_map as_id (entity_answer idx kind eid least None Unrestricted)"
  by (simp only: by_entity_def by_entity_structures_def by_entity_unbounded_def run_ids_def run_structures_def entity_rows
      decode_rows default_limit.simps)

text \<open>
  C38: A correlation answers exactly the pairs asked for, the right way round. The left record matches the left
  filter, the right one the right filter, each under its own scope, and the right one was stamped at or after
  the left one and no later than the distance asked; a page of structures defaults to half a structure page.
\<close>

theorem correlation_is_exact:
  "correlate idx left right within_ms =
     try_map (\<lambda>(l, r). and_then (as_id l) (\<lambda>a. and_then (as_id r) (\<lambda>b. Ok (a, b))))
       (page (f_limit left) DEFAULT_LIMIT (correlate_answer idx left right within_ms))
   \<and> correlate_structures idx left right within_ms =
     try_map (\<lambda>(l, r). and_then (as_structure l) (\<lambda>a. and_then (as_structure r) (\<lambda>b. Ok (a, b))))
       (page (f_limit left) DEFAULT_PAIR_LIMIT (correlate_answer idx left right within_ms))"
  by (simp only: correlate_def correlate_structures_def correlate_rows decode_pairs pair_default.simps)

lemma search_structures_rows:
  assumes "fts needle (records_fts idx) = Ok hits"
  shows "search_structures fts idx needle limit scope = map_err (refused_needle needle) (try_map as_structure
      (page limit DEFAULT_STRUCTURE_LIMIT (search_answer idx scope
        (newest_hits (case limit of None \<Rightarrow> DEFAULT_STRUCTURE_LIMIT | Some n \<Rightarrow> n) hits))))"
  unfolding search_structures_def Let_def search_rows [of fts, OF assms] and_then.simps decode_rows page_def default_limit.simps ..

lemma length_newest_hits: "length (newest_hits limit hits) \<le> candidate_ceiling limit"
  by (simp add: newest_hits_def)

text \<open>
  C40: A search answers from the newest matches and from all of them when they are few. It examines at most the
  ceiling, and its answer is the page, best match first, of the examined rows whose body is in the clear and which
  the scope admits; where no more matched than the ceiling, every match is examined.
\<close>

theorem search_examines_newest_matches:
  assumes "fts needle (records_fts idx) = Ok hits"
  shows "search fts idx needle limit scope =
      map_err (refused_needle needle) (try_map as_id (take limit (search_answer idx scope (newest_hits limit hits))))
    \<and> length (newest_hits limit hits) \<le> max limit MAX_CANDIDATES
    \<and> (length hits \<le> candidate_ceiling limit \<longrightarrow> mset (newest_hits limit hits) = mset hits)
    \<and> (\<forall>h \<in> set hits - set (newest_hits limit hits). \<forall>h' \<in> set (newest_hits limit hits). fst h \<le> fst h')"
proof -
  have "candidate_ceiling limit \<le> max limit MAX_CANDIDATES" by (auto simp: candidate_ceiling_def)
  with length_newest_hits [of limit hits] have "length (newest_hits limit hits) \<le> max limit MAX_CANDIDATES" by simp
  moreover have "mset (newest_hits limit hits) = mset hits" if "length hits \<le> candidate_ceiling limit"
    using that by (simp add: newest_hits_def mset_sort)
  moreover have "fst h \<le> fst h'" if "h \<in> set hits - set (newest_hits limit hits)" "h' \<in> set (newest_hits limit hits)" for h h'
  proof -
    let ?s = "rev (sort_key fst hits)"
    have "sorted_wrt (\<lambda>a b. fst b \<le> fst a) ?s"
      using sorted_sort_key [of fst hits] by (simp add: sorted_wrt_rev sorted_map)
    then have "sorted_wrt (\<lambda>a b. fst b \<le> fst a) (take (candidate_ceiling limit) ?s @ drop (candidate_ceiling limit) ?s)" by simp
    moreover have "h \<in> set (take (candidate_ceiling limit) ?s) \<union> set (drop (candidate_ceiling limit) ?s)"
      using that(1) unfolding set_append [symmetric] append_take_drop_id by simp
    ultimately show ?thesis using that unfolding newest_hits_def sorted_wrt_append by auto
  qed
  moreover have "search fts idx needle limit scope =
      map_err (refused_needle needle) (try_map as_id (take limit (search_answer idx scope (newest_hits limit hits))))"
    unfolding search_def search_rows [of fts, OF assms] and_then.simps decode_rows ..
  ultimately show ?thesis by blast
qed

lemma as_structure_Ok: "as_structure r = Ok s \<Longrightarrow> s = rec_frontmatter (snd r)"
  by (auto simp: as_structure_def stored_structure_def split: if_splits)

lemma decoded_from:
  "try_map as_structure rs = Ok ss \<Longrightarrow> s \<in> set ss \<Longrightarrow> \<exists>r \<in> set rs. s = rec_frontmatter (snd r)"
  by (induction rs arbitrary: ss) (auto dest!: as_structure_Ok)

lemma decoded_pairs_from:
  "try_map (\<lambda>(l, r). and_then (as_structure l) (\<lambda>a. and_then (as_structure r) (\<lambda>b. Ok (a, b)))) rs = Ok ps \<Longrightarrow> (s, s') \<in> set ps \<Longrightarrow>
     \<exists>(l, r) \<in> set rs. s = rec_frontmatter (snd l) \<and> s' = rec_frontmatter (snd r)"
  by (induction rs arbitrary: ps) (auto dest!: as_structure_Ok)

text \<open>
  C3: No read answers with a record its reader may not see. The filtered read, the history of an entity, both
  sides of a correlation, each under the scope of its own filter, and the full-text search answer only with
  structures the rule of visibility admits, and a search never with a record whose body is sealed.
\<close>

theorem reads_admit_only_readable:
  assumes "index_ok idx"
  shows "(\<forall>ss s. by_filter_structures idx left = Ok ss \<and> s \<in> set ss \<longrightarrow> readable (f_scope left) s)
    \<and> (\<forall>ss s. by_entity_structures idx kind eid least window limit scope = Ok ss \<and> s \<in> set ss \<longrightarrow> readable scope s)
    \<and> (\<forall>ps s s'. correlate_structures idx left right within_ms = Ok ps \<and> (s, s') \<in> set ps \<longrightarrow>
         readable (f_scope left) s \<and> readable (f_scope right) s')
    \<and> (\<forall>ss s. search_structures fts idx needle limit scope = Ok ss \<and> s \<in> set ss \<longrightarrow>
         readable scope s \<and> data_class s \<noteq> SubjectDerived)"
proof (intro conjI allI impI; elim conjE)
  fix ss s assume "by_filter_structures idx left = Ok ss" "s \<in> set ss"
  then obtain r where "r \<in> set (filter_answer idx left)" "s = rec_frontmatter (snd r)"
    unfolding by_filter_structures_def run_structures_def filter_rows [OF assms] decode_rows by (auto dest!: decoded_from set_page)
  then show "readable (f_scope left) s" by (auto simp: filter_answer_def matching_def Let_def)
next
  fix ss s assume "by_entity_structures idx kind eid least window limit scope = Ok ss" "s \<in> set ss"
  then obtain r where "r \<in> set (entity_answer idx kind eid least window scope)" "s = rec_frontmatter (snd r)"
    unfolding by_entity_structures_def run_structures_def entity_rows decode_rows by (auto dest!: decoded_from set_page)
  then show "readable scope s" by (auto simp: entity_answer_def referring_def)
next
  fix ps s s' assume "correlate_structures idx left right within_ms = Ok ps" "(s, s') \<in> set ps"
  then obtain l r where "(l, r) \<in> set (correlate_answer idx left right within_ms)" "s = rec_frontmatter (snd l)" "s' = rec_frontmatter (snd r)"
    unfolding correlate_structures_def correlate_rows decode_pairs by (fastforce dest: decoded_pairs_from set_page)
  then show "readable (f_scope left) s" "readable (f_scope right) s'"
    by (auto simp: correlate_answer_def correlated_def matching_def Let_def)
next
  fix ss s assume a: "search_structures fts idx needle limit scope = Ok ss" "s \<in> set ss"
  obtain hits where h: "fts needle (records_fts idx) = Ok hits"
    using a(1) search_fails [of fts needle idx] by (cases "fts needle (records_fts idx)") (auto simp: search_structures_def Let_def)
  obtain r where "r \<in> set (search_answer idx scope (newest_hits (case limit of None \<Rightarrow> DEFAULT_STRUCTURE_LIMIT | Some n \<Rightarrow> n) hits))"
    "s = rec_frontmatter (snd r)"
    using a unfolding search_structures_rows [of fts, OF h] by (auto dest!: decoded_from set_page)
  then show "readable scope s" "data_class s \<noteq> SubjectDerived" by (auto simp: search_answer_def plain_hit_def)
qed

section \<open>The properties at work\<close>

definition team_reader :: scope where "team_reader = Caller [Org, Owner] ''agent'' []"

definition deployed :: record_filter where
  "deployed = \<lparr>f_action = Some ''deploy'', f_outcome = None, f_agent = None, f_attr = None,
     f_window = Some \<lparr>from_ms = 0, to_ms = 1\<rparr>, f_limit = Some 5, f_scope = team_reader\<rparr>"

definition plain_match :: full_text where
  "plain_match needle rows = Ok (map (\<lambda>(pk, _). (pk, F32 1)) (filter (\<lambda>(_, body). body = needle) rows))"

lemma sample_index_ok: "index_ok sample_index"
  using sample_reachable(1) by (rule reachable_index_ok)

theorem filter_read_is_exact_witness:
  "by_filter sample_index deployed = try_map as_id (page (Some 5) DEFAULT_LIMIT (filter_answer sample_index deployed))
     \<and> filter_answer sample_index deployed \<noteq> []"
proof -
  have "filter_answer sample_index deployed \<noteq> []" by code_simp
  with filter_read_is_exact [OF sample_index_ok, of deployed] show ?thesis by (simp add: deployed_def)
qed

theorem search_examines_newest_matches_witness:
  "search plain_match sample_index ''shipped'' 3 team_reader
     = map_err (refused_needle ''shipped'') (try_map as_id (take 3 (search_answer sample_index team_reader (newest_hits 3 [(1, F32 1)]))))
   \<and> search_answer sample_index team_reader (newest_hits 3 [(1, F32 1)]) \<noteq> []"
proof -
  have m: "plain_match ''shipped'' (records_fts sample_index) = Ok [(1, F32 1)]" by code_simp
  have "search_answer sample_index team_reader [(1, F32 1)] \<noteq> []" by code_simp
  moreover have "newest_hits 3 [(1, F32 1)] = [(1, F32 1)]" by (simp add: newest_hits_def candidate_ceiling_def)
  ultimately have "search_answer sample_index team_reader (newest_hits 3 [(1, F32 1)]) \<noteq> []" by simp
  then show ?thesis by (rule conjI [OF search_examines_newest_matches [of plain_match "''shipped''" sample_index "[(1, F32 1)]" 3 team_reader, OF m, THEN conjunct1]])
qed

theorem reads_admit_only_readable_witness:
  "\<exists>s. by_filter_structures sample_index deployed = Ok [s] \<and> readable team_reader s"
proof -
  have "try_map as_structure (page (f_limit deployed) DEFAULT_STRUCTURE_LIMIT (filter_answer sample_index deployed))
      = Ok [structure_of sample_record]" by code_simp
  then obtain s where s: "by_filter_structures sample_index deployed = Ok [s]"
    by (simp add: by_filter_structures_def run_structures_def filter_rows [OF sample_index_ok] decode_rows del: columns.simps)
  with reads_admit_only_readable [OF sample_index_ok, THEN conjunct1, of deployed]
  have "readable (f_scope deployed) s" by simp
  with s show ?thesis by (auto simp: deployed_def)
qed

end
