(* ===== verification/Linked.thy ===== *)
theory Linked
  imports Query
begin

text \<open>
  The traversal of \<open>yaam-store/src/query.rs\<close>: a recursive statement over the references. As SQLite documents
  it, the rows of the first select fill a queue; a row taken from the queue is a row of the answer, the second
  select runs on it alone and its rows join the queue, no row twice; the LIMIT ends it after that many rows. The
  order in which a select without ORDER BY gives its rows is the parameter \<open>scan\<close>.
\<close>

section \<open>Data\<close>

definition DEFAULT_LINK_LIMIT :: nat where "DEFAULT_LINK_LIMIT = 100"

definition MAX_FRONTIER :: nat where "MAX_FRONTIER = 200"

definition CORRIDOR_DEGREE :: nat where "CORRIDOR_DEGREE = 32"

definition MAX_DEPTH :: nat where "MAX_DEPTH = 2"

definition HOP_ATTENUATION :: rat where "HOP_ATTENUATION = 1 / 2"

definition FULL_CONFIDENCE :: f32 where "FULL_CONFIDENCE = F32 1"

record entity_key =
  ek_kind :: string
  ek_id :: string

record edge =
  e_from :: entity_key
  e_to :: entity_key
  e_hop :: nat
  e_confidence :: f32
  e_degree :: nat

record 'r link = edge +
  via :: 'r

record traversal =
  tr_kind :: string
  tr_id :: string
  tr_depth :: nat
  tr_window :: window
  tr_min_confidence :: f32
  tr_max_degree :: nat
  tr_limit :: "nat option"
  tr_scope :: scope

text \<open>A power of one half is an \<open>f32\<close> down to the smallest there is.\<close>

definition link_score :: "('r link) \<Rightarrow> f32" where
  "link_score l = F32 (if e_hop l \<le> 149 then HOP_ATTENUATION ^ e_hop l else 0)"

definition is_hub :: "('r link) \<Rightarrow> traversal \<Rightarrow> bool" where
  "is_hub l tr \<longleftrightarrow> tr_max_degree tr < e_degree l \<and> e_hop l < tr_depth tr"

definition with_via :: "edge \<Rightarrow> 'r \<Rightarrow> 'r link" where
  "with_via e r = edge.extend e \<lparr>via = r\<rparr>"

section \<open>The statement\<close>

datatype sql_expr =
    Const sql_value
  | Hole
  | Col column
  | Plus column int
  | Least column column
  | Degree column column                            \<comment> \<open>the bounded count, with three holes\<close>

fun expr_holes :: "sql_expr \<Rightarrow> nat" where
  "expr_holes Hole = 1"
| "expr_holes (Degree _ _) = 3"
| "expr_holes _ = 0"

definition count_refs :: "index \<Rightarrow> sql_value \<Rightarrow> sql_value \<Rightarrow> sql_value list \<Rightarrow> nat" where
  "count_refs idx kind eid bs = length (first_rows (bound bs 2) (filter (\<lambda>d. let c = row_column (RefRow d) in
     compares Equal (c ''kind'') kind \<and> compares Equal (c ''entity_id'') eid
     \<and> compares AtLeast (c ''received_ms'') (bound bs 0) \<and> compares Below (c ''received_ms'') (bound bs 1)) (entity_refs idx)))"

fun expr_value :: "index \<Rightarrow> joined \<Rightarrow> sql_expr \<Rightarrow> sql_value list \<Rightarrow> sql_value" where
  "expr_value idx t (Const v) bs = v"
| "expr_value idx t Hole bs = bound bs 0"
| "expr_value idx t (Col c) bs = column_of t c"
| "expr_value idx t (Plus c i) bs = shifted (column_of t c) (SInt i)"
| "expr_value idx t (Least c d) bs = lesser (column_of t c) (column_of t d)"
| "expr_value idx t (Degree k e) bs = SInt (int (count_refs idx (column_of t k) (column_of t e) bs))"

fun expr_values :: "index \<Rightarrow> joined \<Rightarrow> sql_expr list \<Rightarrow> sql_value list \<Rightarrow> sql_value list" where
  "expr_values idx t [] bs = []"
| "expr_values idx t (e # es) bs = expr_value idx t e (take (expr_holes e) bs) # expr_values idx t es (drop (expr_holes e) bs)"

definition REACHED :: "string list" where
  "REACHED = [''hop'', ''from_kind'', ''from_id'', ''to_kind'', ''to_id'', ''confidence'', ''degree'', ''record_pk'']"

text \<open>A term of the recursion: its select list, its joins and conditions, and the values of both.\<close>

type_synonym hop_term = "sql_expr list \<times> (string \<times> string) list \<times> builder"

definition push_degree :: "traversal \<Rightarrow> sql_value list" where
  "push_degree tr = [SInt (from_ms (tr_window tr)), SInt (to_ms (tr_window tr)), SInt (min (int (tr_max_degree tr) + 1) (2 ^ 32 - 1))]"

definition push_hop_window :: "traversal \<Rightarrow> builder \<Rightarrow> builder" where
  "push_hop_window tr = (\<lambda>(conds, binds).
     (conds @ [Holds (''a'', ''received_ms'') AtLeast, Holds (''a'', ''received_ms'') Below],
      binds @ [SInt (from_ms (tr_window tr)), SInt (to_ms (tr_window tr))]))"

definition push_conds :: "builder \<Rightarrow> builder \<Rightarrow> builder" where
  "push_conds new = (\<lambda>(conds, binds). (conds @ fst new, binds @ snd new))"

definition push_scope :: "scope \<Rightarrow> builder \<Rightarrow> builder" where
  "push_scope scope b = and_scope scope ''rec'' b"

definition first_hop :: "traversal \<Rightarrow> hop_term \<times> sql_value list" where
  "first_hop tr =
     (([Const (SInt 1), Hole, Hole, Col (''b'', ''kind''), Col (''b'', ''entity_id''),
        Least (''a'', ''confidence'') (''b'', ''confidence''), Degree (''b'', ''kind'') (''b'', ''entity_id''), Col (''a'', ''record_pk'')],
       [(''entity_refs'', ''a''), (''entity_refs'', ''b''), (''records'', ''rec'')],
       push_scope (tr_scope tr)
         (push_conds ([Holds (''a'', ''confidence'') AtLeast, Holds (''b'', ''confidence'') AtLeast,
              AnyOf [Columns (''b'', ''kind'') Differs (''a'', ''kind''), Columns (''b'', ''entity_id'') Differs (''a'', ''entity_id'')]],
            [SReal (tr_min_confidence tr), SReal (tr_min_confidence tr)])
         (push_hop_window tr
           ([Columns (''b'', ''record_pk'') Equal (''a'', ''record_pk''), Columns (''rec'', ''id'') Equal (''a'', ''record_pk''),
             Holds (''a'', ''kind'') Equal, Holds (''a'', ''entity_id'') Equal],
            [SText (tr_kind tr), SText (tr_id tr)])))),
      [SText (tr_kind tr), SText (tr_id tr)] @ push_degree tr)"

definition further_hop :: "traversal \<Rightarrow> hop_term \<times> sql_value list" where
  "further_hop tr =
     (([Plus (''h'', ''hop'') 1, Col (''h'', ''to_kind''), Col (''h'', ''to_id''), Col (''b'', ''kind''), Col (''b'', ''entity_id''),
        Least (''a'', ''confidence'') (''b'', ''confidence''), Degree (''b'', ''kind'') (''b'', ''entity_id''), Col (''a'', ''record_pk'')],
       [(''reached'', ''h''), (''entity_refs'', ''a''), (''entity_refs'', ''b''), (''records'', ''rec'')],
       push_scope (tr_scope tr)
         (push_conds ([Holds (''a'', ''confidence'') AtLeast, Holds (''b'', ''confidence'') AtLeast,
              AnyOf [Columns (''b'', ''kind'') Differs (''h'', ''to_kind''), Columns (''b'', ''entity_id'') Differs (''h'', ''to_id'')],
              AnyOf [Holds (''b'', ''kind'') Differs, Holds (''b'', ''entity_id'') Differs]],
            [SReal FULL_CONFIDENCE, SReal (tr_min_confidence tr), SText (tr_kind tr), SText (tr_id tr)])
         (push_hop_window tr
           ([Columns (''a'', ''kind'') Equal (''h'', ''to_kind''), Columns (''a'', ''entity_id'') Equal (''h'', ''to_id''),
             Columns (''b'', ''record_pk'') Equal (''a'', ''record_pk''), Columns (''rec'', ''id'') Equal (''a'', ''record_pk''),
             Holds (''h'', ''hop'') Below, Holds (''h'', ''degree'') AtMost, Holds (''h'', ''confidence'') AtLeast],
            [SInt (int (tr_depth tr)), SInt (int (tr_max_degree tr)), SReal FULL_CONFIDENCE])))),
      push_degree tr)"

text \<open>All the values, in the order of the text: each term's select list before its conditions, then the two limits.\<close>

definition linked_sql :: "traversal \<Rightarrow> select \<Rightarrow> hop_term \<times> hop_term \<times> column list \<times> sql_value list" where
  "linked_sql tr select =
     (case (first_hop tr, further_hop tr) of
        ((term1, head1), (term2, head2)) \<Rightarrow>
          (term1, term2, map (Pair ''reached'') (butlast REACHED) @ columns select,
           head1 @ snd (snd (snd term1)) @ head2 @ snd (snd (snd term2)) @ [SInt (int MAX_FRONTIER)]
             @ [SInt (int (case tr_limit tr of None \<Rightarrow> DEFAULT_LINK_LIMIT | Some n \<Rightarrow> n))]))"

definition links_statement :: statement where
  "links_statement = \<lparr>st_from = [(''reached'', ''reached''), (''records'', ''rec'')],
     st_where = [Columns (''rec'', ''id'') Equal (''reached'', ''record_pk'')],
     st_order = [((''reached'', ''hop''), False), ((''rec'', ''received_ms''), True), ((''rec'', ''id''), True),
       ((''reached'', ''to_kind''), False), ((''reached'', ''to_id''), False),
       ((''reached'', ''from_kind''), False), ((''reached'', ''from_id''), False)],
     st_paged = True\<rparr>"

section \<open>Running it\<close>

definition term_holes :: "hop_term \<Rightarrow> nat" where
  "term_holes = (\<lambda>(exprs, _, conds, _). sum_list (map expr_holes exprs) + all_holes conds)"

definition with_reached :: "index \<Rightarrow> sql_value list list \<Rightarrow> string \<Rightarrow> table_row list" where
  "with_reached idx rows name = (if name = ''reached'' then map (CteRow \<circ> zip REACHED) rows else table_rows idx name)"

definition hop_rows :: "index \<Rightarrow> hop_term \<Rightarrow> sql_value list \<Rightarrow> sql_value list list \<Rightarrow> sql_value list list" where
  "hop_rows idx = (\<lambda>(exprs, tabs, conds, _) bs queue.
     let n = sum_list (map expr_holes exprs)
     in map (\<lambda>t. expr_values idx t exprs (take n bs))
          (filter (\<lambda>t. meets_all idx t conds (drop n bs)) (join_tables (with_reached idx queue) tabs)))"

fun fill :: "('r \<Rightarrow> 'r list) \<Rightarrow> nat \<Rightarrow> 'r list \<Rightarrow> 'r list \<Rightarrow> 'r list" where
  "fill step 0 seen queue = []"
| "fill step n seen [] = []"
| "fill step (Suc n) seen (r # queue) =
     (let new = filter (\<lambda>x. x \<notin> set seen) (remdups (step r))
      in r # fill step n (seen @ new) (queue @ new))"

definition first_limit :: "sql_value \<Rightarrow> nat" where
  "first_limit v = (case v of SInt n \<Rightarrow> nat n | _ \<Rightarrow> 0)"

definition linked_rows ::
  "(sql_value list list \<Rightarrow> sql_value list list) \<Rightarrow> index \<Rightarrow> traversal \<Rightarrow> select \<Rightarrow> sql_value list list" where
  "linked_rows scan idx tr select =
     (case linked_sql tr select of
        (term1, term2, cols, binds) \<Rightarrow>
          let b1 = take (term_holes term1) binds; rest = drop (term_holes term1) binds;
              b2 = take (term_holes term2) rest; limits = drop (term_holes term2) rest;
              queue = remdups (scan (hop_rows idx term1 b1 []));
              reached = fill (\<lambda>h. scan (hop_rows idx term2 b2 [h])) (first_limit (bound limits 0)) queue queue
          in map (\<lambda>t. map (column_of t) cols)
               (query_rows idx (with_reached idx reached) links_statement (drop 1 limits)))"

definition get_u32 :: "sql_value list \<Rightarrow> nat \<Rightarrow> (nat, read_error) result" where
  "get_u32 row i = (case bound row i of
     SInt n \<Rightarrow> Ok (if 0 \<le> n \<and> n < 2 ^ 32 then nat n else 2 ^ 32 - 1) | _ \<Rightarrow> Err InvalidColumnType)"

definition get_real :: "sql_value list \<Rightarrow> nat \<Rightarrow> (f32, read_error) result" where
  "get_real row i = (case bound row i of SReal x \<Rightarrow> Ok x | _ \<Rightarrow> Err InvalidColumnType)"

definition edge_of :: "sql_value list \<Rightarrow> (edge, read_error) result" where
  "edge_of row =
     and_then (get_u32 row 0) (\<lambda>hop.
     and_then (get_text row 1) (\<lambda>fk. and_then (get_text row 2) (\<lambda>fi.
     and_then (get_text row 3) (\<lambda>tk. and_then (get_text row 4) (\<lambda>ti.
     and_then (get_real row 5) (\<lambda>confidence.
     and_then (get_u32 row 6) (\<lambda>degree.
       Ok \<lparr>e_from = \<lparr>ek_kind = fk, ek_id = fi\<rparr>, e_to = \<lparr>ek_kind = tk, ek_id = ti\<rparr>, e_hop = hop,
         e_confidence = confidence, e_degree = degree\<rparr>)))))))"

definition linked ::
  "(sql_value list list \<Rightarrow> sql_value list list) \<Rightarrow> index \<Rightarrow> traversal \<Rightarrow> (record_id link list, read_error) result" where
  "linked scan idx tr =
     try_map (\<lambda>row. and_then (edge_of row) (\<lambda>e. and_then (id_at 7 row) (\<lambda>r. Ok (with_via e r)))) (linked_rows scan idx tr SelId)"

definition linked_structures ::
  "(sql_value list list \<Rightarrow> sql_value list list) \<Rightarrow> index \<Rightarrow> traversal \<Rightarrow> (record_structure link list, read_error) result" where
  "linked_structures scan idx tr =
     try_map (\<lambda>row. and_then (edge_of row) (\<lambda>e. and_then (structure_at 7 row) (\<lambda>s. Ok (with_via e s)))) (linked_rows scan idx tr SelStructure)"

section \<open>What an edge claims\<close>

definition refers :: "index \<Rightarrow> nat \<Rightarrow> entity_key \<Rightarrow> ref_row \<Rightarrow> bool" where
  "refers idx pk k ref \<longleftrightarrow> (\<exists>role. ((pk, ek_kind k, ek_id k, role), ref) \<in> set (entity_refs idx))"

text \<open>The references to an entity in the window, and as many of them as the bounded count counts.\<close>

definition references_to :: "index \<Rightarrow> traversal \<Rightarrow> entity_key \<Rightarrow> nat" where
  "references_to idx tr k = length (filter (\<lambda>((_, kind, eid, _), ref).
     kind = ek_kind k \<and> eid = ek_id k \<and> in_window (Some (tr_window tr)) (ref_received_ms ref)) (entity_refs idx))"

definition busy :: "index \<Rightarrow> traversal \<Rightarrow> entity_key \<Rightarrow> nat" where
  "busy idx tr k = min (references_to idx tr k) (min (Suc (tr_max_degree tr)) (2 ^ 32 - 1))"

definition weaker :: "f32 \<Rightarrow> f32 \<Rightarrow> f32" where
  "weaker x y = (if value_key (SReal y) < value_key (SReal x) then y else x)"

text \<open>
  An edge and the record that makes it: both references are the record's, the record is one the scope admits,
  the first reference falls in the window, and each is as sure as it has to be.
\<close>

definition mediated :: "index \<Rightarrow> traversal \<Rightarrow> f32 \<Rightarrow> edge \<Rightarrow> nat \<Rightarrow> bool" where
  "mediated idx tr bar e pk \<longleftrightarrow> (\<exists>ra rb rid row. refers idx pk (e_from e) ra \<and> refers idx pk (e_to e) rb
     \<and> (rid, row) \<in> set (record_rows idx) \<and> rec_pk row = pk \<and> readable (tr_scope tr) (rec_frontmatter row)
     \<and> in_window (Some (tr_window tr)) (ref_received_ms ra)
     \<and> f32_le bar (ref_confidence ra) \<and> f32_le (tr_min_confidence tr) (ref_confidence rb)
     \<and> e_confidence e = weaker (ref_confidence ra) (ref_confidence rb)
     \<and> e_from e \<noteq> e_to e \<and> e_degree e = busy idx tr (e_to e))"

definition seed :: "traversal \<Rightarrow> entity_key" where
  "seed tr = \<lparr>ek_kind = tr_kind tr, ek_id = tr_id tr\<rparr>"

definition edge_row :: "edge \<Rightarrow> nat \<Rightarrow> sql_value list" where
  "edge_row e pk = [SInt (int (e_hop e)), SText (ek_kind (e_from e)), SText (ek_id (e_from e)), SText (ek_kind (e_to e)),
     SText (ek_id (e_to e)), SReal (e_confidence e), SInt (int (e_degree e)), SInt (int pk)]"

definition carries_on :: "traversal \<Rightarrow> edge \<Rightarrow> edge \<Rightarrow> bool" where
  "carries_on tr h e \<longleftrightarrow> e_hop e = Suc (e_hop h) \<and> e_from e = e_to h \<and> e_hop h < tr_depth tr
     \<and> e_degree h \<le> tr_max_degree tr \<and> f32_le FULL_CONFIDENCE (e_confidence h) \<and> e_to e \<noteq> seed tr"

lemma count_refs_busy:
  "count_refs idx (SText kind) (SText eid) (push_degree tr) = busy idx tr \<lparr>ek_kind = kind, ek_id = eid\<rparr>"
proof -
  have "(\<lambda>d. let c = row_column (RefRow d) in compares Equal (c ''kind'') (SText kind) \<and> compares Equal (c ''entity_id'') (SText eid)
      \<and> compares AtLeast (c ''received_ms'') (SInt (from_ms (tr_window tr))) \<and> compares Below (c ''received_ms'') (SInt (to_ms (tr_window tr))))
    = (\<lambda>((_, k, e, _), ref). k = kind \<and> e = eid \<and> in_window (Some (tr_window tr)) (ref_received_ms ref))"
    by (rule ext) (auto simp: Let_def in_window_def)
  moreover have "min (int (tr_max_degree tr) + 1) (2 ^ 32 - 1) = int (min (Suc (tr_max_degree tr)) (2 ^ 32 - 1))" by simp
  ultimately show ?thesis
    by (simp only: count_refs_def push_degree_def bound_def busy_def references_to_def) (simp add: numeral_2_eq_2)
qed

lemma lesser_real [simp]: "lesser (SReal x) (SReal y) = SReal (weaker x y)"
  by (simp add: lesser_def weaker_def)

lemma entity_key_eq: "k = k' \<longleftrightarrow> ek_kind k = ek_kind k' \<and> ek_id k = ek_id (k' :: entity_key)"
  by (cases k; cases k') simp

lemma builds_push_conds: "builds idx t b p \<Longrightarrow> builds idx t new q \<Longrightarrow> builds idx t (push_conds new b) (p \<and> q)"
  by (simp add: push_conds_def case_prod_unfold fits_all_append)

lemma builds_push_hop_window:
  assumes "builds idx t b p" "column_of t (''a'', ''received_ms'') = SInt ms"
  shows "builds idx t (push_hop_window tr b) (p \<and> in_window (Some (tr_window tr)) ms)"
proof -
  have "builds idx t ([Holds (''a'', ''received_ms'') AtLeast, Holds (''a'', ''received_ms'') Below],
      [SInt (from_ms (tr_window tr)), SInt (to_ms (tr_window tr))]) (in_window (Some (tr_window tr)) ms)"
    using assms(2) by (simp add: fits_all_def bound_def in_window_def)
  from builds_push_conds [OF assms(1) this] show ?thesis by (simp add: push_conds_def push_hop_window_def)
qed

section \<open>What the terms give\<close>

text \<open>The three rows a hop joins.\<close>

definition joins ::
  "joined \<Rightarrow> (nat \<times> string \<times> string \<times> string) \<times> ref_row \<Rightarrow> (nat \<times> string \<times> string \<times> string) \<times> ref_row \<Rightarrow> string \<times> record_row \<Rightarrow> bool" where
  "joins t a b r \<longleftrightarrow> map_of t ''a'' = Some (RefRow a) \<and> map_of t ''b'' = Some (RefRow b) \<and> map_of t ''rec'' = Some (RecordRow r)"

lemma joins_columns:
  assumes "joins t a b r"
  shows "column_of t (''a'', c) = row_column (RefRow a) c" "column_of t (''b'', c) = row_column (RefRow b) c"
    "column_of t (''rec'', c) = record_column c r"
  using assms by (simp_all add: joins_def column_of_def)

lemma first_hop_builds:
  assumes j: "joins t ((pa, ka, ea, rla), ra) ((pb, kb, eb, rlb), rb) (rid, row)"
  shows "builds idx t (snd (snd (fst (first_hop tr)))) ((((pb = pa \<and> rec_pk row = pa \<and> ka = tr_kind tr \<and> ea = tr_id tr)
     \<and> in_window (Some (tr_window tr)) (ref_received_ms ra)) \<and> (f32_le (tr_min_confidence tr) (ref_confidence ra)
     \<and> f32_le (tr_min_confidence tr) (ref_confidence rb) \<and> (kb \<noteq> ka \<or> eb \<noteq> ea))) \<and> readable (tr_scope tr) (rec_frontmatter row))"
  unfolding first_hop_def fst_conv snd_conv push_scope_def
  by (rule builds_and_scope [where r = "(rid, row)", unfolded snd_conv], rule builds_push_conds, rule builds_push_hop_window)
    (use j in \<open>simp_all add: fits_all_def bound_def joins_columns [OF j] joins_def del: column_of_simps\<close>)

lemma further_hop_builds:
  assumes j: "joins t ((pa, ka, ea, rla), ra) ((pb, kb, eb, rlb), rb) (rid, row)"
    and h: "map_of t ''h'' = Some (CteRow (zip REACHED (edge_row h pk)))"
  shows "builds idx t (snd (snd (fst (further_hop tr)))) ((((ka = ek_kind (e_to h) \<and> ea = ek_id (e_to h) \<and> pb = pa \<and> rec_pk row = pa
     \<and> e_hop h < tr_depth tr \<and> e_degree h \<le> tr_max_degree tr \<and> f32_le FULL_CONFIDENCE (e_confidence h))
     \<and> in_window (Some (tr_window tr)) (ref_received_ms ra)) \<and> (f32_le FULL_CONFIDENCE (ref_confidence ra)
     \<and> f32_le (tr_min_confidence tr) (ref_confidence rb) \<and> (kb \<noteq> ek_kind (e_to h) \<or> eb \<noteq> ek_id (e_to h))
     \<and> (kb \<noteq> tr_kind tr \<or> eb \<noteq> tr_id tr))) \<and> readable (tr_scope tr) (rec_frontmatter row))"
proof -
  have c: "column_of t (''h'', ''to_kind'') = SText (ek_kind (e_to h))" "column_of t (''h'', ''to_id'') = SText (ek_id (e_to h))"
    "column_of t (''h'', ''hop'') = SInt (int (e_hop h))" "column_of t (''h'', ''degree'') = SInt (int (e_degree h))"
    "column_of t (''h'', ''confidence'') = SReal (e_confidence h)"
    using h by (simp_all add: column_of_def REACHED_def edge_row_def)
  show ?thesis unfolding further_hop_def fst_conv snd_conv push_scope_def
    by (rule builds_and_scope [where r = "(rid, row)", unfolded snd_conv], rule builds_push_conds, rule builds_push_hop_window)
      (use j in \<open>simp_all add: fits_all_def bound_def joins_columns [OF j] c joins_def del: column_of_simps\<close>)
qed

lemma tables_of_hop:
  "r \<in> set (with_reached idx q ''entity_refs'') \<longleftrightarrow> (\<exists>a \<in> set (entity_refs idx). r = RefRow a)"
  "r \<in> set (with_reached idx q ''records'') \<longleftrightarrow> (\<exists>a \<in> set (record_rows idx). r = RecordRow a)"
  "with_reached idx q ''reached'' = map (CteRow \<circ> zip REACHED) q"
  by (auto simp: with_reached_def)

lemma mediatedI:
  assumes "((pk, ek_kind (e_from e), ek_id (e_from e), rla), ra) \<in> set (entity_refs idx)"
    "((pk, ek_kind (e_to e), ek_id (e_to e), rlb), rb) \<in> set (entity_refs idx)"
    "(rid, row) \<in> set (record_rows idx)" "rec_pk row = pk" "readable (tr_scope tr) (rec_frontmatter row)"
    "in_window (Some (tr_window tr)) (ref_received_ms ra)" "f32_le bar (ref_confidence ra)"
    "f32_le (tr_min_confidence tr) (ref_confidence rb)" "e_confidence e = weaker (ref_confidence ra) (ref_confidence rb)"
    "e_from e \<noteq> e_to e" "e_degree e = busy idx tr (e_to e)"
  shows "mediated idx tr bar e pk"
  using assms unfolding mediated_def refers_def by blast

lemma first_hop_rows:
  assumes "vs \<in> set (hop_rows idx (fst (first_hop tr)) (snd (first_hop tr) @ snd (snd (snd (fst (first_hop tr))))) q)"
  shows "\<exists>e pk. vs = edge_row e pk \<and> mediated idx tr (tr_min_confidence tr) e pk \<and> e_hop e = 1 \<and> e_from e = seed tr"
proof -
  let ?conds = "fst (snd (snd (fst (first_hop tr))))" and ?binds = "snd (snd (snd (fst (first_hop tr))))"
  let ?exprs = "fst (fst (first_hop tr))"
  have n: "sum_list (map expr_holes ?exprs) = length (snd (first_hop tr))" "length (snd (first_hop tr)) = 5"
    by (simp_all add: first_hop_def push_degree_def)
  have tabs: "fst (snd (fst (first_hop tr))) = [(''entity_refs'', ''a''), (''entity_refs'', ''b''), (''records'', ''rec'')]"
    by (simp add: first_hop_def)
  from assms obtain t where t: "t \<in> set (join_tables (with_reached idx q) [(''entity_refs'', ''a''), (''entity_refs'', ''b''), (''records'', ''rec'')])"
    "meets_all idx t ?conds ?binds" "vs = expr_values idx t ?exprs (snd (first_hop tr))"
    unfolding hop_rows_def Let_def case_prod_unfold n(1) by (auto simp: n(2) tabs)
  from t(1) obtain pa ka ea rla ra pb kb eb rlb rb rid row where
    t': "t = [(''a'', RefRow ((pa, ka, ea, rla), ra)), (''b'', RefRow ((pb, kb, eb, rlb), rb)), (''rec'', RecordRow (rid, row))]"
    and m: "((pa, ka, ea, rla), ra) \<in> set (entity_refs idx)" "((pb, kb, eb, rlb), rb) \<in> set (entity_refs idx)" "(rid, row) \<in> set (record_rows idx)"
    by (auto simp: tables_of_hop)
  have j: "joins t ((pa, ka, ea, rla), ra) ((pb, kb, eb, rlb), rb) (rid, row)" by (simp add: joins_def t')
  from first_hop_builds [OF j, of idx tr] t(2)
  have p: "pb = pa" "rec_pk row = pa" "ka = tr_kind tr" "ea = tr_id tr" "in_window (Some (tr_window tr)) (ref_received_ms ra)"
    "f32_le (tr_min_confidence tr) (ref_confidence ra)" "f32_le (tr_min_confidence tr) (ref_confidence rb)"
    "kb \<noteq> ka \<or> eb \<noteq> ea" "readable (tr_scope tr) (rec_frontmatter row)"
    unfolding fits_all_def by blast+
  let ?e = "\<lparr>e_from = seed tr, e_to = \<lparr>ek_kind = kb, ek_id = eb\<rparr>, e_hop = 1,
    e_confidence = weaker (ref_confidence ra) (ref_confidence rb), e_degree = busy idx tr \<lparr>ek_kind = kb, ek_id = eb\<rparr>\<rparr>"
  have "vs = edge_row ?e pa"
    unfolding t(3) first_hop_def fst_conv snd_conv edge_row_def
    by (simp add: joins_columns [OF j] count_refs_busy bound_def seed_def push_degree_def [symmetric] del: column_of_simps)
      (use count_refs_busy [of idx kb eb tr] in \<open>simp add: push_degree_def\<close>)
  moreover have "mediated idx tr (tr_min_confidence tr) ?e pa"
    by (rule mediatedI [of _ _ rla ra _ rlb rb rid row]) (use m p in \<open>auto simp: seed_def\<close>)
  ultimately show ?thesis by (intro exI [of _ ?e] exI [of _ pa]) simp
qed

lemma further_hop_rows:
  assumes "vs \<in> set (hop_rows idx (fst (further_hop tr)) (snd (further_hop tr) @ snd (snd (snd (fst (further_hop tr))))) [edge_row h pk])"
  shows "\<exists>e pk. vs = edge_row e pk \<and> mediated idx tr FULL_CONFIDENCE e pk \<and> carries_on tr h e"
proof -
  let ?conds = "fst (snd (snd (fst (further_hop tr))))" and ?binds = "snd (snd (snd (fst (further_hop tr))))"
  let ?exprs = "fst (fst (further_hop tr))"
  have n: "sum_list (map expr_holes ?exprs) = length (snd (further_hop tr))" "length (snd (further_hop tr)) = 3"
    by (simp_all add: further_hop_def push_degree_def)
  have tabs: "fst (snd (fst (further_hop tr))) = [(''reached'', ''h''), (''entity_refs'', ''a''), (''entity_refs'', ''b''), (''records'', ''rec'')]"
    by (simp add: further_hop_def)
  from assms obtain t where t: "t \<in> set (join_tables (with_reached idx [edge_row h pk]) [(''reached'', ''h''), (''entity_refs'', ''a''), (''entity_refs'', ''b''), (''records'', ''rec'')])"
    "meets_all idx t ?conds ?binds" "vs = expr_values idx t ?exprs (snd (further_hop tr))"
    unfolding hop_rows_def Let_def case_prod_unfold n(1) by (auto simp: n(2) tabs)
  from t(1) obtain pa ka ea rla ra pb kb eb rlb rb rid row where
    t': "t = [(''h'', CteRow (zip REACHED (edge_row h pk))), (''a'', RefRow ((pa, ka, ea, rla), ra)), (''b'', RefRow ((pb, kb, eb, rlb), rb)), (''rec'', RecordRow (rid, row))]"
    and m: "((pa, ka, ea, rla), ra) \<in> set (entity_refs idx)" "((pb, kb, eb, rlb), rb) \<in> set (entity_refs idx)" "(rid, row) \<in> set (record_rows idx)"
    by (auto simp: tables_of_hop)
  have j: "joins t ((pa, ka, ea, rla), ra) ((pb, kb, eb, rlb), rb) (rid, row)" by (simp add: joins_def t')
  have h: "map_of t ''h'' = Some (CteRow (zip REACHED (edge_row h pk)))" by (simp add: t')
  from further_hop_builds [OF j h, of idx tr] t(2)
  have p: "ka = ek_kind (e_to h)" "ea = ek_id (e_to h)" "pb = pa" "rec_pk row = pa" "e_hop h < tr_depth tr" "e_degree h \<le> tr_max_degree tr"
    "f32_le FULL_CONFIDENCE (e_confidence h)" "in_window (Some (tr_window tr)) (ref_received_ms ra)"
    "f32_le FULL_CONFIDENCE (ref_confidence ra)" "f32_le (tr_min_confidence tr) (ref_confidence rb)"
    "kb \<noteq> ek_kind (e_to h) \<or> eb \<noteq> ek_id (e_to h)" "kb \<noteq> tr_kind tr \<or> eb \<noteq> tr_id tr" "readable (tr_scope tr) (rec_frontmatter row)"
    unfolding fits_all_def by blast+
  let ?e = "\<lparr>e_from = e_to h, e_to = \<lparr>ek_kind = kb, ek_id = eb\<rparr>, e_hop = Suc (e_hop h),
    e_confidence = weaker (ref_confidence ra) (ref_confidence rb), e_degree = busy idx tr \<lparr>ek_kind = kb, ek_id = eb\<rparr>\<rparr>"
  have c: "column_of t (''h'', ''to_kind'') = SText (ek_kind (e_to h))" "column_of t (''h'', ''to_id'') = SText (ek_id (e_to h))"
    "column_of t (''h'', ''hop'') = SInt (int (e_hop h))"
    using h by (simp_all add: column_of_def REACHED_def edge_row_def)
  have "vs = edge_row ?e pa"
    unfolding t(3) further_hop_def fst_conv snd_conv edge_row_def
    by (simp add: joins_columns [OF j] c count_refs_busy push_degree_def [symmetric] del: column_of_simps) (use count_refs_busy [of idx kb eb tr] in \<open>simp add: push_degree_def\<close>)
  moreover have "mediated idx tr FULL_CONFIDENCE ?e pa"
    by (rule mediatedI [of _ _ rla ra _ rlb rb rid row]) (use m p in \<open>auto simp: entity_key_eq\<close>)
  moreover have "carries_on tr h ?e" using p by (auto simp: carries_on_def seed_def)
  ultimately show ?thesis by blast
qed

text \<open>The queue: what it gives is what it held, or what a row it gave led to, and no more than it may.\<close>

lemma fill_from: "r \<in> set (fill step n seen queue) \<Longrightarrow> r \<in> set queue \<or> (\<exists>h \<in> set (fill step n seen queue). r \<in> set (step h))"
proof (induction step n seen queue rule: fill.induct)
  case (3 step n seen h queue)
  let ?new = "filter (\<lambda>x. x \<notin> set seen) (remdups (step h))"
  from "3.prems" consider "r = h" | "r \<in> set (fill step n (seen @ ?new) (queue @ ?new))" by (auto simp: Let_def)
  then show ?case
  proof cases
    case 2
    from "3.IH" [OF refl this] show ?thesis by (auto simp: Let_def)
  qed simp
qed simp_all

lemma length_fill: "length (fill step n seen queue) \<le> n"
  by (induction step n seen queue rule: fill.induct) (simp_all add: Let_def)

lemma fill_all:
  "\<forall>r \<in> set queue. p r \<Longrightarrow> (\<And>h r. p h \<Longrightarrow> r \<in> set (step h) \<Longrightarrow> p r) \<Longrightarrow> r \<in> set (fill step n seen queue) \<Longrightarrow> p r"
proof (induction step n seen queue rule: fill.induct)
  case (3 step n seen h queue)
  let ?new = "filter (\<lambda>x. x \<notin> set seen) (remdups (step h))"
  from "3.prems"(3) consider "r = h" | "r \<in> set (fill step n (seen @ ?new) (queue @ ?new))" by (auto simp: Let_def)
  then show ?case
  proof cases
    case 1
    with "3.prems"(1) show ?thesis by simp
  next
    case 2
    show ?thesis by (rule "3.IH" [OF refl _ _ 2]) (use "3.prems"(1,2) in auto)
  qed
qed simp_all

section \<open>The edges reached\<close>

text \<open>An edge is the seed's own, or carries on from one that was reached.\<close>

definition reached_ok :: "index \<Rightarrow> traversal \<Rightarrow> (edge \<times> nat) list \<Rightarrow> bool" where
  "reached_ok idx tr es \<longleftrightarrow> length es \<le> MAX_FRONTIER \<and>
     (\<forall>(e, pk) \<in> set es.
        mediated idx tr (tr_min_confidence tr) e pk \<and> e_hop e = 1 \<and> e_from e = seed tr
      \<or> mediated idx tr FULL_CONFIDENCE e pk \<and> (\<exists>(h, _) \<in> set es. carries_on tr h e))"

definition reached_rows :: "(sql_value list list \<Rightarrow> sql_value list list) \<Rightarrow> index \<Rightarrow> traversal \<Rightarrow> sql_value list list" where
  "reached_rows scan idx tr =
     (let queue = remdups (scan (hop_rows idx (fst (first_hop tr)) (snd (first_hop tr) @ snd (snd (snd (fst (first_hop tr))))) []))
      in fill (\<lambda>h. scan (hop_rows idx (fst (further_hop tr)) (snd (further_hop tr) @ snd (snd (snd (fst (further_hop tr))))) [h]))
           MAX_FRONTIER queue queue)"

lemma reached_rows_ok:
  assumes scan: "\<And>xs. set (scan xs) \<subseteq> set xs"
  shows "\<exists>es. reached_rows scan idx tr = map (\<lambda>(e, pk). edge_row e pk) es \<and> reached_ok idx tr es"
proof -
  let ?first = "hop_rows idx (fst (first_hop tr)) (snd (first_hop tr) @ snd (snd (snd (fst (first_hop tr))))) []"
  let ?step = "\<lambda>h. scan (hop_rows idx (fst (further_hop tr)) (snd (further_hop tr) @ snd (snd (snd (fst (further_hop tr))))) [h])"
  let ?q = "remdups (scan ?first)"
  let ?R = "fill ?step MAX_FRONTIER ?q ?q"
  have first: "\<exists>e pk. r = edge_row e pk \<and> mediated idx tr (tr_min_confidence tr) e pk \<and> e_hop e = 1 \<and> e_from e = seed tr" if "r \<in> set ?q" for r
    by (rule first_hop_rows) (use that scan in auto)
  have further: "\<exists>e pk. r = edge_row e pk \<and> mediated idx tr FULL_CONFIDENCE e pk \<and> carries_on tr h e" if "r \<in> set (?step (edge_row h pk'))" for r h pk'
    by (rule further_hop_rows) (use that scan in auto)
  have row: "\<exists>e pk. r = edge_row e pk" if "r \<in> set ?R" for r
  proof (rule fill_all [OF _ _ that])
    show "\<forall>r \<in> set ?q. \<exists>e pk. r = edge_row e pk" using first by meson
    fix h r assume "\<exists>e pk. h = edge_row e pk" and r: "r \<in> set (?step h)"
    then obtain e pk where "h = edge_row e pk" by (elim exE)
    with r have "r \<in> set (?step (edge_row e pk))" by simp
    from further [OF this] show "\<exists>e pk. r = edge_row e pk" by (elim exE conjE) (intro exI)
  qed
  have "\<forall>r \<in> set ?R. \<exists>x. r = (\<lambda>(e, pk). edge_row e pk) x"
  proof
    fix r assume "r \<in> set ?R"
    from row [OF this] obtain e pk where "r = edge_row e pk" by (elim exE)
    then show "\<exists>x. r = (\<lambda>(e, pk). edge_row e pk) x" by (intro exI [of _ "(e, pk)"]) simp
  qed
  then obtain es where es: "?R = map (\<lambda>(e, pk). edge_row e pk) es" unfolding ex_map_conv [symmetric] by (elim exE) (rule that)
  have "mediated idx tr (tr_min_confidence tr) e pk \<and> e_hop e = 1 \<and> e_from e = seed tr
      \<or> mediated idx tr FULL_CONFIDENCE e pk \<and> (\<exists>(h, _) \<in> set es. carries_on tr h e)" if "(e, pk) \<in> set es" for e pk
  proof -
    have inj: "e = e' \<and> pk = pk'" if "edge_row e pk = edge_row e' pk'" for e' pk'
      using that by (cases e; cases e') (simp add: edge_row_def entity_key_eq)
    from that have "edge_row e pk \<in> set ?R" unfolding es by force
    from fill_from [OF this] show ?thesis
    proof
      assume "edge_row e pk \<in> set ?q"
      from first [OF this] inj show ?thesis by blast
    next
      assume "\<exists>h \<in> set ?R. edge_row e pk \<in> set (?step h)"
      then obtain h pk' where h: "(h, pk') \<in> set es" "edge_row e pk \<in> set (?step (edge_row h pk'))"
        unfolding es by auto
      from further [OF h(2)] inj have "mediated idx tr FULL_CONFIDENCE e pk" "carries_on tr h e" by blast+
      with h(1) show ?thesis by blast
    qed
  qed
  moreover have "length es = length ?R" by (simp add: es)
  ultimately have "reached_ok idx tr es" by (auto simp: reached_ok_def length_fill)
  with es show ?thesis unfolding reached_rows_def Let_def by blast
qed

section \<open>The links answered\<close>

definition link_order :: "(edge \<times> nat) \<times> (string \<times> record_row) \<Rightarrow> int \<times> int \<times> int \<times> string \<times> string \<times> string \<times> string" where
  "link_order = (\<lambda>((e, _), (_, row)). (int (e_hop e), - rec_received_ms row, - int (rec_pk row), ek_kind (e_to e), ek_id (e_to e),
     ek_kind (e_from e), ek_id (e_from e)))"

definition linked_answer :: "index \<Rightarrow> traversal \<Rightarrow> (edge \<times> nat) list \<Rightarrow> ((edge \<times> nat) \<times> (string \<times> record_row)) list" where
  "linked_answer idx tr es = page (tr_limit tr) DEFAULT_LINK_LIMIT
     (sort_key link_order (filter (\<lambda>((_, pk), (_, row)). rec_pk row = pk) (List.product es (record_rows idx))))"

lemma term_holes_eq:
  "term_holes (fst (first_hop tr)) = length (snd (first_hop tr) @ snd (snd (snd (fst (first_hop tr)))))"
  "term_holes (fst (further_hop tr)) = length (snd (further_hop tr) @ snd (snd (snd (fst (further_hop tr)))))"
proof -
  have "\<exists>t. joins t ((0, [], [], []), ref) ((0, [], [], []), ref) ([], row)
      \<and> map_of t ''h'' = Some (CteRow (zip REACHED (edge_row h 0)))" for ref row and h :: edge
    by (rule exI [of _ "[(''a'', RefRow ((0, [], [], []), ref)), (''b'', RefRow ((0, [], [], []), ref)), (''rec'', RecordRow ([], row)),
        (''h'', CteRow (zip REACHED (edge_row h 0)))]"]) (simp add: joins_def)
  then obtain t :: joined and ref row and h :: edge where t: "joins t ((0, [], [], []), ref) ((0, [], [], []), ref) ([], row)"
      "map_of t ''h'' = Some (CteRow (zip REACHED (edge_row h 0)))" by blast
  have n: "sum_list (map expr_holes (fst (fst (first_hop tr)))) = length (snd (first_hop tr))"
    "sum_list (map expr_holes (fst (fst (further_hop tr)))) = length (snd (further_hop tr))"
    by (simp_all add: first_hop_def further_hop_def push_degree_def)
  show "term_holes (fst (first_hop tr)) = length (snd (first_hop tr) @ snd (snd (snd (fst (first_hop tr)))))"
    using first_hop_builds [OF t(1), of undefined tr, unfolded fits_all_def, THEN conjunct1] n(1)
    by (simp only: term_holes_def case_prod_unfold length_append)
  show "term_holes (fst (further_hop tr)) = length (snd (further_hop tr) @ snd (snd (snd (fst (further_hop tr)))))"
    using further_hop_builds [OF t, of undefined tr, unfolded fits_all_def, THEN conjunct1] n(2)
    by (simp only: term_holes_def case_prod_unfold length_append)
qed

lemma linked_rows_answer:
  assumes "reached_rows scan idx tr = map (\<lambda>(e, pk). edge_row e pk) es"
  shows "linked_rows scan idx tr select = map (\<lambda>((e, pk), r). butlast (edge_row e pk) @ map (column_of [(''rec'', RecordRow r)]) (columns select))
     (linked_answer idx tr es)"
proof -
  let ?n = "case tr_limit tr of None \<Rightarrow> DEFAULT_LINK_LIMIT | Some n \<Rightarrow> n"
  let ?cols = "map (Pair ''reached'') (butlast REACHED) @ columns select"
  let ?t = "\<lambda>((e, pk), r). [(''reached'', CteRow (zip REACHED (edge_row e pk))), (''rec'', RecordRow r)]"
  let ?q = "\<lambda>((_, pk), (_, row)). rec_pk row = pk"
  let ?rows = "map (\<lambda>(e, pk). edge_row e pk) es"
  let ?xs = "List.product es (record_rows idx)"
  have sql: "linked_rows scan idx tr select
      = map (\<lambda>t. map (column_of t) ?cols) (query_rows idx (with_reached idx ?rows) links_statement [SInt (int ?n)])"
    unfolding linked_rows_def linked_sql_def case_prod_unfold Let_def fst_conv snd_conv assms [unfolded reached_rows_def Let_def, symmetric]
      append_assoc [symmetric] term_holes_eq
    by (simp add: bound_def first_limit_def assms [unfolded reached_rows_def Let_def case_prod_unfold])
  have J: "join_tables (with_reached idx ?rows) (st_from links_statement) = map ?t ?xs"
    by (simp add: links_statement_def join_two with_reached_def product_map case_prod_unfold)
  have c: "column_of (?t ((e, pk), r)) (''reached'', ''hop'') = SInt (int (e_hop e))"
     "column_of (?t ((e, pk), r)) (''reached'', ''to_kind'') = SText (ek_kind (e_to e))"
     "column_of (?t ((e, pk), r)) (''reached'', ''to_id'') = SText (ek_id (e_to e))"
     "column_of (?t ((e, pk), r)) (''reached'', ''from_kind'') = SText (ek_kind (e_from e))"
     "column_of (?t ((e, pk), r)) (''reached'', ''from_id'') = SText (ek_id (e_from e))"
     "column_of (?t ((e, pk), r)) (''reached'', ''record_pk'') = SInt (int pk)"
     "column_of (?t ((e, pk), r)) (''rec'', c) = record_column c r" for e pk r c
    by (simp_all add: REACHED_def edge_row_def)
  have fit: "fits_all idx (?t x) (st_where links_statement) [] (?q x)" for x
    using c(6,7) by (cases x; cases "fst x"; cases "snd x") (simp add: fits_all_def links_statement_def del: column_of_simps)
  have ord: "comes_before (st_order links_statement) (?t x) (?t y) \<longleftrightarrow> link_order x \<le> link_order y" for x y
  proof -
    obtain e pk rid row e' pk' rid' row' where x: "x = ((e, pk), (rid, row))" "y = ((e', pk'), (rid', row'))" by (metis surj_pair)
    show ?thesis unfolding x links_statement_def statement.select_convs link_order_def prod.case
      by (rule precedes_ascending(1), rule precedes_descending, rule precedes_descending, rule precedes_ascending(2),
          rule precedes_ascending(2), rule precedes_ascending(2), rule precedes_final)
        (simp_all add: REACHED_def edge_row_def)
  qed
  have rows: "query_rows idx (with_reached idx ?rows) links_statement [SInt (int ?n)]
      = map ?t (first_rows (SInt (int ?n)) (sort_key link_order (filter ?q ?xs)))"
    using query_rows_over(1) [OF J fit ord, where page = "SInt (int ?n)"] by (simp add: links_statement_def)
  have "map (column_of (?t x)) ?cols = (case x of ((e, pk), r) \<Rightarrow> butlast (edge_row e pk) @ map (column_of [(''rec'', RecordRow r)]) (columns select))" for x
    by (cases x; cases "fst x"; cases select) (simp_all add: REACHED_def edge_row_def)
  then show ?thesis unfolding sql rows linked_answer_def page_def first_rows_nat map_map comp_def
    by (intro map_cong refl) (simp only: case_prod_unfold)
qed

lemma edge_of_row:
  assumes "e_hop e < 2 ^ 32"  "e_degree e < 2 ^ 32"
  shows "edge_of (butlast (edge_row e pk) @ rest) = Ok e"
  using assms by (cases e; cases "e_from e"; cases "e_to e")
    (simp add: edge_of_def edge_row_def get_u32_def get_text_def get_real_def bound_def nat_less_iff)

lemma decoded_links:
  "id_at 7 (butlast (edge_row e pk) @ map (column_of [(''rec'', RecordRow r)]) (columns SelId)) = as_id r"
  "structure_at 7 (butlast (edge_row e pk) @ map (column_of [(''rec'', RecordRow r)]) (columns SelStructure)) = as_structure r"
  by (cases r, simp add: as_id_def id_at_def get_text_def bound_def edge_row_def,
      cases r, simp add: as_structure_def structure_at_def get_text_def get_doc_def bound_def edge_row_def)

lemma busy_exact: "busy idx tr k \<le> tr_max_degree tr \<Longrightarrow> tr_max_degree tr < 2 ^ 32 - 1 \<Longrightarrow> busy idx tr k = references_to idx tr k"
  by (auto simp: busy_def min_def split: if_splits)

lemma busy_u32: "busy idx tr k < 2 ^ 32"
  by (simp add: busy_def)

lemma reached_bounds:
  assumes "reached_ok idx tr es" "(e, pk) \<in> set es"
  shows "e_hop e \<le> max 1 (tr_depth tr)" "e_degree e < 2 ^ 32" "1 \<le> e_hop e"
proof -
  have "e_degree e = busy idx tr (e_to e)" using assms by (auto simp: reached_ok_def mediated_def)
  then show "e_degree e < 2 ^ 32" using busy_u32 by simp
  show "e_hop e \<le> max 1 (tr_depth tr)" "1 \<le> e_hop e"
    using assms by (auto simp: reached_ok_def carries_on_def)
qed

text \<open>Both projections, as the answer decoded.\<close>

lemma linked_decoded:
  assumes "reached_rows scan idx tr = map (\<lambda>(e, pk). edge_row e pk) es" "reached_ok idx tr es" "tr_depth tr < 2 ^ 32"
  shows "linked scan idx tr = try_map (\<lambda>((e, pk), r). and_then (as_id r) (\<lambda>i. Ok (with_via e i))) (linked_answer idx tr es)"
    and "linked_structures scan idx tr = try_map (\<lambda>((e, pk), r). and_then (as_structure r) (\<lambda>s. Ok (with_via e s))) (linked_answer idx tr es)"
proof -
  have b: "e_hop e < 2 ^ 32 \<and> e_degree e < 2 ^ 32" if "((e, pk), r) \<in> set (linked_answer idx tr es)" for e pk r
  proof -
    have "(e, pk) \<in> set es" using that by (auto simp: linked_answer_def dest!: set_page)
    from reached_bounds [OF assms(2) this] assms(3) show ?thesis by (auto simp: max_def split: if_splits)
  qed
  show "linked scan idx tr = try_map (\<lambda>((e, pk), r). and_then (as_id r) (\<lambda>i. Ok (with_via e i))) (linked_answer idx tr es)"
    unfolding linked_def linked_rows_answer [OF assms(1)] try_map_map
    by (rule try_map_agree) (auto simp: edge_of_row decoded_links dest!: b simp del: columns.simps)
  show "linked_structures scan idx tr = try_map (\<lambda>((e, pk), r). and_then (as_structure r) (\<lambda>s. Ok (with_via e s))) (linked_answer idx tr es)"
    unfolding linked_structures_def linked_rows_answer [OF assms(1)] try_map_map
    by (rule try_map_agree) (auto simp: edge_of_row decoded_links dest!: b simp del: columns.simps)
qed

text \<open>The page keeps the nearer edges: whatever an edge of the page carries on from is on it too.\<close>

lemma earlier_in_page:
  assumes "x \<in> set (take n (sort_key k xs))" "y \<in> set xs" "k y < (k x :: 'k :: linorder)"
  shows "y \<in> set (take n (sort_key k xs))"
proof (rule ccontr)
  let ?s = "sort_key k xs"
  assume "y \<notin> set (take n ?s)"
  moreover have "y \<in> set (take n ?s) \<union> set (drop n ?s)"
    using assms(2) unfolding set_append [symmetric] append_take_drop_id by simp
  ultimately have "y \<in> set (drop n ?s)" by blast
  moreover have "sorted (map k (take n ?s @ drop n ?s))" unfolding append_take_drop_id by (rule sorted_sort_key)
  ultimately have "k x \<le> k y" using assms(1) unfolding map_append sorted_append by simp
  with assms(3) show False by simp
qed

lemma answer_has_predecessor:
  assumes "reached_ok idx tr es" "((e, pk), (rid, row)) \<in> set (linked_answer idx tr es)"
  shows "e_hop e = 1 \<and> e_from e = seed tr \<or> (\<exists>h pk' r. ((h, pk'), r) \<in> set (linked_answer idx tr es) \<and> carries_on tr h e)"
proof -
  let ?found = "filter (\<lambda>((_, pk), (_, row)). rec_pk row = pk) (List.product es (record_rows idx))"
  have e: "(e, pk) \<in> set es" "(rid, row) \<in> set (record_rows idx)" using assms(2) by (auto simp: linked_answer_def dest!: set_page)
  show ?thesis
  proof (cases "e_hop e = 1 \<and> e_from e = seed tr")
    case False
    with assms(1) e(1) obtain h pk' where h: "(h, pk') \<in> set es" "carries_on tr h e" by (force simp: reached_ok_def)
    from assms(1) h(1) obtain rid' row' where r: "(rid', row') \<in> set (record_rows idx)" "rec_pk row' = pk'"
      by (force simp: reached_ok_def mediated_def)
    have "link_order ((h, pk'), (rid', row')) < link_order ((e, pk), (rid, row))"
      using h(2) by (simp add: link_order_def carries_on_def)
    moreover have "((h, pk'), (rid', row')) \<in> set ?found" using h(1) r by simp
    ultimately have "((h, pk'), (rid', row')) \<in> set (linked_answer idx tr es)"
      using earlier_in_page [OF assms(2) [unfolded linked_answer_def page_def]] by (simp only: linked_answer_def page_def)
    with h(2) show ?thesis by blast
  qed simp
qed

lemma length_one_row:
  assumes "distinct (map (\<lambda>(_, row). rec_pk row) rows)"
  shows "length (filter (\<lambda>(_, row). rec_pk row = pk) rows) \<le> 1"
  using assms
proof (induction rows)
  case (Cons r rows)
  show ?case
  proof (cases "(case r of (_, row) \<Rightarrow> rec_pk row) = pk")
    case True
    with Cons.prems have "filter (\<lambda>(_, row). rec_pk row = pk) rows = []"
      by (auto simp: filter_empty_conv case_prod_unfold image_iff)
    then show ?thesis by simp
  next
    case False
    with Cons show ?thesis by auto
  qed
qed simp

lemma length_linked_answer:
  assumes "records_ok idx"
  shows "length (linked_answer idx tr es) \<le> length es"
proof -
  have "length (filter (\<lambda>((_, pk), (_, row)). rec_pk row = pk) (List.product es (record_rows idx))) \<le> length es"
  proof (induction es)
    case (Cons x es)
    have "length (filter (\<lambda>(_, row). rec_pk row = snd x) (record_rows idx)) \<le> 1"
      using assms by (intro length_one_row) (simp add: records_ok_def)
    with Cons show ?case by (simp add: filter_map comp_def case_prod_unfold)
  qed simp
  then show ?thesis by (simp add: linked_answer_def page_def)
qed

lemma with_via_simps [simp]: "via (with_via e r) = r" "edge.truncate (with_via e r) = e"
  by (simp_all add: with_via_def edge.defs)

lemma list_all2_both: "list_all2 p xs ys \<Longrightarrow> (\<forall>y \<in> set ys. \<exists>x \<in> set xs. p x y) \<and> (\<forall>x \<in> set xs. \<exists>y \<in> set ys. p x y)"
  by (induction rule: list_all2_induct) auto

text \<open>The answer of the traversal: its rows and the links they decode to.\<close>

lemma linked_structures_elim:
  assumes "index_ok idx" "\<And>xs. set (scan xs) \<subseteq> set xs" "tr_depth tr < 2 ^ 32" "linked_structures scan idx tr = Ok links"
  obtains es where "reached_ok idx tr es" "length links \<le> length es"
    "\<And>l. l \<in> set links \<Longrightarrow> \<exists>e pk rid row. ((e, pk), (rid, row)) \<in> set (linked_answer idx tr es) \<and> l = with_via e (rec_frontmatter row)"
    "\<And>e pk rid row. ((e, pk), (rid, row)) \<in> set (linked_answer idx tr es) \<Longrightarrow> with_via e (rec_frontmatter row) \<in> set links"
proof -
  obtain es where es: "reached_rows scan idx tr = map (\<lambda>(e, pk). edge_row e pk) es" "reached_ok idx tr es"
    using reached_rows_ok [of scan, OF assms(2)] by blast
  from assms(4) have a: "list_all2 (\<lambda>((e, pk), r) l. and_then (as_structure r) (\<lambda>s. Ok (with_via e s)) = Ok l) (linked_answer idx tr es) links"
    unfolding linked_decoded(2) [OF es assms(3)] try_map_Ok_iff by (simp add: case_prod_unfold)
  have s: "as_structure (rid, row) = Ok s \<Longrightarrow> s = rec_frontmatter row" for rid row s
    by (auto simp: as_structure_def stored_structure_def split: if_splits)
  show ?thesis
  proof (rule that [OF es(2)])
    show "length links \<le> length es"
      using list_all2_lengthD [OF a] length_linked_answer [of idx tr es] assms(1) by (simp add: index_ok_def)
    fix l assume l: "l \<in> set links"
    from list_all2_both [OF a, THEN conjunct1, THEN bspec, OF l]
    obtain e pk rid row where "((e, pk), (rid, row)) \<in> set (linked_answer idx tr es)"
      "and_then (as_structure (rid, row)) (\<lambda>s. Ok (with_via e s)) = Ok l" by auto
    then show "\<exists>e pk rid row. ((e, pk), (rid, row)) \<in> set (linked_answer idx tr es) \<and> l = with_via e (rec_frontmatter row)"
      using s by (intro exI conjI) auto
  next
    fix e pk rid row assume x: "((e, pk), (rid, row)) \<in> set (linked_answer idx tr es)"
    from list_all2_both [OF a, THEN conjunct2, THEN bspec, OF x]
    obtain l where "l \<in> set links" "and_then (as_structure (rid, row)) (\<lambda>s. Ok (with_via e s)) = Ok l" by auto
    then show "with_via e (rec_frontmatter row) \<in> set links" using s by auto
  qed
qed

section \<open>What a traversal answers\<close>

text \<open>
  C4: No link is evidence a caller may not read. Each link is made by one record that the scope of the traversal
  admits, the record itself names both ends, with references as sure as asked and the first of them inside the
  window, no link joins an entity to itself, and there are never more links than the frontier.
\<close>

theorem traversal_respects_scope:
  assumes "index_ok idx" "\<And>xs. set (scan xs) \<subseteq> set xs" "tr_depth tr < 2 ^ 32"
    and "linked_structures scan idx tr = Ok links" "l \<in> set links"
  shows "readable (tr_scope tr) (via l) \<and> length links \<le> MAX_FRONTIER
     \<and> (\<exists>rid row bar. (rid, row) \<in> set (record_rows idx) \<and> rec_frontmatter row = via l
         \<and> (bar = tr_min_confidence tr \<or> bar = FULL_CONFIDENCE) \<and> mediated idx tr bar (edge.truncate l) (rec_pk row))"
  using assms(1-4)
proof (rule linked_structures_elim)
  fix es assume es: "reached_ok idx tr es" "length links \<le> length es"
    and "\<And>l. l \<in> set links \<Longrightarrow> \<exists>e pk rid row. ((e, pk), (rid, row)) \<in> set (linked_answer idx tr es) \<and> l = with_via e (rec_frontmatter row)"
  with assms(5) obtain e pk rid row where x: "((e, pk), (rid, row)) \<in> set (linked_answer idx tr es)" "l = with_via e (rec_frontmatter row)" by blast
  then have e: "(e, pk) \<in> set es" "(rid, row) \<in> set (record_rows idx)" "rec_pk row = pk"
    by (auto simp: linked_answer_def dest!: set_page)
  from es(1) e(1) obtain bar where m: "mediated idx tr bar e pk" "bar = tr_min_confidence tr \<or> bar = FULL_CONFIDENCE"
    by (auto simp: reached_ok_def)
  from m(1) obtain rid' row' where r: "(rid', row') \<in> set (record_rows idx)" "rec_pk row' = pk" "readable (tr_scope tr) (rec_frontmatter row')"
    by (auto simp: mediated_def)
  have "inj_on (\<lambda>(_, row). rec_pk row) (set (record_rows idx))" using assms(1) by (simp add: index_ok_def records_ok_def distinct_map)
  from inj_onD [OF this _ e(2) r(1)] have "row' = row" using r(2) e(3) by simp
  with r(3) have "readable (tr_scope tr) (via l)" by (simp add: x(2))
  moreover have "length links \<le> MAX_FRONTIER" using es by (auto simp: reached_ok_def)
  moreover have "mediated idx tr bar (edge.truncate l) (rec_pk row)" "rec_frontmatter row = via l" using m(1) by (simp_all add: x(2) e(3))
  ultimately show ?thesis using e(2) m(2) by blast
qed

text \<open>
  C10: A traversal passes only through corridors. Every link of the answer starts from the entity asked about, or
  carries on from another link of the same answer, one hop nearer, whose own evidence is certain and whose far
  end has no more references in the window than allowed: the index is counted, and the degree the link reports
  is the whole count. No link comes back to where it started, and none goes deeper than asked, except that the
  first hop is always taken, whatever depth was asked for. The bound on references is below the largest \<open>u32\<close>.
\<close>

theorem traversal_follows_corridors:
  assumes "index_ok idx" "\<And>xs. set (scan xs) \<subseteq> set xs" "tr_depth tr < 2 ^ 32"
    and "linked_structures scan idx tr = Ok links" "l \<in> set links" "tr_max_degree tr < 2 ^ 32 - 1"
  shows "1 \<le> e_hop l \<and> e_hop l \<le> max 1 (tr_depth tr) \<and> e_to l \<noteq> seed tr
    \<and> (e_hop l = 1 \<and> e_from l = seed tr
       \<or> (\<exists>h \<in> set links. e_hop l = Suc (e_hop h) \<and> e_from l = e_to h
            \<and> e_degree h = references_to idx tr (e_to h) \<and> references_to idx tr (e_to h) \<le> tr_max_degree tr \<and> f32_le FULL_CONFIDENCE (e_confidence h)))"
  using assms(1-4)
proof (rule linked_structures_elim)
  fix es assume es: "reached_ok idx tr es"
    and l: "\<And>l. l \<in> set links \<Longrightarrow> \<exists>e pk rid row. ((e, pk), (rid, row)) \<in> set (linked_answer idx tr es) \<and> l = with_via e (rec_frontmatter row)"
    and answered: "\<And>e pk rid row. ((e, pk), (rid, row)) \<in> set (linked_answer idx tr es) \<Longrightarrow> with_via e (rec_frontmatter row) \<in> set links"
  from l assms(5) obtain e pk rid row where x: "((e, pk), (rid, row)) \<in> set (linked_answer idx tr es)" "l = with_via e (rec_frontmatter row)" by blast
  then have e: "(e, pk) \<in> set es" by (auto simp: linked_answer_def dest!: set_page)
  have f: "e_hop l = e_hop e" "e_from l = e_from e" "e_to l = e_to e" by (simp_all add: x(2) with_via_def edge.defs)
  have "e_to e \<noteq> seed tr" using es e by (fastforce simp: reached_ok_def mediated_def carries_on_def)
  moreover from answer_has_predecessor [OF es x(1)]
  have "e_hop e = 1 \<and> e_from e = seed tr \<or> (\<exists>h \<in> set links. carries_on tr (edge.truncate h) e)"
    using answered by (metis with_via_simps(2) surj_pair)
  moreover have "e_hop (edge.truncate h) = e_hop h" "e_to (edge.truncate h) = e_to h" "e_degree (edge.truncate h) = e_degree h"
    "e_confidence (edge.truncate h) = e_confidence h" for h :: "record_structure link" by (simp_all add: edge.defs)
  moreover have "e_degree h = references_to idx tr (e_to h)" if h: "h \<in> set links" "e_degree h \<le> tr_max_degree tr" for h
  proof -
    obtain e' pk' rid' row' where x': "((e', pk'), (rid', row')) \<in> set (linked_answer idx tr es)"
      "h = with_via e' (rec_frontmatter row')" using l [OF h(1)] by blast
    then have "(e', pk') \<in> set es" by (auto simp: linked_answer_def dest!: set_page)
    with es have "e_degree e' = busy idx tr (e_to e')" by (auto simp: reached_ok_def mediated_def)
    moreover have "e_degree h = e_degree e'" "e_to h = e_to e'" by (simp_all add: x'(2) with_via_def edge.defs)
    ultimately show ?thesis using busy_exact [OF _ assms(6)] h(2) by simp
  qed
  ultimately show ?thesis using reached_bounds [OF es e] unfolding f carries_on_def by auto
qed

section \<open>The properties at work\<close>

definition pair_record :: action_record where
  "pair_record = sample_record\<lparr>entities := [\<lparr>ent_kind = ''ticket'', ent_id = ''PROJ-42'', ent_role = Primary, ent_confidence = F32 1\<rparr>,
     \<lparr>ent_kind = ''service'', ent_id = ''api'', ent_role = Context, ent_confidence = F32 1\<rparr>]\<rparr>"

definition pair_input :: publish_input where
  "pair_input = \<lparr>pi_record = pair_record, pi_searchable_body = ''shipped'', pi_subject_keys = []\<rparr>"

definition pair_index :: index where
  "pair_index = (case publish sample_clock empty_index pair_input of Ok i \<Rightarrow> i | Err _ \<Rightarrow> empty_index)"

definition around_ticket :: traversal where
  "around_ticket = \<lparr>tr_kind = ''ticket'', tr_id = ''PROJ-42'', tr_depth = 2, tr_window = \<lparr>from_ms = 0, to_ms = 1\<rparr>,
     tr_min_confidence = F32 1, tr_max_degree = CORRIDOR_DEGREE, tr_limit = Some 5, tr_scope = team_reader\<rparr>"

definition ticket_link :: "record_structure link" where
  "ticket_link = with_via \<lparr>e_from = \<lparr>ek_kind = ''ticket'', ek_id = ''PROJ-42''\<rparr>, e_to = \<lparr>ek_kind = ''service'', ek_id = ''api''\<rparr>,
     e_hop = 1, e_confidence = F32 1, e_degree = 1\<rparr> (structure_of pair_record)"

lemma pair_index_ok: "index_ok pair_index"
proof -
  have "is_ok (publish sample_clock empty_index pair_input)" by code_simp
  then have "publish sample_clock empty_index pair_input = Ok pair_index" by (auto simp: is_ok_iff pair_index_def)
  then show ?thesis
    using reachable_index.written [OF reachable_index.fresh index_step.publish_step] reachable_index_ok by blast
qed

lemma ticket_links: "linked_structures (\<lambda>xs. xs) pair_index around_ticket = Ok [ticket_link]"
  by code_simp

theorem traversal_respects_scope_witness:
  "linked_structures (\<lambda>xs. xs) pair_index around_ticket = Ok [ticket_link] \<and> readable (tr_scope around_ticket) (via ticket_link)"
proof -
  have "tr_depth around_ticket < 2 ^ 32" by (simp add: around_ticket_def)
  from traversal_respects_scope [OF pair_index_ok subset_refl this ticket_links, of ticket_link] ticket_links show ?thesis by simp
qed

theorem traversal_follows_corridors_witness:
  "linked_structures (\<lambda>xs. xs) pair_index around_ticket = Ok [ticket_link] \<and> e_to ticket_link \<noteq> seed around_ticket"
proof -
  have "tr_depth around_ticket < 2 ^ 32" "tr_max_degree around_ticket < 2 ^ 32 - 1"
    by (simp_all add: around_ticket_def CORRIDOR_DEGREE_def)
  from traversal_follows_corridors [OF pair_index_ok subset_refl this(1) ticket_links _ this(2), of ticket_link] ticket_links
  show ?thesis by simp
qed

end
