(* ===== verification/Spec2Isabelle.thy ===== *)
theory Spec2Isabelle
  imports Rust_Std Timestamp Contract_Error Ids Spec_Yaml Entity Action_Record Attrs
    Mask Extract Index Crypto_Error Epoch Subject_Key
    Random_Bytes Wrapper Key_Store Seal Rust_Text Sealed_Block Core_Error Layout
    Subject_Writes Resolve Frontmatter Document Wikilink Intake Pipeline
    Vault Hold Retain Erase Reindex Erasure Fanout Utf8 Unseal Spool Sql Query Linked
begin

text \<open>
  A model of the append-only activity store \<open>yaam\<close>.
\<close>

end
